(* ===== verification/Prelude.thy ===== *)
theory Prelude
  imports Main "HOL-Library.Multiset" "HOL-Library.Sublist" "HOL-Library.Char_ord" "HOL-Library.List_Lexorder"
begin

text \<open>
  Shared vocabulary of the development.

  \<^item> A Rust \<open>String\<close>, \<open>&str\<close> or \<open>Vec<u8>\<close> is a \<open>string\<close>, a list of 8-bit \<open>char\<close>s: the bytes of
    the text in UTF-8. \<open>len()\<close> is \<open>length\<close>, \<open>as_bytes()\<close> the identity, and a search for an ASCII
    character is a search for its byte. Operations that look at Unicode characters (\<open>trim\<close>,
    \<open>split_whitespace\<close>, \<open>char::is_control\<close>) recognise the UTF-8 encodings of the characters
    concerned.
  \<^item> The machine integers of the code are \<open>nat\<close> or \<open>int\<close> with the saturating operations written
    out here; address words and the hash are \<open>word\<close>s in their own theories.
  \<^item> \<open>Result<T, E>\<close> is \<open>'e + 'a\<close> with \<open>Inl\<close> the error.

  The collection \<open>byte_simps\<close> gathers the facts on bytes that the component proofs share.
\<close>

named_theorems byte_simps \<open>facts about single bytes and byte classes\<close>

type_synonym bytes = string
type_synonym ('e, 'a) result = "'e + 'a"

abbreviation CR :: char where "CR \<equiv> CHR 0x0D"
abbreviation LF :: char where "LF \<equiv> CHR 0x0A"
abbreviation NUL :: char where "NUL \<equiv> CHR 0x00"
abbreviation SP :: char where "SP \<equiv> CHR 0x20"
abbreviation HT :: char where "HT \<equiv> CHR 0x09"
abbreviation CRLF :: string where "CRLF \<equiv> [CR, LF]"

abbreviation ord :: "char \<Rightarrow> nat" where "ord c \<equiv> of_char c"

section \<open>Byte classes and ASCII case\<close>

definition is_ascii_digit :: "char \<Rightarrow> bool" where
  "is_ascii_digit c \<longleftrightarrow> 48 \<le> ord c \<and> ord c \<le> 57"

definition is_ascii_upper :: "char \<Rightarrow> bool" where
  "is_ascii_upper c \<longleftrightarrow> 65 \<le> ord c \<and> ord c \<le> 90"

definition is_ascii_lower :: "char \<Rightarrow> bool" where
  "is_ascii_lower c \<longleftrightarrow> 97 \<le> ord c \<and> ord c \<le> 122"

definition is_ascii_alphanumeric :: "char \<Rightarrow> bool" where
  "is_ascii_alphanumeric c \<longleftrightarrow> is_ascii_digit c \<or> is_ascii_upper c \<or> is_ascii_lower c"

definition is_ascii_graphic :: "char \<Rightarrow> bool" where
  "is_ascii_graphic c \<longleftrightarrow> 33 \<le> ord c \<and> ord c \<le> 126"

definition ascii_lower :: "char \<Rightarrow> char" where
  "ascii_lower c = (if is_ascii_upper c then char_of (ord c + 32) else c)"

definition ascii_upper :: "char \<Rightarrow> char" where
  "ascii_upper c = (if is_ascii_lower c then char_of (ord c - 32) else c)"

definition to_ascii_lowercase :: "string \<Rightarrow> string" where
  "to_ascii_lowercase = map ascii_lower"

definition to_ascii_uppercase :: "string \<Rightarrow> string" where
  "to_ascii_uppercase = map ascii_upper"

definition eq_ignore_ascii_case :: "string \<Rightarrow> string \<Rightarrow> bool" where
  "eq_ignore_ascii_case s t \<longleftrightarrow> to_ascii_lowercase s = to_ascii_lowercase t"

lemma ord_eq_iff [byte_simps]: "ord c = ord d \<longleftrightarrow> c = d"
  by simp

lemma ord_char_of [byte_simps]: "n < 256 \<Longrightarrow> ord (char_of n) = n"
  by simp

lemma ascii_lower_idem [simp]: "ascii_lower (ascii_lower c) = ascii_lower c"
  by (auto simp: ascii_lower_def is_ascii_upper_def)

lemma ascii_upper_idem [simp]: "ascii_upper (ascii_upper c) = ascii_upper c"
  by (auto simp: ascii_upper_def is_ascii_lower_def)

lemma ascii_lower_upper [simp]: "ascii_lower (ascii_upper c) = ascii_lower c"
  by (auto simp: ascii_lower_def ascii_upper_def is_ascii_upper_def is_ascii_lower_def)

lemma ascii_upper_lower [simp]: "ascii_upper (ascii_lower c) = ascii_upper c"
  by (auto simp: ascii_lower_def ascii_upper_def is_ascii_upper_def is_ascii_lower_def)

lemma to_ascii_lowercase_idem [simp]:
  "to_ascii_lowercase (to_ascii_lowercase s) = to_ascii_lowercase s"
  by (simp add: to_ascii_lowercase_def)

lemma to_ascii_lowercase_Nil [simp]: "to_ascii_lowercase s = [] \<longleftrightarrow> s = []"
  by (simp add: to_ascii_lowercase_def)

lemma length_to_ascii_lowercase [simp]: "length (to_ascii_lowercase s) = length s"
  by (simp add: to_ascii_lowercase_def)

lemma to_ascii_lowercase_append:
  "to_ascii_lowercase (s @ t) = to_ascii_lowercase s @ to_ascii_lowercase t"
  by (simp add: to_ascii_lowercase_def)

text \<open>Lower-casing moves no byte into or out of a class that contains no letter.\<close>

lemma ascii_lower_eq_nonletter [byte_simps]:
  "\<not> is_ascii_upper x \<Longrightarrow> \<not> is_ascii_lower x \<Longrightarrow> ascii_lower c = x \<longleftrightarrow> c = x"
  by (auto simp: ascii_lower_def is_ascii_upper_def is_ascii_lower_def)

section \<open>Splitting at a byte\<close>

fun split_once :: "char \<Rightarrow> string \<Rightarrow> (string \<times> string) option" where
  "split_once d [] = None"
| "split_once d (c # cs) =
     (if c = d then Some ([], cs)
      else map_option (\<lambda>(a, b). (c # a, b)) (split_once d cs))"

fun rsplit_once :: "char \<Rightarrow> string \<Rightarrow> (string \<times> string) option" where
  "rsplit_once d [] = None"
| "rsplit_once d (c # cs) =
     (case rsplit_once d cs of
        Some (a, b) \<Rightarrow> Some (c # a, b)
      | None \<Rightarrow> if c = d then Some ([], cs) else None)"

text \<open>\<open>str::split(char)\<close>: one more piece than separators.\<close>

fun split_on :: "char \<Rightarrow> string \<Rightarrow> string list" where
  "split_on d [] = [[]]"
| "split_on d (c # cs) =
     (if c = d then [] # split_on d cs
      else (case split_on d cs of [] \<Rightarrow> [[c]] | p # ps \<Rightarrow> (c # p) # ps))"

fun join :: "string \<Rightarrow> string list \<Rightarrow> string" where
  "join sep [] = []"
| "join sep [x] = x"
| "join sep (x # y # ys) = x @ sep @ join sep (y # ys)"

lemma split_once_Some:
  "split_once d s = Some (a, b) \<longleftrightarrow> s = a @ d # b \<and> d \<notin> set a"
proof (induction s arbitrary: a)
  case (Cons c cs)
  then show ?case by (cases a) auto
qed simp

lemma split_once_None: "split_once d s = None \<longleftrightarrow> d \<notin> set s"
  by (induction s) auto

lemma rsplit_once_None: "rsplit_once d s = None \<longleftrightarrow> d \<notin> set s"
  by (induction s) (auto split: option.splits)

lemma rsplit_once_Some:
  "rsplit_once d s = Some (a, b) \<longleftrightarrow> s = a @ d # b \<and> d \<notin> set b"
proof (induction s arbitrary: a b)
  case (Cons c cs)
  show ?case
  proof (cases "rsplit_once d cs")
    case None
    then have "d \<notin> set cs" by (simp add: rsplit_once_None)
    with None show ?thesis by (cases a) auto
  next
    case (Some p)
    obtain a' b' where p: "p = (a', b')" by (cases p)
    with Some have "cs = a' @ d # b'" by (simp add: Cons.IH)
    then have "d \<in> set cs" by simp
    with Some p show ?thesis by (cases a) (auto simp: Cons.IH [symmetric])
  qed
qed simp

lemma split_on_not_Nil [simp]: "split_on d s \<noteq> []"
  by (cases s) (auto split: list.splits)

lemma split_on_no_sep [simp]: "d \<notin> set s \<Longrightarrow> split_on d s = [s]"
  by (induction s) auto

lemma split_on_append_sep:
  "d \<notin> set a \<Longrightarrow> split_on d (a @ d # b) = a # split_on d b"
  by (induction a) auto

lemma split_on_pieces: "p \<in> set (split_on d s) \<Longrightarrow> d \<notin> set p"
  by (induction s arbitrary: p) (auto split: if_splits list.splits)

lemma set_split_on_subset: "p \<in> set (split_on d s) \<Longrightarrow> set p \<subseteq> set s"
  by (induction s arbitrary: p) (fastforce split: if_splits list.splits)+

lemma join_split_on: "join [d] (split_on d s) = s"
proof (induction s)
  case (Cons c cs)
  obtain p ps where ps: "split_on d cs = p # ps" by (cases "split_on d cs") auto
  with Cons show ?case by (cases ps) auto
qed simp

lemma set_join: "set (join sep xs) \<subseteq> (\<Union>x\<in>set xs. set x) \<union> set sep"
  by (induction sep xs rule: join.induct) auto

section \<open>Unicode classes on UTF-8 bytes\<close>

text \<open>
  \<open>char::is_whitespace\<close> holds of the six ASCII spaces and of the characters whose encodings
  \<open>wide_spaces\<close> lists (U+0085, U+00A0, U+1680, U+2000 to U+200A, U+2028, U+2029, U+202F,
  U+205F, U+3000). \<open>char::is_control\<close> holds of U+0000 to U+001F, U+007F and U+0080 to U+009F.
  UTF-8 is self-synchronising: in a valid string such an encoding occurs at a byte position
  exactly when the character occurs there.
\<close>

definition ascii_space :: "char \<Rightarrow> bool" where
  "ascii_space c \<longleftrightarrow> c \<in> {HT, LF, CHR 0x0B, CHR 0x0C, CR, SP}"

definition wide_spaces :: "string list" where
  "wide_spaces =
     [[CHR 0xC2, CHR 0x85], [CHR 0xC2, CHR 0xA0], [CHR 0xE1, CHR 0x9A, CHR 0x80],
      [CHR 0xE2, CHR 0x80, CHR 0x80], [CHR 0xE2, CHR 0x80, CHR 0x81],
      [CHR 0xE2, CHR 0x80, CHR 0x82], [CHR 0xE2, CHR 0x80, CHR 0x83],
      [CHR 0xE2, CHR 0x80, CHR 0x84], [CHR 0xE2, CHR 0x80, CHR 0x85],
      [CHR 0xE2, CHR 0x80, CHR 0x86], [CHR 0xE2, CHR 0x80, CHR 0x87],
      [CHR 0xE2, CHR 0x80, CHR 0x88], [CHR 0xE2, CHR 0x80, CHR 0x89],
      [CHR 0xE2, CHR 0x80, CHR 0x8A], [CHR 0xE2, CHR 0x80, CHR 0xA8],
      [CHR 0xE2, CHR 0x80, CHR 0xA9], [CHR 0xE2, CHR 0x80, CHR 0xAF],
      [CHR 0xE2, CHR 0x81, CHR 0x9F], [CHR 0xE3, CHR 0x80, CHR 0x80]]"

text \<open>The byte length of the whitespace character a string starts or ends with, 0 for none.\<close>

definition ws_head :: "string \<Rightarrow> nat" where
  "ws_head s =
     (case s of
        [] \<Rightarrow> 0
      | c # _ \<Rightarrow>
          if ascii_space c then 1
          else if ord c < 128 then 0
          else (case find (\<lambda>w. prefix w s) wide_spaces of None \<Rightarrow> 0 | Some w \<Rightarrow> length w))"

definition ws_last :: "string \<Rightarrow> nat" where
  "ws_last s =
     (case rev s of
        [] \<Rightarrow> 0
      | c # _ \<Rightarrow>
          if ascii_space c then 1
          else if ord c < 128 then 0
          else (case find (\<lambda>w. suffix w s) wide_spaces of None \<Rightarrow> 0 | Some w \<Rightarrow> length w))"

lemma ws_head_le: "ws_head s \<le> length s"
  by (auto simp: ws_head_def find_Some_iff dest: prefix_length_le split: list.splits option.splits)

lemma ws_last_le: "ws_last s \<le> length s"
proof (cases s rule: rev_cases)
  case (snoc ys y)
  then show ?thesis
    by (auto simp: ws_last_def find_Some_iff dest: suffix_length_le split: option.splits)
qed (simp add: ws_last_def)

function trim_start :: "string \<Rightarrow> string" where
  "trim_start s = (if ws_head s = 0 then s else trim_start (drop (ws_head s) s))"
  by pat_completeness auto
termination
proof (relation "measure length")
  fix s :: string
  assume "ws_head s \<noteq> 0"
  then show "(drop (ws_head s) s, s) \<in> measure length"
    using ws_head_le [of s] by auto
qed simp

function trim_end :: "string \<Rightarrow> string" where
  "trim_end s =
     (if ws_last s = 0 then s else trim_end (take (length s - ws_last s) s))"
  by pat_completeness auto
termination
proof (relation "measure length")
  fix s :: string
  assume "ws_last s \<noteq> 0"
  then show "(take (length s - ws_last s) s, s) \<in> measure length"
    using ws_last_le [of s] by auto
qed simp

declare trim_start.simps [simp del] trim_end.simps [simp del]

definition trim :: "string \<Rightarrow> string" where
  "trim s = trim_end (trim_start s)"

text \<open>\<open>str::split_whitespace\<close>: the maximal runs without a whitespace character.\<close>

function take_word :: "string \<Rightarrow> string \<times> string" where
  "take_word s =
     (if s = [] \<or> ws_head s > 0 then ([], s)
      else (let (w, r) = take_word (tl s) in (hd s # w, r)))"
  by pat_completeness auto
termination by (relation "measure length") auto

declare take_word.simps [simp del]

lemma take_word_append: "take_word s = (w, r) \<Longrightarrow> s = w @ r"
proof (induction s arbitrary: w r rule: take_word.induct)
  case (1 s)
  show ?case
  proof (cases "s = [] \<or> ws_head s > 0")
    case True
    with "1.prems" show ?thesis by (simp add: take_word.simps [of s])
  next
    case False
    obtain w' r' where wr: "take_word (tl s) = (w', r')" by (cases "take_word (tl s)")
    with "1.prems" False have "w = hd s # w'" "r = r'"
      by (auto simp: take_word.simps [of s])
    with "1.IH" [OF False wr] False show ?thesis by (cases s) auto
  qed
qed

lemma trim_start_suffix: "suffix (trim_start s) s"
proof (induction s rule: trim_start.induct)
  case (1 s)
  then show ?case
    by (subst trim_start.simps) (auto intro: suffix_order.trans [OF _ suffix_drop])
qed

lemma trim_end_prefix: "prefix (trim_end s) s"
proof (induction s rule: trim_end.induct)
  case (1 s)
  then show ?case
    by (subst trim_end.simps) (auto intro: prefix_order.trans [OF _ take_is_prefix])
qed

lemma length_trim_start: "length (trim_start s) \<le> length s"
  using trim_start_suffix by (rule suffix_length_le)

lemma set_trim: "set (trim s) \<subseteq> set s"
  unfolding trim_def
  using set_mono_prefix [OF trim_end_prefix] set_mono_suffix [OF trim_start_suffix] by blast

lemma length_trim: "length (trim s) \<le> length s"
  unfolding trim_def
  using prefix_length_le [OF trim_end_prefix] length_trim_start le_trans by blast

lemma ws_head_trim_start [simp]: "ws_head (trim_start s) = 0"
proof (induction s rule: trim_start.induct)
  case (1 s)
  then show ?case by (cases "ws_head s = 0") (simp_all add: trim_start.simps [of s])
qed

lemma split_whitespace_decreases:
  assumes t: "t = trim_start s" and ne: "t \<noteq> []" and wr: "take_word t = (w, r)"
  shows "length r < length s"
proof -
  have "ws_head t = 0" using t by simp
  with wr ne have "w \<noteq> []" by (auto simp: take_word.simps [of t] split: prod.splits)
  with take_word_append [OF wr] have "length r < length t" by (cases w) auto
  also have "length t \<le> length s" unfolding t by (rule length_trim_start)
  finally show ?thesis .
qed

function split_whitespace :: "string \<Rightarrow> string list" where
  "split_whitespace s =
     (let t = trim_start s in
      if t = [] then [] else (let (w, r) = take_word t in w # split_whitespace r))"
  by pat_completeness auto
termination
proof (relation "measure length")
  fix s t p w r
  assume t: "t = trim_start s" and ne: "t \<noteq> []" and p: "p = take_word t" and wr: "(w, r) = p"
  show "(r, s) \<in> measure length"
    using split_whitespace_decreases [OF t ne, of w r] p wr by simp
qed simp

declare split_whitespace.simps [simp del]

text \<open>A byte position that starts a control character.\<close>

definition is_ascii_control :: "char \<Rightarrow> bool" where
  "is_ascii_control c \<longleftrightarrow> ord c < 32 \<or> ord c = 127"

fun control_head :: "string \<Rightarrow> bool" where
  "control_head [] = False"
| "control_head [c] = is_ascii_control c"
| "control_head (c # d # cs) =
     (is_ascii_control c \<or> ord c = 0xC2 \<and> 0x80 \<le> ord d \<and> ord d \<le> 0x9F)"

fun any_tail :: "(string \<Rightarrow> bool) \<Rightarrow> string \<Rightarrow> bool" where
  "any_tail P [] = False"
| "any_tail P (c # cs) = (P (c # cs) \<or> any_tail P cs)"

definition has_control :: "string \<Rightarrow> bool" where
  "has_control = any_tail control_head"

definition has_whitespace :: "string \<Rightarrow> bool" where
  "has_whitespace = any_tail (\<lambda>t. ws_head t > 0)"

text \<open>\<open>chars().map(|c| if c.is_control() { ' ' } else { c })\<close>: a two-byte control becomes one space.\<close>

fun blank_control :: "string \<Rightarrow> string" where
  "blank_control [] = []"
| "blank_control [c] = [if is_ascii_control c then SP else c]"
| "blank_control (c # d # cs) =
     (if is_ascii_control c then SP # blank_control (d # cs)
      else if ord c = 0xC2 \<and> 0x80 \<le> ord d \<and> ord d \<le> 0x9F then SP # blank_control cs
      else c # blank_control (d # cs))"

lemma control_head_ascii: "is_ascii_control c \<Longrightarrow> control_head (c # cs)"
  by (cases cs) auto

lemma has_control_memI: "c \<in> set s \<Longrightarrow> is_ascii_control c \<Longrightarrow> has_control s"
proof (induction s)
  case (Cons d ds)
  then show ?case by (auto simp: has_control_def control_head_ascii)
qed simp

lemma has_whitespace_memI: "c \<in> set s \<Longrightarrow> ascii_space c \<Longrightarrow> has_whitespace s"
  by (induction s) (auto simp: has_whitespace_def ws_head_def)

lemma not_control_SP [simp]: "\<not> is_ascii_control SP"
  by (simp add: is_ascii_control_def)

lemma control_bytes [simp]:
  "is_ascii_control CR" "is_ascii_control LF" "is_ascii_control NUL" "is_ascii_control HT"
  by (simp_all add: is_ascii_control_def)

lemma blank_control_no_control: "list_all (\<lambda>c. \<not> is_ascii_control c) (blank_control s)"
  by (induction s rule: blank_control.induct) simp_all

lemma blank_control_set: "c \<in> set (blank_control s) \<Longrightarrow> \<not> is_ascii_control c"
  using blank_control_no_control [of s] by (simp add: list_all_iff)

lemma blank_control_clean:
  "LF \<notin> set (blank_control s)" "CR \<notin> set (blank_control s)" "NUL \<notin> set (blank_control s)"
  using blank_control_set control_bytes by blast+

lemma length_blank_control: "length (blank_control s) \<le> length s"
  by (induction s rule: blank_control.induct) auto

text \<open>\<open>std::str::from_utf8\<close> accepts exactly the byte strings of this shape.\<close>

definition cont_byte :: "char \<Rightarrow> bool" where
  "cont_byte c \<longleftrightarrow> 0x80 \<le> ord c \<and> ord c \<le> 0xBF"

fun valid_utf8 :: "string \<Rightarrow> bool" where
  "valid_utf8 [] = True"
| "valid_utf8 (a # s) =
     (if ord a < 0x80 then valid_utf8 s
      else (case s of
          [] \<Rightarrow> False
        | b # t \<Rightarrow>
            if 0xC2 \<le> ord a \<and> ord a \<le> 0xDF then cont_byte b \<and> valid_utf8 t
            else (case t of
                [] \<Rightarrow> False
              | c # u \<Rightarrow>
                  if 0xE0 \<le> ord a \<and> ord a \<le> 0xEF then
                    cont_byte b \<and> cont_byte c \<and>
                    (ord a = 0xE0 \<longrightarrow> 0xA0 \<le> ord b) \<and> (ord a = 0xED \<longrightarrow> ord b \<le> 0x9F) \<and>
                    valid_utf8 u
                  else (case u of
                      [] \<Rightarrow> False
                    | d # v \<Rightarrow>
                        0xF0 \<le> ord a \<and> ord a \<le> 0xF4 \<and>
                        cont_byte b \<and> cont_byte c \<and> cont_byte d \<and>
                        (ord a = 0xF0 \<longrightarrow> 0x90 \<le> ord b) \<and> (ord a = 0xF4 \<longrightarrow> ord b \<le> 0x8F) \<and>
                        valid_utf8 v))))"

lemma valid_utf8_ascii: "(\<And>c. c \<in> set s \<Longrightarrow> ord c < 128) \<Longrightarrow> valid_utf8 s"
  by (induction s) auto

lemma valid_utf8_append: "valid_utf8 x \<Longrightarrow> valid_utf8 (x @ y) \<longleftrightarrow> valid_utf8 y"
proof (induction x rule: valid_utf8.induct)
  case (2 a s)
  show ?case
  proof (cases "ord a < 128")
    case True
    with 2 show ?thesis by simp
  next
    case hi: False
    with "2.prems" obtain b t where s: "s = b # t" by (auto split: list.splits)
    show ?thesis
    proof (cases "0xC2 \<le> ord a \<and> ord a \<le> 0xDF")
      case True
      with hi s "2.prems" "2.IH"(2) [OF hi s True] show ?thesis by auto
    next
      case no2: False
      with "2.prems" hi s obtain c u where t: "t = c # u" by (auto split: list.splits)
      show ?thesis
      proof (cases "0xE0 \<le> ord a \<and> ord a \<le> 0xEF")
        case True
        with hi s t no2 "2.prems" "2.IH"(3) [OF hi s no2 t True] show ?thesis by auto
      next
        case no3: False
        with "2.prems" hi s t no2 obtain d v where u: "u = d # v" by (auto split: list.splits)
        with hi s t no2 no3 "2.prems" "2.IH"(4) [OF hi s no2 t no3 u] show ?thesis by auto
      qed
    qed
  qed
qed simp

lemma valid_utf8_lead: "valid_utf8 (a # s) \<Longrightarrow> \<not> cont_byte a"
  by (auto simp: cont_byte_def split: list.splits if_splits)

lemma valid_utf8_2nd: "valid_utf8 (a # s) \<Longrightarrow> \<not> ord a < 128 \<Longrightarrow> s \<noteq> [] \<and> cont_byte (hd s)"
  by (cases s) (simp_all split: list.splits if_splits)

lemma valid_utf8_3rd:
  "valid_utf8 (a # b # s) \<Longrightarrow> \<not> ord a < 128 \<Longrightarrow> \<not> (0xC2 \<le> ord a \<and> ord a \<le> 0xDF) \<Longrightarrow>
   s \<noteq> [] \<and> cont_byte (hd s)"
  by (cases s) (simp_all split: list.splits if_splits)

lemma valid_utf8_4th:
  "valid_utf8 (a # b # c # s) \<Longrightarrow> \<not> ord a < 128 \<Longrightarrow> \<not> (0xC2 \<le> ord a \<and> ord a \<le> 0xDF) \<Longrightarrow>
   \<not> (0xE0 \<le> ord a \<and> ord a \<le> 0xEF) \<Longrightarrow> s \<noteq> [] \<and> cont_byte (hd s)"
  by (cases s) (simp_all split: list.splits if_splits)

lemma ascii_not_cont: "ord c < 128 \<Longrightarrow> \<not> cont_byte c"
  by (simp add: cont_byte_def)

text \<open>A valid string can be cut before any byte that is not a continuation byte.\<close>

lemma valid_utf8_cut:
  "valid_utf8 (x @ y) \<Longrightarrow> y = [] \<or> \<not> cont_byte (hd y) \<Longrightarrow> valid_utf8 x \<and> valid_utf8 y"
proof (induction x rule: valid_utf8.induct)
  case (2 a s)
  show ?case
  proof (cases "ord a < 128")
    case True
    with "2.prems" "2.IH"(1) show ?thesis by simp
  next
    case hi: False
    have y: "\<not> (y \<noteq> [] \<and> cont_byte (hd y))" using "2.prems"(2) by auto
    have "s \<noteq> []" using valid_utf8_2nd [of a "s @ y"] "2.prems"(1) hi y by auto
    then obtain b t where s: "s = b # t" by (cases s) auto
    show ?thesis
    proof (cases "0xC2 \<le> ord a \<and> ord a \<le> 0xDF")
      case True
      with hi s "2.prems" "2.IH"(2) [OF hi s True] show ?thesis by auto
    next
      case no2: False
      have "t \<noteq> []" using valid_utf8_3rd [of a b "t @ y"] "2.prems"(1) hi y s no2 by auto
      then obtain c u where t: "t = c # u" by (cases t) auto
      show ?thesis
      proof (cases "0xE0 \<le> ord a \<and> ord a \<le> 0xEF")
        case True
        with hi s t no2 "2.prems" "2.IH"(3) [OF hi s no2 t True] show ?thesis by auto
      next
        case no3: False
        have "u \<noteq> []"
          using valid_utf8_4th [of a b c "u @ y"] "2.prems"(1) hi y s t no2 no3 by auto
        then obtain d v where u: "u = d # v" by (cases u) auto
        have "valid_utf8 (v @ y)" using "2.prems"(1) hi s t u no2 no3 by simp
        then have "valid_utf8 v" "valid_utf8 y"
          using "2.IH"(4) [OF hi s no2 t no3 u] "2.prems"(2) by auto
        then show ?thesis using "2.prems"(1) hi s t u no2 no3 by simp
      qed
    qed
  qed
qed simp

lemma valid_utf8_at_ascii:
  assumes "valid_utf8 (x @ c # y)" and "ord c < 128"
  shows "valid_utf8 x \<and> valid_utf8 y"
  using valid_utf8_cut [OF assms(1)] assms(2) ascii_not_cont by auto

lemma wide_spaces_valid: "w \<in> set wide_spaces \<Longrightarrow> valid_utf8 w"
  unfolding wide_spaces_def by (auto simp: cont_byte_def)

lemma find_SomeD2: "find P xs = Some x \<Longrightarrow> x \<in> set xs \<and> P x"
  by (auto simp: find_Some_iff)

lemma ws_head_valid:
  assumes "ws_head s \<noteq> 0"
  shows "valid_utf8 (take (ws_head s) s)"
proof -
  obtain c cs where s: "s = c # cs" using assms by (cases s) (auto simp: ws_head_def)
  show ?thesis
  proof (cases "ascii_space c")
    case True
    then show ?thesis by (auto simp: ws_head_def s ascii_space_def)
  next
    case False
    with assms s obtain w where w: "find (\<lambda>w. prefix w s) wide_spaces = Some w" "ws_head s = length w"
      by (auto simp: ws_head_def split: if_splits option.splits)
    then have "w \<in> set wide_spaces" "prefix w s" by (auto dest: find_SomeD2)
    with w show ?thesis using wide_spaces_valid by (auto simp: prefix_def)
  qed
qed

lemma valid_utf8_trim_start: "valid_utf8 s \<Longrightarrow> valid_utf8 (trim_start s)"
proof (induction s rule: trim_start.induct)
  case (1 s)
  show ?case
  proof (cases "ws_head s = 0")
    case True
    with 1 show ?thesis by (simp add: trim_start.simps [of s])
  next
    case False
    then have "valid_utf8 (take (ws_head s) s)" by (rule ws_head_valid)
    then have "valid_utf8 (drop (ws_head s) s)"
      using valid_utf8_append [of "take (ws_head s) s" "drop (ws_head s) s"] "1.prems" by simp
    with False "1.IH" show ?thesis by (simp add: trim_start.simps [of s])
  qed
qed

text \<open>ASCII case changes none of the classes: only letters move, and no class contains one.\<close>

lemma ord_ascii_lower: "ord (ascii_lower c) = (if is_ascii_upper c then ord c + 32 else ord c)"
  by (auto simp: ascii_lower_def is_ascii_upper_def)

lemma is_ascii_control_lower [simp]: "is_ascii_control (ascii_lower c) = is_ascii_control c"
  by (auto simp: is_ascii_control_def ord_ascii_lower is_ascii_upper_def)

lemma ascii_space_lower [simp]: "ascii_space (ascii_lower c) = ascii_space c"
  by (auto simp: ascii_space_def ascii_lower_eq_nonletter is_ascii_upper_def is_ascii_lower_def)

lemma ord_lower_hi_eq: "128 \<le> n \<Longrightarrow> ord (ascii_lower c) = n \<longleftrightarrow> ord c = n"
  by (auto simp: ord_ascii_lower is_ascii_upper_def)

lemma ord_lower_ge: "128 \<le> ord (ascii_lower c) \<longleftrightarrow> 128 \<le> ord c"
  by (auto simp: ord_ascii_lower is_ascii_upper_def)

lemma ord_lower_le: "159 \<le> n \<Longrightarrow> ord (ascii_lower c) \<le> n \<longleftrightarrow> ord c \<le> n"
  by (auto simp: ord_ascii_lower is_ascii_upper_def)

lemma control_head_lower [simp]: "control_head (map ascii_lower s) = control_head s"
  by (cases s rule: control_head.cases)
     (simp_all add: ord_lower_hi_eq ord_lower_ge ord_lower_le)

lemma any_tail_map:
  assumes "\<And>t. P (map f t) = P t"
  shows "any_tail P (map f s) = any_tail P s"
proof (induction s)
  case (Cons c s)
  then show ?case using assms [of "c # s"] by simp
qed simp

lemma has_control_lower: "has_control (to_ascii_lowercase s) = has_control s"
  by (simp add: has_control_def to_ascii_lowercase_def any_tail_map)

lemma prefix_lower_hi:
  "(\<And>c. c \<in> set w \<Longrightarrow> 128 \<le> ord c) \<Longrightarrow> prefix w (map ascii_lower s) = prefix w s"
proof (induction w arbitrary: s)
  case (Cons x w)
  have "128 \<le> ord x" using Cons.prems by simp
  then have "ascii_lower d = x \<longleftrightarrow> d = x" for d
    by (intro ascii_lower_eq_nonletter) (auto simp: is_ascii_upper_def is_ascii_lower_def)
  then have "x = ascii_lower d \<longleftrightarrow> x = d" for d by metis
  with Cons show ?case by (cases s) simp_all
qed simp

lemma wide_spaces_hi: "w \<in> set wide_spaces \<Longrightarrow> c \<in> set w \<Longrightarrow> 128 \<le> ord c"
  unfolding wide_spaces_def by auto

lemma ws_head_lower: "ws_head (map ascii_lower s) = ws_head s"
proof -
  have "find (\<lambda>w. prefix w (map ascii_lower s)) wide_spaces = find (\<lambda>w. prefix w s) wide_spaces"
    by (rule find_cong) (auto simp: prefix_lower_hi wide_spaces_hi)
  then show ?thesis
    by (auto simp: ws_head_def ord_ascii_lower is_ascii_upper_def split: list.splits)
qed

lemma has_whitespace_lower: "has_whitespace (to_ascii_lowercase s) = has_whitespace s"
  by (simp add: has_whitespace_def to_ascii_lowercase_def any_tail_map ws_head_lower)

lemma cont_byte_lower [simp]: "cont_byte (ascii_lower c) = cont_byte c"
  by (auto simp: cont_byte_def ord_ascii_lower is_ascii_upper_def)

lemma ord_lower_hi: "128 \<le> ord c \<Longrightarrow> ord (ascii_lower c) = ord c"
  by (simp add: ord_ascii_lower is_ascii_upper_def)

lemma ord_lower_lo: "ord (ascii_lower c) < 128 \<longleftrightarrow> ord c < 128"
  by (auto simp: ord_ascii_lower is_ascii_upper_def)

lemma ascii_lower_hi: "128 \<le> ord c \<Longrightarrow> ascii_lower c = c"
  by (simp add: ascii_lower_def is_ascii_upper_def)

lemma valid_utf8_lower: "valid_utf8 (map ascii_lower s) = valid_utf8 s"
proof (induction s rule: valid_utf8.induct)
  case (2 a s)
  show ?case
  proof (cases "ord a < 128")
    case True
    with "2.IH"(1) show ?thesis by (simp add: ord_lower_lo)
  next
    case False
    then have "ascii_lower a = a" by (simp add: ascii_lower_hi)
    with False show ?thesis
      by (auto simp: "2.IH" cont_byte_def ord_lower_hi_eq ord_lower_ge ord_lower_le ord_ascii_lower
               is_ascii_upper_def split: list.splits)
  qed
qed simp

lemma valid_utf8_Cons_ascii: "ord a < 128 \<Longrightarrow> valid_utf8 (a # s) \<longleftrightarrow> valid_utf8 s"
  by simp

declare valid_utf8.simps(2) [simp del]
declare valid_utf8_Cons_ascii [simp]

section \<open>Decimal numbers\<close>

definition digit_char :: "nat \<Rightarrow> char" where
  "digit_char d = char_of (48 + d)"

fun nat_to_string :: "nat \<Rightarrow> string" where
  "nat_to_string n =
     (if n < 10 then [digit_char n] else nat_to_string (n div 10) @ [digit_char (n mod 10)])"

declare nat_to_string.simps [simp del]

definition int_to_string :: "int \<Rightarrow> string" where
  "int_to_string i = (if i < 0 then ''-'' @ nat_to_string (nat (- i)) else nat_to_string (nat i))"

definition digits_value :: "string \<Rightarrow> nat" where
  "digits_value = foldl (\<lambda>n c. 10 * n + (ord c - 48)) 0"

text \<open>
  \<open>str::parse\<close> to an unsigned integer with largest value \<open>m\<close>: an optional plus sign and at least
  one digit; \<open>None\<close> stands for the parse error. The overflow test of the library on the running
  product agrees with one test at the end, since the running value only grows.
\<close>

definition parse_digits :: "nat \<Rightarrow> string \<Rightarrow> nat option" where
  "parse_digits m s =
     (if s = [] \<or> \<not> list_all is_ascii_digit s then None
      else if digits_value s \<le> m then Some (digits_value s) else None)"

definition parse_unsigned :: "nat \<Rightarrow> string \<Rightarrow> nat option" where
  "parse_unsigned m s = (case s of [] \<Rightarrow> None | c # cs \<Rightarrow> parse_digits m (if c = CHR ''+'' then cs else s))"

abbreviation U16_MAX :: nat where "U16_MAX \<equiv> 65535"
abbreviation U32_MAX :: nat where "U32_MAX \<equiv> 4294967295"
abbreviation U64_MAX :: nat where "U64_MAX \<equiv> 18446744073709551615"
abbreviation I64_MAX :: int where "I64_MAX \<equiv> 9223372036854775807"
abbreviation I64_MIN :: int where "I64_MIN \<equiv> - 9223372036854775808"

lemma digit_char_digit [simp]: "d < 10 \<Longrightarrow> is_ascii_digit (digit_char d)"
  by (simp add: digit_char_def is_ascii_digit_def)

lemma ord_digit_char [simp]: "d < 10 \<Longrightarrow> ord (digit_char d) = 48 + d"
  by (simp add: digit_char_def)

lemma nat_to_string_digits: "c \<in> set (nat_to_string n) \<Longrightarrow> is_ascii_digit c"
proof (induction n arbitrary: c rule: nat_to_string.induct)
  case (1 n)
  then show ?case
    by (cases "n < 10") (auto simp: nat_to_string.simps [of n])
qed

lemma nat_to_string_not_Nil [simp]: "nat_to_string n \<noteq> []"
  by (subst nat_to_string.simps) simp

lemma digits_value_append: "digits_value (s @ [c]) = 10 * digits_value s + (ord c - 48)"
  by (simp add: digits_value_def)

lemma digits_value_to_string [simp]: "digits_value (nat_to_string n) = n"
proof (induction n rule: nat_to_string.induct)
  case (1 n)
  show ?case
  proof (cases "n < 10")
    case True
    then show ?thesis by (simp add: nat_to_string.simps [of n] digits_value_def)
  next
    case False
    with 1 show ?thesis by (simp add: nat_to_string.simps [of n] digits_value_append)
  qed
qed

lemma is_ascii_digit_not_plus: "is_ascii_digit c \<Longrightarrow> c \<noteq> CHR ''+''"
  by (auto simp: is_ascii_digit_def)

lemma parse_unsigned_to_string [simp]:
  "parse_unsigned m (nat_to_string n) = (if n \<le> m then Some n else None)"
proof -
  obtain c cs where c: "nat_to_string n = c # cs" by (cases "nat_to_string n") auto
  with nat_to_string_digits [of c n] have "c \<noteq> CHR ''+''" by (auto dest: is_ascii_digit_not_plus)
  moreover have "list_all is_ascii_digit (nat_to_string n)"
    by (auto simp: list_all_iff dest: nat_to_string_digits)
  ultimately show ?thesis
    using digits_value_to_string [of n] c
    by (simp add: parse_unsigned_def parse_digits_def del: digits_value_to_string)
qed

text \<open>\<open>str::parse::<i64>\<close>\<close>

definition parse_i64 :: "string \<Rightarrow> int option" where
  "parse_i64 s =
     (case s of
        [] \<Rightarrow> None
      | c # cs \<Rightarrow>
          if c = CHR ''-'' then map_option (\<lambda>n. - int n) (parse_digits (2 ^ 63) cs)
          else map_option int (parse_unsigned (2 ^ 63 - 1) s))"

lemma parse_digits_to_string [simp]: "parse_digits m (nat_to_string n) = (if n \<le> m then Some n else None)"
proof -
  have "list_all is_ascii_digit (nat_to_string n)"
    by (auto simp: list_all_iff dest: nat_to_string_digits)
  then show ?thesis by (simp add: parse_digits_def)
qed

lemma parse_i64_to_string: "I64_MIN \<le> i \<Longrightarrow> i \<le> I64_MAX \<Longrightarrow> parse_i64 (int_to_string i) = Some i"
proof -
  assume i: "I64_MIN \<le> i" "i \<le> I64_MAX"
  obtain c cs where c: "nat_to_string (nat i) = c # cs" by (cases "nat_to_string (nat i)") auto
  have "is_ascii_digit c" using nat_to_string_digits [of c "nat i"] c by simp
  then have "c \<noteq> CHR ''-''" by (auto simp: is_ascii_digit_def)
  moreover have "nat i \<le> 9223372036854775807" "nat (- i) \<le> 9223372036854775808" using i by simp_all
  ultimately show ?thesis
    using c parse_unsigned_to_string [of "2 ^ 63 - 1" "nat i"]
    by (auto simp: parse_i64_def int_to_string_def simp del: parse_unsigned_to_string)
qed

text \<open>A line without whitespace is what \<open>trim\<close> leaves of it and its line end.\<close>

lemma trim_graphic:
  assumes "list_all is_ascii_graphic s"
  shows "trim (s @ [LF]) = s" and "trim s = s"
proof -
  have no: "ws_head t = 0" "ws_last t = 0" if "list_all is_ascii_graphic t" for t
  proof -
    have "ws_last t = 0" if "t \<noteq> []" "\<not> ascii_space (last t)" "ord (last t) < 128"
      using that by (cases t rule: rev_cases) (simp_all add: ws_last_def)
    moreover have "ws_head t = 0" if "t \<noteq> []" "\<not> ascii_space (hd t)" "ord (hd t) < 128"
      using that by (cases t) (simp_all add: ws_head_def)
    moreover have "\<not> ascii_space c \<and> ord c < 128" if "c \<in> set t" for c
      using that \<open>list_all is_ascii_graphic t\<close> by (auto simp: list_all_iff is_ascii_graphic_def ascii_space_def)
    ultimately show "ws_head t = 0" "ws_last t = 0"
      by (cases "t = []"; simp add: ws_head_def ws_last_def)+
  qed
  have e: "trim_end s = s" using no [OF assms] by (subst trim_end.simps) simp
  have "ws_last (s @ [LF]) = 1" by (simp add: ws_last_def ascii_space_def)
  then have e1: "trim_end (s @ [LF]) = s" using e by (subst trim_end.simps) simp
  have st: "trim_start s = s" using no [OF assms] by (subst trim_start.simps) simp
  have st1: "trim_start (s @ [LF]) = (if s = [] then [] else s @ [LF])"
  proof (cases s)
    case Nil
    have "ws_head [LF] = 1" by (simp add: ws_head_def ascii_space_def)
    moreover have "ws_head [] = 0" by (simp add: ws_head_def)
    ultimately show ?thesis using Nil by (subst trim_start.simps) (simp add: trim_start.simps [of "[]"])
  next
    case (Cons c cs)
    then have "ws_head (s @ [LF]) = 0"
      using assms by (auto simp: ws_head_def is_ascii_graphic_def ascii_space_def)
    then show ?thesis using Cons by (subst trim_start.simps) simp
  qed
  have "trim_end [] = []" by (subst trim_end.simps) (simp add: ws_last_def)
  then show "trim (s @ [LF]) = s" "trim s = s" unfolding trim_def using e e1 st st1 by simp_all
qed

section \<open>Saturating arithmetic\<close>

definition sat_i64 :: "int \<Rightarrow> int" where
  "sat_i64 x = max I64_MIN (min I64_MAX x)"

definition sat_u64 :: "nat \<Rightarrow> nat" where
  "sat_u64 x = min U64_MAX x"

definition sat_u32 :: "nat \<Rightarrow> nat" where
  "sat_u32 x = min U32_MAX x"

definition is_i64 :: "int \<Rightarrow> bool" where
  "is_i64 x \<longleftrightarrow> I64_MIN \<le> x \<and> x \<le> I64_MAX"

text \<open>Evaluation compares with the bounds as binary integers.\<close>

lemma sat_u64_code [code]: "sat_u64 x = (if int x > 18446744073709551615 then 18446744073709551615 else x)"
  by (auto simp: sat_u64_def)

lemma sat_u32_code [code]: "sat_u32 x = (if int x > 4294967295 then 4294967295 else x)"
  by (auto simp: sat_u32_def)

lemma sat_i64_range [simp]: "is_i64 (sat_i64 x)"
  by (auto simp: sat_i64_def is_i64_def)

lemma sat_i64_id: "is_i64 x \<Longrightarrow> sat_i64 x = x"
  by (auto simp: sat_i64_def is_i64_def)

lemma sat_i64_mono: "x \<le> y \<Longrightarrow> sat_i64 x \<le> sat_i64 y"
  by (auto simp: sat_i64_def)

section \<open>Iteration order\<close>

text \<open>
  What is assumed of the iteration order of a hash map or of a directory listing: every entry is
  visited exactly once.
\<close>

definition iterates :: "('a list \<Rightarrow> 'a list) \<Rightarrow> bool" where
  "iterates iter \<longleftrightarrow> (\<forall>m. mset (iter m) = mset m)"

lemma iterates_set: "iterates iter \<Longrightarrow> set (iter m) = set m"
  unfolding iterates_def by (metis set_mset_mset)

lemma iterates_distinct: "iterates iter \<Longrightarrow> distinct (map fst m) \<Longrightarrow> distinct (map fst (iter m))"
  unfolding iterates_def by (metis mset_map mset_eq_imp_distinct_iff)

section \<open>Characters of a UTF-8 string\<close>

text \<open>\<open>chars().take(n)\<close>: a character is a byte with the continuation bytes that follow it.\<close>

fun take_chars :: "nat \<Rightarrow> string \<Rightarrow> string" where
  "take_chars 0 s = []"
| "take_chars (Suc n) [] = []"
| "take_chars (Suc n) (c # cs) = c # takeWhile cont_byte cs @ take_chars n (dropWhile cont_byte cs)"

lemma take_chars_prefix: "prefix (take_chars n s) s"
proof (induction n s rule: take_chars.induct)
  case (3 n c cs)
  then have "prefix (takeWhile cont_byte cs @ take_chars n (dropWhile cont_byte cs))
               (takeWhile cont_byte cs @ dropWhile cont_byte cs)"
    by (simp del: takeWhile_dropWhile_id)
  then show ?case by simp
qed auto

lemma set_take_chars: "set (take_chars n s) \<subseteq> set s"
  using set_mono_prefix [OF take_chars_prefix] .

section \<open>Hexadecimal numbers\<close>

text \<open>\<open>{:0wX}\<close> and \<open>{:0wx}\<close>: at least \<open>w\<close> digits.\<close>

definition hex_char :: "bool \<Rightarrow> nat \<Rightarrow> char" where
  "hex_char upper d = char_of (if d < 10 then 48 + d else (if upper then 55 else 87) + d)"

fun hex_digits :: "bool \<Rightarrow> nat \<Rightarrow> string" where
  "hex_digits upper n =
     (if n < 16 then [hex_char upper n] else hex_digits upper (n div 16) @ [hex_char upper (n mod 16)])"

declare hex_digits.simps [simp del]

definition pad_left :: "char \<Rightarrow> nat \<Rightarrow> string \<Rightarrow> string" where
  "pad_left c w s = replicate (w - length s) c @ s"

definition format_hex :: "bool \<Rightarrow> nat \<Rightarrow> nat \<Rightarrow> string" where
  "format_hex upper w n = pad_left (CHR ''0'') w (hex_digits upper n)"

lemma hex_char_alphanumeric: "d < 16 \<Longrightarrow> is_ascii_alphanumeric (hex_char upper d)"
  by (auto simp: hex_char_def is_ascii_alphanumeric_def is_ascii_digit_def is_ascii_upper_def
      is_ascii_lower_def)

lemma hex_digits_alphanumeric: "c \<in> set (hex_digits upper n) \<Longrightarrow> is_ascii_alphanumeric c"
proof (induction upper n arbitrary: c rule: hex_digits.induct)
  case (1 upper n)
  then show ?case
    by (cases "n < 16") (auto simp: hex_digits.simps [of upper n] hex_char_alphanumeric)
qed

lemma format_hex_alphanumeric: "c \<in> set (format_hex upper w n) \<Longrightarrow> is_ascii_alphanumeric c"
  by (auto simp: format_hex_def pad_left_def is_ascii_alphanumeric_def is_ascii_digit_def
      dest!: hex_digits_alphanumeric)

lemma hex_digits_Suc: "n < 16 ^ Suc k \<Longrightarrow> length (hex_digits upper n) \<le> Suc k"
proof (induction k arbitrary: n)
  case 0
  then show ?case by (simp add: hex_digits.simps [of upper n])
next
  case (Suc k)
  show ?case
  proof (cases "n < 16")
    case True
    then show ?thesis by (simp add: hex_digits.simps [of upper n])
  next
    case False
    have "n div 16 < 16 ^ Suc k" using Suc.prems by simp
    from Suc.IH [OF this] False show ?thesis by (simp add: hex_digits.simps [of upper n])
  qed
qed

lemma length_hex_digits: "0 < w \<Longrightarrow> n < 16 ^ w \<Longrightarrow> length (hex_digits upper n) \<le> w"
  using hex_digits_Suc [of n "w - 1" upper] by simp

lemma length_format_hex: "0 < w \<Longrightarrow> n < 16 ^ w \<Longrightarrow> length (format_hex upper w n) = w"
  using length_hex_digits [of w n upper] by (simp add: format_hex_def pad_left_def)

definition hex_digit_value :: "char \<Rightarrow> nat" where
  "hex_digit_value c = (if ord c < 58 then ord c - 48 else if ord c < 97 then ord c - 55 else ord c - 87)"

definition hex_value :: "string \<Rightarrow> nat" where
  "hex_value = foldl (\<lambda>n c. 16 * n + hex_digit_value c) 0"

lemma hex_digit_value_char: "d < 16 \<Longrightarrow> hex_digit_value (hex_char upper d) = d"
  by (auto simp: hex_digit_value_def hex_char_def)

lemma hex_value_digits: "hex_value (hex_digits upper n) = n"
proof (induction upper n rule: hex_digits.induct)
  case (1 upper n)
  then show ?case
    by (cases "n < 16") (simp_all add: hex_digits.simps [of upper n] hex_value_def hex_digit_value_char)
qed

lemma hex_value_zeros: "hex_value (replicate k (CHR ''0'') @ s) = hex_value s"
proof (induction k)
  case (Suc k)
  then show ?case by (simp add: hex_value_def hex_digit_value_def)
qed simp

lemma hex_value_format: "hex_value (format_hex upper w n) = n"
  by (simp add: format_hex_def pad_left_def hex_value_zeros hex_value_digits)

lemma format_hex_inject: "format_hex upper w m = format_hex upper w n \<longleftrightarrow> m = n"
  by (metis hex_value_format)

section \<open>Operations that may fail\<close>

text \<open>
  An operation on a state \<open>'s\<close> returns the state it leaves and a result; \<open>?\<close> is \<open>io_bind\<close>.
\<close>

definition io_bind ::
  "('s \<Rightarrow> 's \<times> ('e, 'a) result) \<Rightarrow> ('a \<Rightarrow> 's \<Rightarrow> 's \<times> ('e, 'b) result) \<Rightarrow> 's \<Rightarrow> 's \<times> ('e, 'b) result" where
  "io_bind m k s = (case m s of (s', Inl e) \<Rightarrow> (s', Inl e) | (s', Inr x) \<Rightarrow> k x s')"

definition io_return :: "'a \<Rightarrow> 's \<Rightarrow> 's \<times> ('e, 'a) result" where
  "io_return x s = (s, Inr x)"

definition io_fail :: "'e \<Rightarrow> 's \<Rightarrow> 's \<times> ('e, 'a) result" where
  "io_fail e s = (s, Inl e)"

definition io_map_err :: "('e \<Rightarrow> 'f) \<Rightarrow> ('s \<Rightarrow> 's \<times> ('e, 'a) result) \<Rightarrow> 's \<Rightarrow> 's \<times> ('f, 'a) result" where
  "io_map_err g m s = (case m s of (s', Inl e) \<Rightarrow> (s', Inl (g e)) | (s', Inr x) \<Rightarrow> (s', Inr x))"

text \<open>\<open>let _ = op\<close>: the effect of an operation whose result is dropped.\<close>

definition io_drop :: "('s \<Rightarrow> 's \<times> 'a) \<Rightarrow> 's \<Rightarrow> 's" where
  "io_drop m s = fst (m s)"

text \<open>What a read from a stream can give: a chunk (an empty one is the end), an error, a timeout.\<close>

datatype read_event = Chunk string | ReadError | ReadTimeout

section \<open>Invariants of step relations\<close>

text \<open>
  The contract of a component that is a state machine: every step keeps the invariant. The client
  gets it for every state reachable from one that satisfies it.
\<close>

locale step_invariant =
  fixes step :: "'s \<Rightarrow> 's \<Rightarrow> bool" and inv :: "'s \<Rightarrow> bool"
  assumes step_inv: "step s t \<Longrightarrow> inv s \<Longrightarrow> inv t"
begin

lemma run_inv: "step\<^sup>*\<^sup>* s t \<Longrightarrow> inv s \<Longrightarrow> inv t"
  by (induction rule: rtranclp_induct) (auto intro: step_inv)

end

end
