(* ===== verification/Reply.thy ===== *)
theory Reply
  imports Prelude
begin

text \<open>
  SMTP replies (\<^verbatim>\<open>crates/smtpd/src/reply.rs\<close>): the record, its three constructors, which
  neutralise CR, LF and NUL in the text, the classification by first digit, and the rendering on
  the wire. The theory shows that a reply built by the constructors renders to exactly one
  CRLF-terminated line per text line, so no text can forge a second reply.
\<close>

record reply =
  r_code :: nat
  r_enhanced :: "string option"
  r_lines :: "string list"

definition reply_sanitize :: "string \<Rightarrow> string" where
  "reply_sanitize text = map (\<lambda>c. if c = CR \<or> c = LF \<or> c = NUL then SP else c) text"

definition reply_new :: "nat \<Rightarrow> string \<Rightarrow> reply" where
  "reply_new code text =
     \<lparr>r_code = code, r_enhanced = None, r_lines = [reply_sanitize text]\<rparr>"

definition with_enhanced :: "nat \<Rightarrow> string \<Rightarrow> string \<Rightarrow> reply" where
  "with_enhanced code enh text =
     \<lparr>r_code = code, r_enhanced = Some enh, r_lines = [reply_sanitize text]\<rparr>"

definition multiline :: "nat \<Rightarrow> string list \<Rightarrow> reply" where
  "multiline code ls =
     (let ls' = map reply_sanitize ls in
      \<lparr>r_code = code, r_enhanced = None, r_lines = (if ls' = [] then [[]] else ls')\<rparr>)"

definition is_positive_completion :: "reply \<Rightarrow> bool" where
  "is_positive_completion r \<longleftrightarrow> 200 \<le> r_code r \<and> r_code r < 300"

definition is_positive :: "reply \<Rightarrow> bool" where
  "is_positive r \<longleftrightarrow> 200 \<le> r_code r \<and> r_code r < 400"

definition first_line :: "reply \<Rightarrow> string" where
  "first_line r = (case r_lines r of [] \<Rightarrow> [] | l # _ \<Rightarrow> l)"

text \<open>
  One iteration of the loop of \<open>render\<close>. For an empty line list the code's \<open>len() - 1\<close> wraps in a
  release build and the loop runs zero times: the text is empty, as here.
\<close>

definition render_line :: "reply \<Rightarrow> nat \<Rightarrow> nat \<Rightarrow> string \<Rightarrow> string" where
  "render_line r lst i line =
     nat_to_string (r_code r) @ (if i = lst then '' '' else ''-'') @
     (if i = 0 then
        (case r_enhanced r of
           None \<Rightarrow> []
         | Some e \<Rightarrow> e @ (if line \<noteq> [] then '' '' else []))
      else []) @
     line @ CRLF"

definition render :: "reply \<Rightarrow> string" where
  "render r =
     concat (map (\<lambda>(i, line). render_line r (length (r_lines r) - 1) i line)
                 (enumerate 0 (r_lines r)))"

section \<open>Texts\<close>

definition GREETING :: string where "GREETING = ''MailStack ESMTP ready''"
definition OK_TEXT :: string where "OK_TEXT = ''OK''"
definition BYE :: string where "BYE = ''Bye''"
definition EHLO_OK :: string where "EHLO_OK = ''MailStack greets you''"
definition NOOP_OK :: string where "NOOP_OK = ''OK''"
definition RSET_OK :: string where "RSET_OK = ''Session reset''"
definition HELP :: string where "HELP = ''See RFC 5321''"
definition VRFY_DISABLED :: string where "VRFY_DISABLED = ''VRFY is disabled''"
definition SEQUENCE :: string where "SEQUENCE = ''Bad sequence of commands''"
definition NESTED_MAIL :: string where "NESTED_MAIL = ''Sender already specified''"
definition MAIL_OK :: string where "MAIL_OK = ''Sender OK''"
definition RCPT_OK :: string where "RCPT_OK = ''Recipient OK''"
definition RECIPIENT_UNKNOWN :: string where "RECIPIENT_UNKNOWN = ''No such user''"
definition NO_RECIPIENTS :: string where "NO_RECIPIENTS = ''Need RCPT before DATA''"
definition DATA_START :: string where "DATA_START = ''End data with <CR><LF>.<CR><LF>''"
definition DATA_OK :: string where "DATA_OK = ''Message accepted for delivery''"
definition LINE_TOO_LONG :: string where "LINE_TOO_LONG = ''Line too long''"
definition SYNTAX :: string where "SYNTAX = ''Syntax error in parameters or arguments''"
definition UNKNOWN_COMMAND :: string where "UNKNOWN_COMMAND = ''Command unrecognized''"
definition TOO_MANY_RECIPIENTS :: string where "TOO_MANY_RECIPIENTS = ''Too many recipients''"
definition MESSAGE_TOO_LARGE :: string where
  "MESSAGE_TOO_LARGE = ''Message size exceeds fixed maximum message size''"
definition DATA_BACKPRESSURE :: string where
  "DATA_BACKPRESSURE = ''Server is busy accepting other messages, try again later''"
definition BARE_LINE_FEED :: string where
  "BARE_LINE_FEED = ''Bare line feed in message data (use CRLF)''"
definition STARTTLS_UNAVAILABLE :: string where
  "STARTTLS_UNAVAILABLE = ''STARTTLS not available''"
definition ALREADY_TLS :: string where "ALREADY_TLS = ''TLS already active''"
definition AUTH_UNAVAILABLE :: string where
  "AUTH_UNAVAILABLE = ''Authentication not available''"
definition AUTH_REQUIRED_FIRST :: string where "AUTH_REQUIRED_FIRST = ''Issue STARTTLS first''"
definition AUTH_MECHANISM_UNKNOWN :: string where
  "AUTH_MECHANISM_UNKNOWN = ''Unrecognized authentication type''"
definition AUTH_ALREADY :: string where "AUTH_ALREADY = ''Authentication already completed''"
definition AUTH_BAD_BASE64 :: string where
  "AUTH_BAD_BASE64 = ''Invalid base64 authentication response''"
definition AUTH_CANCELLED :: string where
  "AUTH_CANCELLED = ''Authentication exchange cancelled''"
definition AUTH_OK :: string where "AUTH_OK = ''Authentication successful''"
definition AUTH_FAILED :: string where "AUTH_FAILED = ''Authentication credentials invalid''"
definition AUTH_TEMPORARY_FAILURE :: string where
  "AUTH_TEMPORARY_FAILURE = ''Authentication temporarily unavailable''"
definition RATE_LIMITED :: string where "RATE_LIMITED = ''Too many connections from your address''"
definition TOO_MANY_CONNECTIONS :: string where
  "TOO_MANY_CONNECTIONS = ''Too many concurrent connections from your address, try again later''"
definition BANNED_TEMPORARILY :: string where
  "BANNED_TEMPORARILY = ''Your address is temporarily blocked''"
definition BANNED_PERMANENTLY :: string where
  "BANNED_PERMANENTLY = ''Your address is permanently blocked''"
definition SESSION_TIMEOUT :: string where "SESSION_TIMEOUT = ''session timeout''"
definition SUBMISSION_AUTH_REQUIRED :: string where
  "SUBMISSION_AUTH_REQUIRED = ''Authentication required''"
definition SENDER_NOT_OWNED :: string where
  "SENDER_NOT_OWNED = ''Sender address rejected: not owned by the authenticated user''"
definition AUTH_EVAL_FAILED :: string where
  "AUTH_EVAL_FAILED = ''Message authentication could not be evaluated''"
definition DMARC_REJECTED :: string where
  "DMARC_REJECTED = ''Message rejected by the sender domain DMARC policy''"
definition MESSAGE_NOT_UTF8 :: string where
  "MESSAGE_NOT_UTF8 = ''Message body is not valid UTF-8''"
definition QUEUE_WRITE_FAILED :: string where
  "QUEUE_WRITE_FAILED = ''Cannot write message to the local queue''"
definition TOO_MANY_HOPS :: string where "TOO_MANY_HOPS = ''Too many hops / mail loop detected''"

section \<open>Rendering never forges a line\<close>

definition clean_text :: "string \<Rightarrow> bool" where
  "clean_text s \<longleftrightarrow> CR \<notin> set s \<and> LF \<notin> set s \<and> NUL \<notin> set s"

text \<open>What the constructors establish: at least one line, none with a line break.\<close>

definition reply_wf :: "reply \<Rightarrow> bool" where
  "reply_wf r \<longleftrightarrow>
     r_lines r \<noteq> [] \<and> list_all clean_text (r_lines r) \<and>
     (case r_enhanced r of None \<Rightarrow> True | Some e \<Rightarrow> clean_text e)"

lemma clean_text_sanitize [simp, intro]: "clean_text (reply_sanitize s)"
  by (auto simp: clean_text_def reply_sanitize_def)

lemma reply_sanitize_id: "clean_text s \<Longrightarrow> reply_sanitize s = s"
  by (auto simp: clean_text_def reply_sanitize_def intro: map_idI)

lemma clean_text_append [simp]: "clean_text (s @ t) \<longleftrightarrow> clean_text s \<and> clean_text t"
  by (auto simp: clean_text_def)

lemma clean_text_nat_to_string [simp]: "clean_text (nat_to_string n)"
  by (auto simp: clean_text_def is_ascii_digit_def dest!: nat_to_string_digits)

lemma reply_new_wf [simp, intro]: "reply_wf (reply_new c t)"
  by (simp add: reply_wf_def reply_new_def)

lemma with_enhanced_wf [simp, intro]: "clean_text e \<Longrightarrow> reply_wf (with_enhanced c e t)"
  by (simp add: reply_wf_def with_enhanced_def)

lemma multiline_wf [simp, intro]: "reply_wf (multiline c ls)"
proof -
  have "clean_text []" by (simp add: clean_text_def)
  then show ?thesis by (auto simp: reply_wf_def multiline_def Let_def list_all_iff)
qed

text \<open>A rendered line is a text without line breaks, then CRLF.\<close>

definition line_body :: "reply \<Rightarrow> nat \<Rightarrow> nat \<Rightarrow> string \<Rightarrow> string" where
  "line_body r lst i line =
     nat_to_string (r_code r) @ (if i = lst then '' '' else ''-'') @
     (if i = 0 then
        (case r_enhanced r of
           None \<Rightarrow> []
         | Some e \<Rightarrow> e @ (if line \<noteq> [] then '' '' else []))
      else []) @
     line"

lemma render_line_body: "render_line r lst i line = line_body r lst i line @ CRLF"
  by (simp add: render_line_def line_body_def)

lemma line_body_clean:
  "reply_wf r \<Longrightarrow> clean_text line \<Longrightarrow> clean_text (line_body r lst i line)"
  by (auto simp: line_body_def reply_wf_def split: option.splits) (simp_all add: clean_text_def)

lemma split_on_crlf_lines:
  "list_all clean_text bs \<Longrightarrow>
   split_on LF (concat (map (\<lambda>b. b @ CRLF) bs)) = map (\<lambda>b. b @ [CR]) bs @ [[]]"
proof (induction bs)
  case (Cons b bs)
  then have "LF \<notin> set (b @ [CR])" by (auto simp: clean_text_def)
  from split_on_append_sep [OF this, of "concat (map (\<lambda>b. b @ CRLF) bs)"] Cons
  show ?case by simp
qed simp

text \<open>
  No reply injection. Whatever text the peer manages to get echoed, the wire form of
  a reply made by any of the three constructors is, split at LF, exactly one piece ending in CR
  per text line and an empty rest; every piece starts with the reply's code, and CR occurs
  nowhere else. In particular a single-line reply is a single line on the wire.
\<close>

lemma render_one_line_per_text:
  assumes "reply_wf r"
  shows "\<exists>bodies. length bodies = length (r_lines r) \<and> list_all clean_text bodies \<and>
           list_all (\<lambda>b. prefix (nat_to_string (r_code r)) b) bodies \<and>
           split_on LF (render r) = map (\<lambda>b. b @ [CR]) bodies @ [[]]"
proof -
  let ?l = "length (r_lines r) - 1"
  define bodies where "bodies = map (\<lambda>(i, l). line_body r ?l i l) (enumerate 0 (r_lines r))"
  have ren: "render r = concat (map (\<lambda>b. b @ CRLF) bodies)"
    by (simp add: render_def bodies_def render_line_body case_prod_unfold comp_def)
  have clean: "list_all clean_text bodies"
    using assms line_body_clean [OF assms]
    by (auto simp: bodies_def list_all_iff reply_wf_def in_set_enumerate_eq)
  have pre: "list_all (\<lambda>b. prefix (nat_to_string (r_code r)) b) bodies"
    by (auto simp: bodies_def list_all_iff line_body_def)
  have len: "length bodies = length (r_lines r)" by (simp add: bodies_def)
  show ?thesis
    using len clean pre split_on_crlf_lines [OF clean] ren by auto
qed

end
