(* ===== verification/DataSink.thy ===== *)
theory DataSink
  imports Prelude
begin

text \<open>
  The DATA collector (\<^verbatim>\<open>crates/smtpd/src/data.rs\<close>): a byte automaton that undoes dot-stuffing,
  recognises the end of the message and enforces the size limit. The methods that take
  \<open>&mut self\<close> return the new sink with the event. \<open>usize\<close> sums that the code saturates are
  natural numbers; a buffer length cannot reach the saturation point.

  Shown: the buffers never hold more than the limit, feeding in pieces is feeding the whole, the
  end of a message is recognised only at a line consisting of a single dot between CRLFs, and a
  sequence of dot-stuffed lines is received as sent.
\<close>

datatype bare_newline_policy = Reject | Normalize

datatype data_event =
    NeedMore
  | Complete "string option"
  | TooLarge
  | BareLineFeed

datatype ds_state = InLine | SawCr

datatype terminator = CrLf | TermBareLineFeed

fun is_bare_line_feed :: "terminator \<Rightarrow> bool" where
  "is_bare_line_feed TermBareLineFeed = True"
| "is_bare_line_feed CrLf = False"

record data_sink =
  ds_max_size :: nat
  ds_policy :: bare_newline_policy
  ds_st :: ds_state
  ds_line :: string
  ds_out :: string
  ds_overflowed :: bool
  ds_line_len :: nat

definition sink_new :: "nat \<Rightarrow> bare_newline_policy \<Rightarrow> data_sink" where
  "sink_new max_size policy =
     \<lparr>ds_max_size = max_size, ds_policy = policy, ds_st = InLine, ds_line = [], ds_out = [],
      ds_overflowed = False, ds_line_len = 0\<rparr>"

definition check_size :: "data_sink \<Rightarrow> data_sink \<times> data_event" where
  "check_size s =
     (if ds_overflowed s then (s, NeedMore)
      else if length (ds_out s) + length (ds_line s) > ds_max_size s then
        (s\<lparr>ds_overflowed := True, ds_out := [], ds_line := []\<rparr>, TooLarge)
      else (s, NeedMore))"

definition sink_push :: "data_sink \<Rightarrow> char \<Rightarrow> data_sink \<times> data_event" where
  "sink_push s byte =
     (let s1 = s\<lparr>ds_line_len := (if ds_line_len s = 0 then (if byte = CHR ''.'' then 1 else 2) else 2)\<rparr>;
          s2 = (if \<not> ds_overflowed s1 then s1\<lparr>ds_line := ds_line s1 @ [byte]\<rparr> else s1)
      in check_size s2)"

definition complete_line :: "data_sink \<Rightarrow> terminator \<Rightarrow> data_sink \<times> data_event" where
  "complete_line s term =
     (let line = ds_line s;
          is_single_dot = (ds_line_len s = 1);
          s = s\<lparr>ds_line := [], ds_line_len := 0, ds_st := InLine\<rparr>
      in
      if is_bare_line_feed term \<and> ds_policy s = Reject then (s, BareLineFeed)
      else if is_single_dot then
        (if is_bare_line_feed term then (s, BareLineFeed)
         else if ds_overflowed s then (s, Complete None)
         else (s\<lparr>ds_out := []\<rparr>, Complete (Some (ds_out s))))
      else if ds_overflowed s then (s, NeedMore)
      else
        (let content = (case line of c # cs \<Rightarrow> if c = CHR ''.'' then cs else line | [] \<Rightarrow> line)
         in check_size (s\<lparr>ds_out := ds_out s @ content @ CRLF\<rparr>)))"

fun feed_byte :: "data_sink \<Rightarrow> char \<Rightarrow> data_sink \<times> data_event" where
  "feed_byte s byte =
     (case ds_st s of
        InLine \<Rightarrow>
          if byte = CR then (s\<lparr>ds_st := SawCr\<rparr>, NeedMore)
          else if byte = LF then complete_line s TermBareLineFeed
          else sink_push s byte
      | SawCr \<Rightarrow>
          (let s = s\<lparr>ds_st := InLine\<rparr> in
           if byte = LF then complete_line s CrLf
           else if byte = CR then
             (let (s1, event) = sink_push s CR in (s1\<lparr>ds_st := SawCr\<rparr>, event))
           else
             (let (s1, fst_event) = sink_push s CR;
                  (s2, snd_event) = sink_push s1 byte
              in (s2, if fst_event = TooLarge \<or> snd_event = TooLarge then TooLarge else NeedMore))))"

text \<open>\<open>feed\<close> stops at the first event other than \<open>NeedMore\<close> and says how many bytes it used.\<close>

fun feed :: "data_sink \<Rightarrow> string \<Rightarrow> data_sink \<times> data_event \<times> nat" where
  "feed s [] = (s, NeedMore, 0)"
| "feed s (b # bs) =
     (let (s1, event) = feed_byte s b in
      if event \<noteq> NeedMore then (s1, event, 1)
      else (let (s2, event2, n) = feed s1 bs in (s2, event2, n + 1)))"

declare feed_byte.simps [simp del]

lemma feed_byte_InLine:
  "ds_st s = InLine \<Longrightarrow>
   feed_byte s b =
     (if b = CR then (s\<lparr>ds_st := SawCr\<rparr>, NeedMore)
      else if b = LF then complete_line s TermBareLineFeed else sink_push s b)"
  by (simp add: feed_byte.simps)

lemma feed_byte_SawCr:
  "ds_st s = SawCr \<Longrightarrow> s0 = s\<lparr>ds_st := InLine\<rparr> \<Longrightarrow>
   feed_byte s b =
     (if b = LF then complete_line s0 CrLf
      else if b = CR then ((fst (sink_push s0 CR))\<lparr>ds_st := SawCr\<rparr>, snd (sink_push s0 CR))
      else (fst (sink_push (fst (sink_push s0 CR)) b),
            if snd (sink_push s0 CR) = TooLarge \<or> snd (sink_push (fst (sink_push s0 CR)) b) = TooLarge
            then TooLarge else NeedMore))"
  by (simp add: feed_byte.simps case_prod_unfold Let_def)

section \<open>Memory bound\<close>

definition sink_inv :: "data_sink \<Rightarrow> bool" where
  "sink_inv s \<longleftrightarrow>
     (if ds_overflowed s then ds_line s = [] \<and> ds_out s = []
      else length (ds_out s) + length (ds_line s) \<le> ds_max_size s)"

lemma sink_inv_new: "sink_inv (sink_new m p)"
  by (simp add: sink_inv_def sink_new_def)

lemma check_size_inv:
  "ds_overflowed s \<longrightarrow> ds_line s = [] \<and> ds_out s = [] \<Longrightarrow> sink_inv (fst (check_size s))"
  by (auto simp: check_size_def sink_inv_def)

lemma sink_push_inv: "sink_inv s \<Longrightarrow> sink_inv (fst (sink_push s b))"
  unfolding sink_push_def Let_def by (rule check_size_inv) (auto simp: sink_inv_def)

lemma complete_line_inv: "sink_inv s \<Longrightarrow> sink_inv (fst (complete_line s t))"
  by (auto simp: complete_line_def Let_def check_size_def sink_inv_def)

lemma sink_inv_st [simp]: "sink_inv (s\<lparr>ds_st := x\<rparr>) = sink_inv s"
  by (simp add: sink_inv_def)

lemma feed_byte_inv: "sink_inv s \<Longrightarrow> sink_inv (fst (feed_byte s b))"
  by (cases "ds_st s") (simp_all add: feed_byte_InLine feed_byte_SawCr complete_line_inv sink_push_inv)

lemma feed_inv: "sink_inv s \<Longrightarrow> sink_inv (fst (feed s bs))"
proof (induction bs arbitrary: s)
  case (Cons b bs)
  then show ?case
    using feed_byte_inv [OF Cons.prems, of b] by (auto simp: case_prod_unfold Let_def)
qed simp

lemma check_size_config:
  "ds_max_size (fst (check_size s)) = ds_max_size s \<and> ds_policy (fst (check_size s)) = ds_policy s"
  by (simp add: check_size_def)

lemma sink_push_config:
  "ds_max_size (fst (sink_push s b)) = ds_max_size s \<and> ds_policy (fst (sink_push s b)) = ds_policy s"
  by (simp add: sink_push_def check_size_config Let_def)

lemma complete_line_config:
  "ds_max_size (fst (complete_line s t)) = ds_max_size s \<and>
   ds_policy (fst (complete_line s t)) = ds_policy s"
  by (simp add: complete_line_def check_size_config Let_def)

lemma feed_byte_config:
  "ds_max_size (fst (feed_byte s b)) = ds_max_size s \<and> ds_policy (fst (feed_byte s b)) = ds_policy s"
  by (cases "ds_st s") (simp_all add: feed_byte_InLine feed_byte_SawCr sink_push_config complete_line_config)

lemma feed_config:
  "ds_max_size (fst (feed s bs)) = ds_max_size s \<and> ds_policy (fst (feed s bs)) = ds_policy s"
proof (induction bs arbitrary: s)
  case (Cons b bs)
  then show ?case
    using feed_byte_config [of s b] by (simp add: case_prod_unfold Let_def)
qed simp

text \<open>
  Bounded memory. However many bytes are fed, in whatever chunks, the two buffers of a
  sink together never hold more than \<open>max_size\<close> bytes; once the limit has been exceeded both stay
  empty while the rest of the message is drained.
\<close>

lemma feed_memory_bound:
  "length (ds_out (fst (feed (sink_new m p) bs))) + length (ds_line (fst (feed (sink_new m p) bs))) \<le> m \<and>
   (ds_overflowed (fst (feed (sink_new m p) bs)) \<longrightarrow>
      ds_out (fst (feed (sink_new m p) bs)) = [] \<and> ds_line (fst (feed (sink_new m p) bs)) = [])"
  using feed_inv [OF sink_inv_new, of m p bs] feed_config [of "sink_new m p" bs]
  by (auto simp: sink_inv_def sink_new_def split: if_splits)

section \<open>Chunk independence\<close>

lemma feed_append_steps:
  "feed s as = (s1, NeedMore, n) \<Longrightarrow>
   feed s (as @ bs) = (fst (feed s1 bs), fst (snd (feed s1 bs)), n + snd (snd (feed s1 bs)))"
proof (induction as arbitrary: s n)
  case (Cons a as)
  obtain s2 e2 where f: "feed_byte s a = (s2, e2)" by (cases "feed_byte s a")
  with Cons.prems have "e2 = NeedMore" by (auto split: if_splits)
  moreover from this f Cons.prems obtain k where "feed s2 as = (s1, NeedMore, k)" "n = k + 1"
    by (auto split: prod.splits)
  ultimately show ?case using Cons.IH [of s2 k] f by simp
qed simp

text \<open>
  Chunk independence. Feeding two chunks one after the other is the same as feeding their
  concatenation: same final sink, same event, same number of bytes used. So a terminator, a CRLF
  or a dot is recognised across any read boundary.
\<close>

lemma feed_append:
  "feed s (as @ bs) =
     (case feed s as of
        (s1, NeedMore, n) \<Rightarrow> (case feed s1 bs of (s2, e, k) \<Rightarrow> (s2, e, n + k))
      | r \<Rightarrow> r)"
proof (induction as arbitrary: s)
  case (Cons a as)
  obtain s1 e1 where f: "feed_byte s a = (s1, e1)" by (cases "feed_byte s a")
  obtain s2 e2 n2 where g: "feed s1 as = (s2, e2, n2)" by (cases "feed s1 as")
  obtain s3 e3 n3 where h: "feed s2 bs = (s3, e3, n3)" by (cases "feed s2 bs")
  show ?case
  proof (cases "e1 = NeedMore")
    case True
    with Cons [of s1] f g h show ?thesis by (cases e2) simp_all
  next
    case False
    with f show ?thesis by (cases e1) simp_all
  qed
qed (simp add: case_prod_unfold)

section \<open>The end of a message\<close>

text \<open>
  The wire form of a message is its lines, each followed by CRLF, and a last line with a single
  dot. \<open>unstuff\<close> is what the receiver keeps of a line, \<open>stuff\<close> what a sender puts on the wire.
\<close>

definition wire_lines :: "string list \<Rightarrow> string" where
  "wire_lines ls = concat (map (\<lambda>l. l @ CRLF) ls)"

definition unstuff :: "string \<Rightarrow> string" where
  "unstuff l = (case l of c # cs \<Rightarrow> if c = CHR ''.'' then cs else l | [] \<Rightarrow> [])"

definition stuff :: "string \<Rightarrow> string" where
  "stuff l = (if prefix ''.'' l then CHR ''.'' # l else l)"

lemma wire_lines_simps [simp]:
  "wire_lines [] = []"
  "wire_lines (l # ls) = l @ CR # LF # wire_lines ls"
  "wire_lines (ls @ ms) = wire_lines ls @ wire_lines ms"
  by (simp_all add: wire_lines_def)

lemma unstuff_stuff [simp]: "unstuff (stuff l) = l"
  by (cases l) (auto simp: stuff_def unstuff_def)

lemma stuff_not_dot [simp]: "stuff l \<noteq> ''.''"
  by (auto simp: stuff_def split: if_splits)

lemma length_stuff: "length (stuff l) \<le> Suc (length l)"
  by (simp add: stuff_def)

lemma set_stuff: "LF \<in> set (stuff l) \<longleftrightarrow> LF \<in> set l"
  by (simp add: stuff_def)

text \<open>
  The history of a sink that has not completed: \<open>ls\<close> are the finished lines and \<open>cur\<close> the bytes of
  the current one, the pending CR excluded. \<open>ds_line_len\<close> classifies \<open>cur\<close> even after the
  overflow, when the buffers are empty.
\<close>

definition line_class :: "string \<Rightarrow> nat" where
  "line_class cur = (if cur = [] then 0 else if cur = ''.'' then 1 else 2)"

definition pending :: "data_sink \<Rightarrow> string" where
  "pending s = (case ds_st s of InLine \<Rightarrow> [] | SawCr \<Rightarrow> [CR])"

definition tracks :: "data_sink \<Rightarrow> string list \<Rightarrow> string \<Rightarrow> bool" where
  "tracks s ls cur \<longleftrightarrow>
     ds_policy s = Reject \<and> (\<forall>l\<in>set ls. LF \<notin> set l \<and> l \<noteq> ''.'') \<and> LF \<notin> set cur \<and>
     ds_line_len s = line_class cur \<and>
     (\<not> ds_overflowed s \<longrightarrow> ds_line s = cur \<and> ds_out s = wire_lines (map unstuff ls))"

lemma line_class_snoc:
  "line_class (cur @ [b]) = (if line_class cur = 0 then (if b = CHR ''.'' then 1 else 2) else 2)"
  by (auto simp: line_class_def append_eq_Cons_conv)

lemma line_class_1 [simp]: "line_class cur = 1 \<longleftrightarrow> cur = ''.''"
  by (simp add: line_class_def)

lemma tracks_new: "tracks (sink_new m Reject) [] [] \<and> pending (sink_new m Reject) = []"
  by (simp add: tracks_def sink_new_def line_class_def pending_def)

lemma tracks_st [simp]: "tracks (s\<lparr>ds_st := x\<rparr>) ls cur = tracks s ls cur"
  by (simp add: tracks_def)

lemma tracks_check_size: "tracks s ls cur \<Longrightarrow> tracks (fst (check_size s)) ls cur"
  by (auto simp: tracks_def check_size_def)

lemma tracks_push:
  "tracks s ls cur \<Longrightarrow> b \<noteq> LF \<Longrightarrow> tracks (fst (sink_push s b)) ls (cur @ [b])"
  unfolding sink_push_def Let_def
  by (rule tracks_check_size) (auto simp: tracks_def line_class_snoc)

lemma sink_push_st [simp]: "ds_st (fst (sink_push s b)) = ds_st s"
  by (simp add: sink_push_def check_size_def Let_def)

lemma sink_push_event: "snd (sink_push s b) = NeedMore \<or> snd (sink_push s b) = TooLarge"
  by (simp add: sink_push_def check_size_def Let_def)

lemma tracks_end_line:
  assumes "tracks s ls cur" and "cur \<noteq> ''.''"
  shows "tracks (fst (complete_line s CrLf)) (ls @ [cur]) [] \<and>
         ds_st (fst (complete_line s CrLf)) = InLine \<and>
         (snd (complete_line s CrLf) = NeedMore \<or> snd (complete_line s CrLf) = TooLarge)"
  using assms
  by (cases cur) (auto simp: complete_line_def check_size_def tracks_def line_class_def Let_def unstuff_def)

lemma tracks_end_message:
  assumes "tracks s ls ''.''"
  shows "snd (complete_line s CrLf) =
           Complete (if ds_overflowed s then None else Some (wire_lines (map unstuff ls)))"
  using assms by (simp add: complete_line_def tracks_def line_class_def)

text \<open>One byte extends the history by that byte, unless it ends the message or is a bare LF.\<close>

lemma feed_byte_tracks:
  assumes t: "tracks s ls cur" and f: "feed_byte s b = (s1, e)"
  shows "(e = NeedMore \<or> e = TooLarge) \<and>
           (\<exists>ls1 cur1. tracks s1 ls1 cur1 \<and>
              wire_lines ls1 @ cur1 @ pending s1 = wire_lines ls @ cur @ pending s @ [b]) \<or>
         cur = ''.'' \<and> pending s @ [b] = CRLF \<and>
           e = Complete (if ds_overflowed s then None else Some (wire_lines (map unstuff ls))) \<or>
         ds_st s = InLine \<and> b = LF \<and> e = BareLineFeed"
proof (cases "ds_st s")
  case InLine
  note f' = f [unfolded feed_byte_InLine [OF InLine]]
  consider (cr) "b = CR" | (lf) "b = LF" | (other) "b \<noteq> CR" "b \<noteq> LF" by blast
  then show ?thesis
  proof cases
    case cr
    with f' InLine have "s1 = s\<lparr>ds_st := SawCr\<rparr>" "e = NeedMore" "pending s = []" "pending s1 = [b]"
      by (auto simp: pending_def)
    with t show ?thesis by (metis append.right_neutral append_Nil tracks_st)
  next
    case lf
    with f' t have "e = BareLineFeed" by (simp add: complete_line_def tracks_def)
    with lf InLine show ?thesis by blast
  next
    case other
    with f' have s1: "s1 = fst (sink_push s b)" "e = snd (sink_push s b)" by simp_all
    with InLine have "pending s = []" "pending s1 = []" by (simp_all add: pending_def)
    with other s1 tracks_push [OF t, of b] sink_push_event [of s b] show ?thesis
      by (metis append.right_neutral append_Nil)
  qed
next
  case SawCr
  define s0 where "s0 = s\<lparr>ds_st := InLine\<rparr>"
  note f' = f [unfolded feed_byte_SawCr [OF SawCr s0_def]]
  have t0: "tracks s0 ls cur" and st0: "ds_st s0 = InLine" using t by (simp_all add: s0_def)
  have p: "pending s = [CR]" using SawCr by (simp add: pending_def)
  note t2 = tracks_push [OF t0, of CR]
  consider (dot) "b = LF" "cur = ''.''" | (line) "b = LF" "cur \<noteq> ''.''" | (cr) "b = CR"
    | (other) "b \<noteq> CR" "b \<noteq> LF" by blast
  then show ?thesis
  proof cases
    case dot
    with f' t0 tracks_end_message [of s0 ls] p show ?thesis by (simp add: s0_def)
  next
    case line
    with f' have "complete_line s0 CrLf = (s1, e)" by simp
    with line tracks_end_line [OF t0] have
      "tracks s1 (ls @ [cur]) []" "ds_st s1 = InLine" "e = NeedMore \<or> e = TooLarge" by auto
    moreover from this line p have
      "wire_lines (ls @ [cur]) @ [] @ pending s1 = wire_lines ls @ cur @ pending s @ [b]"
      by (simp add: pending_def)
    ultimately show ?thesis by blast
  next
    case cr
    with f' have s1: "s1 = (fst (sink_push s0 CR))\<lparr>ds_st := SawCr\<rparr>" "e = snd (sink_push s0 CR)"
      by simp_all
    then have "pending s1 = [CR]" by (simp add: pending_def)
    then have "wire_lines ls @ (cur @ [CR]) @ pending s1 = wire_lines ls @ cur @ pending s @ [b]"
      using p cr by simp
    moreover have "tracks s1 ls (cur @ [CR])" using s1 t2 by simp
    ultimately show ?thesis using s1(2) sink_push_event [of s0 CR] by blast
  next
    case other
    with f' have s1: "s1 = fst (sink_push (fst (sink_push s0 CR)) b)" "e = NeedMore \<or> e = TooLarge"
      by (auto split: if_splits)
    then have "pending s1 = []" using st0 by (simp add: pending_def)
    then have "wire_lines ls @ ((cur @ [CR]) @ [b]) @ pending s1 = wire_lines ls @ cur @ pending s @ [b]"
      using p by simp
    moreover have "tracks s1 ls ((cur @ [CR]) @ [b])" using s1 tracks_push [OF t2 other(2)] by simp
    ultimately show ?thesis using s1(2) by blast
  qed
qed

lemma feed_tracks:
  "tracks s ls cur \<Longrightarrow> feed s bs = (s1, e, n) \<Longrightarrow>
   (e = NeedMore \<or> e = TooLarge) \<and>
     (\<exists>ls1 cur1. tracks s1 ls1 cur1 \<and>
        wire_lines ls1 @ cur1 @ pending s1 = wire_lines ls @ cur @ pending s @ take n bs) \<or>
   (\<exists>ls1 r. (\<forall>l\<in>set ls1. LF \<notin> set l \<and> l \<noteq> ''.'') \<and> e = Complete r \<and>
        (\<forall>d. r = Some d \<longrightarrow> d = wire_lines (map unstuff ls1)) \<and>
        wire_lines ls1 @ ''.'' @ CRLF = wire_lines ls @ cur @ pending s @ take n bs) \<or>
   e = BareLineFeed"
proof (induction bs arbitrary: s ls cur n)
  case Nil
  then show ?case by auto
next
  case (Cons b bs)
  obtain s2 e2 where f: "feed_byte s b = (s2, e2)" by (cases "feed_byte s b")
  show ?case
  proof (cases "e2 = NeedMore")
    case False
    with Cons.prems(2) f have "s1 = s2" "e = e2" "n = 1" by simp_all
    moreover have "\<forall>l\<in>set ls. LF \<notin> set l \<and> l \<noteq> ''.''" using Cons.prems(1) by (simp add: tracks_def)
    ultimately show ?thesis
      using feed_byte_tracks [OF Cons.prems(1) f] False by auto
  next
    case True
    obtain n2 where n2: "feed s2 bs = (s1, e, n2)" "n = Suc n2"
      using Cons.prems(2) f True by (auto split: prod.splits)
    from feed_byte_tracks [OF Cons.prems(1) f] True obtain ls1 cur1 where
      t1: "tracks s2 ls1 cur1" and
      h1: "wire_lines ls1 @ cur1 @ pending s2 = wire_lines ls @ cur @ pending s @ [b]"
      by auto
    have "wire_lines ls1 @ cur1 @ pending s2 @ take n2 bs = wire_lines ls @ cur @ pending s @ take n (b # bs)"
      using h1 n2 by (metis append.assoc append_Cons append_Nil take_Suc_Cons)
    then show ?thesis using Cons.IH [OF t1 n2(1)] by (simp only:)
  qed
qed

text \<open>A sink together with the bytes it has consumed; reading goes on after \<open>TooLarge\<close>.\<close>

inductive sink_history :: "nat \<Rightarrow> data_sink \<Rightarrow> string \<Rightarrow> bool" for m where
  start: "sink_history m (sink_new m Reject) []"
| more: "sink_history m s h \<Longrightarrow> feed s bs = (s1, e, n) \<Longrightarrow> e = NeedMore \<or> e = TooLarge \<Longrightarrow>
         sink_history m s1 (h @ take n bs)"

lemma sink_history_inv:
  "sink_history m s h \<Longrightarrow>
   sink_inv s \<and> ds_max_size s = m \<and> (\<exists>ls cur. tracks s ls cur \<and> h = wire_lines ls @ cur @ pending s)"
proof (induction rule: sink_history.induct)
  case start
  show ?case using tracks_new [of m] sink_inv_new by (auto simp: sink_new_def)
next
  case (more s h bs s1 e n)
  then obtain ls cur where t: "tracks s ls cur" and h: "h = wire_lines ls @ cur @ pending s" by auto
  have "sink_inv s1" "ds_max_size s1 = m"
    using more feed_inv [of s bs] feed_config [of s bs] by auto
  moreover have "\<exists>ls cur. tracks s1 ls cur \<and> h @ take n bs = wire_lines ls @ cur @ pending s1"
  proof -
    from feed_tracks [OF t more.hyps(2)] more.hyps(3) obtain ls1 cur1 where "tracks s1 ls1 cur1"
      "wire_lines ls1 @ cur1 @ pending s1 = wire_lines ls @ cur @ pending s @ take n bs" by blast
    then show ?thesis using h by (intro exI [of _ ls1] exI [of _ cur1]) simp
  qed
  ultimately show ?case by blast
qed

lemma feed_complete_size:
  "tracks s ls cur \<Longrightarrow> sink_inv s \<Longrightarrow> feed s bs = (s1, Complete (Some d), n) \<Longrightarrow>
   length d < ds_max_size s"
proof (induction bs arbitrary: s ls cur n)
  case (Cons b bs)
  obtain s2 e2 where f: "feed_byte s b = (s2, e2)" by (cases "feed_byte s b")
  show ?case
  proof (cases "e2 = NeedMore")
    case True
    then obtain n2 where n2: "feed s2 bs = (s1, Complete (Some d), n2)"
      using Cons.prems(3) f by (auto split: prod.splits)
    obtain ls1 cur1 where t1: "tracks s2 ls1 cur1"
      using feed_byte_tracks [OF Cons.prems(1) f] True by auto
    then show ?thesis
      using Cons.IH [OF t1 _ n2] feed_byte_inv [OF Cons.prems(2), of b] feed_byte_config [of s b] f by simp
  next
    case False
    then have "e2 = Complete (Some d)" using Cons.prems(3) f by simp
    with feed_byte_tracks [OF Cons.prems(1) f] have
      "cur = ''.''" "\<not> ds_overflowed s" "d = wire_lines (map unstuff ls)" by (auto split: if_splits)
    with Cons.prems(1,2) show ?thesis by (simp add: tracks_def sink_inv_def)
  qed
qed simp

text \<open>
  \<^bold>\<open>C10\<close> (the end of a message). Under the strict newline policy a message is reported complete
  only when the bytes consumed since DATA are CRLF-terminated lines, none of them a single dot and
  none containing a line feed, followed by a line with a single dot: neither a bare LF nor a dot
  inside a line ends a message, so no second message can be smuggled into the first. The content
  handed over is exactly those lines with one leading dot removed, and it is strictly shorter than
  the size limit.
\<close>

theorem data_end_is_first_dot_line:
  assumes "sink_history m s h" and "feed s bs = (s1, Complete r, n)"
  shows "\<exists>ls. (\<forall>l\<in>set ls. LF \<notin> set l \<and> l \<noteq> ''.'') \<and>
              h @ take n bs = wire_lines ls @ ''.'' @ CRLF \<and>
              (\<forall>d. r = Some d \<longrightarrow> d = wire_lines (map unstuff ls) \<and> length d < m)"
proof -
  from sink_history_inv [OF assms(1)] obtain ls cur where
    t: "tracks s ls cur" and h: "h = wire_lines ls @ cur @ pending s" and
    i: "sink_inv s" "ds_max_size s = m" by auto
  have "length d < m" if "r = Some d" for d
    using feed_complete_size [OF t i(1), of bs s1 d n] assms(2) that i(2) by simp
  moreover from feed_tracks [OF t assms(2)] obtain ls1 where
    "\<forall>l\<in>set ls1. LF \<notin> set l \<and> l \<noteq> ''.''" "\<forall>d. r = Some d \<longrightarrow> d = wire_lines (map unstuff ls1)"
    "wire_lines ls1 @ ''.'' @ CRLF = wire_lines ls @ cur @ pending s @ take n bs" by auto
  ultimately show ?thesis using h by (intro exI [of _ ls1]) simp
qed

theorem data_end_is_first_dot_line_witness:
  "\<exists>ls. ''a'' @ CRLF @ ''.'' @ CRLF = wire_lines ls @ ''.'' @ CRLF \<and> ''a'' @ CRLF = wire_lines (map unstuff ls)"
proof -
  have f: "feed (sink_new 9 Reject) (''a'' @ CRLF @ ''.'' @ CRLF @ ''QUIT'') =
           (fst (feed (sink_new 9 Reject) (''a'' @ CRLF @ ''.'' @ CRLF @ ''QUIT'')),
            Complete (Some (''a'' @ CRLF)), 6)"
    by code_simp
  have "\<exists>ls. (\<forall>l\<in>set ls. LF \<notin> set l \<and> l \<noteq> ''.'') \<and>
             [] @ take 6 (''a'' @ CRLF @ ''.'' @ CRLF @ ''QUIT'') = wire_lines ls @ ''.'' @ CRLF \<and>
             (\<forall>d. Some (''a'' @ CRLF) = Some d \<longrightarrow> d = wire_lines (map unstuff ls) \<and> length d < 9)"
    by (rule data_end_is_first_dot_line [OF sink_history.start f])
  then show ?thesis by auto
qed

section \<open>Receiving what a sender sends\<close>

definition sink_at :: "data_sink \<Rightarrow> nat \<Rightarrow> string \<Rightarrow> string \<Rightarrow> bool" where
  "sink_at s m done cur \<longleftrightarrow>
     ds_policy s = Reject \<and> \<not> ds_overflowed s \<and> ds_max_size s = m \<and> ds_out s = done \<and>
     ds_line s = cur \<and> ds_line_len s = line_class cur"

lemma sink_at_st [simp]: "sink_at (s\<lparr>ds_st := x\<rparr>) m dn cur = sink_at s m dn cur"
  by (simp add: sink_at_def)

lemma sink_at_push:
  "sink_at s m dn cur \<Longrightarrow> length dn + length cur < m \<Longrightarrow>
   sink_at (fst (sink_push s b)) m dn (cur @ [b]) \<and> snd (sink_push s b) = NeedMore"
  by (auto simp: sink_at_def sink_push_def check_size_def Let_def line_class_snoc)

lemma sink_at_byte:
  assumes "sink_at s m dn cur" and "b \<noteq> LF" and "length dn + length cur + length (pending s) < m"
  shows "\<exists>s1 cur1. feed_byte s b = (s1, NeedMore) \<and> sink_at s1 m dn cur1 \<and>
           cur1 @ pending s1 = cur @ pending s @ [b] \<and> (ds_st s1 = SawCr \<longleftrightarrow> b = CR)"
proof (cases "ds_st s")
  case InLine
  show ?thesis
  proof (cases "b = CR")
    case True
    with InLine assms show ?thesis
      by (intro exI [of _ "s\<lparr>ds_st := SawCr\<rparr>"] exI [of _ cur]) (simp add: feed_byte_InLine pending_def)
  next
    case False
    with InLine assms sink_at_push [OF assms(1), of b] show ?thesis
      by (intro exI [of _ "fst (sink_push s b)"] exI [of _ "cur @ [b]"])
         (simp add: feed_byte_InLine pending_def prod_eq_iff)
  qed
next
  case SawCr
  define s0 where "s0 = s\<lparr>ds_st := InLine\<rparr>"
  define s2 where "s2 = fst (sink_push s0 CR)"
  have a0: "sink_at s0 m dn cur" "ds_st s0 = InLine" using assms(1) by (simp_all add: s0_def)
  have len: "length dn + length cur + 1 < m" using assms(3) SawCr by (simp add: pending_def)
  have a2: "sink_at s2 m dn (cur @ [CR])" "snd (sink_push s0 CR) = NeedMore" "ds_st s2 = InLine"
    using sink_at_push [OF a0(1), of CR] len a0(2) by (simp_all add: s2_def)
  have a3: "sink_at (fst (sink_push s2 b)) m dn ((cur @ [CR]) @ [b])" "snd (sink_push s2 b) = NeedMore"
    using sink_at_push [OF a2(1), of b] len by simp_all
  show ?thesis
  proof (cases "b = CR")
    case True
    with a2 SawCr show ?thesis
      by (intro exI [of _ "s2\<lparr>ds_st := SawCr\<rparr>"] exI [of _ "cur @ [CR]"])
         (simp add: feed_byte_SawCr [OF SawCr s0_def] pending_def s2_def)
  next
    case False
    with a2 a3 assms(2) SawCr show ?thesis
      by (intro exI [of _ "fst (sink_push s2 b)"] exI [of _ "cur @ [CR, b]"])
         (simp add: feed_byte_SawCr [OF SawCr s0_def] pending_def s2_def)
  qed
qed

lemma sink_at_bytes:
  "sink_at s m dn cur \<Longrightarrow> LF \<notin> set l \<Longrightarrow> length dn + length cur + length (pending s) + length l \<le> m \<Longrightarrow>
   \<exists>s1 cur1. feed s l = (s1, NeedMore, length l) \<and> sink_at s1 m dn cur1 \<and>
     cur1 @ pending s1 = cur @ pending s @ l \<and> (l \<noteq> [] \<longrightarrow> (ds_st s1 = SawCr \<longleftrightarrow> last l = CR))"
proof (induction l arbitrary: s cur)
  case (Cons b l)
  then obtain s1 cur1 where s1: "feed_byte s b = (s1, NeedMore)" "sink_at s1 m dn cur1"
    "cur1 @ pending s1 = cur @ pending s @ [b]" "ds_st s1 = SawCr \<longleftrightarrow> b = CR"
    using sink_at_byte [of s m dn cur b] by auto
  from arg_cong [OF s1(3), of length] have "length cur1 + length (pending s1) = Suc (length cur + length (pending s))"
    by simp
  with Cons.IH [OF s1(2)] Cons.prems obtain s2 cur2 where s2: "feed s1 l = (s2, NeedMore, length l)"
    "sink_at s2 m dn cur2" "cur2 @ pending s2 = cur1 @ pending s1 @ l"
    "l \<noteq> [] \<longrightarrow> (ds_st s2 = SawCr \<longleftrightarrow> last l = CR)" by auto
  have "cur2 @ pending s2 = cur @ pending s @ b # l"
    using s2(3) s1(3) by (metis append.assoc append_Cons append_Nil)
  with s1 s2 show ?case by (cases "l = []") auto
qed auto

lemma sink_at_complete:
  assumes "sink_at s m dn cur" and "cur \<noteq> ''.''" and "length dn + length (unstuff cur) + 2 \<le> m"
  shows "sink_at (fst (complete_line s CrLf)) m (dn @ unstuff cur @ CRLF) [] \<and>
         ds_st (fst (complete_line s CrLf)) = InLine \<and> snd (complete_line s CrLf) = NeedMore"
  using assms
  by (cases cur) (auto simp: sink_at_def complete_line_def check_size_def Let_def unstuff_def line_class_def)

lemma sink_at_line:
  assumes at: "sink_at s m dn []" and st: "ds_st s = InLine" and l: "LF \<notin> set l"
    and sz: "length dn + length l + 2 \<le> m"
  shows "\<exists>s1. feed s (stuff l @ CRLF) = (s1, NeedMore, length (stuff l) + 2) \<and>
              sink_at s1 m (dn @ l @ CRLF) [] \<and> ds_st s1 = InLine"
proof -
  have "pending s = []" using st by (simp add: pending_def)
  moreover have "LF \<notin> set (stuff l @ [CR])" using l by (simp add: set_stuff)
  ultimately obtain s1 cur1 where s1: "feed s (stuff l @ [CR]) = (s1, NeedMore, length (stuff l) + 1)"
    "sink_at s1 m dn cur1" "cur1 @ pending s1 = stuff l @ [CR]" "ds_st s1 = SawCr"
    using sink_at_bytes [OF at, of "stuff l @ [CR]"] sz length_stuff [of l] by auto
  define s0 where "s0 = s1\<lparr>ds_st := InLine\<rparr>"
  have "cur1 = stuff l" using s1(3,4) by (simp add: pending_def)
  then have c: "sink_at (fst (complete_line s0 CrLf)) m (dn @ l @ CRLF) []"
    "ds_st (fst (complete_line s0 CrLf)) = InLine" "snd (complete_line s0 CrLf) = NeedMore"
    using sink_at_complete [of s0 m dn "stuff l"] s1(2) sz by (simp_all add: s0_def)
  have "feed s1 [LF] = (fst (complete_line s0 CrLf), NeedMore, 1)"
    using c(3) by (simp add: feed_byte_SawCr [OF s1(4) s0_def] case_prod_unfold)
  then have "feed s ((stuff l @ [CR]) @ [LF]) = (fst (complete_line s0 CrLf), NeedMore, length (stuff l) + 2)"
    unfolding feed_append_steps [OF s1(1)] by simp
  with c show ?thesis by simp
qed

lemma sink_at_lines:
  "sink_at s m dn [] \<Longrightarrow> ds_st s = InLine \<Longrightarrow> \<forall>l\<in>set ls. LF \<notin> set l \<Longrightarrow>
   length dn + length (wire_lines ls) \<le> m \<Longrightarrow>
   \<exists>s1. feed s (wire_lines (map stuff ls)) = (s1, NeedMore, length (wire_lines (map stuff ls))) \<and>
        sink_at s1 m (dn @ wire_lines ls) [] \<and> ds_st s1 = InLine"
proof (induction ls arbitrary: s dn)
  case (Cons l ls)
  then obtain s1 where s1: "feed s (stuff l @ CRLF) = (s1, NeedMore, length (stuff l) + 2)"
    "sink_at s1 m (dn @ l @ CRLF) []" "ds_st s1 = InLine"
    using sink_at_line [of s m dn l] by auto
  from Cons.IH [OF s1(2,3)] Cons.prems obtain s2 where
    s2: "feed s1 (wire_lines (map stuff ls)) = (s2, NeedMore, length (wire_lines (map stuff ls)))"
    "sink_at s2 m (dn @ wire_lines (l # ls)) []" "ds_st s2 = InLine" by auto
  have "feed s ((stuff l @ CRLF) @ wire_lines (map stuff ls)) =
        (s2, NeedMore, length (wire_lines (map stuff (l # ls))))"
    unfolding feed_append_steps [OF s1(1)] s2(1) by simp
  with s2 show ?case by simp
qed auto

lemma sink_at_dot:
  assumes "sink_at s m dn []" and "ds_st s = InLine" and "length dn < m"
  shows "\<exists>s1. feed s (CHR ''.'' # CR # LF # rest) = (s1, Complete (Some dn), 3)"
proof -
  define s1 where "s1 = fst (sink_push s CHR ''.'')"
  have p: "sink_at s1 m dn ''.''" "snd (sink_push s CHR ''.'') = NeedMore" "ds_st s1 = InLine"
    using sink_at_push [OF assms(1), of "CHR ''.''"] assms(2,3) by (simp_all add: s1_def)
  have "snd (complete_line (s1\<lparr>ds_st := InLine\<rparr>) CrLf) = Complete (Some dn)"
    using p(1) by (simp add: complete_line_def sink_at_def line_class_def)
  then show ?thesis
    using p assms(2) by (simp add: feed_byte_InLine feed_byte_SawCr case_prod_unfold s1_def [symmetric])
qed

text \<open>
  A message sent as dot-stuffed CRLF lines and a final dot is received unchanged, whatever its
  lines contain (leading dots, a line with a single dot, lone carriage returns): the sink completes
  exactly at the end of the terminator and leaves the bytes behind it (pipelined commands) unused.
  The only condition is that the message stays below the size limit.
\<close>

lemma feed_receives_stuffed_lines:
  assumes "\<forall>l\<in>set ls. LF \<notin> set l" and "length (wire_lines ls) < m"
  shows "snd (feed (sink_new m Reject) (wire_lines (map stuff ls) @ ''.'' @ CRLF @ rest)) =
         (Complete (Some (wire_lines ls)), length (wire_lines (map stuff ls)) + 3)"
proof -
  have "sink_at (sink_new m Reject) m [] []" "ds_st (sink_new m Reject) = InLine"
    by (simp_all add: sink_at_def sink_new_def line_class_def)
  then obtain s1 where s1:
    "feed (sink_new m Reject) (wire_lines (map stuff ls)) = (s1, NeedMore, length (wire_lines (map stuff ls)))"
    "sink_at s1 m (wire_lines ls) []" "ds_st s1 = InLine"
    using sink_at_lines [of "sink_new m Reject" m "[]" ls] assms by auto
  from sink_at_dot [OF s1(2,3) assms(2)] obtain s2 where
    "feed s1 (CHR ''.'' # CR # LF # rest) = (s2, Complete (Some (wire_lines ls)), 3)" by blast
  then show ?thesis
    using feed_append_steps [OF s1(1), of "CHR ''.'' # CR # LF # rest"] by simp
qed

end
