(* ===== verification/RelayPolicy.thy ===== *)
theory RelayPolicy
  imports Prelude
begin

text \<open>
  The relay decision (\<^verbatim>\<open>crates/smtp/src/policy.rs\<close>): a normalised list of managed domains, and
  for a recipient domain the choice between local delivery, authenticated relaying and refusal.
  \<open>Vec::sort\<close> on strings is the byte-lexicographic \<open>sort\<close>, \<open>dedup\<close> removes adjacent duplicates.
\<close>

datatype relay_decision =
    DeliverLocal
  | RelayAuthenticated
  | RejectRelay nat string

fun is_allowed :: "relay_decision \<Rightarrow> bool" where
  "is_allowed DeliverLocal = True"
| "is_allowed RelayAuthenticated = True"
| "is_allowed (RejectRelay _ _) = False"

record relay_policy =
  rp_managed_domains :: "string list"

definition REJECT_UNAUTH_DESTINATION :: string where
  "REJECT_UNAUTH_DESTINATION =
     ''Relaying denied: not an authenticated sender and destination is not a local domain''"

definition REJECT_NO_MANAGED_DOMAINS :: string where
  "REJECT_NO_MANAGED_DOMAINS =
     ''Relaying denied: no managed domains are configured (failing closed)''"

definition relay_policy_new :: "string list \<Rightarrow> relay_policy" where
  "relay_policy_new ds =
     \<lparr>rp_managed_domains =
        remdups_adj (sort (filter (\<lambda>d. d \<noteq> []) (map (\<lambda>d. to_ascii_lowercase (trim d)) ds)))\<rparr>"

definition is_managed :: "relay_policy \<Rightarrow> string \<Rightarrow> bool" where
  "is_managed p domain =
     (let d = to_ascii_lowercase (trim domain) in
      if d = [] then False else d \<in> set (rp_managed_domains p))"

definition evaluate :: "relay_policy \<Rightarrow> string \<Rightarrow> bool \<Rightarrow> relay_decision" where
  "evaluate p recipient_domain authenticated =
     (if is_managed p recipient_domain then DeliverLocal
      else if authenticated then RelayAuthenticated
      else if rp_managed_domains p = [] then RejectRelay 554 REJECT_NO_MANAGED_DOMAINS
      else RejectRelay 554 REJECT_UNAUTH_DESTINATION)"

lemma evaluate_DeliverLocal [simp]: "evaluate p d a = DeliverLocal \<longleftrightarrow> is_managed p d"
  by (simp add: evaluate_def)

lemma evaluate_Relay: "evaluate p d a = RelayAuthenticated \<Longrightarrow> a"
  by (simp add: evaluate_def split: if_splits)

lemma is_managed_empty [simp]: "\<not> is_managed p []"
  by (simp add: is_managed_def trim_def trim_start.simps [of "[]"] trim_end.simps [of "[]"] ws_head_def ws_last_def)

lemma evaluate_allowed: "is_allowed (evaluate p d a) \<longleftrightarrow> is_managed p d \<or> a"
  by (simp add: evaluate_def)

lemma distinct_remdups_adj_sorted: "sorted xs \<Longrightarrow> distinct (remdups_adj xs)"
proof (induction xs rule: remdups_adj.induct)
  case (3 x y xs)
  show ?case
  proof (cases "x = y")
    case False
    with "3.prems" have "x < y" "\<forall>z\<in>set xs. y \<le> z" by auto
    then have "x \<notin> set (y # xs)" by auto
    with False 3 show ?thesis by (simp del: remdups_adj.simps(3) add: remdups_adj.simps(3) [of x])
  qed (use 3 in simp)
qed simp_all

text \<open>
  Relay decision. For a policy built from a configured list, a recipient domain is accepted
  exactly when the sender is authenticated or the domain is, up to surrounding white space and
  ASCII case, one of the configured domains; with no configured domain an unauthenticated sender
  is always refused with 554. The stored list is sorted and free of duplicates.
\<close>

lemma relay_policy_decides:
  "(is_allowed (evaluate (relay_policy_new ds) dmn auth) \<longleftrightarrow>
      auth \<or> to_ascii_lowercase (trim dmn) \<noteq> [] \<and>
             to_ascii_lowercase (trim dmn) \<in> (\<lambda>d. to_ascii_lowercase (trim d)) ` set ds) \<and>
   evaluate (relay_policy_new []) dmn False = RejectRelay 554 REJECT_NO_MANAGED_DOMAINS \<and>
   sorted (rp_managed_domains (relay_policy_new ds)) \<and> distinct (rp_managed_domains (relay_policy_new ds))"
proof (intro conjI)
  show "is_allowed (evaluate (relay_policy_new ds) dmn auth) \<longleftrightarrow>
      auth \<or> to_ascii_lowercase (trim dmn) \<noteq> [] \<and>
             to_ascii_lowercase (trim dmn) \<in> (\<lambda>d. to_ascii_lowercase (trim d)) ` set ds"
    by (auto simp: evaluate_allowed is_managed_def relay_policy_new_def Let_def)
  show "evaluate (relay_policy_new []) dmn False = RejectRelay 554 REJECT_NO_MANAGED_DOMAINS"
    by (simp add: evaluate_def relay_policy_new_def is_managed_def Let_def)
qed (simp_all add: relay_policy_new_def distinct_remdups_adj_sorted)

end
