(* ===== verification/Peer.thy ===== *)
theory Peer
  imports Prelude "HOL-Library.Word"
begin

text \<open>
  Network addresses and the key under which a peer is tracked
  (\<^verbatim>\<open>crates/smtpd/src/peer.rs\<close>). An \<open>Ipv4Addr\<close> is a 32-bit word and an \<open>Ipv6Addr\<close> a 128-bit
  word in network order; of a \<open>SocketAddr\<close> the code reads only address and port. The derived
  \<open>Ord\<close> of \<open>IpAddr\<close> puts every IPv4 address before every IPv6 address.
\<close>

type_synonym ipv4 = "32 word"
type_synonym ipv6 = "128 word"

datatype ip_addr = V4 ipv4 | V6 ipv6

datatype peer_key = KeyV4 ipv4 | KeyV6 ipv6

record socket_addr =
  sa_ip :: ip_addr
  sa_port :: nat

instantiation ip_addr :: linorder
begin

fun less_eq_ip_addr :: "ip_addr \<Rightarrow> ip_addr \<Rightarrow> bool" where
  "less_eq_ip_addr (V4 a) (V4 b) = (a \<le> b)"
| "less_eq_ip_addr (V4 _) (V6 _) = True"
| "less_eq_ip_addr (V6 _) (V4 _) = False"
| "less_eq_ip_addr (V6 a) (V6 b) = (a \<le> b)"

definition less_ip_addr :: "ip_addr \<Rightarrow> ip_addr \<Rightarrow> bool" where
  "less_ip_addr x y \<longleftrightarrow> x \<le> y \<and> \<not> y \<le> (x :: ip_addr)"

instance
proof
  fix x y z :: ip_addr
  show "x < y \<longleftrightarrow> x \<le> y \<and> \<not> y \<le> x" by (rule less_ip_addr_def)
  show "x \<le> x" by (cases x) auto
  show "x \<le> z" if "x \<le> y" "y \<le> z" using that by (cases x; cases y; cases z) auto
  show "x = y" if "x \<le> y" "y \<le> x" using that by (cases x; cases y) auto
  show "x \<le> y \<or> y \<le> x" by (cases x; cases y) auto
qed

end

text \<open>The sixteen-bit group \<open>i\<close> of an IPv6 address (\<open>segments()[i]\<close>).\<close>

definition segment :: "ipv6 \<Rightarrow> nat \<Rightarrow> 16 word" where
  "segment a i = ucast (drop_bit (16 * (7 - i)) a)"

definition ipv6_new :: "16 word list \<Rightarrow> ipv6" where
  "ipv6_new segs = foldl (\<lambda>a s. push_bit 16 a + ucast s) 0 segs"

text \<open>\<open>to_ipv4_mapped\<close>: the addresses \<open>::ffff:a.b.c.d\<close>.\<close>

definition to_ipv4_mapped :: "ipv6 \<Rightarrow> ipv4 option" where
  "to_ipv4_mapped a = (if drop_bit 32 a = 0xFFFF then Some (ucast a) else None)"

fun from_ip :: "ip_addr \<Rightarrow> peer_key" where
  "from_ip (V4 v4) = KeyV4 v4"
| "from_ip (V6 v6) =
     (case to_ipv4_mapped v6 of
        Some v4 \<Rightarrow> KeyV4 v4
      | None \<Rightarrow>
          KeyV6 (ipv6_new
            [segment v6 0, segment v6 1, segment v6 2, segment v6 3, 0, 0, 0, 0]))"

unbundle bit_operations_syntax

lemma push_segment: "push_bit 16 (a :: ipv6) + ucast (s :: 16 word) = push_bit 16 a OR ucast s"
  by (rule disjunctive_add) (auto simp: bit_simps dest: bit_imp_le_length)

lemma ipv6_network:
  "ipv6_new [segment a 0, segment a 1, segment a 2, segment a 3, 0, 0, 0, 0] = push_bit 64 (drop_bit 64 a)"
proof (rule bit_word_eqI)
  fix n assume n: "n < LENGTH(128)"
  have "bit (ipv6_new [segment a 0, segment a 1, segment a 2, segment a 3, 0, 0, 0, 0]) n \<longleftrightarrow>
        64 \<le> n \<and> bit a n"
  proof -
    consider "n < 80" | "80 \<le> n" "n < 96" | "96 \<le> n" "n < 112" | "112 \<le> n" by linarith
    then show ?thesis
      using n by cases (auto simp: ipv6_new_def push_segment segment_def bit_simps)
  qed
  then show "bit (ipv6_new [segment a 0, segment a 1, segment a 2, segment a 3, 0, 0, 0, 0]) n \<longleftrightarrow>
        bit (push_bit 64 (drop_bit 64 a)) n"
    using n by (auto simp: bit_simps)
qed

definition as_ipv4 :: "ip_addr \<Rightarrow> ipv4 option" where
  "as_ipv4 ip = (case ip of V4 a \<Rightarrow> Some a | V6 a \<Rightarrow> to_ipv4_mapped a)"

text \<open>
  Peer identity. Two addresses are tracked as one peer exactly when both denote the same
  IPv4 address (an IPv4-mapped IPv6 address counts as the IPv4 address), or both are genuine IPv6
  addresses of the same /64 network: a client cannot escape a ban by moving inside its /64 nor by
  switching between the two spellings of its IPv4 address.
\<close>

lemma from_ip_same_peer:
  "from_ip x = from_ip y \<longleftrightarrow>
     as_ipv4 x = as_ipv4 y \<and>
     (as_ipv4 x = None \<longrightarrow>
        (\<exists>a b. x = V6 a \<and> y = V6 b \<and> (drop_bit 64 a :: ipv6) = drop_bit 64 b))"
proof -
  have net: "push_bit 64 (drop_bit 64 a) = push_bit 64 (drop_bit 64 b) \<longleftrightarrow> drop_bit 64 a = drop_bit 64 b"
    for a b :: ipv6
  proof
    assume "push_bit 64 (drop_bit 64 a) = push_bit 64 (drop_bit 64 b)"
    then have "drop_bit 64 (push_bit 64 (drop_bit 64 a)) = drop_bit 64 (push_bit 64 (drop_bit 64 b))" by simp
    moreover have "drop_bit 64 (push_bit 64 (drop_bit 64 c)) = drop_bit 64 c" for c :: ipv6
      by (rule bit_word_eqI) (auto simp: bit_simps dest: bit_imp_le_length)
    ultimately show "drop_bit 64 a = drop_bit 64 b" by simp
  qed simp
  show ?thesis
    by (cases x; cases y) (auto simp: as_ipv4_def ipv6_network [simplified] net split: option.splits)
qed

end
