(* ===== verification/Sasl.thy ===== *)
theory Sasl
  imports Prelude Peer
begin

text \<open>
  SASL authentication of the SMTP server (\<^verbatim>\<open>crates/smtpd/src/sasl.rs\<close>).
\<close>

record auth_request =
  ar_mechanism :: string
  ar_response :: string
  ar_secured :: bool
  ar_peer :: socket_addr

datatype auth_outcome =
    AuthSuccess string
  | InvalidCredentials
  | TemporaryFailure string

definition base64_char :: "char \<Rightarrow> bool" where
  "base64_char c \<longleftrightarrow> is_ascii_alphanumeric c \<or> c = CHR ''+'' \<or> c = CHR ''/''"

definition is_valid_base64 :: "string \<Rightarrow> bool" where
  "is_valid_base64 value =
     (if value = [] \<or> length value mod 4 \<noteq> 0 then False
      else
        (let padding = length (takeWhile (\<lambda>c. c = CHR ''='') (rev value)) in
         if padding > 2 then False
         else
           (let body = take (length value - padding) value in
            body \<noteq> [] \<and> list_all base64_char body)))"

end
