(* ===== verification/Session.thy ===== *)
theory Session
  imports Command DataSink RelayPolicy Sasl
begin

text \<open>
  The SMTP session state machine (\<^verbatim>\<open>crates/smtpd/src/session.rs\<close>). \<open>&mut self\<close> methods return the
  new session with their action or reply. The recipient directory behind the \<open>RecipientChecker\<close>
  trait is a function held by the session.

  Shown: an invariant kept by every entry point (phase and transaction state agree, recipients
  are distinct and bounded, the address rules hold for each of them), and from it that the server
  is no open relay, that authentication happens only under TLS and that a submission session
  sends only for the authenticated user. The entry points form a step relation, and the invariant
  is proved once for the generic notion of reachable state.
\<close>

datatype session_role = Mx | Submission

record session_config =
  sc_hostname :: string
  sc_max_message_size :: nat
  sc_max_recipients :: nat
  sc_bare_newline_policy :: bare_newline_policy
  sc_postmaster :: "string option"
  sc_offer_starttls :: bool
  sc_offer_auth :: bool
  sc_tls_active :: bool
  sc_require_auth_for_submission :: bool

definition session_config_default :: session_config where
  "session_config_default =
     \<lparr>sc_hostname = ''localhost'', sc_max_message_size = 25 * 1024 * 1024, sc_max_recipients = 100,
      sc_bare_newline_policy = Reject, sc_postmaster = None, sc_offer_starttls = False,
      sc_offer_auth = False, sc_tls_active = False, sc_require_auth_for_submission = False\<rparr>"

datatype action =
    ReplyWith reply
  | EnterData reply
  | StartTlsNow reply
  | Close reply
  | AuthChallenge reply
  | AuthVerify string string

record accepted_message =
  am_mail_from :: string
  am_recipients :: "string list"
  am_data :: string
  am_helo :: string
  am_role :: session_role
  am_authenticated :: bool
  am_secured :: bool

datatype phase = Connected | Greeted | InMail

type_synonym recipient_checker = "string \<Rightarrow> (string, bool) result"

record session =
  se_config :: session_config
  se_relay :: relay_policy
  se_directory :: recipient_checker
  se_phase :: phase
  se_helo :: "string option"
  se_esmtp :: bool
  se_mail_from :: "string option"
  se_recipients :: "string list"
  se_authenticated :: bool
  se_auth_user :: "string option"
  se_pending_auth :: "string option"
  se_tls_active :: bool
  se_role :: session_role

definition any_recipient :: recipient_checker where
  "any_recipient address = Inr True"

definition with_recipients :: "session_config \<Rightarrow> relay_policy \<Rightarrow> recipient_checker \<Rightarrow> session" where
  "with_recipients config relay directory =
     \<lparr>se_config = config, se_relay = relay, se_directory = directory, se_phase = Connected,
      se_helo = None, se_esmtp = False, se_mail_from = None, se_recipients = [],
      se_authenticated = False, se_auth_user = None, se_pending_auth = None,
      se_tls_active = sc_tls_active config,
      se_role = (if sc_offer_auth config \<or> sc_require_auth_for_submission config
                 then Submission else Mx)\<rparr>"

definition session_new :: "session_config \<Rightarrow> relay_policy \<Rightarrow> session" where
  "session_new config relay = with_recipients config relay any_recipient"

definition greeting :: "session \<Rightarrow> reply" where
  "greeting s = reply_new 220 (sc_hostname (se_config s) @ '' '' @ GREETING)"

definition awaiting_auth_response :: "session \<Rightarrow> bool" where
  "awaiting_auth_response s \<longleftrightarrow> se_pending_auth s \<noteq> None"

definition reset_transaction :: "session \<Rightarrow> session" where
  "reset_transaction s =
     s\<lparr>se_mail_from := None, se_recipients := [],
       se_phase := (if se_phase s = InMail then Greeted else se_phase s)\<rparr>"

definition ehlo_reply :: "session \<Rightarrow> reply" where
  "ehlo_reply s =
     multiline 250
       ([sc_hostname (se_config s) @ '' '' @ EHLO_OK,
         ''SIZE '' @ nat_to_string (sc_max_message_size (se_config s)),
         ''ENHANCEDSTATUSCODES''] @
        (if sc_offer_starttls (se_config s) \<and> \<not> se_tls_active s then [''STARTTLS''] else []) @
        (if sc_offer_auth (se_config s) \<and> se_tls_active s then [''AUTH PLAIN''] else []) @
        [''HELP''])"

definition hello :: "session \<Rightarrow> string \<Rightarrow> bool \<Rightarrow> session \<times> action" where
  "hello s name esmtp =
     (let s = (reset_transaction s)\<lparr>se_helo := Some name, se_esmtp := esmtp, se_phase := Greeted\<rparr> in
      if esmtp then (s, ReplyWith (ehlo_reply s))
      else (s, ReplyWith (reply_new 250 (sc_hostname (se_config s) @ '' '' @ EHLO_OK))))"

definition sender_owned_by :: "string \<Rightarrow> string \<Rightarrow> bool" where
  "sender_owned_by authenticated_user mail_from =
     (if mail_from = [] then True
      else
        (let user = to_ascii_lowercase (trim authenticated_user) in
         if user = [] then False
         else
           (let from = to_ascii_lowercase (trim mail_from) in
            if from = user then True
            else if CHR ''@'' \<notin> set user then
              (case rsplit_once (CHR ''@'') from of Some (l, _) \<Rightarrow> l = user | None \<Rightarrow> from = user)
            else False)))"

definition session_mail :: "session \<Rightarrow> string \<Rightarrow> mail_params \<Rightarrow> session \<times> action" where
  "session_mail s from params =
     (if se_phase s = Connected then (s, ReplyWith (with_enhanced 503 ''5.5.1'' SEQUENCE))
      else if se_mail_from s \<noteq> None then (s, ReplyWith (with_enhanced 503 ''5.5.1'' NESTED_MAIL))
      else if (case mp_size params of Some sz \<Rightarrow> sz > sc_max_message_size (se_config s) | None \<Rightarrow> False)
        then (s, ReplyWith (with_enhanced 552 ''5.3.4'' MESSAGE_TOO_LARGE))
      else if sc_require_auth_for_submission (se_config s) \<and> \<not> se_authenticated s
        then (s, ReplyWith (with_enhanced 530 ''5.7.0'' SUBMISSION_AUTH_REQUIRED))
      else if se_role s = Submission \<and>
              (case se_auth_user s of Some user \<Rightarrow> \<not> sender_owned_by user from | None \<Rightarrow> False)
        then (s, ReplyWith (with_enhanced 550 ''5.7.1'' SENDER_NOT_OWNED))
      else
        (s\<lparr>se_mail_from := Some from, se_recipients := [], se_phase := InMail\<rparr>,
         ReplyWith (with_enhanced 250 ''2.1.0'' MAIL_OK)))"

definition accept_recipient :: "session \<Rightarrow> string \<Rightarrow> session \<times> action" where
  "accept_recipient s to =
     (if to \<in> set (se_recipients s) then (s, ReplyWith (with_enhanced 250 ''2.1.5'' RCPT_OK))
      else (s\<lparr>se_recipients := se_recipients s @ [to]\<rparr>, ReplyWith (with_enhanced 250 ''2.1.5'' RCPT_OK)))"

definition reserved_postmaster :: "session \<Rightarrow> string \<Rightarrow> bool" where
  "reserved_postmaster s to =
     (case rsplit_once (CHR ''@'') to of
        Some (local, domain) \<Rightarrow>
          eq_ignore_ascii_case local ''postmaster'' \<and> is_managed (se_relay s) domain
      | None \<Rightarrow> eq_ignore_ascii_case to ''postmaster'')"

definition session_rcpt :: "session \<Rightarrow> string \<Rightarrow> session \<times> action" where
  "session_rcpt s to =
     (if se_phase s \<noteq> InMail then (s, ReplyWith (with_enhanced 503 ''5.5.1'' SEQUENCE))
      else if to \<in> set (se_recipients s) then (s, ReplyWith (with_enhanced 250 ''2.1.5'' RCPT_OK))
      else if reserved_postmaster s to then
        (case sc_postmaster (se_config s) of
           Some address \<Rightarrow> accept_recipient s address
         | None \<Rightarrow>
             (s, ReplyWith (with_enhanced 550 ''5.1.1'' ''postmaster address is not configured on this host'')))
      else if length (se_recipients s) \<ge> sc_max_recipients (se_config s) then
        (s, ReplyWith (with_enhanced 452 ''4.5.3'' TOO_MANY_RECIPIENTS))
      else
        (let domain = (case rsplit_once (CHR ''@'') to of Some (_, domain) \<Rightarrow> domain | None \<Rightarrow> []) in
         case evaluate (se_relay s) domain (se_authenticated s) of
           RelayAuthenticated \<Rightarrow> accept_recipient s to
         | RejectRelay code message \<Rightarrow> (s, ReplyWith (with_enhanced code ''5.7.1'' message))
         | DeliverLocal \<Rightarrow>
             (case se_directory s to of
                Inr True \<Rightarrow> accept_recipient s to
              | Inr False \<Rightarrow> (s, ReplyWith (with_enhanced 550 ''5.1.1'' RECIPIENT_UNKNOWN))
              | Inl reason \<Rightarrow> accept_recipient s to)))"

definition session_data :: "session \<Rightarrow> session \<times> action" where
  "session_data s =
     (if se_phase s \<noteq> InMail \<or> se_recipients s = []
      then (s, ReplyWith (with_enhanced 503 ''5.5.1'' NO_RECIPIENTS))
      else (s, EnterData (with_enhanced 354 ''2.0.0'' DATA_START)))"

definition discard_data :: "session \<Rightarrow> session" where
  "discard_data s = s\<lparr>se_mail_from := None, se_recipients := [], se_phase := Greeted\<rparr>"

definition finish_data :: "session \<Rightarrow> string \<Rightarrow> session \<times> reply \<times> accepted_message option" where
  "finish_data s data =
     (case se_mail_from s of
        None \<Rightarrow>
          (s\<lparr>se_recipients := [], se_phase := Greeted\<rparr>, with_enhanced 503 ''5.5.1'' SEQUENCE, None)
      | Some from \<Rightarrow>
          (let s' = s\<lparr>se_mail_from := None, se_recipients := [], se_phase := Greeted\<rparr> in
           if length data > sc_max_message_size (se_config s)
           then (s', with_enhanced 552 ''5.3.4'' MESSAGE_TOO_LARGE, None)
           else
             (s', with_enhanced 250 ''2.0.0'' DATA_OK,
              Some \<lparr>am_mail_from = from, am_recipients = se_recipients s, am_data = data,
                    am_helo = (case se_helo s of Some h \<Rightarrow> h | None \<Rightarrow> []), am_role = se_role s,
                    am_authenticated = se_authenticated s, am_secured = se_tls_active s\<rparr>)))"

definition start_tls :: "session \<Rightarrow> session \<times> action" where
  "start_tls s =
     (if se_tls_active s then (s, ReplyWith (with_enhanced 503 ''5.5.1'' ALREADY_TLS))
      else if \<not> sc_offer_starttls (se_config s)
        then (s, ReplyWith (with_enhanced 502 ''5.5.1'' STARTTLS_UNAVAILABLE))
      else if se_mail_from s \<noteq> None then (s, ReplyWith (with_enhanced 503 ''5.5.1'' SEQUENCE))
      else
        ((reset_transaction s)\<lparr>se_helo := None, se_phase := Connected, se_esmtp := False\<rparr>,
         StartTlsNow (reply_new 220 ''Ready to start TLS'')))"

definition activate_tls :: "session \<Rightarrow> session" where
  "activate_tls s = s\<lparr>se_tls_active := True\<rparr>"

definition request_verification :: "string \<Rightarrow> string \<Rightarrow> action" where
  "request_verification mechanism response =
     (if \<not> is_valid_base64 response
      then ReplyWith (with_enhanced 501 ''5.5.2'' AUTH_BAD_BASE64)
      else AuthVerify mechanism response)"

definition session_auth :: "session \<Rightarrow> string \<Rightarrow> string option \<Rightarrow> session \<times> action" where
  "session_auth s mechanism initial =
     (if \<not> sc_offer_auth (se_config s)
        then (s, ReplyWith (with_enhanced 502 ''5.5.1'' AUTH_UNAVAILABLE))
      else if \<not> se_tls_active s
        then (s, ReplyWith (with_enhanced 538 ''5.7.11'' AUTH_REQUIRED_FIRST))
      else if \<not> se_esmtp s \<or> se_phase s = Connected \<or> se_mail_from s \<noteq> None
        then (s, ReplyWith (with_enhanced 503 ''5.5.1'' SEQUENCE))
      else if se_authenticated s
        then (s, ReplyWith (with_enhanced 503 ''5.5.1'' AUTH_ALREADY))
      else if se_pending_auth s \<noteq> None
        then (s, ReplyWith (with_enhanced 503 ''5.5.1'' SEQUENCE))
      else if \<not> eq_ignore_ascii_case mechanism ''PLAIN''
        then (s, ReplyWith (with_enhanced 504 ''5.5.4'' AUTH_MECHANISM_UNKNOWN))
      else
        (let mechanism = to_ascii_uppercase mechanism in
         case initial of
           Some response \<Rightarrow> (s, request_verification mechanism response)
         | None \<Rightarrow> (s\<lparr>se_pending_auth := Some mechanism\<rparr>, AuthChallenge (reply_new 334 []))))"

definition continue_auth :: "session \<Rightarrow> string \<Rightarrow> session \<times> action" where
  "continue_auth s line =
     (case se_pending_auth s of
        None \<Rightarrow> (s, ReplyWith (with_enhanced 503 ''5.5.1'' SEQUENCE))
      | Some mechanism \<Rightarrow>
          (let s' = s\<lparr>se_pending_auth := None\<rparr> in
           if line = ''*'' then (s', ReplyWith (with_enhanced 501 ''5.5.2'' AUTH_CANCELLED))
           else if \<not> valid_utf8 line then (s', ReplyWith (with_enhanced 501 ''5.5.2'' AUTH_BAD_BASE64))
           else (s', request_verification mechanism line)))"

definition complete_auth :: "session \<Rightarrow> auth_outcome \<Rightarrow> session \<times> reply" where
  "complete_auth s outcome =
     (let s = s\<lparr>se_pending_auth := None\<rparr> in
      case outcome of
        AuthSuccess user \<Rightarrow>
          (s\<lparr>se_authenticated := True, se_auth_user := Some user\<rparr>, with_enhanced 235 ''2.7.0'' AUTH_OK)
      | InvalidCredentials \<Rightarrow> (s, with_enhanced 535 ''5.7.8'' AUTH_FAILED)
      | TemporaryFailure _ \<Rightarrow> (s, with_enhanced 454 ''4.7.0'' AUTH_TEMPORARY_FAILURE))"

fun handle :: "session \<Rightarrow> command \<Rightarrow> session \<times> action" where
  "handle s (Ehlo name) = hello s name True"
| "handle s (Helo name) = hello s name False"
| "handle s (Mail from params) = session_mail s from params"
| "handle s (Rcpt to) = session_rcpt s to"
| "handle s Data = session_data s"
| "handle s Rset = (reset_transaction s, ReplyWith (reply_new 250 RSET_OK))"
| "handle s Noop = (s, ReplyWith (reply_new 250 NOOP_OK))"
| "handle s Quit = (reset_transaction s, Close (with_enhanced 221 ''2.0.0'' BYE))"
| "handle s (Vrfy _) = (s, ReplyWith (with_enhanced 502 ''5.5.1'' VRFY_DISABLED))"
| "handle s (Help _) = (s, ReplyWith (reply_new 214 HELP))"
| "handle s StartTls = start_tls s"
| "handle s (Auth mechanism initial) = session_auth s mechanism initial"
| "handle s (Unknown _) = (s, ReplyWith (with_enhanced 500 ''5.5.1'' UNKNOWN_COMMAND))"

section \<open>The session as a transition system\<close>

text \<open>
  What the connection does next after an action: read another line, ask the authenticator, collect
  a message, negotiate TLS, or nothing more.
\<close>

datatype work = Idle | Verifying string string | Receiving | Upgrading | Finished

fun work_of :: "action \<Rightarrow> work" where
  "work_of (ReplyWith _) = Idle"
| "work_of (EnterData _) = Receiving"
| "work_of (StartTlsNow _) = Upgrading"
| "work_of (Close _) = Finished"
| "work_of (AuthChallenge _) = Idle"
| "work_of (AuthVerify m r) = Verifying m r"

text \<open>
  The calls the connection loop makes, with arbitrary input from the network: commands while no
  authentication exchange is open, otherwise the client's SASL response; the authenticator's
  verdict; the end of a message, its rejection while it is read, or a refusal to start reading it for
  want of memory; the TLS handshake.
\<close>

inductive session_step :: "session \<times> work \<Rightarrow> session \<times> work \<Rightarrow> bool" where
  command: "\<not> awaiting_auth_response s \<Longrightarrow> handle s c = (s1, a) \<Longrightarrow> session_step (s, Idle) (s1, work_of a)"
| response: "awaiting_auth_response s \<Longrightarrow> continue_auth s line = (s1, a) \<Longrightarrow>
    session_step (s, Idle) (s1, work_of a)"
| verdict: "complete_auth s outcome = (s1, r) \<Longrightarrow> session_step (s, Verifying m x) (s1, Idle)"
| message: "finish_data s d = (s1, r, m) \<Longrightarrow> session_step (s, Receiving) (s1, Idle)"
| dropped: "session_step (s, Receiving) (discard_data s, Idle)"
| deferred: "session_step (s, Receiving) (s, Idle)"
| secured: "session_step (s, Upgrading) (activate_tls s, Idle)"

definition rcpt_domain :: "string \<Rightarrow> string" where
  "rcpt_domain to = (case rsplit_once (CHR ''@'') to of Some (_, domain) \<Rightarrow> domain | None \<Rightarrow> [])"

definition rcpt_allowed :: "session \<Rightarrow> string \<Rightarrow> bool" where
  "rcpt_allowed s to \<longleftrightarrow>
     se_authenticated s \<or> sc_postmaster (se_config s) = Some to \<or>
     is_managed (se_relay s) (rcpt_domain to) \<and> se_directory s to \<noteq> Inr False"

definition transaction_ok :: "session \<Rightarrow> bool" where
  "transaction_ok s \<longleftrightarrow>
     (se_phase s = InMail \<longleftrightarrow> se_mail_from s \<noteq> None) \<and>
     (se_phase s = Connected \<longleftrightarrow> se_helo s = None) \<and>
     (se_mail_from s = None \<longrightarrow> se_recipients s = []) \<and>
     distinct (se_recipients s) \<and>
     length (filter (\<lambda>r. sc_postmaster (se_config s) \<noteq> Some r) (se_recipients s))
       \<le> sc_max_recipients (se_config s) \<and>
     (\<forall>r\<in>set (se_recipients s). rcpt_allowed s r)"

definition auth_ok :: "session \<Rightarrow> bool" where
  "auth_ok s \<longleftrightarrow>
     (se_authenticated s \<longleftrightarrow> se_auth_user s \<noteq> None) \<and>
     (se_authenticated s \<or> se_pending_auth s \<noteq> None \<longrightarrow> se_tls_active s \<and> sc_offer_auth (se_config s)) \<and>
     (se_pending_auth s \<noteq> None \<longrightarrow>
        se_pending_auth s = Some ''PLAIN'' \<and> \<not> se_authenticated s \<and> se_mail_from s = None) \<and>
     (sc_require_auth_for_submission (se_config s) \<and> se_mail_from s \<noteq> None \<longrightarrow> se_authenticated s) \<and>
     (\<forall>u f. se_role s = Submission \<and> se_auth_user s = Some u \<and> se_mail_from s = Some f \<longrightarrow>
        sender_owned_by u f)"

definition work_ok :: "session \<Rightarrow> work \<Rightarrow> bool" where
  "work_ok s w \<longleftrightarrow>
     (case w of
        Verifying m x \<Rightarrow>
          m = ''PLAIN'' \<and> is_valid_base64 x \<and> se_tls_active s \<and> sc_offer_auth (se_config s) \<and>
          \<not> se_authenticated s \<and> se_mail_from s = None
      | Receiving \<Rightarrow> se_phase s = InMail \<and> se_recipients s \<noteq> []
      | Upgrading \<Rightarrow> \<not> se_tls_active s \<and> sc_offer_starttls (se_config s) \<and> se_phase s = Connected
      | _ \<Rightarrow> True)"

definition session_inv :: "session \<times> work \<Rightarrow> bool" where
  "session_inv sw \<longleftrightarrow> transaction_ok (fst sw) \<and> auth_ok (fst sw) \<and> work_ok (fst sw) (snd sw)"

lemmas session_inv_defs = session_inv_def transaction_ok_def auth_ok_def work_ok_def rcpt_allowed_def

text \<open>What no entry point changes.\<close>

definition session_frame :: "session \<Rightarrow> session_config \<times> relay_policy \<times> recipient_checker \<times> session_role" where
  "session_frame s = (se_config s, se_relay s, se_directory s, se_role s)"

lemma hello_inv:
  "session_inv (s, Idle) \<Longrightarrow> \<not> awaiting_auth_response s \<Longrightarrow> session_inv (fst (hello s n e), work_of (snd (hello s n e)))"
  by (auto simp: session_inv_defs hello_def reset_transaction_def Let_def awaiting_auth_response_def)

lemma mail_inv:
  "session_inv (s, Idle) \<Longrightarrow> \<not> awaiting_auth_response s \<Longrightarrow>
   session_inv (fst (session_mail s f p), work_of (snd (session_mail s f p)))"
  by (auto simp: session_inv_defs session_mail_def awaiting_auth_response_def split: option.splits)

lemma recipients_frame [simp]:
  "rcpt_allowed (s\<lparr>se_recipients := rs\<rparr>) r = rcpt_allowed s r"
  "auth_ok (s\<lparr>se_recipients := rs\<rparr>) = auth_ok s"
  "auth_ok (s\<lparr>se_helo := h\<rparr>) = auth_ok s"
  "auth_ok (s\<lparr>se_esmtp := e\<rparr>) = auth_ok s"
  "auth_ok (s\<lparr>se_phase := p\<rparr>) = auth_ok s"
  by (simp_all add: rcpt_allowed_def auth_ok_def)

lemma pending_frame [simp]:
  "transaction_ok (s\<lparr>se_pending_auth := x\<rparr>) = transaction_ok s"
  by (simp add: transaction_ok_def rcpt_allowed_def)

lemma accept_recipient_inv:
  assumes "session_inv (s, Idle)" and "se_phase s = InMail" and "rcpt_allowed s t"
    and "sc_postmaster (se_config s) = Some t \<or> length (se_recipients s) < sc_max_recipients (se_config s)"
  shows "session_inv (fst (accept_recipient s t), Idle)"
proof -
  have le: "length (se_recipients s) < n \<Longrightarrow>
      Suc (length (filter (\<lambda>r. sc_postmaster (se_config s) \<noteq> Some r) (se_recipients s))) \<le> n" for n
    using length_filter_le le_less_trans Suc_leI by blast
  have t: "transaction_ok s" and a: "auth_ok s" using assms(1) by (simp_all add: session_inv_def)
  have "transaction_ok (s\<lparr>se_recipients := se_recipients s @ [t]\<rparr>)" if "t \<notin> set (se_recipients s)"
    using t assms(2-) that le by (auto simp: transaction_ok_def)
  with t a show ?thesis by (simp add: session_inv_def accept_recipient_def work_ok_def)
qed

lemma accept_recipient_reply [simp]: "work_of (snd (accept_recipient s t)) = Idle"
  by (simp add: accept_recipient_def)

lemma rcpt_inv:
  assumes "session_inv (s, Idle)"
  shows "session_inv (fst (session_rcpt s t), work_of (snd (session_rcpt s t)))"
  unfolding session_rcpt_def Let_def
  using assms
  by (auto simp: rcpt_allowed_def rcpt_domain_def intro!: accept_recipient_inv dest!: evaluate_Relay
      split: option.splits relay_decision.splits sum.splits bool.splits)

lemma data_inv: "session_inv (s, Idle) \<Longrightarrow> session_inv (fst (session_data s), work_of (snd (session_data s)))"
  by (simp add: session_inv_def session_data_def work_ok_def)

text \<open>Ending the transaction keeps everything; only the phase and the greeting have to agree.\<close>

lemma auth_ok_cleared: "auth_ok s \<Longrightarrow> auth_ok (s\<lparr>se_mail_from := None\<rparr>)"
  unfolding auth_ok_def by auto

lemma transaction_ok_cleared:
  "p \<noteq> InMail \<Longrightarrow> p = Connected \<longleftrightarrow> se_helo s = None \<Longrightarrow>
   transaction_ok (s\<lparr>se_mail_from := None, se_recipients := [], se_phase := p\<rparr>)"
  by (simp add: transaction_ok_def)

lemma reset_ok:
  assumes "transaction_ok s" and "auth_ok s"
  shows "transaction_ok (reset_transaction s) \<and> auth_ok (reset_transaction s)"
proof -
  have "(if se_phase s = InMail then Greeted else se_phase s) = Connected \<longleftrightarrow> se_helo s = None"
    using assms(1) by (auto simp: transaction_ok_def)
  with assms(2) show ?thesis
    by (simp add: reset_transaction_def transaction_ok_cleared auth_ok_cleared)
qed

lemma reset_inv:
  "session_inv (s, Idle) \<Longrightarrow> session_inv (reset_transaction s, Idle) \<and> session_inv (reset_transaction s, Finished)"
  using reset_ok [of s] by (simp add: session_inv_def work_ok_def)

lemma start_tls_inv:
  assumes "session_inv (s, Idle)"
  shows "session_inv (fst (start_tls s), work_of (snd (start_tls s)))"
proof -
  have "transaction_ok (s\<lparr>se_mail_from := None, se_recipients := [], se_helo := None,
          se_phase := Connected, se_esmtp := False\<rparr>)" by (simp add: transaction_ok_def)
  moreover have "auth_ok (s\<lparr>se_mail_from := None, se_recipients := [], se_helo := None,
          se_phase := Connected, se_esmtp := False\<rparr>)"
    using assms auth_ok_cleared [of s] by (simp add: session_inv_def)
  ultimately show ?thesis
    using assms by (simp add: session_inv_def start_tls_def reset_transaction_def work_ok_def)
qed

lemma request_verification_work:
  "work_of (request_verification m x) = (if is_valid_base64 x then Verifying m x else Idle)"
  by (simp add: request_verification_def)

lemma eq_ignore_plain: "eq_ignore_ascii_case m ''PLAIN'' \<Longrightarrow> to_ascii_uppercase m = ''PLAIN''"
proof -
  assume "eq_ignore_ascii_case m ''PLAIN''"
  then have "map ascii_upper (map ascii_lower m) = map ascii_upper (map ascii_lower ''PLAIN'')"
    by (simp only: eq_ignore_ascii_case_def to_ascii_lowercase_def)
  moreover have "map ascii_upper (map ascii_lower ''PLAIN'') = ''PLAIN''" by code_simp
  moreover have "map ascii_upper (map ascii_lower m) = map ascii_upper m" by simp
  ultimately show ?thesis by (simp only: to_ascii_uppercase_def)
qed

definition auth_enabled :: "session \<Rightarrow> string \<Rightarrow> bool" where
  "auth_enabled s m \<longleftrightarrow>
     sc_offer_auth (se_config s) \<and> se_tls_active s \<and> se_esmtp s \<and> se_phase s \<noteq> Connected \<and>
     se_mail_from s = None \<and> \<not> se_authenticated s \<and> se_pending_auth s = None \<and>
     eq_ignore_ascii_case m ''PLAIN''"

lemma session_auth_disabled:
  "\<not> auth_enabled s m \<Longrightarrow> fst (session_auth s m x) = s \<and> work_of (snd (session_auth s m x)) = Idle"
  by (auto simp: session_auth_def auth_enabled_def)

lemma session_auth_enabled:
  "auth_enabled s m \<Longrightarrow>
   session_auth s m x =
     (case x of
        Some response \<Rightarrow> (s, request_verification ''PLAIN'' response)
      | None \<Rightarrow> (s\<lparr>se_pending_auth := Some ''PLAIN''\<rparr>, AuthChallenge (reply_new 334 [])))"
  using eq_ignore_plain [of m] by (auto simp: session_auth_def auth_enabled_def split: option.splits)

lemma auth_inv:
  assumes "session_inv (s, Idle)"
  shows "session_inv (fst (session_auth s m x), work_of (snd (session_auth s m x)))"
proof (cases "auth_enabled s m")
  case True
  with assms session_auth_enabled [OF True, of x] show ?thesis
    by (cases x) (simp_all add: session_inv_def auth_ok_def work_ok_def auth_enabled_def request_verification_work)
next
  case False
  with assms session_auth_disabled [OF False, of x] show ?thesis by simp
qed

lemma continue_auth_inv:
  assumes "session_inv (s, Idle)"
  shows "session_inv (fst (continue_auth s l), work_of (snd (continue_auth s l)))"
proof (cases "se_pending_auth s")
  case None
  with assms show ?thesis by (simp add: continue_auth_def)
next
  case (Some m)
  have a: "auth_ok s" using assms by (simp add: session_inv_def)
  then have "auth_ok (s\<lparr>se_pending_auth := None\<rparr>)" by (auto simp: auth_ok_def)
  moreover from a Some have "m = ''PLAIN''" "se_tls_active s" "sc_offer_auth (se_config s)"
    "\<not> se_authenticated s" "se_mail_from s = None" by (auto simp: auth_ok_def)
  ultimately show ?thesis
    using assms Some
    by (simp add: session_inv_def continue_auth_def request_verification_work work_ok_def Let_def)
qed

lemma handle_inv:
  "session_inv (s, Idle) \<Longrightarrow> \<not> awaiting_auth_response s \<Longrightarrow>
   session_inv (fst (handle s c), work_of (snd (handle s c)))"
  by (cases c)
     (simp_all add: hello_inv mail_inv rcpt_inv data_inv reset_inv start_tls_inv auth_inv)

lemma complete_auth_inv: "session_inv (s, Verifying m x) \<Longrightarrow> session_inv (fst (complete_auth s r), Idle)"
  by (auto simp: session_inv_defs complete_auth_def Let_def split: auth_outcome.splits)

lemma discard_data_inv:
  assumes "session_inv (s, Receiving)"
  shows "session_inv (discard_data s, Idle)"
proof -
  have "Greeted = Connected \<longleftrightarrow> se_helo s = None"
    using assms by (auto simp: session_inv_def transaction_ok_def work_ok_def)
  then show ?thesis
    using assms by (simp add: session_inv_def discard_data_def transaction_ok_cleared auth_ok_cleared work_ok_def)
qed

lemma finish_data_discard:
  "session_inv (s, Receiving) \<Longrightarrow> fst (finish_data s d) = discard_data s"
  by (auto simp: finish_data_def discard_data_def session_inv_def transaction_ok_def work_ok_def Let_def)

lemma finish_data_inv: "session_inv (s, Receiving) \<Longrightarrow> session_inv (fst (finish_data s d), Idle)"
  by (simp add: finish_data_discard discard_data_inv)

lemma activate_tls_inv: "session_inv (s, Upgrading) \<Longrightarrow> session_inv (activate_tls s, Idle)"
  by (auto simp: session_inv_defs activate_tls_def)

lemma session_step_inv: "session_step sw tw \<Longrightarrow> session_inv sw \<Longrightarrow> session_inv tw"
proof (induction rule: session_step.induct)
  case (command s c s1 a)
  then show ?case using handle_inv [of s c] by simp
next
  case (response s line s1 a)
  then show ?case using continue_auth_inv [of s line] by simp
next
  case (verdict s outcome s1 r m x)
  then show ?case using complete_auth_inv [of s m x outcome] by simp
next
  case (message s d s1 r m)
  then show ?case using finish_data_inv [of s d] by simp
next
  case (deferred s)
  then show ?case by (simp add: session_inv_def work_ok_def)
qed (simp_all add: discard_data_inv activate_tls_inv)

interpretation se: step_invariant session_step session_inv
  by unfold_locales (rule session_step_inv)

lemma accept_frame: "session_frame (fst (accept_recipient s t)) = session_frame s"
  by (simp add: session_frame_def accept_recipient_def)

lemma rcpt_frame: "session_frame (fst (session_rcpt s t)) = session_frame s"
  unfolding session_rcpt_def Let_def
  by (auto simp: accept_frame split: option.splits relay_decision.splits sum.splits bool.splits)

lemma auth_frame: "session_frame (fst (session_auth s m x)) = session_frame s"
proof (cases "auth_enabled s m")
  case True
  then show ?thesis by (cases x) (simp_all add: session_auth_enabled session_frame_def)
qed (simp add: session_auth_disabled)

lemma handle_frame: "session_frame (fst (handle s c)) = session_frame s"
proof (cases "\<exists>t. c = Rcpt t \<or> (\<exists>m x. c = Auth m x)")
  case True
  then show ?thesis by (auto simp: rcpt_frame auth_frame)
next
  case False
  then show ?thesis
    by (cases c) (simp_all add: session_frame_def hello_def session_mail_def session_data_def start_tls_def
        reset_transaction_def Let_def)
qed

lemma session_step_frame: "session_step sw tw \<Longrightarrow> session_frame (fst tw) = session_frame (fst sw)"
proof (induction rule: session_step.induct)
  case (command s c s1 a)
  then show ?case using handle_frame [of s c] by simp
qed (auto simp: session_frame_def continue_auth_def complete_auth_def finish_data_def discard_data_def
       activate_tls_def Let_def split: option.splits if_splits auth_outcome.splits)

interpretation se_frame: step_invariant session_step "\<lambda>sw. session_frame (fst sw) = x" for x
  by unfold_locales (simp add: session_step_frame)

text \<open>The states a connection with this configuration can reach, whatever the client sends.\<close>

definition session_reachable ::
  "session_config \<Rightarrow> relay_policy \<Rightarrow> recipient_checker \<Rightarrow> session \<Rightarrow> work \<Rightarrow> bool" where
  "session_reachable config relay directory s w \<longleftrightarrow>
     session_step\<^sup>*\<^sup>* (with_recipients config relay directory, Idle) (s, w)"

lemma session_inv_init: "session_inv (with_recipients config relay directory, Idle)"
  by (simp add: session_inv_defs with_recipients_def)

lemma session_reachable_inv: "session_reachable c r d s w \<Longrightarrow> session_inv (s, w)"
  unfolding session_reachable_def by (rule se.run_inv [OF _ session_inv_init])

lemma session_reachable_frame:
  assumes "session_reachable c r d s w"
  shows "se_config s = c \<and> se_relay s = r \<and> se_directory s = d \<and>
         se_role s = (if sc_offer_auth c \<or> sc_require_auth_for_submission c then Submission else Mx)"
  using se_frame.run_inv [OF assms [unfolded session_reachable_def], of "session_frame (with_recipients c r d)"]
  by (simp add: session_frame_def with_recipients_def)

text \<open>Running commands one after the other, as long as each leaves the session ready for the next.\<close>

fun session_run :: "session \<times> work \<Rightarrow> command list \<Rightarrow> session \<times> work" where
  "session_run sw [] = sw"
| "session_run (s, w) (c # cs) =
     (if w = Idle \<and> \<not> awaiting_auth_response s
      then session_run (fst (handle s c), work_of (snd (handle s c))) cs else (s, w))"

lemma session_run_steps: "session_step\<^sup>*\<^sup>* sw (session_run sw cs)"
proof (induction sw cs rule: session_run.induct)
  case (2 s w c cs)
  show ?case
  proof (cases "w = Idle \<and> \<not> awaiting_auth_response s")
    case True
    then have "session_step (s, w) (fst (handle s c), work_of (snd (handle s c)))"
      using session_step.command [of s c "fst (handle s c)" "snd (handle s c)"] by simp
    with True 2 show ?thesis by (simp add: converse_rtranclp_into_rtranclp)
  qed auto
qed simp

lemma session_run_reachable:
  "session_run (with_recipients c r d, Idle) cs = (s, w) \<Longrightarrow> session_reachable c r d s w"
  unfolding session_reachable_def using session_run_steps [of "(with_recipients c r d, Idle)" cs] by simp

lemma finish_data_Some:
  "finish_data s d = (s1, r, Some m) \<Longrightarrow>
   am_recipients m = se_recipients s \<and> se_mail_from s = Some (am_mail_from m) \<and> am_data m = d \<and>
   am_authenticated m = se_authenticated s \<and> am_secured m = se_tls_active s \<and> am_role m = se_role s \<and>
   length d \<le> sc_max_message_size (se_config s) \<and> r_code r = 250"
  by (auto simp: finish_data_def Let_def with_enhanced_def split: option.splits if_splits)

lemma length_with_exception:
  assumes "distinct xs" and "length (filter (\<lambda>x. p \<noteq> Some x) xs) \<le> n"
  shows "length xs \<le> Suc n"
proof -
  have "length (filter (\<lambda>x. p = Some x) xs) \<le> 1"
  proof -
    have "distinct (filter (\<lambda>x. p = Some x) xs)" using assms(1) by simp
    then have "length (filter (\<lambda>x. p = Some x) xs) = card (set (filter (\<lambda>x. p = Some x) xs))"
      by (rule distinct_card [symmetric])
    also have "\<dots> \<le> card {the p}" by (rule card_mono) auto
    finally show ?thesis by simp
  qed
  then show ?thesis using assms(2) sum_length_filter_compl [of "\<lambda>x. p = Some x" xs] by simp
qed

text \<open>What is known of an accepted message from its configuration alone.\<close>

definition message_ok :: "session_config \<Rightarrow> relay_policy \<Rightarrow> recipient_checker \<Rightarrow> accepted_message \<Rightarrow> bool" where
  "message_ok config relay directory m \<longleftrightarrow>
     am_recipients m \<noteq> [] \<and> distinct (am_recipients m) \<and>
     length (am_recipients m) \<le> Suc (sc_max_recipients config) \<and>
     length (am_data m) \<le> sc_max_message_size config \<and>
     (\<forall>to\<in>set (am_recipients m).
        am_authenticated m \<or> sc_postmaster config = Some to \<or>
        is_managed relay (rcpt_domain to) \<and> directory to \<noteq> Inr False) \<and>
     (am_authenticated m \<longrightarrow> am_secured m) \<and>
     (sc_require_auth_for_submission config \<longrightarrow> am_authenticated m)"

lemma accepted_message_ok:
  assumes "session_reachable config relay directory s Receiving"
    and "finish_data s d = (s1, r, Some m)"
  shows "message_ok config relay directory m"
proof -
  note inv = session_reachable_inv [OF assms(1)]
  note fr = session_reachable_frame [OF assms(1)]
  note fin = finish_data_Some [OF assms(2)]
  have "length (se_recipients s) \<le> Suc (sc_max_recipients config)"
    using inv fr by (intro length_with_exception [of _ "sc_postmaster config"])
      (simp_all add: session_inv_def transaction_ok_def)
  moreover have "(se_authenticated s \<longrightarrow> se_tls_active s) \<and> (sc_require_auth_for_submission config \<longrightarrow> se_authenticated s)"
    using inv fr fin by (auto simp: session_inv_def auth_ok_def)
  ultimately show ?thesis
    using inv fr fin
    by (simp add: message_ok_def session_inv_def transaction_ok_def work_ok_def rcpt_allowed_def)
qed

text \<open>
  \<^bold>\<open>C4\<close> (no open relay). Whatever the client sends, every message the session accepts has at
  least one recipient, all of them distinct and at most one more than the configured maximum, and
  each recipient of an unauthenticated sender is the configured postmaster mailbox or an address
  in a managed domain that the directory has not reported missing. The message is within the size
  limit.
\<close>

theorem no_open_relay:
  assumes "session_reachable config relay directory s Receiving"
    and "finish_data s d = (s1, r, Some m)"
  shows "am_recipients m \<noteq> [] \<and> distinct (am_recipients m) \<and>
         length (am_recipients m) \<le> Suc (sc_max_recipients config) \<and>
         length (am_data m) \<le> sc_max_message_size config \<and>
         (\<forall>to\<in>set (am_recipients m).
            am_authenticated m \<or> sc_postmaster config = Some to \<or>
            is_managed relay (rcpt_domain to) \<and> directory to \<noteq> Inr False)"
  using accepted_message_ok [OF assms] by (simp add: message_ok_def)

definition sample_config :: session_config where
  "sample_config =
     \<lparr>sc_hostname = ''h'', sc_max_message_size = 9, sc_max_recipients = 2, sc_bare_newline_policy = Reject,
      sc_postmaster = None, sc_offer_starttls = True, sc_offer_auth = False, sc_tls_active = False,
      sc_require_auth_for_submission = False\<rparr>"

definition sample_relay :: relay_policy where
  "sample_relay = relay_policy_new [''example.com'']"

definition sample_mx :: session where
  "sample_mx =
     fst (session_run (with_recipients sample_config sample_relay any_recipient, Idle)
       [Ehlo ''c'', Mail ''a@b.org'' mail_params_default, Rcpt ''x@Example.com'', Rcpt ''y@evil.net'', Data])"

theorem no_open_relay_witness:
  "am_recipients (the (snd (snd (finish_data sample_mx ''hi'')))) = [''x@Example.com''] \<and>
   is_managed sample_relay (rcpt_domain ''x@Example.com'')"
proof -
  let ?cs = "[Ehlo ''c'', Mail ''a@b.org'' mail_params_default, Rcpt ''x@Example.com'', Rcpt ''y@evil.net'', Data]"
  let ?m = "the (snd (snd (finish_data sample_mx ''hi'')))"
  have w: "snd (session_run (with_recipients sample_config sample_relay any_recipient, Idle)
       ?cs) = Receiving"
    by code_simp
  have r: "session_reachable sample_config sample_relay any_recipient sample_mx Receiving"
    by (rule session_run_reachable [where cs = ?cs]) (simp add: sample_mx_def prod_eq_iff w del: session_run.simps)
  have m: "am_recipients ?m = [''x@Example.com''] \<and> \<not> am_authenticated ?m \<and>
           snd (snd (finish_data sample_mx ''hi'')) \<noteq> None" by code_simp
  then have "finish_data sample_mx ''hi'' =
      (fst (finish_data sample_mx ''hi''), fst (snd (finish_data sample_mx ''hi'')), Some ?m)"
    by (simp add: prod_eq_iff)
  from no_open_relay [OF r this] m show ?thesis by (simp add: sample_config_def)
qed

text \<open>
  \<^bold>\<open>C8\<close> (authentication only under TLS). In every reachable state credentials are handed to the
  authenticator only for the PLAIN mechanism, with a well-formed base64 response, over an active
  TLS layer, with authentication offered and outside a mail transaction; a session is
  authenticated only if TLS is active, and a user name is known exactly then.
\<close>

theorem auth_only_under_tls:
  assumes "session_reachable config relay directory s w"
  shows "(\<forall>m x. w = Verifying m x \<longrightarrow>
            m = ''PLAIN'' \<and> is_valid_base64 x \<and> se_tls_active s \<and> sc_offer_auth config \<and>
            se_mail_from s = None \<and> \<not> se_authenticated s) \<and>
         (se_authenticated s \<longrightarrow> se_tls_active s \<and> sc_offer_auth config) \<and>
         (se_authenticated s \<longleftrightarrow> se_auth_user s \<noteq> None)"
  using session_reachable_inv [OF assms] session_reachable_frame [OF assms]
  by (cases w) (auto simp: session_inv_def auth_ok_def work_ok_def)

text \<open>
  \<^bold>\<open>C9\<close> (submission identity). If the listener requires authentication, every accepted message
  comes from an authenticated session over TLS, and its envelope sender is empty or owned by the
  authenticated user.
\<close>

theorem submission_sender_is_owned:
  assumes "session_reachable config relay directory s Receiving"
    and "sc_require_auth_for_submission config"
    and "finish_data s d = (s1, r, Some m)"
  shows "am_authenticated m \<and> am_secured m \<and> am_role m = Submission \<and>
         (\<exists>u. se_auth_user s = Some u \<and> sender_owned_by u (am_mail_from m))"
proof -
  note inv = session_reachable_inv [OF assms(1)]
  note fr = session_reachable_frame [OF assms(1)]
  note fin = finish_data_Some [OF assms(3)]
  have a: "auth_ok s" using inv by (simp add: session_inv_def)
  then have "se_authenticated s" using fr fin assms(2) by (auto simp: auth_ok_def)
  moreover from this a obtain u where "se_auth_user s = Some u" by (auto simp: auth_ok_def)
  ultimately show ?thesis using a fr fin assms(2) by (auto simp: auth_ok_def)
qed

definition sample_submission_config :: session_config where
  "sample_submission_config =
     sample_config\<lparr>sc_offer_auth := True, sc_tls_active := True, sc_require_auth_for_submission := True\<rparr>"

definition sample_login :: session where
  "sample_login =
     fst (session_run (with_recipients sample_submission_config sample_relay any_recipient, Idle)
       [Ehlo ''c'', Auth ''plain'' (Some ''AGEAYg=='')])"

definition sample_user :: session where
  "sample_user =
     fst (session_run (fst (complete_auth sample_login (AuthSuccess ''u@example.com'')), Idle)
       [Mail ''U@example.com'' mail_params_default, Rcpt ''z@elsewhere.net'', Data])"

lemma sample_login_reachable:
  "session_reachable sample_submission_config sample_relay any_recipient sample_login
     (Verifying ''PLAIN'' ''AGEAYg=='')"
proof (rule session_run_reachable)
  have "snd (session_run (with_recipients sample_submission_config sample_relay any_recipient, Idle)
       [Ehlo ''c'', Auth ''plain'' (Some ''AGEAYg=='')]) = Verifying ''PLAIN'' ''AGEAYg==''" by code_simp
  then show "session_run (with_recipients sample_submission_config sample_relay any_recipient, Idle)
       [Ehlo ''c'', Auth ''plain'' (Some ''AGEAYg=='')] = (sample_login, Verifying ''PLAIN'' ''AGEAYg=='')"
    by (simp add: sample_login_def prod_eq_iff del: session_run.simps)
qed

theorem auth_only_under_tls_witness:
  "se_tls_active sample_login \<and> is_valid_base64 ''AGEAYg==''"
  using auth_only_under_tls [OF sample_login_reachable] by simp

theorem submission_sender_is_owned_witness:
  "\<exists>u. se_auth_user sample_user = Some u \<and> sender_owned_by u ''U@example.com''"
proof -
  let ?login = "(fst (complete_auth sample_login (AuthSuccess ''u@example.com'')), Idle)"
  let ?cs = "[Mail ''U@example.com'' mail_params_default, Rcpt ''z@elsewhere.net'', Data]"
  let ?m = "the (snd (snd (finish_data sample_user ''hi'')))"
  have "snd (session_run ?login ?cs) = Receiving" by code_simp
  then have run: "session_run ?login ?cs = (sample_user, Receiving)"
    by (simp add: sample_user_def prod_eq_iff del: session_run.simps)
  have "session_step (sample_login, Verifying ''PLAIN'' ''AGEAYg=='') ?login"
    by (rule session_step.verdict [where r = "snd (complete_auth sample_login (AuthSuccess ''u@example.com''))"]) simp
  with sample_login_reachable session_run_steps [of ?login ?cs] run
  have r: "session_reachable sample_submission_config sample_relay any_recipient sample_user Receiving"
    by (simp add: session_reachable_def del: session_run.simps)
  have q: "sc_require_auth_for_submission sample_submission_config" by code_simp
  have m: "am_mail_from ?m = ''U@example.com'' \<and> snd (snd (finish_data sample_user ''hi'')) \<noteq> None"
    by code_simp
  then have "finish_data sample_user ''hi'' =
      (fst (finish_data sample_user ''hi''), fst (snd (finish_data sample_user ''hi'')), Some ?m)"
    by (simp add: prod_eq_iff)
  from submission_sender_is_owned [OF r q this] m show ?thesis by simp
qed

end
