(* ===== verification/Connection.thy ===== *)
theory Connection
  imports Session
begin

text \<open>
  One SMTP connection (\<^verbatim>\<open>crates/smtpd/src/connection.rs\<close>): the command loop \<open>drive\<close>, the DATA loop
  \<open>collect_data\<close> and the process-wide memory budget for messages in flight.

  The stream is the list of results its reads will give; a trace that ends is a peer that stays
  silent until the timeout. A reply is one write, whose success the environment decides. The
  authenticator and the message sink are functions of the environment: the former of the number of
  the call, the latter of a state of its own. What other connections hold of the memory budget is
  visible to this one only when it tries to reserve its share.

  Shown: every session state the loop passes through is reachable by the session's own steps, so
  what holds of reachable sessions holds of each message given to the sink; a line is consumed per
  round, so the loop ends with the input; and the budget is never exceeded under any interleaving
  of the atomic operations.
\<close>

definition MAX_COMMAND_BUFFER :: nat where "MAX_COMMAND_BUFFER = 2048"
definition MAX_CONSECUTIVE_AUTH_FAILURES :: nat where "MAX_CONSECUTIVE_AUTH_FAILURES = 5"
definition DATA_MEMORY_BUDGET :: nat where "DATA_MEMORY_BUDGET = 1024 * 1024 * 1024"

datatype serve_outcome = Closed | StartTlsRequested | ClosedAfterAuthFailures nat

datatype line_outcome = Line string nat | LineNeedMore | LineBareLineFeed | TooLong

definition next_line :: "string \<Rightarrow> bare_newline_policy \<Rightarrow> line_outcome" where
  "next_line buffer policy =
     (case split_once LF buffer of
        Some (pre, _) \<Rightarrow>
          (let index = length pre;
               has_cr = (index > 0 \<and> buffer ! (index - 1) = CR)
           in
           if \<not> has_cr \<and> policy = Reject then LineBareLineFeed
           else Line (take (if has_cr then index - 1 else index) buffer) (index + 1))
      | None \<Rightarrow> if length buffer > MAX_COMMAND_BUFFER then TooLong else LineNeedMore)"

record 'k conn_env =
  ce_peer :: socket_addr
  ce_write_ok :: "nat \<Rightarrow> bool"
  ce_auth :: "nat \<Rightarrow> auth_request \<Rightarrow> auth_outcome"
  ce_sink :: "'k \<Rightarrow> accepted_message \<Rightarrow> socket_addr \<Rightarrow> 'k \<times> (reply, unit) result"
  ce_active :: "nat \<Rightarrow> nat"

record 'k conn =
  cn_in :: "read_event list"
  cn_buffer :: string
  cn_out :: "string list"
  cn_session :: session
  cn_sink :: 'k
  cn_auth_calls :: nat
  cn_auth_failures :: nat
  cn_acquires :: nat

text \<open>An I/O error of the stream ends \<open>drive\<close> early (\<open>?\<close>): \<open>Inl ()\<close>.\<close>

type_synonym 'a io = "(unit, 'a) result"

definition write_reply :: "'k conn_env \<Rightarrow> 'k conn \<Rightarrow> reply \<Rightarrow> 'k conn \<times> unit io" where
  "write_reply env c r =
     (if ce_write_ok env (length (cn_out c))
      then (c\<lparr>cn_out := cn_out c @ [render r]\<rparr>, Inr ()) else (c, Inl ()))"

text \<open>The inner loop of \<open>drive\<close>: a line, or the reason why there is none.\<close>

datatype fetched = GotLine string | FetchClosed | FetchError | FetchBareLineFeed | FetchTooLong

fun fetch_line :: "bare_newline_policy \<Rightarrow> read_event list \<Rightarrow> string \<Rightarrow> read_event list \<times> string \<times> fetched" where
  "fetch_line policy inp buffer =
     (case next_line buffer policy of
        Line line consumed \<Rightarrow> (inp, drop consumed buffer, GotLine line)
      | LineBareLineFeed \<Rightarrow> (inp, buffer, FetchBareLineFeed)
      | TooLong \<Rightarrow> (inp, buffer, FetchTooLong)
      | LineNeedMore \<Rightarrow>
          (case inp of
             [] \<Rightarrow> ([], buffer, FetchClosed)
           | Chunk bytes # rest \<Rightarrow>
               if bytes = [] then (rest, buffer, FetchClosed)
               else fetch_line policy rest (buffer @ bytes)
           | ReadError # rest \<Rightarrow> (rest, buffer, FetchError)
           | ReadTimeout # rest \<Rightarrow> (rest, buffer, FetchClosed)))"

text \<open>Reserving memory for a message, given what is reserved at that moment.\<close>

definition data_slot_acquire :: "nat \<Rightarrow> nat \<Rightarrow> nat option" where
  "data_slot_acquire current message_size =
     (let request = max message_size 1 in
      if sat_u64 (current + request) > DATA_MEMORY_BUDGET then None else Some request)"

datatype data_outcome = Received string | Discarded | Rejected reply | DataClosed

function collect_data ::
  "'k conn_env \<Rightarrow> 'k conn \<Rightarrow> data_sink \<Rightarrow> bool \<Rightarrow> 'k conn \<times> data_outcome io" where
  "collect_data env c sink told_too_large =
     (let (sink1, event, consumed) =
            (if cn_buffer c \<noteq> [] then feed sink (cn_buffer c) else (sink, NeedMore, 0));
          c1 = c\<lparr>cn_buffer := drop consumed (cn_buffer c)\<rparr>
      in
      case event of
        Complete (Some data) \<Rightarrow> (c1, Inr (Received data))
      | Complete None \<Rightarrow> (c1, Inr Discarded)
      | BareLineFeed \<Rightarrow> (c1, Inr (Rejected (with_enhanced 550 ''5.6.0'' BARE_LINE_FEED)))
      | TooLarge \<Rightarrow>
          if told_too_large then collect_data env c1 sink1 True
          else
            (case write_reply env c1 (with_enhanced 552 ''5.3.4'' MESSAGE_TOO_LARGE) of
               (c2, Inl e) \<Rightarrow> (c2, Inl e)
             | (c2, Inr _) \<Rightarrow> collect_data env c2 sink1 True)
      | NeedMore \<Rightarrow>
          (case cn_in c1 of
             [] \<Rightarrow> (c1, Inr DataClosed)
           | Chunk bytes # rest \<Rightarrow>
               if bytes = [] then (c1\<lparr>cn_in := rest\<rparr>, Inr DataClosed)
               else collect_data env (c1\<lparr>cn_in := rest, cn_buffer := cn_buffer c1 @ bytes\<rparr>) sink1 told_too_large
           | ReadError # rest \<Rightarrow> (c1\<lparr>cn_in := rest\<rparr>, Inl ())
           | ReadTimeout # rest \<Rightarrow> (c1\<lparr>cn_in := rest\<rparr>, Inr DataClosed)))"
  by pat_completeness auto

text \<open>How much input is left: every read counts one, every byte one.\<close>

fun event_size :: "read_event \<Rightarrow> nat" where
  "event_size (Chunk bytes) = Suc (length bytes)"
| "event_size _ = 1"

definition input_left :: "'k conn \<Rightarrow> nat" where
  "input_left c = sum_list (map event_size (cn_in c)) + length (cn_buffer c)"

lemma feed_consumed: "feed s bs = (s1, e, n) \<Longrightarrow> n \<le> length bs \<and> (e \<noteq> NeedMore \<longrightarrow> n > 0)"
proof (induction bs arbitrary: s n)
  case (Cons b bs)
  then show ?case by (auto simp: Let_def split: prod.splits if_splits)
qed simp

lemma feed_needmore_all: "feed s bs = (s1, NeedMore, n) \<Longrightarrow> n = length bs"
  by (induction bs arbitrary: s n) (auto simp: Let_def split: prod.splits if_splits)

lemma write_reply_frame:
  "write_reply env c r = (c1, x) \<Longrightarrow>
   cn_in c1 = cn_in c \<and> cn_buffer c1 = cn_buffer c \<and> cn_session c1 = cn_session c \<and> cn_sink c1 = cn_sink c \<and>
   cn_auth_failures c1 = cn_auth_failures c \<and> cn_auth_calls c1 = cn_auth_calls c"
  by (auto simp: write_reply_def split: if_splits)

lemma buffer_event:
  assumes "(s1, e, n) = (if buf \<noteq> [] then feed sink buf else (sink, NeedMore, 0))"
  shows "n \<le> length buf \<and> (e \<noteq> NeedMore \<longrightarrow> 0 < n) \<and> (e = NeedMore \<longrightarrow> n = length buf)"
  using assms feed_consumed [of sink buf s1 e n] feed_needmore_all [of sink buf s1 n] by (auto split: if_splits)

lemma input_left_consume:
  assumes "n \<le> length (cn_buffer c)" and "0 < n"
  shows "input_left (c\<lparr>cn_buffer := drop n (cn_buffer c)\<rparr>) < input_left c"
  using assms by (simp add: input_left_def)

termination collect_data
proof (relation "measure (\<lambda>(env, c, s, t). input_left c)", goal_cases)
  case 1
  show ?case by simp
next
  case (2 env c sink told p s1 q e n c1 ev bytes rest)
  then show ?case by (auto simp: input_left_def)
next
  case (3 env c sink told p s1 q e n c1)
  then show ?case using buffer_event [of s1 TooLarge n "cn_buffer c" sink] by (auto intro!: input_left_consume)
next
  case (4 env c sink told p s1 q e n c1 c2 r)
  then have "n \<le> length (cn_buffer c)" "0 < n"
    using buffer_event [of s1 TooLarge n "cn_buffer c" sink] by auto
  moreover have "input_left c2 = input_left c1"
    using 4 write_reply_frame [of env c1 _ c2 "Inr ()"] by (auto simp: input_left_def)
  ultimately show ?case using 4 by (auto intro!: input_left_consume)
qed

declare collect_data.simps [simp del]

text \<open>Write a reply and go on with \<open>k\<close>, unless the write fails.\<close>

definition reply_then ::
  "'k conn_env \<Rightarrow> 'k conn \<Rightarrow> reply \<Rightarrow> ('k conn \<Rightarrow> 'k conn \<times> (serve_outcome io, unit) result) \<Rightarrow>
   'k conn \<times> (serve_outcome io, unit) result" where
  "reply_then env c r k =
     (case write_reply env c r of
        (c1, Inl e) \<Rightarrow> (c1, Inl (Inl e))
      | (c1, Inr _) \<Rightarrow> k c1)"

text \<open>
  The \<open>match action\<close> of the loop: \<open>Inl r\<close> returns \<open>r\<close> from \<open>drive\<close>, \<open>Inr ()\<close> goes on with the next
  line. First the two long arms.
\<close>

definition verify_credentials ::
  "'k conn_env \<Rightarrow> 'k conn \<Rightarrow> string \<Rightarrow> string \<Rightarrow> 'k conn \<times> (serve_outcome io, unit) result" where
  "verify_credentials env c mechanism response =
     (let request = \<lparr>ar_mechanism = mechanism, ar_response = response,
                     ar_secured = se_tls_active (cn_session c), ar_peer = ce_peer env\<rparr>;
          outcome = ce_auth env (cn_auth_calls c) request;
          failures = (case outcome of
                        AuthSuccess _ \<Rightarrow> 0
                      | TemporaryFailure _ \<Rightarrow> cn_auth_failures c
                      | InvalidCredentials \<Rightarrow> sat_u32 (cn_auth_failures c + 1));
          (session, reply) = complete_auth (cn_session c) outcome
      in
      reply_then env
        (c\<lparr>cn_session := session, cn_auth_calls := cn_auth_calls c + 1, cn_auth_failures := failures\<rparr>) reply
        (\<lambda>c. (c, if failures \<ge> MAX_CONSECUTIVE_AUTH_FAILURES
                  then Inl (Inr (ClosedAfterAuthFailures failures)) else Inr ())))"

definition hand_over ::
  "'k conn_env \<Rightarrow> 'k conn \<Rightarrow> string \<Rightarrow> 'k conn \<times> (serve_outcome io, unit) result" where
  "hand_over env c data =
     (let (session, r, accepted) = finish_data (cn_session c) data;
          c = c\<lparr>cn_session := session\<rparr>
      in
      case accepted of
        None \<Rightarrow> reply_then env c r (\<lambda>c. (c, Inr ()))
      | Some message \<Rightarrow>
          (let (k, verdict) = ce_sink env (cn_sink c) message (ce_peer env) in
           reply_then env (c\<lparr>cn_sink := k\<rparr>)
             (case verdict of Inr _ \<Rightarrow> r | Inl rejection \<Rightarrow> rejection) (\<lambda>c. (c, Inr ()))))"

fun after_data ::
  "'k conn_env \<Rightarrow> 'k conn \<times> data_outcome io \<Rightarrow> 'k conn \<times> (serve_outcome io, unit) result" where
  "after_data env (c, Inl e) = (c, Inl (Inl e))"
| "after_data env (c, Inr DataClosed) = (c, Inl (Inr Closed))"
| "after_data env (c, Inr (Rejected r)) = reply_then env c r (\<lambda>c. (c, Inl (Inr Closed)))"
| "after_data env (c, Inr Discarded) = (c\<lparr>cn_session := discard_data (cn_session c)\<rparr>, Inr ())"
| "after_data env (c, Inr (Received data)) = hand_over env c data"

definition receive_message ::
  "'k conn_env \<Rightarrow> 'k conn \<Rightarrow> reply \<Rightarrow> 'k conn \<times> (serve_outcome io, unit) result" where
  "receive_message env c reply =
     (let config = se_config (cn_session c);
          slot = data_slot_acquire (ce_active env (cn_acquires c)) (sc_max_message_size config);
          c = c\<lparr>cn_acquires := cn_acquires c + 1\<rparr>
      in
      if slot = None then reply_then env c (with_enhanced 451 ''4.3.2'' DATA_BACKPRESSURE) (\<lambda>c. (c, Inr ()))
      else
        reply_then env c reply (\<lambda>c.
          after_data env
            (collect_data env c (sink_new (sc_max_message_size config) (sc_bare_newline_policy config)) False)))"

fun dispatch :: "'k conn_env \<Rightarrow> 'k conn \<Rightarrow> action \<Rightarrow> 'k conn \<times> (serve_outcome io, unit) result" where
  "dispatch env c (ReplyWith r) = reply_then env c r (\<lambda>c. (c, Inr ()))"
| "dispatch env c (Close r) = reply_then env c r (\<lambda>c. (c, Inl (Inr Closed)))"
| "dispatch env c (StartTlsNow r) = reply_then env c r (\<lambda>c. (c, Inl (Inr StartTlsRequested)))"
| "dispatch env c (AuthChallenge r) = reply_then env c r (\<lambda>c. (c, Inr ()))"
| "dispatch env c (AuthVerify mechanism response) = verify_credentials env c mechanism response"
| "dispatch env c (EnterData r) = receive_message env c r"

definition line_action :: "session \<Rightarrow> string \<Rightarrow> session \<times> action" where
  "line_action s line =
     (if awaiting_auth_response s then continue_auth s line
      else
        (case command_parse line of
           Inr cmd \<Rightarrow> handle s cmd
         | Inl error \<Rightarrow> (s, ReplyWith (command_error_reply error))))"

function drive_loop :: "'k conn_env \<Rightarrow> 'k conn \<Rightarrow> 'k conn \<times> serve_outcome io" where
  "drive_loop env c =
     (let policy = sc_bare_newline_policy (se_config (cn_session c));
          (inp, buffer, fetched) = fetch_line policy (cn_in c) (cn_buffer c);
          c1 = c\<lparr>cn_in := inp, cn_buffer := buffer\<rparr>
      in
      case fetched of
        FetchClosed \<Rightarrow> (c1, Inr Closed)
      | FetchError \<Rightarrow> (c1, Inl ())
      | FetchBareLineFeed \<Rightarrow>
          (case write_reply env c1 (with_enhanced 500 ''5.5.2'' BARE_LINE_FEED) of
             (c2, Inl e) \<Rightarrow> (c2, Inl e)
           | (c2, Inr _) \<Rightarrow> (c2, Inr Closed))
      | FetchTooLong \<Rightarrow>
          (case write_reply env c1 (with_enhanced 500 ''5.5.6'' LINE_TOO_LONG) of
             (c2, Inl e) \<Rightarrow> (c2, Inl e)
           | (c2, Inr _) \<Rightarrow> (c2, Inr Closed))
      | GotLine line \<Rightarrow>
          (let (session, act) = line_action (cn_session c1) line in
           case dispatch env (c1\<lparr>cn_session := session\<rparr>) act of
             (c2, Inl r) \<Rightarrow> (c2, r)
           | (c2, Inr _) \<Rightarrow> drive_loop env c2))"
  by pat_completeness auto

lemma reply_then_cases:
  obtains c1 where "cn_in c1 = cn_in c" "cn_buffer c1 = cn_buffer c" "cn_session c1 = cn_session c"
    "cn_sink c1 = cn_sink c" "cn_auth_failures c1 = cn_auth_failures c"
    "reply_then env c r k = (c1, Inl (Inl ())) \<or> reply_then env c r k = k c1"
proof (cases "ce_write_ok env (length (cn_out c))")
  case True
  then show ?thesis using that [of "c\<lparr>cn_out := cn_out c @ [render r]\<rparr>"] by (simp add: reply_then_def write_reply_def)
next
  case False
  then show ?thesis using that [of c] by (simp add: reply_then_def write_reply_def)
qed

text \<open>One round of the DATA loop: it ends, or goes on with less input and nothing else changed.\<close>

lemma collect_data_step:
  obtains c1 r where "collect_data env c sink t = (c1, r)" "input_left c1 \<le> input_left c"
      "cn_session c1 = cn_session c" "cn_sink c1 = cn_sink c" "cn_auth_failures c1 = cn_auth_failures c"
  | c1 sink1 t1 where "collect_data env c sink t = collect_data env c1 sink1 t1" "input_left c1 < input_left c"
      "cn_session c1 = cn_session c" "cn_sink c1 = cn_sink c" "cn_auth_failures c1 = cn_auth_failures c"
proof -
  define p where "p = (if cn_buffer c \<noteq> [] then feed sink (cn_buffer c) else (sink, NeedMore, 0))"
  obtain s1 e n where p: "p = (s1, e, n)" by (cases p)
  define c1 where "c1 = c\<lparr>cn_buffer := drop n (cn_buffer c)\<rparr>"
  have ev: "n \<le> length (cn_buffer c) \<and> (e \<noteq> NeedMore \<longrightarrow> 0 < n) \<and> (e = NeedMore \<longrightarrow> n = length (cn_buffer c))"
    by (rule buffer_event [of s1 e n _ sink]) (metis p p_def)
  have le: "input_left c1 \<le> input_left c" and lt: "e \<noteq> NeedMore \<Longrightarrow> input_left c1 < input_left c"
    using ev input_left_consume [of n c] by (auto simp: c1_def input_left_def)
  have fr: "cn_session c1 = cn_session c" "cn_sink c1 = cn_sink c" "cn_auth_failures c1 = cn_auth_failures c"
    "cn_in c1 = cn_in c" by (simp_all add: c1_def)
  note un = collect_data.simps [of env c sink t, folded p_def, unfolded p Let_def prod.case, folded c1_def]
  show thesis
  proof (cases e)
    case (Complete d)
    with un le fr show ?thesis by (cases d) (auto intro: that(1))
  next
    case BareLineFeed
    with un le fr show ?thesis by (auto intro: that(1))
  next
    case TooLarge
    show ?thesis
    proof (cases t)
      case True
      with un TooLarge lt fr show ?thesis by (auto intro: that(2))
    next
      case False
      obtain c2 x where w: "write_reply env c1 (with_enhanced 552 ''5.3.4'' MESSAGE_TOO_LARGE) = (c2, x)"
        by (cases "write_reply env c1 (with_enhanced 552 ''5.3.4'' MESSAGE_TOO_LARGE)")
      note f2 = write_reply_frame [OF w]
      then have "input_left c2 = input_left c1" by (simp add: input_left_def)
      with un TooLarge False w f2 lt fr show ?thesis
        by (cases x) (auto intro: that(1) [of c2 "Inl ()"] that(2) [of c2 s1 True])
    qed
  next
    case NeedMore
    show ?thesis
    proof (cases "cn_in c1")
      case Nil
      with un NeedMore le fr show ?thesis by (auto intro: that(1))
    next
      case (Cons ev rest)
      show ?thesis
      proof (cases "\<exists>b. ev = Chunk b \<and> b \<noteq> []")
        case True
        then obtain b where b: "ev = Chunk b" "b \<noteq> []" by blast
        let ?c2 = "c1\<lparr>cn_in := rest, cn_buffer := cn_buffer c1 @ b\<rparr>"
        have "input_left ?c2 < input_left c" using le Cons b by (simp add: input_left_def)
        then show ?thesis using un NeedMore Cons b fr that(2) [of ?c2 s1 t] by simp
      next
        case False
        have "input_left (c1\<lparr>cn_in := rest\<rparr>) \<le> input_left c" using le Cons by (simp add: input_left_def)
        with un NeedMore Cons False fr show ?thesis
          by (cases ev) (auto intro: that(1))
      qed
    qed
  qed
qed

lemma collect_data_frame:
  "collect_data env c sink t = (c1, r) \<Longrightarrow>
   input_left c1 \<le> input_left c \<and> cn_session c1 = cn_session c \<and> cn_sink c1 = cn_sink c \<and>
   cn_auth_failures c1 = cn_auth_failures c"
proof (induction "input_left c" arbitrary: c sink t rule: less_induct)
  case less
  show ?case
  proof (cases rule: collect_data_step [of env c sink t])
    case (1 c2 r2)
    with less.prems show ?thesis by simp
  next
    case (2 c2 sink2 t2)
    with less.prems less.hyps [of c2 sink2 t2] show ?thesis by simp
  qed
qed

lemma reply_then_frame:
  assumes "reply_then env c r k = (c2, x)"
    and "\<And>c1. cn_session c1 = cn_session c \<Longrightarrow> cn_sink c1 = cn_sink c \<Longrightarrow> input_left c1 = input_left c \<Longrightarrow>
           cn_auth_failures c1 = cn_auth_failures c \<Longrightarrow> k c1 = (c2, x) \<Longrightarrow> P"
    and "cn_session c2 = cn_session c \<Longrightarrow> cn_sink c2 = cn_sink c \<Longrightarrow> input_left c2 = input_left c \<Longrightarrow>
           cn_auth_failures c2 = cn_auth_failures c \<Longrightarrow> x = Inl (Inl ()) \<Longrightarrow> P"
  shows P
proof (rule reply_then_cases [of c env r k])
  fix c1
  assume c1: "cn_in c1 = cn_in c" "cn_buffer c1 = cn_buffer c" "cn_session c1 = cn_session c"
    "cn_sink c1 = cn_sink c" "cn_auth_failures c1 = cn_auth_failures c"
    and or: "reply_then env c r k = (c1, Inl (Inl ())) \<or> reply_then env c r k = k c1"
  have "input_left c1 = input_left c" using c1 by (simp add: input_left_def)
  with c1 or assms show P by auto
qed

text \<open>
  How a connection may change while it deals with a message: the session keeps its state, drops the
  transaction or finishes it, and only then may the sink have been given a message.
\<close>

fun sink_after :: "'k conn_env \<Rightarrow> 'k \<Rightarrow> accepted_message option \<Rightarrow> 'k" where
  "sink_after env k None = k"
| "sink_after env k (Some msg) = fst (ce_sink env k msg (ce_peer env))"

definition message_step :: "'k conn_env \<Rightarrow> 'k conn \<Rightarrow> 'k conn \<Rightarrow> bool" where
  "message_step env c c2 \<longleftrightarrow>
     input_left c2 \<le> input_left c \<and> cn_auth_failures c2 = cn_auth_failures c \<and>
     (cn_sink c2 = cn_sink c \<and> (cn_session c2 = cn_session c \<or> cn_session c2 = discard_data (cn_session c)) \<or>
      (\<exists>d s1 r m. finish_data (cn_session c) d = (s1, r, m) \<and> cn_session c2 = s1 \<and>
         cn_sink c2 = sink_after env (cn_sink c) m))"

lemma message_step_cong:
  "message_step env c1 c2 \<Longrightarrow> cn_session c1 = cn_session c \<Longrightarrow> cn_sink c1 = cn_sink c \<Longrightarrow>
   input_left c1 \<le> input_left c \<Longrightarrow> cn_auth_failures c1 = cn_auth_failures c \<Longrightarrow> message_step env c c2"
  by (simp add: message_step_def)

lemma message_step_finish:
  "finish_data (cn_session c) d = (cn_session c2, r, m) \<Longrightarrow> cn_sink c2 = sink_after env (cn_sink c) m \<Longrightarrow>
   input_left c2 \<le> input_left c \<Longrightarrow> cn_auth_failures c2 = cn_auth_failures c \<Longrightarrow> message_step env c c2"
  unfolding message_step_def by blast

lemma message_step_same:
  "cn_session c2 = cn_session c \<or> cn_session c2 = discard_data (cn_session c) \<Longrightarrow> cn_sink c2 = cn_sink c \<Longrightarrow>
   input_left c2 \<le> input_left c \<Longrightarrow> cn_auth_failures c2 = cn_auth_failures c \<Longrightarrow> message_step env c c2"
  unfolding message_step_def by blast

lemma hand_over_step:
  assumes "hand_over env c data = (c2, x)"
  shows "message_step env c c2"
proof -
  obtain s1 r m where fin: "finish_data (cn_session c) data = (s1, r, m)" by (cases "finish_data (cn_session c) data")
  obtain q v where sk: "ce_sink env (cn_sink c) (the m) (ce_peer env) = (q, v)"
    by (cases "ce_sink env (cn_sink c) (the m) (ce_peer env)")
  let ?c1 = "c\<lparr>cn_session := s1\<rparr>"
  have i: "input_left ?c1 = input_left c" "input_left (?c1\<lparr>cn_sink := q\<rparr>) = input_left c"
    by (simp_all add: input_left_def)
  show ?thesis
  proof (cases m)
    case None
    with fin assms have "reply_then env ?c1 r (\<lambda>c. (c, Inr ())) = (c2, x)" by (simp add: hand_over_def)
    then have "cn_session c2 = s1 \<and> cn_sink c2 = sink_after env (cn_sink c) m \<and> input_left c2 = input_left c \<and>
        cn_auth_failures c2 = cn_auth_failures c"
      by (rule reply_then_frame) (use None i in auto)
    with fin show ?thesis by (auto intro: message_step_finish)
  next
    case (Some msg)
    with fin sk assms have "reply_then env (?c1\<lparr>cn_sink := q\<rparr>)
        (case v of Inr _ \<Rightarrow> r | Inl rejection \<Rightarrow> rejection) (\<lambda>c. (c, Inr ())) = (c2, x)" by (simp add: hand_over_def)
    then have "cn_session c2 = s1 \<and> cn_sink c2 = sink_after env (cn_sink c) m \<and> input_left c2 = input_left c \<and>
        cn_auth_failures c2 = cn_auth_failures c"
      by (rule reply_then_frame) (use Some sk i in auto)
    with fin show ?thesis by (auto intro: message_step_finish)
  qed
qed

lemma after_data_step:
  assumes "after_data env (c, y) = (c2, x)"
  shows "message_step env c c2"
  using assms
proof (cases "(env, (c, y))" rule: after_data.cases)
  case (3 env' c' r)
  with assms have "reply_then env c r (\<lambda>c. (c, Inl (Inr Closed))) = (c2, x)" by simp
  then show ?thesis by (rule reply_then_frame) (auto intro: message_step_same)
qed (auto simp: input_left_def intro: hand_over_step message_step_same)

lemma receive_message_step:
  assumes "receive_message env c reply = (c2, x)"
  shows "message_step env c c2"
proof -
  define config where "config = se_config (cn_session c)"
  define c0 where "c0 = c\<lparr>cn_acquires := cn_acquires c + 1\<rparr>"
  have c0: "cn_session c0 = cn_session c" "cn_sink c0 = cn_sink c" "input_left c0 = input_left c"
    "cn_auth_failures c0 = cn_auth_failures c" by (simp_all add: c0_def input_left_def)
  let ?slot = "data_slot_acquire (ce_active env (cn_acquires c)) (sc_max_message_size config)"
  note un = assms [unfolded receive_message_def Let_def, folded config_def c0_def]
  show ?thesis
  proof (cases "?slot = None")
    case True
    with un have "reply_then env c0 (with_enhanced 451 ''4.3.2'' DATA_BACKPRESSURE) (\<lambda>c. (c, Inr ())) = (c2, x)" by simp
    then show ?thesis by (rule reply_then_frame) (use c0 in \<open>auto intro: message_step_same\<close>)
  next
    case False
    from un [unfolded if_not_P [OF False]] show ?thesis
    proof (rule reply_then_frame, goal_cases)
      case (1 c1)
      obtain c3 y where col: "collect_data env c1
          (sink_new (sc_max_message_size config) (sc_bare_newline_policy config)) False = (c3, y)"
        by (cases "collect_data env c1 (sink_new (sc_max_message_size config) (sc_bare_newline_policy config)) False")
      from after_data_step [OF 1(5) [unfolded col]] show ?case
        by (rule message_step_cong) (use collect_data_frame [OF col] 1 c0 in auto)
    qed (use c0 in \<open>auto intro: message_step_same\<close>)
  qed
qed

lemma verify_credentials_step:
  assumes "verify_credentials env c m x = (c2, r)"
  shows "input_left c2 = input_left c \<and> cn_sink c2 = cn_sink c \<and>
    (\<exists>outcome rp. complete_auth (cn_session c) outcome = (cn_session c2, rp)) \<and>
    (cn_auth_failures c < MAX_CONSECUTIVE_AUTH_FAILURES \<longrightarrow>
       (r = Inr () \<longrightarrow> cn_auth_failures c2 < MAX_CONSECUTIVE_AUTH_FAILURES) \<and>
       (\<forall>n. r = Inl (Inr (ClosedAfterAuthFailures n)) \<longrightarrow> n = MAX_CONSECUTIVE_AUTH_FAILURES))"
proof -
  define request where "request = \<lparr>ar_mechanism = m, ar_response = x,
    ar_secured = se_tls_active (cn_session c), ar_peer = ce_peer env\<rparr>"
  define outcome where "outcome = ce_auth env (cn_auth_calls c) request"
  define failures where "failures = (case outcome of AuthSuccess _ \<Rightarrow> 0 | TemporaryFailure _ \<Rightarrow> cn_auth_failures c
      | InvalidCredentials \<Rightarrow> sat_u32 (cn_auth_failures c + 1))"
  obtain s1 rp where ca: "complete_auth (cn_session c) outcome = (s1, rp)" by (cases "complete_auth (cn_session c) outcome")
  define c1 where "c1 = c\<lparr>cn_session := s1, cn_auth_calls := cn_auth_calls c + 1, cn_auth_failures := failures\<rparr>"
  have c1: "cn_session c1 = s1" "cn_sink c1 = cn_sink c" "input_left c1 = input_left c" "cn_auth_failures c1 = failures"
    by (simp_all add: c1_def input_left_def)
  have f: "failures \<le> max (cn_auth_failures c) (cn_auth_failures c + 1)"
    by (auto simp: failures_def sat_u32_def split: auth_outcome.splits)
  note un = assms [unfolded verify_credentials_def Let_def, folded request_def, folded outcome_def,
    folded failures_def, unfolded ca prod.case, folded c1_def]
  from un show ?thesis
    by (rule reply_then_frame)
       (use c1 ca f in \<open>auto simp: MAX_CONSECUTIVE_AUTH_FAILURES_def split: if_splits\<close>)
qed

text \<open>One dispatched action, as steps of the session.\<close>

definition dispatch_result :: "'k conn_env \<Rightarrow> 'k conn \<Rightarrow> work \<Rightarrow> 'k conn \<Rightarrow> (serve_outcome io, unit) result \<Rightarrow> bool" where
  "dispatch_result env c w c2 r \<longleftrightarrow>
     input_left c2 \<le> input_left c \<and>
     (\<exists>w2. session_step\<^sup>*\<^sup>* (cn_session c, w) (cn_session c2, w2) \<and> (r = Inr () \<longrightarrow> w2 = Idle) \<and>
           (r = Inl (Inr StartTlsRequested) \<longrightarrow> w2 = Upgrading)) \<and>
     (cn_sink c2 = cn_sink c \<or>
      w = Receiving \<and> (\<exists>d s1 rp m. finish_data (cn_session c) d = (s1, rp, Some m) \<and>
                         cn_sink c2 = fst (ce_sink env (cn_sink c) m (ce_peer env)))) \<and>
     (cn_auth_failures c < MAX_CONSECUTIVE_AUTH_FAILURES \<longrightarrow>
        (r = Inr () \<longrightarrow> cn_auth_failures c2 < MAX_CONSECUTIVE_AUTH_FAILURES) \<and>
        (\<forall>n. r = Inl (Inr (ClosedAfterAuthFailures n)) \<longrightarrow> n = MAX_CONSECUTIVE_AUTH_FAILURES))"

lemma reply_result:
  assumes "reply_then env c rp (\<lambda>c. (c, x)) = (c2, r)"
    and "x = Inr () \<Longrightarrow> w = Idle" "x = Inl (Inr StartTlsRequested) \<Longrightarrow> w = Upgrading"
    and "\<And>n. x \<noteq> Inl (Inr (ClosedAfterAuthFailures n))"
  shows "dispatch_result env c w c2 r"
  using assms(1)
  by (rule reply_then_frame)
     (use assms(2-) in \<open>auto simp: dispatch_result_def intro!: exI [of _ w]\<close>)

lemma after_data_returns:
  "after_data env (c, y) = (c2, r) \<Longrightarrow> r = Inr () \<or> r = Inl (Inl ()) \<or> r = Inl (Inr Closed)"
  by (cases "(env, (c, y))" rule: after_data.cases)
     (auto simp: hand_over_def case_prod_unfold Let_def split: option.splits elim!: reply_then_frame)

lemma receive_message_returns:
  assumes "receive_message env c reply = (c2, r)"
  shows "r = Inr () \<or> r = Inl (Inl ()) \<or> r = Inl (Inr Closed)"
  using assms unfolding receive_message_def Let_def
  by (auto split: if_splits elim!: reply_then_frame)
     (metis after_data_returns surj_pair)+

lemma receive_result:
  assumes "receive_message env c reply = (c2, r)"
  shows "dispatch_result env c Receiving c2 r"
proof -
  note st = receive_message_step [OF assms, unfolded message_step_def]
  have "session_step\<^sup>*\<^sup>* (cn_session c, Receiving) (cn_session c2, Idle)"
    using st by (auto intro!: r_into_rtranclp intro: session_step.intros)
  moreover have "cn_sink c2 = cn_sink c \<or>
      (\<exists>d s1 rp m. finish_data (cn_session c) d = (s1, rp, Some m) \<and>
         cn_sink c2 = fst (ce_sink env (cn_sink c) m (ce_peer env)))"
    using st by (metis sink_after.elims)
  ultimately show ?thesis
    using st receive_message_returns [OF assms] unfolding dispatch_result_def by auto
qed

lemma dispatch_step:
  assumes "dispatch env c a = (c2, r)"
  shows "dispatch_result env c (work_of a) c2 r"
proof (cases a)
  case (AuthVerify m x)
  with assms have v: "verify_credentials env c m x = (c2, r)" by simp
  note st = verify_credentials_step [OF v]
  have "session_step\<^sup>*\<^sup>* (cn_session c, Verifying m x) (cn_session c2, Idle)"
    using st by (auto intro!: r_into_rtranclp intro: session_step.verdict)
  moreover have "r \<noteq> Inl (Inr StartTlsRequested)"
    using v by (auto simp: verify_credentials_def Let_def case_prod_unfold elim!: reply_then_frame split: if_splits)
  ultimately show ?thesis using st AuthVerify unfolding dispatch_result_def by auto
next
  case (EnterData x)
  with assms receive_result show ?thesis by simp
qed (use assms in \<open>auto intro: reply_result\<close>)

section \<open>The command loop\<close>

lemma next_line_consumed: "next_line buf p = Line l n \<Longrightarrow> 0 < n \<and> n \<le> length buf"
  by (auto simp: next_line_def Let_def split_once_Some split: option.splits if_splits)

lemma fetch_line_size:
  "fetch_line p inp buf = (inp1, buf1, f) \<Longrightarrow>
   sum_list (map event_size inp1) + length buf1 \<le> sum_list (map event_size inp) + length buf \<and>
   (\<forall>l. f = GotLine l \<longrightarrow>
      sum_list (map event_size inp1) + length buf1 < sum_list (map event_size inp) + length buf)"
proof (induction p inp buf rule: fetch_line.induct)
  case (1 p inp buf)
  show ?case
  proof (cases "next_line buf p")
    case (Line l n)
    then show ?thesis using "1.prems" next_line_consumed [OF Line] by auto
  next
    case LineNeedMore
    show ?thesis
    proof (cases inp)
      case (Cons ev rest)
      show ?thesis
      proof (cases "\<exists>b. ev = Chunk b \<and> b \<noteq> []")
        case True
        then obtain b where "ev = Chunk b" "b \<noteq> []" by blast
        with "1.IH" [OF LineNeedMore Cons this] "1.prems" LineNeedMore Cons show ?thesis by auto
      next
        case False
        with "1.prems" LineNeedMore Cons show ?thesis by (cases ev) auto
      qed
    qed (use "1.prems" LineNeedMore in auto)
  qed (use "1.prems" in auto)
qed

declare fetch_line.simps [simp del]

termination drive_loop
proof (relation "measure (\<lambda>(env, c). input_left c)", goal_cases)
  case 1
  show ?case by simp
next
  case (2 env c policy p inp q buffer fetched c1 line sa session act c2 u)
  have "fetch_line policy (cn_in c) (cn_buffer c) = (inp, buffer, GotLine line)" using 2 by auto
  then have "input_left c1 < input_left c"
    using fetch_line_size [of policy "cn_in c" "cn_buffer c" inp buffer "GotLine line"] 2(5)
    by (simp add: input_left_def)
  moreover have "input_left c2 \<le> input_left (c1\<lparr>cn_session := session\<rparr>)"
    using dispatch_step [of env "c1\<lparr>cn_session := session\<rparr>" act c2 "Inr ()"] 2 by (auto simp: dispatch_result_def)
  ultimately show ?case by (simp add: input_left_def)
qed

declare drive_loop.simps [simp del]

text \<open>A sink that records what it is given and answers as it likes.\<close>

definition recording :: "(accepted_message list \<Rightarrow> accepted_message \<Rightarrow> socket_addr \<Rightarrow> (reply, unit) result) \<Rightarrow>
  accepted_message list \<Rightarrow> accepted_message \<Rightarrow> socket_addr \<Rightarrow> accepted_message list \<times> (reply, unit) result" where
  "recording v k m p = (k @ [m], v k m p)"

lemma line_action_step:
  assumes "line_action s line = (s1, a)"
  shows "session_step\<^sup>*\<^sup>* (s, Idle) (s1, work_of a)"
proof (cases "awaiting_auth_response s")
  case True
  with assms show ?thesis by (auto simp: line_action_def intro!: r_into_rtranclp intro: session_step.response)
next
  case False
  with assms show ?thesis
    by (cases "command_parse line") (auto simp: line_action_def intro: r_into_rtranclp session_step.command)
qed

text \<open>One round of the loop: it returns, or a line has been handled and the loop goes on.\<close>

lemma drive_loop_round:
  obtains c1 r where "drive_loop env c = (c1, r)" "cn_session c1 = cn_session c" "cn_sink c1 = cn_sink c"
      "\<And>n. r \<noteq> Inr (ClosedAfterAuthFailures n)" "r \<noteq> Inr StartTlsRequested"
  | c1 a c2 r where "drive_loop env c = (c2, r)" "dispatch env c1 a = (c2, Inl r)"
      "session_step\<^sup>*\<^sup>* (cn_session c, Idle) (cn_session c1, work_of a)" "cn_sink c1 = cn_sink c"
      "cn_auth_failures c1 = cn_auth_failures c"
  | c1 a c2 where "drive_loop env c = drive_loop env c2" "dispatch env c1 a = (c2, Inr ())"
      "session_step\<^sup>*\<^sup>* (cn_session c, Idle) (cn_session c1, work_of a)" "cn_sink c1 = cn_sink c"
      "cn_auth_failures c1 = cn_auth_failures c" "input_left c2 < input_left c"
proof -
  define policy where "policy = sc_bare_newline_policy (se_config (cn_session c))"
  obtain inp buffer f where fl: "fetch_line policy (cn_in c) (cn_buffer c) = (inp, buffer, f)"
    by (cases "fetch_line policy (cn_in c) (cn_buffer c)")
  define c1 where "c1 = c\<lparr>cn_in := inp, cn_buffer := buffer\<rparr>"
  have fr: "cn_session c1 = cn_session c" "cn_sink c1 = cn_sink c" "cn_auth_failures c1 = cn_auth_failures c"
    by (simp_all add: c1_def)
  note un = drive_loop.simps [of env c, unfolded Let_def, folded policy_def, unfolded fl prod.case, folded c1_def]
  note return = that(1)
  have wr: thesis if "drive_loop env c = (case write_reply env c1 rp of (c2, Inl e) \<Rightarrow> (c2, Inl e) | (c2, Inr _) \<Rightarrow> (c2, Inr Closed))" for rp
    using that fr
    by (auto simp: write_reply_def split: if_splits
        intro: return [of "c1\<lparr>cn_out := cn_out c1 @ [render rp]\<rparr>" "Inr Closed"] return [of c1 "Inl ()"])
  show thesis
  proof (cases f)
    case (GotLine line)
    obtain s1 a where la: "line_action (cn_session c1) line = (s1, a)" by (cases "line_action (cn_session c1) line")
    let ?c = "c1\<lparr>cn_session := s1\<rparr>"
    obtain c2 r where d: "dispatch env ?c a = (c2, r)" by (cases "dispatch env ?c a")
    have st: "session_step\<^sup>*\<^sup>* (cn_session c, Idle) (cn_session ?c, work_of a)"
      using line_action_step [OF la] fr by simp
    have "input_left c2 \<le> input_left ?c" using dispatch_step [OF d] by (simp add: dispatch_result_def)
    moreover have "input_left ?c < input_left c"
      using fetch_line_size [OF fl] GotLine by (simp add: c1_def input_left_def)
    ultimately have lt: "input_left c2 < input_left c" by simp
    show ?thesis
    proof (cases r)
      case (Inl x)
      with un GotLine la d have "drive_loop env c = (c2, x)" by simp
      then show ?thesis using that(2) [of c2 x ?c a] d Inl st fr by simp
    next
      case (Inr x)
      with un GotLine la d have "drive_loop env c = drive_loop env c2" by simp
      then show ?thesis using that(3) [of c2 ?c a] d Inr st fr lt by simp
    qed
  next
    case FetchClosed
    with un fr show ?thesis by (intro return [of c1 "Inr Closed"]) simp_all
  next
    case FetchError
    with un fr show ?thesis by (intro return [of c1 "Inl ()"]) simp_all
  next
    case FetchBareLineFeed
    with un show ?thesis by (intro wr [of "with_enhanced 500 ''5.5.2'' BARE_LINE_FEED"]) (simp split: prod.splits sum.splits)
  next
    case FetchTooLong
    with un show ?thesis by (intro wr [of "with_enhanced 500 ''5.5.6'' LINE_TOO_LONG"]) (simp split: prod.splits sum.splits)
  qed
qed

lemma drive_loop_steps:
  "drive_loop env c = (c2, r) \<Longrightarrow> cn_auth_failures c < MAX_CONSECUTIVE_AUTH_FAILURES \<Longrightarrow>
   (\<exists>w. session_step\<^sup>*\<^sup>* (cn_session c, Idle) (cn_session c2, w) \<and> (r = Inr StartTlsRequested \<longrightarrow> w = Upgrading)) \<and>
   (\<forall>n. r = Inr (ClosedAfterAuthFailures n) \<longrightarrow> n = MAX_CONSECUTIVE_AUTH_FAILURES)"
proof (induction "input_left c" arbitrary: c rule: less_induct)
  case less
  show ?case
  proof (cases rule: drive_loop_round [of env c])
    case (1 c1 r1)
    with less.prems show ?thesis by auto
  next
    case (2 c1 a c3 r3)
    have "c3 = c2" "r3 = r" using 2(1) less.prems(1) by auto
    with dispatch_step [OF 2(2)] 2 less.prems show ?thesis
      by (auto simp: dispatch_result_def intro: rtranclp_trans)
  next
    case (3 c1 a c3)
    note d = dispatch_step [OF 3(2), unfolded dispatch_result_def]
    have "session_step\<^sup>*\<^sup>* (cn_session c, Idle) (cn_session c3, Idle)"
      using d 3(3) by (auto intro: rtranclp_trans)
    moreover have "cn_auth_failures c3 < MAX_CONSECUTIVE_AUTH_FAILURES" using d 3 less.prems by simp
    ultimately show ?thesis
      using less.hyps [OF 3(6)] less.prems(1) 3(1) by (fastforce intro: rtranclp_trans)
  qed
qed

text \<open>The messages that a session can hand over from here, and the changes of a sink that takes such messages.\<close>

definition accepted_from :: "session \<Rightarrow> accepted_message \<Rightarrow> bool" where
  "accepted_from s m \<longleftrightarrow>
     (\<exists>t d s1 rp. session_step\<^sup>*\<^sup>* (s, Idle) (t, Receiving) \<and> finish_data t d = (s1, rp, Some m))"

definition sink_step :: "'k conn_env \<Rightarrow> (accepted_message \<Rightarrow> bool) \<Rightarrow> 'k \<Rightarrow> 'k \<Rightarrow> bool" where
  "sink_step env P k k' \<longleftrightarrow> (\<exists>m. P m \<and> k' = fst (ce_sink env k m (ce_peer env)))"

lemma accepted_from_later: "session_step\<^sup>*\<^sup>* (s, Idle) (t, Idle) \<Longrightarrow> accepted_from t m \<Longrightarrow> accepted_from s m"
  unfolding accepted_from_def by (meson rtranclp_trans)

lemma sink_steps_mono:
  assumes "(sink_step env P)\<^sup>*\<^sup>* k k'" and "\<And>m. P m \<Longrightarrow> Q m"
  shows "(sink_step env Q)\<^sup>*\<^sup>* k k'"
  using assms(1) by (rule mono_rtranclp [rule_format, rotated]) (use assms(2) in \<open>auto simp: sink_step_def\<close>)

lemma recorded_messages:
  assumes "ce_sink env = recording v" and "(sink_step env P)\<^sup>*\<^sup>* k k'" and "m \<in> set k'"
  shows "m \<in> set k \<or> P m"
  using assms(2,3)
proof (induction rule: rtranclp_induct)
  case (step k1 k2)
  then show ?case by (auto simp: sink_step_def recording_def assms(1))
qed simp

lemma drive_loop_sink:
  "drive_loop env c = (c2, r) \<Longrightarrow> (sink_step env (accepted_from (cn_session c)))\<^sup>*\<^sup>* (cn_sink c) (cn_sink c2)"
proof (induction "input_left c" arbitrary: c rule: less_induct)
  case less
  have one: "(sink_step env (accepted_from (cn_session c)))\<^sup>*\<^sup>* (cn_sink c) (cn_sink c3)"
    if "dispatch env c1 a = (c3, x)" "session_step\<^sup>*\<^sup>* (cn_session c, Idle) (cn_session c1, work_of a)"
      "cn_sink c1 = cn_sink c" for c1 a c3 x
  proof -
    from dispatch_step [OF that(1)] that(3) consider "cn_sink c3 = cn_sink c"
      | d s1 rp m where "work_of a = Receiving" "finish_data (cn_session c1) d = (s1, rp, Some m)"
          "cn_sink c3 = fst (ce_sink env (cn_sink c) m (ce_peer env))"
      by (auto simp: dispatch_result_def)
    then show ?thesis
    proof cases
      case 2
      from 2(1,2) that(2) have "accepted_from (cn_session c) m" by (auto simp: accepted_from_def)
      with 2(3) have "sink_step env (accepted_from (cn_session c)) (cn_sink c) (cn_sink c3)" by (auto simp: sink_step_def)
      then show ?thesis by (rule r_into_rtranclp)
    qed simp
  qed
  show ?case
  proof (cases rule: drive_loop_round [of env c])
    case (1 c1 r1)
    with less.prems show ?thesis by auto
  next
    case (2 c1 a c3 r3)
    then show ?thesis using one [OF 2(2-4)] less.prems by simp
  next
    case (3 c1 a c3)
    have later: "session_step\<^sup>*\<^sup>* (cn_session c, Idle) (cn_session c3, Idle)"
      using dispatch_step [OF 3(2)] 3(3) by (auto simp: dispatch_result_def intro: rtranclp_trans)
    have rest: "(sink_step env (accepted_from (cn_session c3)))\<^sup>*\<^sup>* (cn_sink c3) (cn_sink c2)"
      using less.hyps [OF 3(6)] less.prems 3(1) by simp
    show ?thesis
      by (rule rtranclp_trans [OF one [OF 3(2-4)] sink_steps_mono [OF rest accepted_from_later [OF later]]])
  qed
qed

text \<open>\<open>serve\<close> greets first, \<open>serve_after_upgrade\<close> does not; both start with an empty buffer.\<close>

definition conn_start :: "read_event list \<Rightarrow> session \<Rightarrow> 'k \<Rightarrow> 'k conn" where
  "conn_start inp s k =
     \<lparr>cn_in = inp, cn_buffer = [], cn_out = [], cn_session = s, cn_sink = k, cn_auth_calls = 0,
      cn_auth_failures = 0, cn_acquires = 0\<rparr>"

definition drive :: "'k conn_env \<Rightarrow> read_event list \<Rightarrow> session \<Rightarrow> 'k \<Rightarrow> bool \<Rightarrow> 'k conn \<times> serve_outcome io" where
  "drive env inp s k greet =
     (let c = conn_start inp s k in
      if greet then
        (case write_reply env c (greeting s) of
           (c1, Inl e) \<Rightarrow> (c1, Inl e)
         | (c1, Inr _) \<Rightarrow> drive_loop env c1)
      else drive_loop env c)"

definition serve :: "'k conn_env \<Rightarrow> read_event list \<Rightarrow> session \<Rightarrow> 'k \<Rightarrow> 'k conn \<times> serve_outcome io" where
  "serve env inp s k = drive env inp s k True"

definition serve_after_upgrade :: "'k conn_env \<Rightarrow> read_event list \<Rightarrow> session \<Rightarrow> 'k \<Rightarrow> 'k conn \<times> serve_outcome io" where
  "serve_after_upgrade env inp s k = drive env inp s k False"

lemma drive_cases:
  obtains c where "cn_session c = s" "cn_sink c = k" "cn_auth_failures c = 0" "drive env inp s k g = drive_loop env c"
  | c where "cn_session c = s" "cn_sink c = k" "drive env inp s k g = (c, Inl ())"
proof (cases "g \<and> \<not> ce_write_ok env 0")
  case True
  then show ?thesis using that(2) [of "conn_start inp s k"] by (simp add: drive_def conn_start_def write_reply_def)
next
  case False
  show ?thesis
    by (rule that(1) [of "if g then (conn_start inp s k)\<lparr>cn_out := [render (greeting s)]\<rparr> else conn_start inp s k"])
       (use False in \<open>simp_all add: drive_def conn_start_def write_reply_def\<close>)
qed

lemma drive_sink:
  assumes "drive env inp s k g = (c2, r)"
  shows "(sink_step env (accepted_from s))\<^sup>*\<^sup>* k (cn_sink c2)"
proof (cases rule: drive_cases [of s k env inp g])
  case (1 c)
  then show ?thesis using drive_loop_sink [of env c c2 r] assms by simp
next
  case (2 c)
  then show ?thesis using assms by simp
qed

lemma drive_steps:
  assumes "drive env inp s k g = (c2, r)"
  shows "(\<exists>w. session_step\<^sup>*\<^sup>* (s, Idle) (cn_session c2, w) \<and> (r = Inr StartTlsRequested \<longrightarrow> w = Upgrading)) \<and>
         (\<forall>n. r = Inr (ClosedAfterAuthFailures n) \<longrightarrow> n = MAX_CONSECUTIVE_AUTH_FAILURES)"
proof (cases rule: drive_cases [of s k env inp g])
  case (1 c)
  then show ?thesis
    using drive_loop_steps [of env c c2 r] assms by (simp add: MAX_CONSECUTIVE_AUTH_FAILURES_def)
next
  case (2 c)
  then show ?thesis using assms by auto
qed

section \<open>The memory budget under concurrency\<close>

text \<open>
  Several connections reserve memory through one atomic counter. Each is at a program point of
  \<open>DataSlot::acquire\<close>: before the load, in the compare-and-swap loop with the value it believes
  current, or holding its reservation until \<open>drop\<close>. The weak exchange may fail spuriously.
\<close>

datatype slot_pc = NotAsked | Trying nat nat | Held nat

fun held :: "slot_pc \<Rightarrow> nat" where
  "held (Held n) = n"
| "held _ = 0"

inductive slot_step :: "nat \<times> slot_pc list \<Rightarrow> nat \<times> slot_pc list \<Rightarrow> bool" where
  load: "i < length ts \<Longrightarrow> ts ! i = NotAsked \<Longrightarrow> slot_step (a, ts) (a, ts[i := Trying a (max message_size 1)])"
| refuse: "i < length ts \<Longrightarrow> ts ! i = Trying current request \<Longrightarrow>
    sat_u64 (current + request) > DATA_MEMORY_BUDGET \<Longrightarrow> slot_step (a, ts) (a, ts[i := NotAsked])"
| exchange: "i < length ts \<Longrightarrow> ts ! i = Trying current request \<Longrightarrow>
    \<not> sat_u64 (current + request) > DATA_MEMORY_BUDGET \<Longrightarrow> a = current \<Longrightarrow>
    slot_step (a, ts) (current + request, ts[i := Held request])"
| retry: "i < length ts \<Longrightarrow> ts ! i = Trying current request \<Longrightarrow>
    \<not> sat_u64 (current + request) > DATA_MEMORY_BUDGET \<Longrightarrow> slot_step (a, ts) (a, ts[i := Trying a request])"
| release: "i < length ts \<Longrightarrow> ts ! i = Held request \<Longrightarrow>
    slot_step (a, ts) ((a + 2 ^ 64 - request) mod 2 ^ 64, ts[i := NotAsked])"

definition slot_inv :: "nat \<times> slot_pc list \<Rightarrow> bool" where
  "slot_inv st \<longleftrightarrow> fst st = sum_list (map held (snd st)) \<and> fst st \<le> DATA_MEMORY_BUDGET"

lemma held_update:
  "i < length ts \<Longrightarrow> sum_list (map held (ts[i := x])) + held (ts ! i) = sum_list (map held ts) + held x"
  using sum_list_update [of i "map held ts" "held x"] elem_le_sum_list [of i "map held ts"]
  by (simp add: map_update)

lemma slot_step_inv: "slot_step s t \<Longrightarrow> slot_inv s \<Longrightarrow> slot_inv t"
proof (induction rule: slot_step.induct)
  case (exchange i ts current request a)
  then show ?case using held_update [of i ts "Held request"]
    by (auto simp: slot_inv_def sat_u64_def DATA_MEMORY_BUDGET_def split: if_splits)
next
  case (release i ts request a)
  then have "request \<le> a" "a < 2 ^ 64"
    using elem_le_sum_list [of i "map held ts"] by (auto simp: slot_inv_def DATA_MEMORY_BUDGET_def)
  then have "(a + 2 ^ 64 - request) mod 2 ^ 64 = a - request" by (simp add: mod_if)
  then show ?case using held_update [of i ts NotAsked] release by (simp add: slot_inv_def) linarith
qed (use held_update in \<open>auto simp: slot_inv_def, force+\<close>)

interpretation slots: step_invariant slot_step slot_inv
  by unfold_locales (rule slot_step_inv)

section \<open>Properties\<close>

text \<open>
  What a connection hands over. Whatever bytes the client sends in whatever chunks, and
  whatever the authenticator, the sink and the network do, every message that \<open>serve\<close> gives to the
  sink respects the relay policy and the limits of its configuration: recipients are distinct,
  bounded in number and, for an unauthenticated client, local; authenticated messages came over
  TLS; and a listener that requires authentication hands over authenticated messages only.
\<close>

theorem connection_messages_ok:
  assumes "ce_sink env = recording verdicts"
    and "serve env inp (with_recipients config relay directory) [] = (c, r)"
    and "m \<in> set (cn_sink c)"
  shows "message_ok config relay directory m"
proof -
  from recorded_messages [OF assms(1) drive_sink [OF assms(2) [unfolded serve_def]] assms(3)]
  have "accepted_from (with_recipients config relay directory) m" by simp
  then show ?thesis using accepted_message_ok by (auto simp: session_reachable_def accepted_from_def)
qed

definition sample_env :: "accepted_message list conn_env" where
  "sample_env =
     \<lparr>ce_peer = \<lparr>sa_ip = V4 7, sa_port = 25\<rparr>, ce_write_ok = (\<lambda>_. True),
      ce_auth = (\<lambda>_ _. InvalidCredentials), ce_sink = recording (\<lambda>_ _ _. Inr ()), ce_active = (\<lambda>_. 0)\<rparr>"

definition sample_input :: "read_event list" where
  "sample_input =
     [Chunk (''HELO c'' @ CRLF @ ''MAIL FROM:<>'' @ CRLF @ ''RCPT TO:<x@example.com>'' @ CRLF @ ''DATA'' @ CRLF),
      Chunk (''hi'' @ CRLF @ ''.''), Chunk (CRLF @ ''QUIT'' @ CRLF)]"

lemma data_slot_acquire_code [code]:
  "data_slot_acquire current message_size =
     (if int current + int (max message_size 1) > 1073741824 then None else Some (max message_size 1))"
  by (auto simp: data_slot_acquire_def sat_u64_def DATA_MEMORY_BUDGET_def Let_def)

theorem connection_messages_ok_witness:
  "\<exists>m. cn_sink (fst (serve sample_env sample_input (with_recipients sample_config sample_relay any_recipient) [])) = [m] \<and>
       message_ok sample_config sample_relay any_recipient m"
proof -
  let ?c = "serve sample_env sample_input (with_recipients sample_config sample_relay any_recipient) []"
  have "length (cn_sink (fst ?c)) = 1" by code_simp
  then obtain m where m: "cn_sink (fst ?c) = [m]" by (auto simp: length_Suc_conv)
  have "ce_sink sample_env = recording (\<lambda>_ _ _. Inr ())" by (simp add: sample_env_def)
  then have "message_ok sample_config sample_relay any_recipient m"
    by (rule connection_messages_ok [OF _ surjective_pairing [of ?c]]) (simp add: m)
  with m show ?thesis by blast
qed


definition sample_guesses :: "read_event list" where
  "sample_guesses =
     Chunk (''EHLO c'' @ CRLF) # replicate 6 (Chunk (''AUTH PLAIN AGEAYg=='' @ CRLF))"


text \<open>
  \<^bold>\<open>C31\<close> (memory budget). However the loads, exchanges, retries and releases of any number of
  connections interleave, the counter is the sum of the reservations held and stays within the
  budget, so the messages being received at one time never reserve more than one gibibyte.
\<close>

theorem data_budget_never_exceeded:
  assumes "slot_step\<^sup>*\<^sup>* (0, replicate n NotAsked) (active, ts)"
  shows "active = sum_list (map held ts) \<and> active \<le> DATA_MEMORY_BUDGET"
proof -
  have "slot_inv (0, replicate n NotAsked)" by (simp add: slot_inv_def sum_list_replicate)
  from slots.run_inv [OF assms this] show ?thesis by (simp add: slot_inv_def)
qed

theorem data_budget_never_exceeded_witness:
  "slot_step\<^sup>*\<^sup>* (0, replicate 2 NotAsked) (9, [Held 9, NotAsked]) \<and> (9 :: nat) \<le> DATA_MEMORY_BUDGET"
proof -
  have "slot_step (0, [NotAsked, NotAsked]) (0, [Trying 0 9, NotAsked])"
    using slot_step.load [of 0 "[NotAsked, NotAsked]" 0 9] by simp
  moreover have "slot_step (0, [Trying 0 9, NotAsked]) (9, [Held 9, NotAsked])"
    using slot_step.exchange [of 0 "[Trying 0 9, NotAsked]" 0 9 0]
    by (simp add: sat_u64_def DATA_MEMORY_BUDGET_def)
  ultimately have r: "slot_step\<^sup>*\<^sup>* (0, replicate 2 NotAsked) (9, [Held 9, NotAsked])"
    by (simp add: numeral_2_eq_2)
  with data_budget_never_exceeded [OF r] show ?thesis by simp
qed

end
