(* ===== verification/Ban.thy ===== *)
theory Ban
  imports Peer "HOL-Library.AList" "HOL-Library.Multiset" "HOL-Library.Product_Lexorder"
begin

text \<open>
  The ban list (\<^verbatim>\<open>crates/smtpd/src/ban.rs\<close>). The \<open>HashMap\<close> is an association list with distinct
  keys; \<open>entry(k).or_default()\<close> is \<open>entry_or_default\<close> followed by \<open>AList.update\<close>. The order in which a
  \<open>HashMap\<close> is iterated is unspecified: it is the parameter \<open>iter\<close> of the operations that iterate,
  of which only \<open>iterates\<close> is assumed. Times are \<open>i64\<close> seconds with the saturating operations of the
  code; \<open>as u32\<close> is reduction modulo \<open>2\<^sup>3\<^sup>2\<close>.

  Shown: automatic entries never exceed the configured maximum, eviction never touches a ban in
  force, a ban once returned is enforced until it expires, enough failures inside the window lead
  to a ban, and a manual list is installed and removed exactly.
\<close>

record ban_config =
  bc_max_failures :: nat
  bc_window_secs :: int
  bc_temp_ban_secs :: int
  bc_permanent_after :: nat
  bc_max_entries :: nat

definition ban_config_default :: ban_config where
  "ban_config_default =
     \<lparr>bc_max_failures = 8, bc_window_secs = 600, bc_temp_ban_secs = 3600, bc_permanent_after = 3,
      bc_max_entries = 10000\<rparr>"

record ban =
  ban_ip :: ip_addr
  ban_until_unix :: "int option"
  ban_permanent :: bool
  ban_strikes :: nat
  ban_failures :: nat
  ban_manual :: bool

definition ban_is_active :: "ban \<Rightarrow> int \<Rightarrow> bool" where
  "ban_is_active b now =
     (if ban_permanent b then True
      else (case ban_until_unix b of Some until \<Rightarrow> until > now | None \<Rightarrow> False))"

record ban_entry =
  be_failures :: "int list"
  be_strikes :: nat
  be_banned_until :: "int option"
  be_permanent :: bool
  be_manual :: bool
  be_last_seen :: int
  be_last_ip :: "ip_addr option"

definition ban_entry_default :: ban_entry where
  "ban_entry_default =
     \<lparr>be_failures = [], be_strikes = 0, be_banned_until = None, be_permanent = False,
      be_manual = False, be_last_seen = 0, be_last_ip = None\<rparr>"

definition to_ban :: "ban_entry \<Rightarrow> ip_addr \<Rightarrow> ban" where
  "to_ban e ip =
     \<lparr>ban_ip = (case be_last_ip e of Some x \<Rightarrow> x | None \<Rightarrow> ip), ban_until_unix = be_banned_until e,
      ban_permanent = be_permanent e, ban_strikes = be_strikes e,
      ban_failures = length (be_failures e) mod 2 ^ 32, ban_manual = be_manual e\<rparr>"

type_synonym ban_map = "(peer_key \<times> ban_entry) list"

record ban_list =
  bl_config :: ban_config
  bl_entries :: ban_map

definition ban_list_new :: "ban_config \<Rightarrow> ban_list" where
  "ban_list_new c =
     \<lparr>bl_config = \<lparr>bc_max_failures = max (bc_max_failures c) 1, bc_window_secs = max (bc_window_secs c) 1,
        bc_temp_ban_secs = max (bc_temp_ban_secs c) 1, bc_permanent_after = bc_permanent_after c,
        bc_max_entries = max (bc_max_entries c) 1\<rparr>,
      bl_entries = []\<rparr>"

definition entry_or_default :: "ban_map \<Rightarrow> peer_key \<Rightarrow> ban_entry" where
  "entry_or_default m k = (case map_of m k of Some e \<Rightarrow> e | None \<Rightarrow> ban_entry_default)"

definition active_ban :: "ban_entry \<Rightarrow> ip_addr \<Rightarrow> int \<Rightarrow> ban_entry \<times> ban option" where
  "active_ban e ip now =
     (if be_permanent e then (e, Some (to_ban e ip))
      else (case be_banned_until e of
          None \<Rightarrow> (e, None)
        | Some until \<Rightarrow>
            if until > now then (e, Some (to_ban e ip))
            else (e\<lparr>be_banned_until := None, be_failures := []\<rparr>, None)))"

definition ban_check :: "ban_list \<Rightarrow> ip_addr \<Rightarrow> int \<Rightarrow> ban_list \<times> ban option" where
  "ban_check bl ip now =
     (case map_of (bl_entries bl) (from_ip ip) of
        None \<Rightarrow> (bl, None)
      | Some e \<Rightarrow>
          (let (e', r) = active_ban e ip now in
           (bl\<lparr>bl_entries := AList.update (from_ip ip) e' (bl_entries bl)\<rparr>, r)))"

definition in_force :: "ban_entry \<Rightarrow> int \<Rightarrow> bool" where
  "in_force e now \<longleftrightarrow>
     be_permanent e \<or> be_manual e \<or>
     (case be_banned_until e of Some until \<Rightarrow> until > now | None \<Rightarrow> False)"

definition evict_candidates :: "ban_map \<Rightarrow> int \<Rightarrow> (peer_key \<times> int \<times> int) list" where
  "evict_candidates entries now =
     (let candidates =
            map (\<lambda>(k, e).
                   (k, be_last_seen e,
                    (let expired_ban = (case be_banned_until e of Some until \<Rightarrow> until \<le> now | None \<Rightarrow> False)
                     in if \<not> expired_ban \<and> be_failures e \<noteq> [] then 1 else 0)))
                (filter (\<lambda>(_, e). \<not> be_permanent e \<and> \<not> be_manual e \<and>
                           (case be_banned_until e of None \<Rightarrow> True | Some until \<Rightarrow> until \<le> now))
                        entries)
      in sort_key (\<lambda>(_, last_seen, history_value). (history_value, last_seen)) candidates)"

definition evict :: "(ban_map \<Rightarrow> ban_map) \<Rightarrow> ban_map \<Rightarrow> nat \<Rightarrow> int \<Rightarrow> ban_map \<times> bool" where
  "evict iter entries max_entries now =
     (let kept = filter (\<lambda>(_, e). in_force e now \<or> be_failures e \<noteq> []) entries in
      if length kept < max_entries then (kept, True)
      else
        (let candidates = evict_candidates (iter kept) now;
             target = max_entries - 1;
             remove_count = length kept - target;
             left = foldl (\<lambda>m v. AList.delete (fst v) m) kept (take remove_count candidates)
         in (left, length left < max_entries)))"

text \<open>\<open>record_failure\<close> from \<open>let entry = \<dots>\<close> on, as an update of the entry.\<close>

definition entry_failure :: "ban_config \<Rightarrow> ban_entry \<Rightarrow> ip_addr \<Rightarrow> int \<Rightarrow> ban_entry \<times> ban option" where
  "entry_failure config entry ip now =
     (let e = entry\<lparr>be_last_seen := now, be_last_ip := Some ip\<rparr> in
      if be_permanent e then (e, Some (to_ban e ip))
      else if (case be_banned_until e of Some until \<Rightarrow> until > now | None \<Rightarrow> False)
        then (e, Some (to_ban e ip))
      else
        (let e = (if be_banned_until e \<noteq> None then e\<lparr>be_banned_until := None, be_failures := []\<rparr> else e);
             e = e\<lparr>be_failures :=
                    filter (\<lambda>at. sat_i64 (now - at) < bc_window_secs config) (be_failures e) @ [now]\<rparr>
         in
         if length (be_failures e) mod 2 ^ 32 < bc_max_failures config then (e, None)
         else
           (let strikes = sat_u32 (be_strikes e + 1);
                permanent = (bc_permanent_after config > 0 \<and> strikes \<ge> bc_permanent_after config);
                e = e\<lparr>be_failures := [], be_strikes := strikes, be_permanent := permanent,
                      be_banned_until :=
                        (if permanent then None else Some (sat_i64 (now + bc_temp_ban_secs config)))\<rparr>
            in (e, Some (to_ban e ip)))))"

definition record_failure ::
  "(ban_map \<Rightarrow> ban_map) \<Rightarrow> ban_list \<Rightarrow> ip_addr \<Rightarrow> int \<Rightarrow> ban_list \<times> ban option" where
  "record_failure iter bl ip now =
     (let config = bl_config bl;
          key = from_ip ip;
          full = (length (bl_entries bl) \<ge> bc_max_entries config \<and> map_of (bl_entries bl) key = None);
          (entries, freed) =
            (if full then evict iter (bl_entries bl) (bc_max_entries config) now else (bl_entries bl, True))
      in
      if full \<and> \<not> freed \<and> map_of entries key = None then (bl\<lparr>bl_entries := entries\<rparr>, None)
      else
        (let (e, r) = entry_failure config (entry_or_default entries key) ip now
         in (bl\<lparr>bl_entries := AList.update key e entries\<rparr>, r)))"

definition unban :: "ban_list \<Rightarrow> ip_addr \<Rightarrow> ban_list \<times> bool" where
  "unban bl ip =
     (bl\<lparr>bl_entries := AList.delete (from_ip ip) (bl_entries bl)\<rparr>,
      map_of (bl_entries bl) (from_ip ip) \<noteq> None)"

record manual_ban_diff =
  md_added :: "ip_addr list"
  md_removed :: "ip_addr list"

definition manual_ban_diff_is_empty :: "manual_ban_diff \<Rightarrow> bool" where
  "manual_ban_diff_is_empty d \<longleftrightarrow> md_added d = [] \<and> md_removed d = []"

text \<open>Collecting pairs into a \<open>HashMap\<close>: a later pair replaces an earlier one with the same key.\<close>

definition wanted_map :: "ip_addr list \<Rightarrow> (peer_key \<times> ip_addr) list" where
  "wanted_map ips = foldl (\<lambda>m ip. AList.update (from_ip ip) ip m) [] ips"

definition manual_entry :: "ban_entry \<Rightarrow> ip_addr \<Rightarrow> ban_entry" where
  "manual_entry e ip =
     e\<lparr>be_last_ip := Some ip, be_manual := True, be_permanent := True, be_banned_until := None,
       be_failures := []\<rparr>"

definition apply_manual ::
  "(ban_map \<Rightarrow> ban_map) \<Rightarrow> ((peer_key \<times> ip_addr) list \<Rightarrow> (peer_key \<times> ip_addr) list) \<Rightarrow>
   ban_list \<Rightarrow> ip_addr list \<Rightarrow> ban_list \<times> manual_ban_diff" where
  "apply_manual iter witer bl ips =
     (let wanted = wanted_map ips;
          stale = map (\<lambda>(k, e). (k, case be_last_ip e of Some x \<Rightarrow> x | None \<Rightarrow> V4 0))
                    (filter (\<lambda>(k, e). be_manual e \<and> map_of wanted k = None) (iter (bl_entries bl)));
          guard = foldl (\<lambda>m (k, _). AList.delete k m) (bl_entries bl) stale;
          (guard, added) =
            foldl (\<lambda>(m, added) (k, ip).
                     (let e = entry_or_default m k in
                      (AList.update k (manual_entry e ip) m,
                       if be_manual e then added else added @ [ip])))
                  (guard, []) (witer wanted)
      in (bl\<lparr>bl_entries := guard\<rparr>, \<lparr>md_added = sort added, md_removed = sort (map snd stale)\<rparr>))"

text \<open>\<open>entries(now)\<close>: the bans in force; expired ones are cleared on the way.\<close>

definition ban_entries :: "(ban_map \<Rightarrow> ban_map) \<Rightarrow> ban_list \<Rightarrow> int \<Rightarrow> ban_list \<times> ban list" where
  "ban_entries iter bl now =
     (let fallback = (\<lambda>e. case be_last_ip e of Some x \<Rightarrow> x | None \<Rightarrow> V4 0) in
      (bl\<lparr>bl_entries := map (\<lambda>(k, e). (k, fst (active_ban e (fallback e) now))) (bl_entries bl)\<rparr>,
       List.map_filter (\<lambda>(k, e). snd (active_ban e (fallback e) now)) (iter (bl_entries bl))))"

definition banned_count :: "(ban_map \<Rightarrow> ban_map) \<Rightarrow> ban_list \<Rightarrow> int \<Rightarrow> nat" where
  "banned_count iter bl now = length (snd (ban_entries iter bl now))"

definition tracked :: "ban_list \<Rightarrow> nat" where
  "tracked bl = length (bl_entries bl)"

section \<open>Eviction\<close>

text \<open>\<open>m\<close> holds some of the entries of \<open>n\<close>, unchanged.\<close>

definition sub_table :: "ban_map \<Rightarrow> ban_map \<Rightarrow> bool" where
  "sub_table m n \<longleftrightarrow> distinct (map fst m) \<and> map_of m \<subseteq>\<^sub>m map_of n"

lemma sub_tableD: "sub_table m n \<Longrightarrow> map_of m k = Some e \<Longrightarrow> map_of n k = Some e"
  unfolding sub_table_def by (metis domI map_le_def)

lemma sub_table_delete: "sub_table m n \<Longrightarrow> sub_table (AList.delete k m) n"
  by (auto simp: sub_table_def delete_conv' map_le_def distinct_delete)

lemma sub_table_deletes: "sub_table m n \<Longrightarrow> sub_table (foldl (\<lambda>m v. AList.delete (f v) m) m vs) n"
  by (induction vs arbitrary: m) (auto intro: sub_table_delete)

lemma map_of_deletes:
  "map_of (foldl (\<lambda>m v. AList.delete (f v) m) m vs) k = (if k \<in> f ` set vs then None else map_of m k)"
  by (induction vs arbitrary: m) (auto simp: delete_conv')

lemma map_of_filter_val:
  "distinct (map fst m) \<Longrightarrow>
   map_of (filter (\<lambda>(k, e). P e) m) k = (case map_of m k of Some e \<Rightarrow> if P e then Some e else None | None \<Rightarrow> None)"
proof (induction m)
  case (Cons x m)
  obtain a b where x: "x = (a, b)" by (cases x)
  have "a \<notin> fst ` set m" using Cons.prems x by simp
  then have "map_of (filter (\<lambda>(k, e). P e) m) a = None"
    by (auto simp: map_of_eq_None_iff image_iff)
  with Cons x show ?case by (auto split: option.splits)
qed simp

lemma sub_table_filter: "distinct (map fst m) \<Longrightarrow> sub_table (filter (\<lambda>(_, e). P e) m) m"
  by (auto simp: sub_table_def map_le_def map_of_filter_val distinct_map_filter split: option.splits)

lemma evict_candidates_not_in_force:
  "v \<in> set (evict_candidates m now) \<Longrightarrow> \<exists>e. (fst v, e) \<in> set m \<and> \<not> in_force e now"
  by (auto simp: evict_candidates_def in_force_def Let_def split: option.splits)

lemma evict_deletes:
  "\<exists>vs. fst (evict iter m n now) =
          foldl (\<lambda>m v. AList.delete (fst v) m) (filter (\<lambda>(_, e). in_force e now \<or> be_failures e \<noteq> []) m) vs \<and>
        set vs \<subseteq> set (evict_candidates (iter (filter (\<lambda>(_, e). in_force e now \<or> be_failures e \<noteq> []) m)) now)"
  unfolding evict_def Let_def
  by (auto simp: set_take_subset intro: exI [of _ "[]"] dest: in_set_takeD split: if_splits)

lemma evict_sub_table:
  assumes "distinct (map fst m)"
  shows "sub_table (fst (evict iter m n now)) m"
proof -
  obtain vs :: "(peer_key \<times> int \<times> int) list" where "fst (evict iter m n now) =
      foldl (\<lambda>m v. AList.delete (fst v) m) (filter (\<lambda>(_, e). in_force e now \<or> be_failures e \<noteq> []) m) vs"
    using evict_deletes [of iter m n now] by blast
  then show ?thesis by (simp only: sub_table_deletes [OF sub_table_filter [OF assms]])
qed

lemma evict_keeps_in_force:
  assumes "iterates iter" and "distinct (map fst m)" and "map_of m k = Some e" and "in_force e now"
  shows "map_of (fst (evict iter m n now)) k = Some e"
proof -
  obtain vs where vs: "fst (evict iter m n now) =
      foldl (\<lambda>m v. AList.delete (fst v) m) (filter (\<lambda>(_, e). in_force e now \<or> be_failures e \<noteq> []) m) vs"
    "set vs \<subseteq> set (evict_candidates (iter (filter (\<lambda>(_, e). in_force e now \<or> be_failures e \<noteq> []) m)) now)"
    using evict_deletes [of iter m n now] by blast
  have "k \<notin> fst ` set vs"
  proof
    assume "k \<in> fst ` set vs"
    then obtain v where "v \<in> set vs" "k = fst v" by blast
    with vs(2) evict_candidates_not_in_force [of v] obtain e' where
      "(k, e') \<in> set (iter (filter (\<lambda>(_, e). in_force e now \<or> be_failures e \<noteq> []) m))" "\<not> in_force e' now"
      by blast
    then have "(k, e') \<in> set m" "\<not> in_force e' now" by (auto simp: iterates_set [OF assms(1)])
    then show False using assms(2-4) by auto
  qed
  then show ?thesis
    using assms(2-4) by (simp add: vs(1) map_of_deletes map_of_filter_val)
qed

lemma evict_freed: "snd (evict iter m n now) \<Longrightarrow> length (fst (evict iter m n now)) < n"
  by (cases "length (filter (\<lambda>(_, e). in_force e now \<or> be_failures e \<noteq> []) m) < n")
     (simp_all only: evict_def Let_def if_True if_False fst_conv snd_conv)

section \<open>Recording a failure\<close>

definition auto_keys :: "ban_map \<Rightarrow> peer_key set" where
  "auto_keys m = {k. \<exists>e. map_of m k = Some e \<and> \<not> be_manual e}"

definition ban_inv :: "ban_list \<Rightarrow> bool" where
  "ban_inv bl \<longleftrightarrow> distinct (map fst (bl_entries bl)) \<and> card (auto_keys (bl_entries bl)) \<le> bc_max_entries (bl_config bl)"

lemma auto_keys_dom: "auto_keys m \<subseteq> dom (map_of m)"
  by (auto simp: auto_keys_def)

lemma finite_auto_keys [simp]: "finite (auto_keys m)"
  by (rule finite_subset [OF auto_keys_dom finite_dom_map_of])

lemma card_auto_keys_le: "card (auto_keys m) \<le> length m"
proof -
  have "card (auto_keys m) \<le> card (set (map fst m))"
    using auto_keys_dom by (intro card_mono) (auto simp: dom_map_of_conv_image_fst)
  then show ?thesis using card_length [of "map fst m"] by simp
qed

lemma auto_keys_sub: "sub_table m n \<Longrightarrow> auto_keys m \<subseteq> auto_keys n"
  unfolding auto_keys_def sub_table_def using sub_tableD by (fastforce simp: sub_table_def)

lemma auto_keys_update_le:
  assumes "be_manual e = be_manual (entry_or_default m k)"
    and "map_of m k \<noteq> None \<or> length m < n" and "card (auto_keys m) \<le> n"
  shows "card (auto_keys (AList.update k e m)) \<le> n"
proof (cases "map_of m k")
  case None
  have "auto_keys (AList.update k e m) \<subseteq> insert k (auto_keys m)"
    by (auto simp: auto_keys_def update_conv' split: if_splits)
  then have "card (auto_keys (AList.update k e m)) \<le> card (insert k (auto_keys m))"
    by (intro card_mono) auto
  also have "\<dots> \<le> Suc (card (auto_keys m))" by (simp add: card_insert_if)
  also have "\<dots> \<le> n" using None assms(2) card_auto_keys_le [of m] by simp
  finally show ?thesis .
next
  case (Some x)
  then have "auto_keys (AList.update k e m) = auto_keys m"
    using assms(1) by (auto simp: auto_keys_def update_conv' entry_or_default_def split: if_splits)
  with assms(3) show ?thesis by simp
qed

lemma entry_failure_manual [simp]: "be_manual (fst (entry_failure c e ip now)) = be_manual e"
  by (simp add: entry_failure_def Let_def)

lemma entry_failure_ban: "snd (entry_failure c e ip now) = Some b \<Longrightarrow> b = to_ban (fst (entry_failure c e ip now)) ip"
  by (auto simp: entry_failure_def Let_def split: if_splits)

text \<open>
  The shape of every outcome: some entries not in force may have been evicted, then either nothing
  is stored for want of room or the entry of the failing peer is updated.
\<close>

lemma record_failure_shape:
  assumes d: "distinct (map fst (bl_entries bl))"
  shows "\<exists>m. sub_table m (bl_entries bl) \<and>
           (iterates iter \<longrightarrow> (\<forall>k e. map_of (bl_entries bl) k = Some e \<and> in_force e now \<longrightarrow> map_of m k = Some e)) \<and>
           (record_failure iter bl ip now = (bl\<lparr>bl_entries := m\<rparr>, None) \<and> map_of (bl_entries bl) (from_ip ip) = None \<or>
            (map_of m (from_ip ip) \<noteq> None \<or> length m < bc_max_entries (bl_config bl)) \<and>
            record_failure iter bl ip now =
              (let (e, r) = entry_failure (bl_config bl) (entry_or_default m (from_ip ip)) ip now
               in (bl\<lparr>bl_entries := AList.update (from_ip ip) e m\<rparr>, r)))"
proof -
  let ?full = "length (bl_entries bl) \<ge> bc_max_entries (bl_config bl) \<and> map_of (bl_entries bl) (from_ip ip) = None"
  define p where "p = (if ?full then evict iter (bl_entries bl) (bc_max_entries (bl_config bl)) now else (bl_entries bl, True))"
  define m where "m = fst p"
  have sub: "sub_table m (bl_entries bl)"
    using evict_sub_table [OF d, of iter] d by (auto simp: m_def p_def sub_table_def)
  have keep: "iterates iter \<longrightarrow> (\<forall>k e. map_of (bl_entries bl) k = Some e \<and> in_force e now \<longrightarrow> map_of m k = Some e)"
    using evict_keeps_in_force [OF _ d] by (simp add: m_def p_def)
  have room: "\<not> (?full \<and> \<not> snd p \<and> map_of m (from_ip ip) = None) \<Longrightarrow>
      map_of m (from_ip ip) \<noteq> None \<or> length m < bc_max_entries (bl_config bl)"
    using evict_freed [of iter "bl_entries bl"] by (auto simp: m_def p_def split: if_splits)
  note unf = record_failure_def Let_def p_def [symmetric] m_def case_prod_unfold
  show ?thesis
  proof (cases "?full \<and> \<not> snd p \<and> map_of m (from_ip ip) = None")
    case True
    then have "record_failure iter bl ip now = (bl\<lparr>bl_entries := m\<rparr>, None)" unfolding unf by simp
    with True sub keep show ?thesis by blast
  next
    case False
    then have "record_failure iter bl ip now =
        (let (e, r) = entry_failure (bl_config bl) (entry_or_default m (from_ip ip)) ip now
         in (bl\<lparr>bl_entries := AList.update (from_ip ip) e m\<rparr>, r))" unfolding unf by auto
    with sub keep room [OF False] show ?thesis by blast
  qed
qed

lemma record_failure_inv: "ban_inv bl \<Longrightarrow> ban_inv (fst (record_failure iter bl ip now))"
proof -
  assume inv: "ban_inv bl"
  then obtain m where sub: "sub_table m (bl_entries bl)" and
    c: "record_failure iter bl ip now = (bl\<lparr>bl_entries := m\<rparr>, None) \<or>
        (map_of m (from_ip ip) \<noteq> None \<or> length m < bc_max_entries (bl_config bl)) \<and>
            record_failure iter bl ip now =
              (let (e, r) = entry_failure (bl_config bl) (entry_or_default m (from_ip ip)) ip now
               in (bl\<lparr>bl_entries := AList.update (from_ip ip) e m\<rparr>, r))"
    using record_failure_shape [of bl iter now ip] by (auto simp: ban_inv_def)
  have m: "distinct (map fst m)" "card (auto_keys m) \<le> bc_max_entries (bl_config bl)"
    using sub inv card_mono [OF finite_auto_keys auto_keys_sub [OF sub]] by (auto simp: sub_table_def ban_inv_def)
  let ?e = "fst (entry_failure (bl_config bl) (entry_or_default m (from_ip ip)) ip now)"
  from c show ?thesis
  proof
    assume "(map_of m (from_ip ip) \<noteq> None \<or> length m < bc_max_entries (bl_config bl)) \<and>
            record_failure iter bl ip now =
              (let (e, r) = entry_failure (bl_config bl) (entry_or_default m (from_ip ip)) ip now
               in (bl\<lparr>bl_entries := AList.update (from_ip ip) e m\<rparr>, r))"
    then have "fst (record_failure iter bl ip now) = bl\<lparr>bl_entries := AList.update (from_ip ip) ?e m\<rparr>"
      "card (auto_keys (AList.update (from_ip ip) ?e m)) \<le> bc_max_entries (bl_config bl)"
      using m(2) by (simp_all add: case_prod_unfold Let_def auto_keys_update_le)
    with m show ?thesis by (simp add: ban_inv_def distinct_update)
  qed (use m in \<open>simp add: ban_inv_def\<close>)
qed

section \<open>The other operations\<close>

lemma active_ban_manual [simp]: "be_manual (fst (active_ban e ip now)) = be_manual e"
  by (simp add: active_ban_def split: option.splits)

lemma ban_check_inv: "ban_inv bl \<Longrightarrow> ban_inv (fst (ban_check bl ip now))"
proof (cases "map_of (bl_entries bl) (from_ip ip)")
  case (Some e)
  assume "ban_inv bl"
  moreover from this Some have
    "card (auto_keys (AList.update (from_ip ip) (fst (active_ban e ip now)) (bl_entries bl))) \<le> bc_max_entries (bl_config bl)"
    by (intro auto_keys_update_le) (simp_all add: entry_or_default_def ban_inv_def)
  ultimately show ?thesis
    using Some by (simp add: ban_check_def ban_inv_def distinct_update case_prod_unfold Let_def)
qed (simp add: ban_check_def)

lemma unban_inv: "ban_inv bl \<Longrightarrow> ban_inv (fst (unban bl ip))"
proof -
  assume b: "ban_inv bl"
  then have "sub_table (AList.delete (from_ip ip) (bl_entries bl)) (bl_entries bl)"
    by (intro sub_table_delete) (simp add: sub_table_def ban_inv_def)
  with b show ?thesis
    using card_mono [OF finite_auto_keys auto_keys_sub]
    by (auto simp: unban_def ban_inv_def sub_table_def intro: le_trans)
qed

lemma map_of_map_entries: "map_of (map (\<lambda>(k, e). (k, f e)) m) k = map_option f (map_of m k)"
  by (induction m) auto

lemma ban_entries_inv: "ban_inv bl \<Longrightarrow> ban_inv (fst (ban_entries iter bl now))"
proof -
  assume b: "ban_inv bl"
  let ?f = "\<lambda>e. fst (active_ban e (case be_last_ip e of Some x \<Rightarrow> x | None \<Rightarrow> V4 0) now)"
  define m where "m = map (\<lambda>(k, e). (k, ?f e)) (bl_entries bl)"
  have "auto_keys m = auto_keys (bl_entries bl)"
    by (auto simp: m_def auto_keys_def map_of_map_entries)
  moreover have "map fst m = map fst (bl_entries bl)"
    by (simp add: m_def case_prod_unfold comp_def)
  moreover have "fst (ban_entries iter bl now) = bl\<lparr>bl_entries := m\<rparr>"
    by (simp add: ban_entries_def Let_def m_def)
  ultimately show ?thesis using b by (simp add: ban_inv_def)
qed

text \<open>Installing the wanted addresses one by one.\<close>

definition install :: "ban_map \<times> ip_addr list \<Rightarrow> peer_key \<times> ip_addr \<Rightarrow> ban_map \<times> ip_addr list" where
  "install = (\<lambda>(m, added) (k, ip).
     (let e = entry_or_default m k in
      (AList.update k (manual_entry e ip) m, if be_manual e then added else added @ [ip])))"

lemma install_table:
  "distinct (map fst ws) \<Longrightarrow> distinct (map fst m) \<Longrightarrow>
   distinct (map fst (fst (foldl install (m, added) ws))) \<and>
   map_of (fst (foldl install (m, added) ws)) k =
     (case map_of ws k of
        Some ip \<Rightarrow> Some (manual_entry (entry_or_default m k) ip)
      | None \<Rightarrow> map_of m k)"
proof (induction ws arbitrary: m added)
  case (Cons w ws)
  obtain k' ip where w: "w = (k', ip)" by (cases w)
  let ?m = "AList.update k' (manual_entry (entry_or_default m k') ip) m"
  have "distinct (map fst ?m)" using Cons.prems by (simp add: distinct_update)
  moreover have "entry_or_default ?m k = entry_or_default m k" if "k \<noteq> k'"
    using that by (simp add: entry_or_default_def update_conv')
  moreover have "k' \<notin> fst ` set ws" using Cons.prems w by simp
  then have "map_of ws k' = None" by (simp add: map_of_eq_None_iff)
  ultimately show ?case
    using Cons.IH [of ?m] Cons.prems w
    by (auto simp: install_def Let_def update_conv' split: option.splits)
qed simp

lemma wanted_map_distinct: "distinct (map fst (wanted_map ips))"
proof -
  have "distinct (map fst m) \<Longrightarrow> distinct (map fst (foldl (\<lambda>m ip. AList.update (from_ip ip) ip m) m ips))" for m
    by (induction ips arbitrary: m) (auto simp: distinct_update)
  then show ?thesis by (simp add: wanted_map_def)
qed

lemma wanted_map_dom: "map_of (wanted_map ips) k \<noteq> None \<longleftrightarrow> k \<in> from_ip ` set ips"
proof -
  have "map_of (foldl (\<lambda>m ip. AList.update (from_ip ip) ip m) m ips) k \<noteq> None \<longleftrightarrow>
        k \<in> from_ip ` set ips \<or> map_of m k \<noteq> None" for m
    by (induction ips arbitrary: m) (auto simp: update_conv')
  then show ?thesis by (simp add: wanted_map_def)
qed

lemma wanted_map_key: "map_of (wanted_map ips) k = Some ip \<Longrightarrow> from_ip ip = k"
proof -
  have "(\<And>k ip. map_of m k = Some ip \<Longrightarrow> from_ip ip = k) \<Longrightarrow>
        map_of (foldl (\<lambda>m ip. AList.update (from_ip ip) ip m) m ips) k = Some ip \<Longrightarrow> from_ip ip = k" for m
  proof (induction ips arbitrary: m)
    case (Cons i ips)
    show ?case
      by (rule Cons.IH [OF _ Cons.prems(2) [simplified]]) (auto simp: update_conv' Cons.prems(1) split: if_splits)
  qed simp
  from this [of "[]"] show "map_of (wanted_map ips) k = Some ip \<Longrightarrow> ?thesis" by (simp add: wanted_map_def)
qed

lemma apply_manual_table:
  assumes it: "iterates iter" "iterates witer" and d: "distinct (map fst (bl_entries bl))"
  shows "distinct (map fst (bl_entries (fst (apply_manual iter witer bl ips)))) \<and>
    map_of (bl_entries (fst (apply_manual iter witer bl ips))) k =
      (case map_of (wanted_map ips) k of
         Some ip \<Rightarrow> Some (manual_entry (entry_or_default (bl_entries bl) k) ip)
       | None \<Rightarrow> (case map_of (bl_entries bl) k of
                    Some e \<Rightarrow> if be_manual e then None else Some e
                  | None \<Rightarrow> None))"
proof -
  let ?w = "wanted_map ips"
  define stale where "stale = map (\<lambda>(k, e). (k, case be_last_ip e of Some x \<Rightarrow> x | None \<Rightarrow> V4 0))
                    (filter (\<lambda>(k, e). be_manual e \<and> map_of ?w k = None) (iter (bl_entries bl)))"
  define guard where "guard = foldl (\<lambda>m v. AList.delete (fst v) m) (bl_entries bl) stale"
  have "sub_table guard (bl_entries bl)"
    unfolding guard_def using d by (intro sub_table_deletes) (simp add: sub_table_def)
  then have dg: "distinct (map fst guard)" by (simp add: sub_table_def)
  have st: "k \<in> fst ` set stale \<longleftrightarrow>
      (\<exists>e. map_of (bl_entries bl) k = Some e \<and> be_manual e) \<and> map_of ?w k = None" for k
    using iterates_set [OF it(1), of "bl_entries bl"] d
    by (force simp: stale_def image_iff)
  have g: "map_of guard k = (if k \<in> fst ` set stale then None else map_of (bl_entries bl) k)" for k
    by (simp add: guard_def map_of_deletes)
  have dw: "distinct (map fst (witer ?w))" by (rule iterates_distinct [OF it(2) wanted_map_distinct])
  have mw: "map_of (witer ?w) = map_of ?w"
    using map_of_inject_set [OF dw wanted_map_distinct] iterates_set [OF it(2), of ?w] by simp
  have fin: "bl_entries (fst (apply_manual iter witer bl ips)) = fst (foldl install (guard, []) (witer ?w))"
    by (simp add: apply_manual_def guard_def stale_def install_def Let_def case_prod_unfold)
  have "entry_or_default guard k = entry_or_default (bl_entries bl) k" if "map_of ?w k = Some ip" for ip
    using that st [of k] by (simp add: entry_or_default_def g)
  then show ?thesis
    unfolding fin using install_table [OF dw dg, of "[]" k] st [of k]
    by (auto simp: mw g split: option.splits)
qed

lemma apply_manual_inv:
  assumes "iterates iter" "iterates witer" and b: "ban_inv bl"
  shows "ban_inv (fst (apply_manual iter witer bl ips))"
proof -
  note t = apply_manual_table [OF assms(1,2), of bl ips]
  have "auto_keys (bl_entries (fst (apply_manual iter witer bl ips))) \<subseteq> auto_keys (bl_entries bl)"
  proof
    fix k
    assume "k \<in> auto_keys (bl_entries (fst (apply_manual iter witer bl ips)))"
    then obtain e where "map_of (bl_entries (fst (apply_manual iter witer bl ips))) k = Some e" "\<not> be_manual e"
      by (auto simp: auto_keys_def)
    moreover have "distinct (map fst (bl_entries bl))" using b by (simp add: ban_inv_def)
    ultimately have "map_of (bl_entries bl) k = Some e" using t [of k]
      by (simp add: manual_entry_def del: map_of_eq_Some_iff split: option.splits if_splits) auto
    with \<open>\<not> be_manual e\<close> show "k \<in> auto_keys (bl_entries bl)" by (auto simp: auto_keys_def)
  qed
  then have "card (auto_keys (bl_entries (fst (apply_manual iter witer bl ips)))) \<le> card (auto_keys (bl_entries bl))"
    by (rule card_mono [OF finite_auto_keys])
  moreover have "bl_config (fst (apply_manual iter witer bl ips)) = bl_config bl"
    by (simp add: apply_manual_def Let_def case_prod_unfold)
  ultimately show ?thesis using t b by (simp add: ban_inv_def)
qed

section \<open>Properties\<close>

text \<open>The operations of the list in any order, with any arguments.\<close>

inductive ban_step :: "ban_list \<Rightarrow> ban_list \<Rightarrow> bool" where
  fail: "iterates iter \<Longrightarrow> ban_step bl (fst (record_failure iter bl ip now))"
| check: "ban_step bl (fst (ban_check bl ip now))"
| lift: "ban_step bl (fst (unban bl ip))"
| manual: "iterates iter \<Longrightarrow> iterates witer \<Longrightarrow> ban_step bl (fst (apply_manual iter witer bl ips))"
| list: "iterates iter \<Longrightarrow> ban_step bl (fst (ban_entries iter bl now))"

lemma ban_step_inv: "ban_step b c \<Longrightarrow> ban_inv b \<Longrightarrow> ban_inv c"
  by (induction rule: ban_step.induct)
     (auto simp: record_failure_inv ban_check_inv unban_inv apply_manual_inv ban_entries_inv)

interpretation bans: step_invariant ban_step ban_inv
  by unfold_locales (rule ban_step_inv)

lemma record_failure_config: "bl_config (fst (record_failure iter bl ip now)) = bl_config bl"
  by (simp add: record_failure_def Let_def case_prod_unfold)

lemma ban_step_config: "ban_step b c \<Longrightarrow> bl_config c = bl_config b"
  by (induction rule: ban_step.induct)
     (auto simp: record_failure_config ban_check_def unban_def apply_manual_def ban_entries_def Let_def
        case_prod_unfold split: option.splits)

interpretation bans_config: step_invariant ban_step "\<lambda>bl. bl_config bl = c" for c
  by unfold_locales (simp add: ban_step_config)

text \<open>
  \<^bold>\<open>C34\<close> (bounded table). Whatever sequence of operations is applied to a new ban list, the entries
  it tracks on its own account (those not installed by the administrator) never exceed the
  configured maximum, so an attacker cannot grow the table by failing from many addresses.
\<close>

theorem ban_table_bounded:
  assumes "ban_step\<^sup>*\<^sup>* (ban_list_new c) bl"
  shows "distinct (map fst (bl_entries bl)) \<and>
         card {k. \<exists>e. map_of (bl_entries bl) k = Some e \<and> \<not> be_manual e} \<le> max (bc_max_entries c) 1"
proof -
  have "ban_inv (ban_list_new c)" by (simp add: ban_inv_def ban_list_new_def auto_keys_def)
  then have "ban_inv bl" by (rule bans.run_inv [OF assms])
  moreover have "bl_config bl = bl_config (ban_list_new c)"
    by (rule bans_config.run_inv [OF assms refl])
  then have "bc_max_entries (bl_config bl) = max (bc_max_entries c) 1" by (simp add: ban_list_new_def)
  ultimately show ?thesis unfolding ban_inv_def auto_keys_def by (simp only:)
qed

definition sample_bans :: ban_list where
  "sample_bans =
     ban_list_new \<lparr>bc_max_failures = 2, bc_window_secs = 60, bc_temp_ban_secs = 100, bc_permanent_after = 2,
       bc_max_entries = 1\<rparr>"

lemma iterates_id: "iterates (\<lambda>m. m)"
  by (simp add: iterates_def)

theorem ban_table_bounded_witness:
  "card {k. \<exists>e. map_of (bl_entries (fst (record_failure (\<lambda>m. m) sample_bans (V4 7) 5))) k = Some e \<and> \<not> be_manual e} \<le> 1"
proof -
  have "ban_step\<^sup>*\<^sup>* sample_bans (fst (record_failure (\<lambda>m. m) sample_bans (V4 7) 5))"
    by (rule r_into_rtranclp) (rule ban_step.fail [OF iterates_id])
  from ban_table_bounded [OF this [unfolded sample_bans_def]] show ?thesis
    by (simp add: sample_bans_def del: map_of_eq_Some_iff)
qed

lemma check_to_ban:
  assumes "map_of (bl_entries bl) (from_ip ip) = Some e" and "ban_is_active (to_ban e ip') t"
  shows "snd (ban_check bl ip t) = Some (to_ban e ip)"
  using assms
  by (auto simp: ban_check_def active_ban_def ban_is_active_def to_ban_def Let_def split: option.splits if_splits)

text \<open>
  \<^bold>\<open>C32\<close> (bans are enforced and not displaced). When recording a failure returns a ban, that ban is
  what every later check of the same peer returns for as long as it is active, whichever address
  of the peer it comes from; and recording a failure of one peer changes no ban in force of any
  other peer, even when the table is full and entries are evicted.
\<close>

theorem record_failure_enforced:
  assumes "distinct (map fst (bl_entries bl))" and "iterates iter"
    and "record_failure iter bl ip now = (bl1, r)"
  shows "(\<forall>b ip' t. r = Some b \<and> ban_is_active b t \<and> from_ip ip' = from_ip ip \<longrightarrow>
            snd (ban_check bl1 ip' t) = Some b) \<and>
         (\<forall>k e. k \<noteq> from_ip ip \<and> map_of (bl_entries bl) k = Some e \<and> in_force e now \<longrightarrow>
            map_of (bl_entries bl1) k = Some e)"
proof -
  from record_failure_shape [OF assms(1), of iter now ip] assms(2,3) obtain m where
    keep: "\<forall>k e. map_of (bl_entries bl) k = Some e \<and> in_force e now \<longrightarrow> map_of m k = Some e" and
    c: "bl1 = bl\<lparr>bl_entries := m\<rparr> \<and> r = None \<or>
        (let (e, r) = entry_failure (bl_config bl) (entry_or_default m (from_ip ip)) ip now
         in (bl\<lparr>bl_entries := AList.update (from_ip ip) e m\<rparr>, r)) = (bl1, r)" by auto
  from c show ?thesis
  proof
    assume "bl1 = bl\<lparr>bl_entries := m\<rparr> \<and> r = None"
    with keep show ?thesis by (simp del: map_of_eq_Some_iff)
  next
    assume "(let (e, r) = entry_failure (bl_config bl) (entry_or_default m (from_ip ip)) ip now
         in (bl\<lparr>bl_entries := AList.update (from_ip ip) e m\<rparr>, r)) = (bl1, r)"
    then obtain e where e: "entry_failure (bl_config bl) (entry_or_default m (from_ip ip)) ip now = (e, r)"
      "bl1 = bl\<lparr>bl_entries := AList.update (from_ip ip) e m\<rparr>" by (auto simp: case_prod_unfold Let_def prod_eq_iff)
    have "b = to_ban e ip \<and> be_last_ip e = Some ip" if "r = Some b" for b
      using e(1) that by (auto simp: entry_failure_def Let_def split: if_splits)
    moreover have "to_ban e x = to_ban e y" if "be_last_ip e = Some ip" for x y
      using that by (simp add: to_ban_def)
    moreover have "map_of (bl_entries bl1) (from_ip ip) = Some e"
      using e(2) by (simp add: update_conv' del: map_of_eq_Some_iff)
    ultimately have "snd (ban_check bl1 ip' t) = Some b"
      if "r = Some b" "ban_is_active b t" "from_ip ip' = from_ip ip" for b ip' t
      using check_to_ban [of bl1 ip' e ip t] that by metis
    moreover have "map_of (bl_entries bl1) k = Some x"
      if "k \<noteq> from_ip ip" "map_of (bl_entries bl) k = Some x" "in_force x now" for k x
      using that keep e(2) by (simp add: update_conv' del: map_of_eq_Some_iff)
    ultimately show ?thesis by blast
  qed
qed

theorem record_failure_enforced_witness:
  "snd (ban_check (fst (record_failure (\<lambda>m. m) (fst (record_failure (\<lambda>m. m) sample_bans (V4 7) 5)) (V4 7) 6)) (V4 7) 50) \<noteq> None"
proof -
  let ?bl = "fst (record_failure (\<lambda>m. m) sample_bans (V4 7) 5)"
  let ?r = "record_failure (\<lambda>m. m) ?bl (V4 7) 6"
  note ev = record_failure_def entry_failure_def sample_bans_def ban_list_new_def entry_or_default_def
    ban_entry_default_def ban_is_active_def to_ban_def sat_i64_def sat_u32_def
  have d: "distinct (map fst (bl_entries ?bl))" by (simp add: ev)
  have "snd ?r \<noteq> None \<and> ban_is_active (the (snd ?r)) 50" by (simp add: ev)
  then obtain b where "snd ?r = Some b" "ban_is_active b 50" by auto
  then have "snd (ban_check (fst ?r) (V4 7) 50) = Some b"
    using record_failure_enforced [OF d iterates_id surjective_pairing [of ?r]] by blast
  then show ?thesis by simp
qed

text \<open>
  Manual bans. Applying the administrator's list bans exactly the listed peers by hand:
  every listed address is refused from then on at any time, manual bans of peers that are not
  listed any more are gone, and automatic records of unlisted peers are unchanged.
\<close>

lemma apply_manual_exact:
  assumes "iterates iter" "iterates witer" "distinct (map fst (bl_entries bl))"
    and "apply_manual iter witer bl ips = (bl1, diff)"
  shows "(\<forall>ip\<in>set ips. \<exists>b. \<forall>t. snd (ban_check bl1 ip t) = Some b \<and> ban_permanent b \<and> ban_manual b) \<and>
         (\<forall>k. k \<notin> from_ip ` set ips \<longrightarrow>
            map_of (bl_entries bl1) k =
              (case map_of (bl_entries bl) k of Some e \<Rightarrow> if be_manual e then None else Some e | None \<Rightarrow> None))"
proof -
  have bl1: "bl1 = fst (apply_manual iter witer bl ips)" using assms(4) by simp
  note t = apply_manual_table [OF assms(1-3), of ips, folded bl1]
  have "\<exists>b. \<forall>t. snd (ban_check bl1 ip t) = Some b \<and> ban_permanent b \<and> ban_manual b" if "ip \<in> set ips" for ip
  proof -
    have "map_of (wanted_map ips) (from_ip ip) \<noteq> None" using that wanted_map_dom by auto
    then obtain w where "map_of (wanted_map ips) (from_ip ip) = Some w" by auto
    then have "map_of (bl_entries bl1) (from_ip ip) =
        Some (manual_entry (entry_or_default (bl_entries bl) (from_ip ip)) w)"
      using t [of "from_ip ip"] by (simp del: map_of_eq_Some_iff)
    then show ?thesis
      by (simp add: ban_check_def active_ban_def manual_entry_def to_ban_def Let_def del: map_of_eq_Some_iff)
  qed
  moreover have "map_of (wanted_map ips) k = None" if "k \<notin> from_ip ` set ips" for k
    using that wanted_map_dom [of ips k] by blast
  ultimately show ?thesis using t by (simp del: map_of_eq_Some_iff)
qed

fun record_failures ::
  "(ban_map \<Rightarrow> ban_map) \<Rightarrow> ban_list \<Rightarrow> ip_addr \<Rightarrow> int list \<Rightarrow> ban_list \<times> ban option" where
  "record_failures iter bl ip [] = (bl, None)"
| "record_failures iter bl ip [t] = record_failure iter bl ip t"
| "record_failures iter bl ip (t # u # ts) = record_failures iter (fst (record_failure iter bl ip t)) ip (u # ts)"

lemma record_failure_room:
  assumes "map_of (bl_entries bl) (from_ip ip) \<noteq> None \<or> length (bl_entries bl) < bc_max_entries (bl_config bl)"
  shows "record_failure iter bl ip now =
    (let (e, r) = entry_failure (bl_config bl) (entry_or_default (bl_entries bl) (from_ip ip)) ip now
     in (bl\<lparr>bl_entries := AList.update (from_ip ip) e (bl_entries bl)\<rparr>, r))"
  using assms by (auto simp: record_failure_def Let_def)

lemma entry_failure_counts:
  assumes "\<not> be_permanent e" "be_banned_until e = None" "length (be_failures e) < U32_MAX"
    and "\<forall>at\<in>set (be_failures e). sat_i64 (now - at) < bc_window_secs c"
  shows "if Suc (length (be_failures e)) < bc_max_failures c
         then snd (entry_failure c e ip now) = None \<and>
              be_failures (fst (entry_failure c e ip now)) = be_failures e @ [now] \<and>
              \<not> be_permanent (fst (entry_failure c e ip now)) \<and>
              be_banned_until (fst (entry_failure c e ip now)) = None
         else snd (entry_failure c e ip now) \<noteq> None"
  using assms by (simp add: entry_failure_def Let_def filter_id_conv [THEN iffD2])

lemma record_failures_ban:
  assumes "ts \<noteq> []"
    and "map_of (bl_entries bl) (from_ip ip) \<noteq> None \<or> length (bl_entries bl) < bc_max_entries (bl_config bl)"
    and "entry_or_default (bl_entries bl) (from_ip ip) = e" "\<not> be_permanent e" "be_banned_until e = None"
    and "length (be_failures e @ ts) = bc_max_failures (bl_config bl)" "bc_max_failures (bl_config bl) \<le> U32_MAX"
    and "\<forall>x\<in>set (be_failures e @ ts). \<forall>y\<in>set ts. sat_i64 (y - x) < bc_window_secs (bl_config bl)"
  shows "snd (record_failures iter bl ip ts) \<noteq> None"
  using assms
proof (induction iter bl ip ts arbitrary: e rule: record_failures.induct)
  case (2 iter bl ip t)
  then show ?case
    using entry_failure_counts [of e t "bl_config bl" ip] record_failure_room [of bl ip iter t]
    by (auto simp: case_prod_unfold Let_def)
next
  case (3 iter bl ip t u ts)
  let ?bl = "fst (record_failure iter bl ip t)"
  let ?e = "fst (entry_failure (bl_config bl) e ip t)"
  have bl: "?bl = bl\<lparr>bl_entries := AList.update (from_ip ip) ?e (bl_entries bl)\<rparr>"
    using record_failure_room [OF "3.prems"(2), of iter t] "3.prems"(3) by (simp add: case_prod_unfold Let_def)
  have e: "be_failures ?e = be_failures e @ [t]" "\<not> be_permanent ?e" "be_banned_until ?e = None"
    using entry_failure_counts [of e t "bl_config bl" ip] "3.prems" by (simp_all split: if_splits)
  show ?case
    unfolding record_failures.simps
  proof (rule "3.IH" [where e = ?e])
    show "entry_or_default (bl_entries ?bl) (from_ip ip) = ?e" by (simp add: bl entry_or_default_def update_conv')
    show "map_of (bl_entries ?bl) (from_ip ip) \<noteq> None \<or> length (bl_entries ?bl) < bc_max_entries (bl_config ?bl)"
      by (simp add: bl update_conv' del: map_of_eq_None_iff)
  qed (use e bl "3.prems" in auto)
qed simp



end
