(* ===== verification/RateLimit.thy ===== *)
theory RateLimit
  imports Complex_Main Ban
begin

text \<open>
  The token bucket of the SMTP listener (\<^verbatim>\<open>crates/smtpd/src/ratelimit.rs\<close>). Token counts are
  \<open>f64\<close> in the code; here they are rationals and every arithmetic operation is followed by the
  rounding function \<open>rnd\<close>, of which \<open>rounding\<close> states what IEEE 754 guarantees: it is monotone and
  exact on integers up to \<open>2\<^sup>5\<^sup>3\<close>. The configured rate is a finite number. As in the ban list, the
  iteration order of the \<open>HashMap\<close> is the parameter \<open>iter\<close>.

  Shown: the number of tokens stays between zero and the burst, the table never outgrows its
  bound, and without the passing of time a peer is let in exactly as often as the burst allows.
\<close>

record rate_config =
  rc_burst :: nat
  rc_refill_per_second :: rat
  rc_max_entries :: nat

datatype rate_decision = RateAllowed | RateLimited nat

record bucket =
  bk_tokens :: rat
  bk_last_millis :: int

type_synonym buckets = "(peer_key \<times> bucket) list"

record rate_limiter =
  rl_config :: rate_config
  rl_buckets :: buckets

definition rate_limiter_new :: "rate_config \<Rightarrow> rate_limiter" where
  "rate_limiter_new c =
     \<lparr>rl_config =
        \<lparr>rc_burst = max (rc_burst c) 1,
         rc_refill_per_second = (if rc_refill_per_second c > 0 then rc_refill_per_second c else 1),
         rc_max_entries = max (rc_max_entries c) 1\<rparr>,
      rl_buckets = []\<rparr>"

definition projected :: "(rat \<Rightarrow> rat) \<Rightarrow> bucket \<Rightarrow> rat \<Rightarrow> rat \<Rightarrow> int \<Rightarrow> rat" where
  "projected rnd b capacity rate elapsed =
     min (rnd (bk_tokens b + rnd (rnd (rnd (of_int elapsed) / 1000) * rate))) capacity"

definition refill :: "(rat \<Rightarrow> rat) \<Rightarrow> bucket \<Rightarrow> rat \<Rightarrow> rat \<Rightarrow> int \<Rightarrow> bucket" where
  "refill rnd b capacity rate now_millis =
     (let elapsed = sat_i64 (now_millis - bk_last_millis b) in
      if elapsed > 0
      then b\<lparr>bk_tokens := projected rnd b capacity rate elapsed, bk_last_millis := now_millis\<rparr>
      else b)"

definition retry_after :: "(rat \<Rightarrow> rat) \<Rightarrow> rat \<Rightarrow> rat \<Rightarrow> nat" where
  "retry_after rnd tokens rate =
     (let missing = max (rnd (1 - tokens)) 0
      in sat_u64 (nat (max (ceiling (rnd (missing / rate))) 1)))"

definition rate_evict ::
  "(rat \<Rightarrow> rat) \<Rightarrow> (buckets \<Rightarrow> buckets) \<Rightarrow> buckets \<Rightarrow> rat \<Rightarrow> rat \<Rightarrow> int \<Rightarrow> nat \<Rightarrow> buckets" where
  "rate_evict rnd iter buckets capacity rate now_millis max_entries =
     (let kept = filter (\<lambda>(_, b).
            projected rnd b capacity rate (sat_i64 (now_millis - bk_last_millis b)) < capacity) buckets
      in
      if length kept < max_entries then kept
      else
        (let ages = sort_key snd (map (\<lambda>(k, b). (k, bk_last_millis b)) (iter kept));
             target = max_entries - 1;
             remove_count = length kept - target
         in foldl (\<lambda>m v. AList.delete (fst v) m) kept (take remove_count ages)))"

definition rate_check ::
  "(rat \<Rightarrow> rat) \<Rightarrow> (buckets \<Rightarrow> buckets) \<Rightarrow> rate_limiter \<Rightarrow> ip_addr \<Rightarrow> int \<Rightarrow> rate_limiter \<times> rate_decision" where
  "rate_check rnd iter rl ip now_millis =
     (let key = from_ip ip;
          config = rl_config rl;
          capacity = of_nat (rc_burst config);
          rate = rc_refill_per_second config
      in
      case map_of (rl_buckets rl) key of
        Some b0 \<Rightarrow>
          (let b = refill rnd b0 capacity rate now_millis in
           if bk_tokens b \<ge> 1
           then (rl\<lparr>rl_buckets := AList.update key (b\<lparr>bk_tokens := rnd (bk_tokens b - 1)\<rparr>) (rl_buckets rl)\<rparr>,
                 RateAllowed)
           else (rl\<lparr>rl_buckets := AList.update key b (rl_buckets rl)\<rparr>,
                 RateLimited (retry_after rnd (bk_tokens b) rate)))
      | None \<Rightarrow>
          (let buckets =
                 (if length (rl_buckets rl) \<ge> rc_max_entries config
                  then rate_evict rnd iter (rl_buckets rl) capacity rate now_millis (rc_max_entries config)
                  else rl_buckets rl);
               b = refill rnd \<lparr>bk_tokens = capacity, bk_last_millis = now_millis\<rparr> capacity rate now_millis;
               b = b\<lparr>bk_tokens := rnd (bk_tokens b - 1)\<rparr>
           in (rl\<lparr>rl_buckets := AList.update key b buckets\<rparr>, RateAllowed)))"

definition rounding :: "(rat \<Rightarrow> rat) \<Rightarrow> bool" where
  "rounding rnd \<longleftrightarrow> mono rnd \<and> (\<forall>n :: int. \<bar>n\<bar> \<le> 2 ^ 53 \<longrightarrow> rnd (of_int n) = of_int n)"

section \<open>The invariant\<close>

definition bucket_ok :: "nat \<Rightarrow> bucket \<Rightarrow> bool" where
  "bucket_ok burst b \<longleftrightarrow> 0 \<le> bk_tokens b \<and> bk_tokens b \<le> of_nat burst"

definition rate_inv :: "rate_limiter \<Rightarrow> bool" where
  "rate_inv rl \<longleftrightarrow>
     distinct (map fst (rl_buckets rl)) \<and>
     length (rl_buckets rl) \<le> rc_max_entries (rl_config rl) \<and>
     (\<forall>(k, b)\<in>set (rl_buckets rl). bucket_ok (rc_burst (rl_config rl)) b) \<and>
     1 \<le> rc_burst (rl_config rl) \<and> rc_burst (rl_config rl) \<le> U32_MAX \<and>
     1 \<le> rc_max_entries (rl_config rl) \<and> 0 < rc_refill_per_second (rl_config rl)"

lemma rounding_int: "rounding rnd \<Longrightarrow> n \<le> U32_MAX \<Longrightarrow> rnd (of_nat n) = of_nat n"
proof -
  assume r: "rounding rnd" and "n \<le> U32_MAX"
  then have "\<bar>int n\<bar> \<le> 2 ^ 53" by simp
  with r have "rnd (of_int (int n)) = of_int (int n)" unfolding rounding_def by blast
  then show ?thesis by simp
qed

lemma rounding_nonneg: "rounding rnd \<Longrightarrow> 0 \<le> x \<Longrightarrow> 0 \<le> rnd x"
  using rounding_int [of rnd 0] unfolding rounding_def by (auto dest: monoD [of rnd 0 x])

lemma rounding_le: "rounding rnd \<Longrightarrow> x \<le> of_nat n \<Longrightarrow> n \<le> U32_MAX \<Longrightarrow> rnd x \<le> of_nat n"
  using rounding_int [of rnd n] unfolding rounding_def by (auto dest: monoD [of rnd x "of_nat n"])

lemma projected_ok:
  assumes "rounding rnd" "bucket_ok burst b" "0 < rate" "0 < e"
  shows "0 \<le> projected rnd b (of_nat burst) rate e \<and> projected rnd b (of_nat burst) rate e \<le> of_nat burst"
proof -
  note nn = rounding_nonneg [OF assms(1)]
  define x where "x = rnd (rnd (rnd (of_int e) / 1000) * rate)"
  have "0 \<le> rnd (of_int e)" by (rule nn) (use assms(4) in simp)
  then have "0 \<le> rnd (rnd (of_int e) / 1000)" by (intro nn) simp
  then have "0 \<le> x" unfolding x_def by (intro nn) (use assms(3) in simp)
  then have "0 \<le> rnd (bk_tokens b + x)" by (intro nn) (use assms(2) in \<open>simp add: bucket_ok_def\<close>)
  then show ?thesis by (simp add: projected_def x_def)
qed

lemma refill_ok:
  assumes "rounding rnd" "bucket_ok burst b" "0 < rate"
  shows "bucket_ok burst (refill rnd b (of_nat burst) rate now)"
  using assms projected_ok [OF assms, of "sat_i64 (now - bk_last_millis b)"]
  by (auto simp: refill_def bucket_ok_def Let_def)

lemma take_token_ok:
  assumes "rounding rnd" "bucket_ok burst b" "1 \<le> bk_tokens b" "burst \<le> U32_MAX"
  shows "bucket_ok burst (b\<lparr>bk_tokens := rnd (bk_tokens b - 1)\<rparr>)"
proof -
  have "0 \<le> rnd (bk_tokens b - 1)" by (rule rounding_nonneg [OF assms(1)]) (use assms(3) in simp)
  moreover have "bk_tokens b - 1 \<le> of_nat burst" using assms(2) by (simp add: bucket_ok_def)
  then have "rnd (bk_tokens b - 1) \<le> of_nat burst" by (rule rounding_le [OF assms(1) _ assms(4)])
  ultimately show ?thesis by (simp add: bucket_ok_def)
qed

lemma set_update_subset:
  "set (AList.update k v m) \<subseteq> insert (k, v) (set m)"
  by (induction m) auto

lemma length_update: "length (AList.update k v m) = (if k \<in> fst ` set m then length m else Suc (length m))"
  by (induction m) auto

lemma length_delete: "distinct (map fst m) \<Longrightarrow> k \<in> fst ` set m \<Longrightarrow> length (AList.delete k m) = length m - 1"
proof (induction m)
  case (Cons x m)
  then show ?case
  proof (cases "fst x = k")
    case True
    with Cons.prems have "k \<notin> fst ` set m" by auto
    then have "AList.delete k m = m" by (simp add: delete_id)
    with True show ?thesis by (cases x) simp
  next
    case False
    with Cons show ?thesis by (cases x; cases m) auto
  qed
qed simp

lemma fst_set_delete: "fst ` set (AList.delete k m) = fst ` set m - {k}"
  by (force simp: AList.delete_eq)

lemma set_delete_subset: "set (AList.delete k m) \<subseteq> set m"
  by (auto simp: AList.delete_eq)

lemma length_deletes:
  "distinct (map fst m) \<Longrightarrow> distinct (map fst vs) \<Longrightarrow> fst ` set vs \<subseteq> fst ` set m \<Longrightarrow>
   length (foldl (\<lambda>m v. AList.delete (fst v) m) m vs) = length m - length vs \<and>
   distinct (map fst (foldl (\<lambda>m v. AList.delete (fst v) m) m vs)) \<and>
   set (foldl (\<lambda>m v. AList.delete (fst v) m) m vs) \<subseteq> set m"
proof (induction vs arbitrary: m)
  case (Cons v vs)
  let ?m = "AList.delete (fst v) m"
  have "distinct (map fst ?m)" using Cons.prems by (simp add: distinct_delete)
  moreover have "fst v \<notin> fst ` set vs" "fst ` set vs \<subseteq> fst ` set m" using Cons.prems by simp_all
  then have "fst ` set vs \<subseteq> fst ` set ?m" unfolding fst_set_delete by blast
  ultimately show ?case
    using Cons.IH [of ?m] Cons.prems length_delete [of m "fst v"] set_delete_subset [of "fst v" m]
    by auto
qed simp

lemma rate_evict_ok:
  assumes it: "iterates iter" and d: "distinct (map fst m)" and n: "1 \<le> n"
  shows "length (rate_evict rnd iter m cap rate now n) < n \<and>
         distinct (map fst (rate_evict rnd iter m cap rate now n)) \<and>
         set (rate_evict rnd iter m cap rate now n) \<subseteq> set m"
proof -
  define kept where "kept = filter (\<lambda>(_, b).
    projected rnd b cap rate (sat_i64 (now - bk_last_millis b)) < cap) m"
  define ages where "ages = sort_key snd (map (\<lambda>(k, b). (k, bk_last_millis b)) (iter kept))"
  define vs where "vs = take (length kept - (n - 1)) ages"
  have dk: "distinct (map fst kept)" using d by (simp add: kept_def distinct_map_filter)
  have "mset (map fst ages) = mset (map fst (iter kept))"
    by (simp add: ages_def case_prod_unfold comp_def multiset.map_comp)
  then have da: "distinct (map fst ages)" and sa: "fst ` set ages = fst ` set kept"
    using iterates_distinct [OF it dk] iterates_set [OF it, of kept]
    by (metis mset_eq_imp_distinct_iff, metis list.set_map mset_eq_setD)
  have la: "length ages = length kept"
    using it by (simp add: ages_def iterates_def) (metis size_mset)
  have "distinct (map fst vs)" using da by (simp add: vs_def take_map [symmetric] distinct_take)
  moreover have "fst ` set vs \<subseteq> fst ` set kept" using sa by (metis image_mono set_take_subset vs_def)
  ultimately have dl: "length (foldl (\<lambda>m v. AList.delete (fst v) m) kept vs) = length kept - length vs \<and>
      distinct (map fst (foldl (\<lambda>m v. AList.delete (fst v) m) kept vs)) \<and>
      set (foldl (\<lambda>m v. AList.delete (fst v) m) kept vs) \<subseteq> set kept"
    using length_deletes [OF dk] by blast
  have lv: "length vs = length kept - (n - 1)" using la by (simp add: vs_def)
  have "rate_evict rnd iter m cap rate now n =
      (if length kept < n then kept else foldl (\<lambda>m v. AList.delete (fst v) m) kept vs)"
    by (simp add: rate_evict_def Let_def kept_def [symmetric] ages_def [symmetric] vs_def)
  moreover have "set kept \<subseteq> set m" by (auto simp: kept_def)
  ultimately show ?thesis using dl lv dk n by auto
qed

lemma rate_check_inv:
  assumes r: "rounding rnd" and it: "iterates iter" and inv: "rate_inv rl"
  shows "rate_inv (fst (rate_check rnd iter rl ip now))"
proof -
  let ?c = "rl_config rl"
  have b1: "1 \<le> rc_burst ?c" "rc_burst ?c \<le> U32_MAX" "1 \<le> rc_max_entries ?c" "0 < rc_refill_per_second ?c"
    using inv by (simp_all add: rate_inv_def)
  have put: "rate_inv (rl\<lparr>rl_buckets := AList.update (from_ip ip) b m\<rparr>)"
    if "bucket_ok (rc_burst ?c) b" "distinct (map fst m)" "\<forall>(k, b)\<in>set m. bucket_ok (rc_burst ?c) b"
      "length (AList.update (from_ip ip) b m) \<le> rc_max_entries ?c" for b m
    using that inv set_update_subset [of "from_ip ip" b m] by (fastforce simp: rate_inv_def distinct_update)
  show ?thesis
  proof (cases "map_of (rl_buckets rl) (from_ip ip)")
    case (Some b0)
    then have "(from_ip ip, b0) \<in> set (rl_buckets rl)" by (rule map_of_SomeD)
    then have ok0: "bucket_ok (rc_burst ?c) b0" and mem: "from_ip ip \<in> fst ` set (rl_buckets rl)"
      using inv by (auto simp: rate_inv_def) force
    define b where "b = refill rnd b0 (of_nat (rc_burst ?c)) (rc_refill_per_second ?c) now"
    have okb: "bucket_ok (rc_burst ?c) b" unfolding b_def by (rule refill_ok [OF r ok0 b1(4)])
    have fits: "length (AList.update (from_ip ip) x (rl_buckets rl)) \<le> rc_max_entries ?c" for x
      using mem inv by (simp add: length_update rate_inv_def)
    have "distinct (map fst (rl_buckets rl))" "\<forall>(k, b)\<in>set (rl_buckets rl). bucket_ok (rc_burst ?c) b"
      using inv by (auto simp: rate_inv_def)
    then show ?thesis
      using Some put [OF okb _ _ fits] put [OF take_token_ok [OF r okb _ b1(2)] _ _ fits]
      by (simp add: rate_check_def Let_def b_def [symmetric])
  next
    case None
    define m where "m = (if length (rl_buckets rl) \<ge> rc_max_entries ?c
        then rate_evict rnd iter (rl_buckets rl) (of_nat (rc_burst ?c)) (rc_refill_per_second ?c) now (rc_max_entries ?c)
        else rl_buckets rl)"
    define b where "b = refill rnd \<lparr>bk_tokens = of_nat (rc_burst ?c), bk_last_millis = now\<rparr>
        (of_nat (rc_burst ?c)) (rc_refill_per_second ?c) now"
    have b: "b = \<lparr>bk_tokens = of_nat (rc_burst ?c), bk_last_millis = now\<rparr>"
      by (simp add: b_def refill_def sat_i64_def)
    have okb: "bucket_ok (rc_burst ?c) (b\<lparr>bk_tokens := rnd (bk_tokens b - 1)\<rparr>)"
      by (rule take_token_ok [OF r _ _ b1(2)]) (use b1 in \<open>simp_all add: b bucket_ok_def\<close>)
    have "length m < rc_max_entries ?c \<and> distinct (map fst m) \<and> set m \<subseteq> set (rl_buckets rl)"
      using rate_evict_ok [OF it _ b1(3), of "rl_buckets rl"] inv by (auto simp: m_def rate_inv_def)
    then have "length (AList.update (from_ip ip) (b\<lparr>bk_tokens := rnd (bk_tokens b - 1)\<rparr>) m) \<le> rc_max_entries ?c"
      "distinct (map fst m)" "\<forall>(k, b)\<in>set m. bucket_ok (rc_burst ?c) b"
      using inv by (auto simp: length_update rate_inv_def)
    then show ?thesis
      using None put [OF okb] by (simp add: rate_check_def Let_def m_def [symmetric] b_def [symmetric])
  qed
qed

inductive rate_step :: "(rat \<Rightarrow> rat) \<Rightarrow> rate_limiter \<Rightarrow> rate_limiter \<Rightarrow> bool" for rnd where
  check: "iterates iter \<Longrightarrow> rate_step rnd rl (fst (rate_check rnd iter rl ip now))"

lemma rate_step_inv: "rate_step rnd a b \<Longrightarrow> rate_inv a \<and> rounding rnd \<Longrightarrow> rate_inv b \<and> rounding rnd"
  by (induction rule: rate_step.induct) (auto simp: rate_check_inv)

interpretation rates: step_invariant "rate_step rnd" "\<lambda>rl. rate_inv rl \<and> rounding rnd" for rnd
  by unfold_locales (rule rate_step_inv)

lemma rate_inv_new: "rc_burst c \<le> U32_MAX \<Longrightarrow> rate_inv (rate_limiter_new c)"
  by (simp add: rate_inv_def rate_limiter_new_def)

lemma rate_step_config: "rate_step rnd a b \<Longrightarrow> rl_config b = rl_config a"
  by (induction rule: rate_step.induct) (simp add: rate_check_def Let_def split: option.splits)

interpretation rates_config: step_invariant "rate_step rnd" "\<lambda>rl. rl_config rl = c" for rnd c
  by unfold_locales (simp add: rate_step_config)

text \<open>
  Token bucket invariant. After any sequence of checks, from any addresses and with any
  clock readings, the limiter tracks at most the configured number of peers, each once, and every
  bucket holds between zero and \<open>burst\<close> tokens, whatever the rounding of the floating-point
  arithmetic.
\<close>

lemma rate_limiter_bounded:
  assumes "rounding rnd" and "rc_burst c \<le> U32_MAX" and "(rate_step rnd)\<^sup>*\<^sup>* (rate_limiter_new c) rl"
  shows "length (rl_buckets rl) \<le> max (rc_max_entries c) 1 \<and> distinct (map fst (rl_buckets rl)) \<and>
         (\<forall>(k, b)\<in>set (rl_buckets rl). 0 \<le> bk_tokens b \<and> bk_tokens b \<le> of_nat (max (rc_burst c) 1))"
proof -
  have "rate_inv rl"
    using rates.run_inv [OF assms(3)] rate_inv_new [OF assms(2)] assms(1) by blast
  moreover have "rl_config rl = rl_config (rate_limiter_new c)"
    by (rule rates_config.run_inv [OF assms(3) refl])
  then have "rc_max_entries (rl_config rl) = max (rc_max_entries c) 1" "rc_burst (rl_config rl) = max (rc_burst c) 1"
    by (simp_all add: rate_limiter_new_def)
  ultimately show ?thesis unfolding rate_inv_def bucket_ok_def by simp
qed

definition sample_rate :: rate_config where
  "sample_rate = \<lparr>rc_burst = 2, rc_refill_per_second = 1, rc_max_entries = 1\<rparr>"

lemma rounding_id: "rounding (\<lambda>x. x)"
  by (simp add: rounding_def mono_def)

text \<open>Repeated checks of one peer at one instant.\<close>

fun rate_checks :: "(rat \<Rightarrow> rat) \<Rightarrow> (buckets \<Rightarrow> buckets) \<Rightarrow> rate_limiter \<Rightarrow> ip_addr \<Rightarrow> int \<Rightarrow> nat \<Rightarrow> rate_limiter" where
  "rate_checks rnd iter rl ip now 0 = rl"
| "rate_checks rnd iter rl ip now (Suc n) = fst (rate_check rnd iter (rate_checks rnd iter rl ip now n) ip now)"

lemma rate_check_at:
  assumes r: "rounding rnd" and b: "map_of (rl_buckets rl) (from_ip ip) = Some \<lparr>bk_tokens = of_nat t, bk_last_millis = now\<rparr>"
    and t: "t \<le> U32_MAX"
  shows "if t > 0
    then snd (rate_check rnd iter rl ip now) = RateAllowed \<and>
         map_of (rl_buckets (fst (rate_check rnd iter rl ip now))) (from_ip ip) =
           Some \<lparr>bk_tokens = of_nat (t - 1), bk_last_millis = now\<rparr>
    else snd (rate_check rnd iter rl ip now) \<noteq> RateAllowed \<and>
         map_of (rl_buckets (fst (rate_check rnd iter rl ip now))) (from_ip ip) =
           Some \<lparr>bk_tokens = of_nat t, bk_last_millis = now\<rparr>"
proof (cases t)
  case 0
  with b show ?thesis by (simp add: rate_check_def refill_def sat_i64_def update_conv' Let_def)
next
  case (Suc u)
  then have "rnd (of_nat t - 1) = of_nat u" using rounding_int [OF r, of u] t by simp
  with b Suc show ?thesis by (simp add: rate_check_def refill_def sat_i64_def update_conv' Let_def)
qed

lemma rate_checks_at:
  assumes "rounding rnd" "rc_burst c \<le> U32_MAX"
  shows "map_of (rl_buckets (rate_checks rnd iter (rate_limiter_new c) ip now (Suc n))) (from_ip ip) =
    Some \<lparr>bk_tokens = of_nat (max (rc_burst c) 1 - Suc n), bk_last_millis = now\<rparr>"
proof (induction n)
  case 0
  have "rnd (of_nat (max (rc_burst c) 1) - 1) = of_nat (max (rc_burst c) 1 - 1)"
    using rounding_int [OF assms(1), of "max (rc_burst c) 1 - 1"] assms(2) by (simp add: of_nat_diff)
  then show ?case
    by (simp add: rate_check_def rate_limiter_new_def refill_def sat_i64_def Let_def update_conv' of_nat_max)
next
  case (Suc n)
  have "max (rc_burst c) 1 - Suc n \<le> U32_MAX" using assms(2) by simp
  from rate_check_at [OF assms(1) Suc this, of iter] show ?case
    by (subst rate_checks.simps) (auto split: if_splits)
qed

text \<open>
  Burst. A peer that connects again and again at one instant is let in exactly \<open>burst\<close>
  times: the first \<open>burst\<close> checks allow it and every further one refuses it.
\<close>

lemma rate_limiter_burst:
  assumes "rounding rnd" and "rc_burst c \<le> U32_MAX"
  shows "snd (rate_check rnd iter (rate_checks rnd iter (rate_limiter_new c) ip now n) ip now) = RateAllowed
         \<longleftrightarrow> n < max (rc_burst c) 1"
proof (cases n)
  case 0
  then show ?thesis by (simp add: rate_check_def rate_limiter_new_def Let_def)
next
  case (Suc k)
  have "max (rc_burst c) 1 - Suc k \<le> U32_MAX" using assms(2) by simp
  from rate_check_at [OF assms(1) rate_checks_at [OF assms, of iter ip now k] this, of iter] Suc show ?thesis
    by (auto split: if_splits)
qed

end
