(* ===== verification/Listener.thy ===== *)
theory Listener
  imports Connection Ban RateLimit
begin

text \<open>
  The listener (\<^verbatim>\<open>crates/smtpd/src/listener.rs\<close>): admission of a peer, the per-peer connection
  slots, the check of the configuration and \<open>ConnectionContext::handle\<close>, the life of one accepted
  connection from admission through STARTTLS to its last outcome.

  A connection is a list of segments, one per stream the session is served on: the reads of that
  stream, whether the session deadline fires while it is served, whether an I/O error is a benign
  disconnect, and whether the TLS handshake that follows a STARTTLS succeeds. The accept loop, the
  global semaphore and the shutdown are left out: they decide only which connections are handled.

  Shown: slots are never exceeded under any interleaving, a banned peer is not served, and every
  message a connection hands to the sink respects the policy, on both sides of a TLS upgrade.
\<close>

section \<open>Connection slots per peer\<close>

record peer_connections =
  pc_max_per_peer :: nat
  pc_active :: "(peer_key \<times> nat) list"

definition peer_connections_new :: "nat \<Rightarrow> peer_connections" where
  "peer_connections_new max_per_peer = \<lparr>pc_max_per_peer = max max_per_peer 1, pc_active = []\<rparr>"

definition try_acquire :: "peer_connections \<Rightarrow> ip_addr \<Rightarrow> peer_connections \<times> peer_key option" where
  "try_acquire pc ip =
     (let key = from_ip ip;
          n = (case map_of (pc_active pc) key of Some x \<Rightarrow> x | None \<Rightarrow> 0)
      in
      if n \<ge> pc_max_per_peer pc
      then (pc\<lparr>pc_active := AList.update key n (pc_active pc)\<rparr>, None)
      else (pc\<lparr>pc_active := AList.update key (n + 1) (pc_active pc)\<rparr>, Some key))"

definition slot_drop :: "peer_connections \<Rightarrow> peer_key \<Rightarrow> peer_connections" where
  "slot_drop pc key =
     (case map_of (pc_active pc) key of
        None \<Rightarrow> pc
      | Some n \<Rightarrow>
          (let n = n - 1 in
           if n = 0 then pc\<lparr>pc_active := AList.delete key (pc_active pc)\<rparr>
           else pc\<lparr>pc_active := AList.update key n (pc_active pc)\<rparr>))"

definition active_for :: "peer_connections \<Rightarrow> ip_addr \<Rightarrow> nat" where
  "active_for pc ip = (case map_of (pc_active pc) (from_ip ip) of Some n \<Rightarrow> n | None \<Rightarrow> 0)"

text \<open>The table together with the slots that connections hold, in any order of arrival and departure.\<close>

inductive peers_step :: "peer_connections \<times> peer_key list \<Rightarrow> peer_connections \<times> peer_key list \<Rightarrow> bool" where
  arrive: "try_acquire pc ip = (pc1, Some key) \<Longrightarrow> peers_step (pc, hs) (pc1, key # hs)"
| refuse: "try_acquire pc ip = (pc1, None) \<Longrightarrow> peers_step (pc, hs) (pc1, hs)"
| leave: "key \<in> set hs \<Longrightarrow> peers_step (pc, hs) (slot_drop pc key, remove1 key hs)"

definition tally :: "(peer_key \<times> nat) list \<Rightarrow> peer_key \<Rightarrow> nat" where
  "tally m k = (case map_of m k of Some n \<Rightarrow> n | None \<Rightarrow> 0)"

lemma tally_simps [simp]:
  "tally [] k = 0"
  "tally (AList.update j n m) k = (if k = j then n else tally m k)"
  "tally (AList.delete j m) k = (if k = j then 0 else tally m k)"
  by (simp_all add: tally_def update_conv' delete_conv')

definition peers_inv :: "peer_connections \<times> peer_key list \<Rightarrow> bool" where
  "peers_inv st \<longleftrightarrow>
     1 \<le> pc_max_per_peer (fst st) \<and>
     (\<forall>k. tally (pc_active (fst st)) k = count_list (snd st) k \<and>
          count_list (snd st) k \<le> pc_max_per_peer (fst st))"

lemma try_acquire_tally:
  "try_acquire pc ip =
     (let n = tally (pc_active pc) (from_ip ip) in
      if n \<ge> pc_max_per_peer pc then (pc\<lparr>pc_active := AList.update (from_ip ip) n (pc_active pc)\<rparr>, None)
      else (pc\<lparr>pc_active := AList.update (from_ip ip) (n + 1) (pc_active pc)\<rparr>, Some (from_ip ip)))"
  by (simp add: try_acquire_def tally_def Let_def)

lemma slot_drop_tally:
  "pc_max_per_peer (slot_drop pc key) = pc_max_per_peer pc \<and>
   tally (pc_active (slot_drop pc key)) k = (if k = key then tally (pc_active pc) k - 1 else tally (pc_active pc) k)"
proof (cases "map_of (pc_active pc) key")
  case None
  then show ?thesis by (simp add: slot_drop_def) (simp add: tally_def)
next
  case (Some n)
  then have "tally (pc_active pc) key = n" by (simp add: tally_def)
  with Some show ?thesis by (auto simp: slot_drop_def Let_def)
qed

lemma count_list_remove1: "count_list (remove1 x xs) y = (if x = y then count_list xs y - 1 else count_list xs y)"
proof (induction xs)
  case (Cons a xs)
  have "x \<in> set xs \<Longrightarrow> count_list xs x \<noteq> 0" by (simp add: count_list_0_iff)
  moreover have "x \<notin> set xs \<Longrightarrow> count_list xs x = 0" by (simp add: count_list_0_iff)
  ultimately show ?case using Cons by (cases "x \<in> set xs") auto
qed simp

lemma peers_step_inv: "peers_step s t \<Longrightarrow> peers_inv s \<Longrightarrow> peers_inv t"
proof (induction rule: peers_step.induct)
  case (arrive pc ip pc1 key hs)
  then show ?case
    by (auto simp: peers_inv_def try_acquire_tally Let_def split: if_splits)
next
  case (refuse pc ip pc1 hs)
  then show ?case
    by (auto simp: peers_inv_def try_acquire_tally Let_def split: if_splits)
next
  case (leave key hs pc)
  then show ?case
    by (auto simp: peers_inv_def slot_drop_tally count_list_remove1 intro: le_trans [OF diff_le_self])
qed

interpretation peers: step_invariant peers_step peers_inv
  by unfold_locales (rule peers_step_inv)

section \<open>Configuration and admission\<close>

datatype tls_mode = ModeStartTls | ModeImplicit

datatype config_error =
    ImplicitTlsWithoutAcceptor
  | StartTlsAdvertisedWithoutAcceptor
  | ImplicitTlsWithStartTls
  | AuthAdvertisedWithoutAuthenticator

text \<open>Of the server configuration and the TLS acceptor the check reads these fields.\<close>

definition server_validate :: "session_config \<Rightarrow> bool \<Rightarrow> bool \<Rightarrow> tls_mode \<Rightarrow> (config_error, unit) result" where
  "server_validate config has_auth has_acceptor mode =
     (if mode = ModeImplicit \<and> \<not> has_acceptor then Inl ImplicitTlsWithoutAcceptor
      else if mode = ModeImplicit \<and> sc_offer_starttls config then Inl ImplicitTlsWithStartTls
      else if sc_offer_starttls config \<and> \<not> has_acceptor then Inl StartTlsAdvertisedWithoutAcceptor
      else if sc_offer_auth config \<and> \<not> has_auth then Inl AuthAdvertisedWithoutAuthenticator
      else Inr ())"

text \<open>\<open>i64\<close> division by a positive constant truncates towards zero.\<close>

definition millis_to_secs :: "int \<Rightarrow> int" where
  "millis_to_secs t = (if t < 0 then - ((- t) div 1000) else t div 1000)"

datatype admit_verdict = Allowed | Limited nat | BannedTemporarily | BannedPermanently

definition admit ::
  "(rat \<Rightarrow> rat) \<Rightarrow> (buckets \<Rightarrow> buckets) \<Rightarrow> (ban_map \<Rightarrow> ban_map) \<Rightarrow> rate_limiter \<Rightarrow> ban_list \<Rightarrow> ip_addr \<Rightarrow> int \<Rightarrow>
   rate_limiter \<times> ban_list \<times> admit_verdict" where
  "admit rnd riter biter rate bans ip now_millis =
     (let now = millis_to_secs now_millis;
          (bans1, banned) = ban_check bans ip now
      in
      case banned of
        Some b \<Rightarrow> (rate, bans1, if ban_permanent b then BannedPermanently else BannedTemporarily)
      | None \<Rightarrow>
          (let (rate1, decision) = rate_check rnd riter rate ip now_millis in
           case decision of
             RateAllowed \<Rightarrow> (rate1, bans1, Allowed)
           | RateLimited retry \<Rightarrow> (rate1, fst (record_failure biter bans1 ip now), Limited retry)))"

text \<open>The reply to a peer that is not admitted.\<close>

fun refusal :: "admit_verdict \<Rightarrow> reply option" where
  "refusal Allowed = None"
| "refusal BannedPermanently = Some (with_enhanced 421 ''4.7.0'' BANNED_PERMANENTLY)"
| "refusal BannedTemporarily = Some (with_enhanced 421 ''4.7.0'' BANNED_TEMPORARILY)"
| "refusal (Limited retry) =
     Some (with_enhanced 421 ''4.7.0''
       (RATE_LIMITED @ ''; retry after '' @ nat_to_string retry @ '' seconds''))"

section \<open>One accepted connection\<close>

record stream_segment =
  sg_in :: "read_event list"
  sg_deadline :: bool
  sg_benign_error :: bool
  sg_handshake :: bool

record 'k listener =
  ln_config :: session_config
  ln_relay :: relay_policy
  ln_recipients :: "recipient_checker option"
  ln_has_acceptor :: bool
  ln_tls_mode :: tls_mode
  ln_rate :: rate_limiter
  ln_bans :: ban_list
  ln_sink :: 'k

definition note_failures :: "(ban_map \<Rightarrow> ban_map) \<Rightarrow> 'k listener \<Rightarrow> ip_addr \<Rightarrow> int \<Rightarrow> nat \<Rightarrow> 'k listener" where
  "note_failures biter srv ip now n =
     srv\<lparr>ln_bans := foldl (\<lambda>b _. fst (record_failure biter b ip now)) (ln_bans srv) [0..<max n 1]\<rparr>"

text \<open>
  The serving loop: \<open>segs\<close> are the streams still to come. \<open>now\<close> is the clock reading at the end of a
  segment. If the deadline fires, what the segment did so far stays done and nothing follows.
\<close>

fun handle_loop ::
  "(ban_map \<Rightarrow> ban_map) \<Rightarrow> 'k conn_env \<Rightarrow> 'k listener \<Rightarrow> int \<Rightarrow> stream_segment list \<Rightarrow> session \<Rightarrow> bool \<Rightarrow> 'k listener" where
  "handle_loop biter env srv now [] session upgraded = srv"
| "handle_loop biter env srv now (seg # segs) session upgraded =
     (let (c, outcome) = (if upgraded then serve_after_upgrade env (sg_in seg) session (ln_sink srv)
                          else serve env (sg_in seg) session (ln_sink srv));
          srv = srv\<lparr>ln_sink := cn_sink c\<rparr>;
          ip = sa_ip (ce_peer env)
      in
      if sg_deadline seg then srv
      else
        (case outcome of
           Inr Closed \<Rightarrow> srv
         | Inr (ClosedAfterAuthFailures failures) \<Rightarrow> note_failures biter srv ip (millis_to_secs now) failures
         | Inr StartTlsRequested \<Rightarrow>
             if \<not> ln_has_acceptor srv \<or> \<not> sg_handshake seg then srv
             else handle_loop biter env srv now segs (activate_tls (cn_session c)) True
         | Inl _ \<Rightarrow>
             if sg_benign_error seg then srv
             else srv\<lparr>ln_bans := fst (record_failure biter (ln_bans srv) ip (millis_to_secs now))\<rparr>))"

definition connection_config :: "'k listener \<Rightarrow> session_config" where
  "connection_config srv = (ln_config srv)\<lparr>sc_tls_active := (ln_tls_mode srv = ModeImplicit)\<rparr>"

definition connection_directory :: "'k listener \<Rightarrow> recipient_checker" where
  "connection_directory srv = (case ln_recipients srv of Some d \<Rightarrow> d | None \<Rightarrow> any_recipient)"

definition handle_connection ::
  "(rat \<Rightarrow> rat) \<Rightarrow> (buckets \<Rightarrow> buckets) \<Rightarrow> (ban_map \<Rightarrow> ban_map) \<Rightarrow> 'k conn_env \<Rightarrow> 'k listener \<Rightarrow>
   int \<Rightarrow> int \<Rightarrow> bool \<Rightarrow> stream_segment list \<Rightarrow> 'k listener \<times> reply option" where
  "handle_connection rnd riter biter env srv now later implicit_handshake segs =
     (let ip = sa_ip (ce_peer env);
          (rate, bans, verdict) = admit rnd riter biter (ln_rate srv) (ln_bans srv) ip now;
          srv1 = srv\<lparr>ln_rate := rate, ln_bans := bans\<rparr>
      in
      if verdict \<noteq> Allowed then (srv1, refusal verdict)
      else if ln_tls_mode srv1 = ModeImplicit \<and> \<not> implicit_handshake then (srv1, None)
      else
        (handle_loop biter env srv1 later segs
           (with_recipients (connection_config srv1) (ln_relay srv1) (connection_directory srv1)) False,
         None))"

lemma handle_loop_sink:
  "session_step\<^sup>*\<^sup>* (s0, Idle) (session, Idle) \<Longrightarrow>
   (sink_step env (accepted_from s0))\<^sup>*\<^sup>* (ln_sink srv) (ln_sink (handle_loop biter env srv now segs session up))"
proof (induction segs arbitrary: srv session up)
  case (Cons seg segs)
  obtain c r where d: "drive env (sg_in seg) session (ln_sink srv) (\<not> up) = (c, r)"
    by (cases "drive env (sg_in seg) session (ln_sink srv) (\<not> up)")
  let ?srv = "srv\<lparr>ln_sink := cn_sink c\<rparr>"
  have un: "handle_loop biter env srv now (seg # segs) session up =
      (if sg_deadline seg then ?srv
       else (case r of
           Inr Closed \<Rightarrow> ?srv
         | Inr (ClosedAfterAuthFailures failures) \<Rightarrow> note_failures biter ?srv (sa_ip (ce_peer env)) (millis_to_secs now) failures
         | Inr StartTlsRequested \<Rightarrow>
             if \<not> ln_has_acceptor ?srv \<or> \<not> sg_handshake seg then ?srv
             else handle_loop biter env ?srv now segs (activate_tls (cn_session c)) True
         | Inl _ \<Rightarrow>
             if sg_benign_error seg then ?srv
             else ?srv\<lparr>ln_bans := fst (record_failure biter (ln_bans ?srv) (sa_ip (ce_peer env)) (millis_to_secs now))\<rparr>))"
    using d by (cases up) (simp_all add: serve_def serve_after_upgrade_def Let_def)
  have here: "(sink_step env (accepted_from s0))\<^sup>*\<^sup>* (ln_sink srv) (cn_sink c)"
    using sink_steps_mono [OF drive_sink [OF d] accepted_from_later [OF Cons.prems(1)]] .
  show ?case
  proof (cases "r = Inr StartTlsRequested \<and> \<not> sg_deadline seg \<and> ln_has_acceptor srv \<and> sg_handshake seg")
    case True
    then have "session_step\<^sup>*\<^sup>* (session, Idle) (cn_session c, Upgrading)" using drive_steps [OF d] by auto
    then have "session_step\<^sup>*\<^sup>* (s0, Idle) (activate_tls (cn_session c), Idle)"
      using Cons.prems(1) session_step.secured [of "cn_session c"] by (meson rtranclp_trans rtranclp.rtrancl_into_rtrancl)
    from Cons.IH [OF this, of ?srv True] here show ?thesis unfolding un using True by (auto intro: rtranclp_trans)
  next
    case False
    have "ln_sink (handle_loop biter env srv now (seg # segs) session up) = cn_sink c"
      unfolding un using False by (auto simp: note_failures_def split: sum.splits serve_outcome.splits)
    then show ?thesis using here by simp
  qed
qed simp

text \<open>
  End to end: whatever the peer sends, before and after a TLS upgrade, and whatever the
  authenticator, the sink, the clock and the network do, an accepted connection hands the sink
  only messages that respect the listener's relay policy and limits.
\<close>

lemma handle_connection_sink:
  assumes "handle_connection rnd riter biter env srv now later hs segs = (srv1, refused)"
  shows "(sink_step env (message_ok (connection_config srv) (ln_relay srv) (connection_directory srv)))\<^sup>*\<^sup>* (ln_sink srv) (ln_sink srv1)"
proof -
  obtain rate bans verdict where ad:
    "admit rnd riter biter (ln_rate srv) (ln_bans srv) (sa_ip (ce_peer env)) now = (rate, bans, verdict)"
    by (cases "admit rnd riter biter (ln_rate srv) (ln_bans srv) (sa_ip (ce_peer env)) now")
  let ?srv = "srv\<lparr>ln_rate := rate, ln_bans := bans\<rparr>"
  let ?s = "with_recipients (connection_config srv) (ln_relay srv) (connection_directory srv)"
  have cfg: "connection_config ?srv = connection_config srv" "connection_directory ?srv = connection_directory srv"
    by (simp_all add: connection_config_def connection_directory_def)
  from assms ad have "ln_sink srv1 = ln_sink srv \<or> srv1 = handle_loop biter env ?srv later segs ?s False"
    by (auto simp: handle_connection_def cfg Let_def split: if_splits)
  then show ?thesis
  proof
    assume h: "srv1 = handle_loop biter env ?srv later segs ?s False"
    have "message_ok (connection_config srv) (ln_relay srv) (connection_directory srv) m" if "accepted_from ?s m" for m
      using that accepted_message_ok by (auto simp: session_reachable_def accepted_from_def)
    from sink_steps_mono [OF handle_loop_sink [OF rtranclp.rtrancl_refl, of env ?s ?srv biter later segs False] this]
    show ?thesis by (simp add: h)
  qed simp
qed

section \<open>Properties\<close>

text \<open>
  End to end. Whatever the peer sends, before and after a TLS upgrade, and whatever the
  authenticator, the sink, the clock and the network do, every message that an accepted connection
  adds to what the sink holds respects the listener's relay policy and limits: distinct and
  bounded recipients, local ones only unless the sender is authenticated, authentication only over
  TLS, and no unauthenticated message where authentication is required.
\<close>

lemma handled_messages_ok:
  assumes "ce_sink env = recording verdicts"
    and "handle_connection rnd riter biter env srv now later hs segs = (srv1, refused)"
    and "m \<in> set (ln_sink srv1)"
  shows "m \<in> set (ln_sink srv) \<or>
         message_ok (connection_config srv) (ln_relay srv) (connection_directory srv) m"
  using recorded_messages [OF assms(1) handle_connection_sink [OF assms(2)] assms(3)] .

definition sample_listener :: "accepted_message list listener" where
  "sample_listener =
     \<lparr>ln_config = sample_config, ln_relay = sample_relay, ln_recipients = None, ln_has_acceptor = True,
      ln_tls_mode = ModeStartTls, ln_rate = rate_limiter_new sample_rate, ln_bans = sample_bans, ln_sink = []\<rparr>"

definition sample_segments :: "stream_segment list" where
  "sample_segments =
     [\<lparr>sg_in = [Chunk (''STARTTLS'' @ CRLF @ ''MAIL FROM:<evil@x>'' @ CRLF)], sg_deadline = False,
       sg_benign_error = True, sg_handshake = True\<rparr>,
      \<lparr>sg_in = sample_input, sg_deadline = False, sg_benign_error = True, sg_handshake = False\<rparr>]"

text \<open>
  \<^bold>\<open>C35\<close> (banned peers are turned away). If a ban of the peer is in force at the time of the
  connection, no session is started: the sink is untouched whatever the peer sends, and the reply
  is the 421 refusal that tells a permanent ban from a temporary one.
\<close>

theorem banned_peer_not_served:
  assumes "snd (ban_check (ln_bans srv) (sa_ip (ce_peer env)) (millis_to_secs now)) = Some b"
  shows "ln_sink (fst (handle_connection rnd riter biter env srv now later hs segs)) = ln_sink srv \<and>
         snd (handle_connection rnd riter biter env srv now later hs segs) =
           Some (with_enhanced 421 ''4.7.0'' (if ban_permanent b then BANNED_PERMANENTLY else BANNED_TEMPORARILY))"
  using assms by (simp add: handle_connection_def admit_def Let_def case_prod_unfold)

theorem banned_peer_not_served_witness:
  "snd (handle_connection (\<lambda>x. x) (\<lambda>m. m) (\<lambda>m. m) sample_env
      (sample_listener\<lparr>ln_bans := fst (apply_manual (\<lambda>m. m) (\<lambda>m. m) sample_bans [V4 7])\<rparr>) 5000 6000 True sample_segments) =
   Some (with_enhanced 421 ''4.7.0'' BANNED_PERMANENTLY)"
proof -
  have "\<exists>b. snd (ban_check (fst (apply_manual (\<lambda>m. m) (\<lambda>m. m) sample_bans [V4 7])) (V4 7) 5) = Some b \<and> ban_permanent b"
    by (simp add: apply_manual_def sample_bans_def ban_list_new_def wanted_map_def ban_check_def active_ban_def
        manual_entry_def to_ban_def Let_def)
  then obtain b where "snd (ban_check (ln_bans (sample_listener\<lparr>ln_bans := fst (apply_manual (\<lambda>m. m) (\<lambda>m. m) sample_bans [V4 7])\<rparr>))
      (sa_ip (ce_peer sample_env)) (millis_to_secs 5000)) = Some b" "ban_permanent b"
    by (auto simp: sample_env_def millis_to_secs_def)
  from banned_peer_not_served [OF this(1)] this(2) show ?thesis by simp
qed

text \<open>
  \<^bold>\<open>C36\<close> (connections per peer). Whatever the order in which connections arrive, are refused and
  leave, the table counts exactly the slots that are held, and no peer (in the sense of the peer
  key) ever holds more than the configured number.
\<close>

theorem peer_slots_bounded:
  assumes "peers_step\<^sup>*\<^sup>* (peer_connections_new n, []) (pc, held_slots)"
  shows "active_for pc ip = count_list held_slots (from_ip ip) \<and> active_for pc ip \<le> max n 1"
proof -
  have i: "peers_inv (peer_connections_new n, [])" by (simp add: peers_inv_def peer_connections_new_def)
  have "pc_max_per_peer (fst (pc, held_slots)) = pc_max_per_peer (fst (peer_connections_new n, []))"
    using assms
  proof (induction rule: rtranclp_induct)
    case (step y z)
    then show ?case
      by (auto simp: try_acquire_tally slot_drop_tally Let_def elim!: peers_step.cases split: if_splits)
  qed simp
  moreover have "active_for pc ip = tally (pc_active pc) (from_ip ip)" by (simp add: active_for_def tally_def)
  ultimately show ?thesis
    using peers.run_inv [OF assms i] by (simp add: peers_inv_def peer_connections_new_def)
qed

theorem peer_slots_bounded_witness:
  "active_for (fst (try_acquire (peer_connections_new 1) (V4 3))) (V4 3) \<le> 1"
proof -
  have "try_acquire (peer_connections_new 1) (V4 3) =
      (fst (try_acquire (peer_connections_new 1) (V4 3)), Some (KeyV4 3))" by code_simp
  then have "peers_step\<^sup>*\<^sup>* (peer_connections_new 1, []) (fst (try_acquire (peer_connections_new 1) (V4 3)), [KeyV4 3])"
    by (intro r_into_rtranclp peers_step.arrive)
  from peer_slots_bounded [OF this, of "V4 3"] show ?thesis by simp
qed

end
