(* ===== verification/QueueEntry.thy ===== *)
theory QueueEntry
  imports Prelude
begin

text \<open>
  Queue entries (\<open>src/crates/queue/src/entry.rs\<close>) and the errors of the queue
  (\<open>src/crates/queue/src/error.rs\<close>). \<open>QueueEntry\<close> is a record with the source's fields; \<open>validate\<close>
  returns the first error in the order of the source. The messages of \<open>Invalid\<close> errors are the
  constructors of \<open>invalid_reason\<close>. The identifier generator \<open>new_id\<close> takes the readings of the
  clock, of the process-wide random prefix and of the sequence counter; \<open>entry_new\<close> takes the
  identifier and the formatting of a timestamp, which the \<open>time\<close> crate does.
\<close>

datatype invalid_reason =
    UnsafeId string
  | NoRecipients
  | EmptyMessage
  | AddressTooLong
  | AddressInjection
  | IdCollision
  | AcceptedMismatch nat nat

datatype queue_error =
    QueueIo
  | QueueJson
  | QueueStorage
  | QueueInvalid invalid_reason
  | QueueBusy

definition is_busy :: "queue_error \<Rightarrow> bool" where
  "is_busy e \<longleftrightarrow> e = QueueBusy"

fun queue_error_kind :: "queue_error \<Rightarrow> string" where
  "queue_error_kind QueueIo = ''IoError''"
| "queue_error_kind QueueJson = ''JsonError''"
| "queue_error_kind QueueStorage = ''StorageError''"
| "queue_error_kind (QueueInvalid _) = ''InvalidInput''"
| "queue_error_kind QueueBusy = ''RoundInFlight''"

datatype entry_kind = Outbound | Bounce

record queue_entry =
  qe_id :: string
  qe_kind :: entry_kind
  qe_mail_from :: string
  qe_recipients :: "string list"
  qe_data :: string
  qe_created_at :: string
  qe_attempts :: nat
  qe_next_attempt_unix :: int
  qe_last_error :: "string option"
  qe_last_code :: "nat option"

definition MAX_ADDRESS_LEN :: nat where "MAX_ADDRESS_LEN = 320"

definition is_null_sender :: "queue_entry \<Rightarrow> bool" where
  "is_null_sender e \<longleftrightarrow> qe_mail_from e = []"

definition is_due :: "queue_entry \<Rightarrow> int \<Rightarrow> bool" where
  "is_due e now \<longleftrightarrow> qe_next_attempt_unix e \<le> now"

definition is_safe_id :: "string \<Rightarrow> bool" where
  "is_safe_id i \<longleftrightarrow> i \<noteq> [] \<and> length i \<le> 64 \<and> list_all (\<lambda>b. is_ascii_alphanumeric b \<or> b = CHR ''-'') i"

definition has_line_break :: "string \<Rightarrow> bool" where
  "has_line_break a \<longleftrightarrow> CR \<in> set a \<or> LF \<in> set a \<or> NUL \<in> set a"

fun validate_addresses :: "string list \<Rightarrow> (queue_error, unit) result" where
  "validate_addresses [] = Inr ()"
| "validate_addresses (a # as) =
     (if length a > MAX_ADDRESS_LEN then Inl (QueueInvalid AddressTooLong)
      else if has_line_break a then Inl (QueueInvalid AddressInjection)
      else validate_addresses as)"

definition entry_validate :: "queue_entry \<Rightarrow> (queue_error, unit) result" where
  "entry_validate e =
     (if \<not> is_safe_id (qe_id e) then Inl (QueueInvalid (UnsafeId (qe_id e)))
      else if qe_recipients e = [] then Inl (QueueInvalid NoRecipients)
      else if qe_data e = [] then Inl (QueueInvalid EmptyMessage)
      else validate_addresses (qe_recipients e @ [qe_mail_from e]))"

definition entry_new ::
  "(int \<Rightarrow> string) \<Rightarrow> string \<Rightarrow> entry_kind \<Rightarrow> string \<Rightarrow> string list \<Rightarrow> string \<Rightarrow> int \<Rightarrow> (queue_error, queue_entry) result" where
  "entry_new stamp i kind mail_from recipients data now =
     (let e = \<lparr>qe_id = i, qe_kind = kind, qe_mail_from = mail_from, qe_recipients = recipients,
               qe_data = data, qe_created_at = stamp now, qe_attempts = 0, qe_next_attempt_unix = now,
               qe_last_error = None, qe_last_code = None\<rparr>
      in case entry_validate e of Inl err \<Rightarrow> Inl err | Inr _ \<Rightarrow> Inr e)"

text \<open>
  \<open>new_id\<close> from the clock in milliseconds, the random prefix of the process (a 32-bit number) and
  the sequence counter.
\<close>

definition new_id :: "nat \<Rightarrow> nat \<Rightarrow> nat \<Rightarrow> string" where
  "new_id millis pfx seq = format_hex True 11 millis @ format_hex True 8 pfx @ format_hex True 4 (seq mod 0x10000)"

section \<open>Validation\<close>

text \<open>The entries that \<open>validate\<close> accepts.\<close>

definition entry_ok :: "queue_entry \<Rightarrow> bool" where
  "entry_ok e \<longleftrightarrow>
     is_safe_id (qe_id e) \<and> qe_recipients e \<noteq> [] \<and> qe_data e \<noteq> [] \<and>
     (\<forall>a \<in> set (qe_mail_from e # qe_recipients e). length a \<le> MAX_ADDRESS_LEN \<and> \<not> has_line_break a)"

lemma validate_addresses_ok:
  "validate_addresses as = Inr u \<longleftrightarrow> (\<forall>a \<in> set as. length a \<le> MAX_ADDRESS_LEN \<and> \<not> has_line_break a)"
  by (induction as) auto

lemma entry_validate_ok [simp]: "entry_validate e = Inr u \<longleftrightarrow> entry_ok e"
  by (auto simp: entry_validate_def entry_ok_def validate_addresses_ok)

lemma validate_addresses_error: "validate_addresses as = Inl err \<Longrightarrow> \<exists>r. err = QueueInvalid r"
  by (induction as) (auto split: if_splits)

lemma entry_validate_not_ok: "\<not> entry_ok e \<Longrightarrow> \<exists>r. entry_validate e = Inl (QueueInvalid r)"
  using entry_validate_ok [of e]
  by (cases "entry_validate e") (auto simp: entry_validate_def dest: validate_addresses_error split: if_splits)

lemma entry_ok_frame [simp]:
  "entry_ok (e\<lparr>qe_attempts := n\<rparr>) = entry_ok e" "entry_ok (e\<lparr>qe_next_attempt_unix := t\<rparr>) = entry_ok e"
  "entry_ok (e\<lparr>qe_last_error := x\<rparr>) = entry_ok e" "entry_ok (e\<lparr>qe_last_code := c\<rparr>) = entry_ok e"
  by (simp_all add: entry_ok_def)

lemma entry_new_ok:
  "entry_new stamp i kind f rs d now = Inr e \<Longrightarrow>
     entry_ok e \<and> qe_id e = i \<and> qe_kind e = kind \<and> qe_mail_from e = f \<and> qe_recipients e = rs \<and> qe_data e = d \<and>
     qe_attempts e = 0 \<and> is_due e now"
  by (auto simp: entry_new_def Let_def is_due_def split: sum.splits)

lemma is_safe_id_chars: "is_safe_id i \<Longrightarrow> c \<in> set i \<Longrightarrow> is_ascii_alphanumeric c \<or> c = CHR ''-''"
  by (auto simp: is_safe_id_def list_all_iff)

lemma is_safe_id_clean:
  assumes "is_safe_id i" and "\<not> is_ascii_alphanumeric c" and "c \<noteq> CHR ''-''"
  shows "c \<notin> set i"
  using assms is_safe_id_chars by blast

section \<open>Identifiers\<close>

lemma new_id_length:
  assumes "millis < 16 ^ 11" and "pfx < 16 ^ 8"
  shows "length (new_id millis pfx seq) = 23"
proof -
  have "seq mod 0x10000 < 16 ^ 4" by simp
  then show ?thesis using assms by (simp add: new_id_def length_format_hex del: power_numeral)
qed

lemma new_id_safe:
  assumes "millis < 16 ^ 11" and "pfx < 16 ^ 8"
  shows "is_safe_id (new_id millis pfx seq)"
proof -
  have "list_all is_ascii_alphanumeric (new_id millis pfx seq)"
    by (auto simp: new_id_def list_all_iff dest: format_hex_alphanumeric)
  then have "list_all (\<lambda>b. is_ascii_alphanumeric b \<or> b = CHR ''-'') (new_id millis pfx seq)"
    by (simp add: list_all_iff)
  with new_id_length [OF assms, of seq] show ?thesis by (auto simp: is_safe_id_def)
qed

lemma new_id_inject:
  assumes "millis < 16 ^ 11" and "millis' < 16 ^ 11" and "pfx < 16 ^ 8" and "pfx' < 16 ^ 8"
  shows "new_id millis pfx seq = new_id millis' pfx' seq' \<longleftrightarrow>
         millis = millis' \<and> pfx = pfx' \<and> seq mod 0x10000 = seq' mod 0x10000"
proof -
  have "length (format_hex True 11 millis) = length (format_hex True 11 millis')"
       "length (format_hex True 8 pfx) = length (format_hex True 8 pfx')"
    using assms by (simp_all add: length_format_hex del: power_numeral)
  then show ?thesis by (auto simp: new_id_def format_hex_inject)
qed

end
