(* ===== verification/FileSystem.thy ===== *)
theory FileSystem
  imports Prelude "HOL-Library.AList"
begin

text \<open>
  The part of \<open>std::fs\<close> that the queue uses, and the atomic writer and the lock files of
  \<open>src/crates/core/src/atomic.rs\<close>.

  A path is a directory and a file name. Every call is one operation: it advances \<open>fs_ops\<close> and may
  fail there, as the oracle \<open>fs_faults\<close> says, with no effect (a failing \<open>write_all\<close> leaves the
  prefix that \<open>fs_partial\<close> tells). An oracle that fails every operation from some number on is a
  crash at that operation, so a statement for all oracles covers crashes between any two
  operations. The order of a directory listing (\<open>fs_order\<close>), the clock of the file system
  (\<open>fs_clock\<close>) and the unique part of the names of temporary files (\<open>fs_tag\<close>) are oracles of the
  same kind. Results are \<open>io_error + 'a\<close>.
\<close>

type_synonym path = "string \<times> string"

datatype io_error = NotFound | AlreadyExists | OtherIo

record fs_file =
  fl_content :: string
  fl_mtime :: int

type_synonym files = "(path \<times> fs_file) list"

record fs =
  fs_dirs :: "string list"
  fs_files :: files
  fs_ops :: nat
  fs_faults :: "nat \<Rightarrow> bool"
  fs_partial :: "nat \<Rightarrow> nat"
  fs_clock :: "nat \<Rightarrow> int"
  fs_tag :: "nat \<Rightarrow> nat \<times> nat \<times> nat"
  fs_order :: "files \<Rightarrow> files"

type_synonym ('e, 'a) io = "fs \<Rightarrow> fs \<times> ('e, 'a) result"

definition file_at :: "fs \<Rightarrow> path \<Rightarrow> fs_file option" where
  "file_at s p = map_of (fs_files s) p"

definition content_at :: "fs \<Rightarrow> path \<Rightarrow> string option" where
  "content_at s p = map_option fl_content (file_at s p)"

definition fs_put :: "path \<Rightarrow> fs_file \<Rightarrow> fs \<Rightarrow> fs" where
  "fs_put p f s = s\<lparr>fs_files := AList.update p f (fs_files s)\<rparr>"

definition fs_del :: "path \<Rightarrow> fs \<Rightarrow> fs" where
  "fs_del p s = s\<lparr>fs_files := AList.delete p (fs_files s)\<rparr>"

section \<open>Operations\<close>

definition fs_tick :: "fs \<Rightarrow> fs \<times> bool" where
  "fs_tick s = (s\<lparr>fs_ops := Suc (fs_ops s)\<rparr>, fs_faults s (fs_ops s))"

definition fallible :: "('e, 'a) io \<Rightarrow> 'e \<Rightarrow> ('e, 'a) io" where
  "fallible f e s = (let (s, fault) = fs_tick s in if fault then (s, Inl e) else f s)"

definition create_dir_all :: "string \<Rightarrow> (io_error, unit) io" where
  "create_dir_all d = fallible (\<lambda>s. (s\<lparr>fs_dirs := List.insert d (fs_dirs s)\<rparr>, Inr ())) OtherIo"

definition dir_exists :: "string \<Rightarrow> fs \<Rightarrow> fs \<times> bool" where
  "dir_exists d s = (let (s, fault) = fs_tick s in (s, \<not> fault \<and> d \<in> set (fs_dirs s)))"

definition path_exists :: "path \<Rightarrow> fs \<Rightarrow> fs \<times> bool" where
  "path_exists p s = (let (s, fault) = fs_tick s in (s, \<not> fault \<and> file_at s p \<noteq> None))"

definition fs_read :: "path \<Rightarrow> (io_error, string) io" where
  "fs_read p = fallible (\<lambda>s. (s, case file_at s p of None \<Rightarrow> Inl NotFound | Some f \<Rightarrow> Inr (fl_content f))) OtherIo"

definition fs_modified :: "path \<Rightarrow> (io_error, int) io" where
  "fs_modified p = fallible (\<lambda>s. (s, case file_at s p of None \<Rightarrow> Inl NotFound | Some f \<Rightarrow> Inr (fl_mtime f))) OtherIo"

definition read_dir :: "string \<Rightarrow> (io_error, string list) io" where
  "read_dir d =
     fallible (\<lambda>s. (s, if d \<in> set (fs_dirs s)
                        then Inr (map (snd \<circ> fst) (filter (\<lambda>(p, _). fst p = d) (fs_order s (fs_files s))))
                        else Inl NotFound)) OtherIo"

definition remove_file :: "path \<Rightarrow> (io_error, unit) io" where
  "remove_file p = fallible (\<lambda>s. if file_at s p = None then (s, Inl NotFound) else (fs_del p s, Inr ())) OtherIo"

definition create_new :: "path \<Rightarrow> (io_error, unit) io" where
  "create_new p =
     fallible (\<lambda>s. if fst p \<notin> set (fs_dirs s) then (s, Inl NotFound)
                    else if file_at s p \<noteq> None then (s, Inl AlreadyExists)
                    else (fs_put p \<lparr>fl_content = [], fl_mtime = fs_clock s (fs_ops s)\<rparr> s, Inr ())) OtherIo"

definition write_all :: "path \<Rightarrow> string \<Rightarrow> (io_error, unit) io" where
  "write_all p data s =
     (let n = fs_ops s;
          (s, fault) = fs_tick s;
          written = (if fault then take (fs_partial s n) data else data)
      in case file_at s p of
           None \<Rightarrow> (s, Inl NotFound)
         | Some f \<Rightarrow>
             (fs_put p \<lparr>fl_content = fl_content f @ written, fl_mtime = fs_clock s n\<rparr> s,
              if fault then Inl OtherIo else Inr ()))"

definition fs_sync :: "(io_error, unit) io" where
  "fs_sync = fallible (\<lambda>s. (s, Inr ())) OtherIo"

definition fs_rename :: "path \<Rightarrow> path \<Rightarrow> (io_error, unit) io" where
  "fs_rename p q =
     fallible (\<lambda>s. case file_at s p of
                      None \<Rightarrow> (s, Inl NotFound)
                    | Some f \<Rightarrow>
                        if fst q \<notin> set (fs_dirs s) then (s, Inl NotFound)
                        else (fs_put q f (fs_del p s), Inr ())) OtherIo"

section \<open>Lock files and the atomic writer\<close>

definition atomic_lock_path :: "path \<Rightarrow> path" where
  "atomic_lock_path p = (fst p, ''.'' @ snd p @ ''.lock'')"

definition locked_lock_path :: "path \<Rightarrow> path" where
  "locked_lock_path p = (fst p, snd p @ ''.lock'')"

text \<open>The tag is the process number, the sequence number and the nanoseconds of the clock.\<close>

definition temp_path :: "nat \<times> nat \<times> nat \<Rightarrow> path \<Rightarrow> path" where
  "temp_path tag p =
     (fst p, snd p @ ''.tmp.'' @ nat_to_string (fst tag) @ ''.'' @ nat_to_string (fst (snd tag)) @ ''.'' @
             nat_to_string (snd (snd tag)))"

text \<open>Opening the sidecar creates it when it is missing.\<close>

definition open_lock_sidecar :: "path \<Rightarrow> (io_error, unit) io" where
  "open_lock_sidecar p =
     fallible (\<lambda>s. if fst p \<notin> set (fs_dirs s) then (s, Inl NotFound)
                    else if file_at s p \<noteq> None then (s, Inr ())
                    else (fs_put p \<lparr>fl_content = [], fl_mtime = fs_clock s (fs_ops s)\<rparr> s, Inr ())) OtherIo"

definition file_lock_acquire :: "(io_error, unit) io" where
  "file_lock_acquire = fs_sync"

definition locked_with :: "path \<Rightarrow> (io_error \<Rightarrow> 'e) \<Rightarrow> ('e, 'a) io \<Rightarrow> ('e, 'a) io" where
  "locked_with p err f =
     io_bind (io_map_err err (create_dir_all (fst (locked_lock_path p)))) (\<lambda>_.
     io_bind (io_map_err err (open_lock_sidecar (locked_lock_path p))) (\<lambda>_.
     io_bind (io_map_err err file_lock_acquire) (\<lambda>_. f)))"

definition write_temp :: "path \<Rightarrow> string \<Rightarrow> (io_error, unit) io" where
  "write_temp tmp data =
     io_bind (create_new tmp) (\<lambda>_.
     io_bind (write_all tmp data) (\<lambda>_.
     io_bind fs_sync (\<lambda>_.
     fs_sync)))"

definition replace_target :: "path \<Rightarrow> path \<Rightarrow> string \<Rightarrow> (io_error, unit) io" where
  "replace_target tmp p data s =
     (case write_temp tmp data s of
        (s, Inl e) \<Rightarrow> (io_drop (remove_file tmp) s, Inl e)
      | (s, Inr _) \<Rightarrow>
          (case fs_rename tmp p s of
             (s, Inl e) \<Rightarrow> (io_drop (remove_file tmp) s, Inl e)
           | (s, Inr _) \<Rightarrow> (io_drop fs_sync s, Inr ())))"

definition atomic_as :: "path \<Rightarrow> string \<Rightarrow> (io_error, unit) io" where
  "atomic_as p data =
     io_bind (create_dir_all (fst p)) (\<lambda>_.
     io_bind (open_lock_sidecar (atomic_lock_path p)) (\<lambda>_.
     io_bind file_lock_acquire (\<lambda>_ s.
       replace_target (temp_path (fs_tag s (fs_ops s)) p) p data s)))"

section \<open>What the operations change\<close>

lemma file_at_put [simp]: "file_at (fs_put p f s) q = (if q = p then Some f else file_at s q)"
  by (simp add: file_at_def fs_put_def update_conv')

lemma file_at_del [simp]: "file_at (fs_del p s) q = (if q = p then None else file_at s q)"
  by (simp add: file_at_def fs_del_def delete_conv')

lemma file_at_frame [simp]:
  "file_at (s\<lparr>fs_ops := n\<rparr>) p = file_at s p" "file_at (s\<lparr>fs_dirs := d\<rparr>) p = file_at s p"
  by (simp_all add: file_at_def)

text \<open>Each path names one file.\<close>

definition fs_wf :: "fs \<Rightarrow> bool" where
  "fs_wf s \<longleftrightarrow> distinct (map fst (fs_files s))"

definition fs_oracles :: "fs \<Rightarrow> (nat \<Rightarrow> bool) \<times> (nat \<Rightarrow> nat) \<times> (nat \<Rightarrow> int) \<times> (nat \<Rightarrow> nat \<times> nat \<times> nat) \<times> (files \<Rightarrow> files)" where
  "fs_oracles s = (fs_faults s, fs_partial s, fs_clock s, fs_tag s, fs_order s)"

text \<open>
  From \<open>s\<close> to \<open>t\<close> only files of \<open>ps\<close> change, directories are only added and the oracles stay.
\<close>

definition same_files :: "path set \<Rightarrow> fs \<Rightarrow> fs \<Rightarrow> bool" where
  "same_files ps s t \<longleftrightarrow>
     (\<forall>q. q \<notin> ps \<longrightarrow> file_at t q = file_at s q) \<and> (fs_wf s \<longrightarrow> fs_wf t) \<and>
     fs_oracles t = fs_oracles s \<and> set (fs_dirs s) \<subseteq> set (fs_dirs t)"

lemma fs_wf_frame [simp]:
  "fs_wf (s\<lparr>fs_ops := n\<rparr>) = fs_wf s" "fs_wf (s\<lparr>fs_dirs := d\<rparr>) = fs_wf s"
  "fs_wf s \<Longrightarrow> fs_wf (fs_put p f s)" "fs_wf s \<Longrightarrow> fs_wf (fs_del p s)"
  by (simp_all add: fs_wf_def fs_put_def fs_del_def distinct_update distinct_delete)

lemma fs_oracles_frame [simp]:
  "fs_oracles (s\<lparr>fs_ops := n\<rparr>) = fs_oracles s" "fs_oracles (s\<lparr>fs_dirs := d\<rparr>) = fs_oracles s"
  "fs_oracles (fs_put p f s) = fs_oracles s" "fs_oracles (fs_del p s) = fs_oracles s"
  by (simp_all add: fs_oracles_def fs_put_def fs_del_def)

lemma fs_dirs_frame [simp]: "fs_dirs (fs_put p f s) = fs_dirs s" "fs_dirs (fs_del p s) = fs_dirs s"
  by (simp_all add: fs_put_def fs_del_def)

lemma same_filesD: "same_files ps s t \<Longrightarrow> q \<notin> ps \<Longrightarrow> file_at t q = file_at s q"
  unfolding same_files_def by blast

lemma same_files_refl [simp]: "same_files ps s s"
  by (simp add: same_files_def)

lemma same_files_trans [trans]: "same_files ps s t \<Longrightarrow> same_files ps t u \<Longrightarrow> same_files ps s u"
  by (auto simp: same_files_def)

lemma same_files_mono: "same_files ps s t \<Longrightarrow> ps \<subseteq> qs \<Longrightarrow> same_files qs s t"
  by (auto simp: same_files_def)

text \<open>The files an operation may touch, whatever it returns.\<close>

definition touches :: "path set \<Rightarrow> (fs \<Rightarrow> fs \<times> 'a) \<Rightarrow> bool" where
  "touches ps m \<longleftrightarrow> (\<forall>s. same_files ps s (fst (m s)))"

lemma touchesD: "touches ps m \<Longrightarrow> m s = (t, r) \<Longrightarrow> same_files ps s t"
  by (metis fst_conv touches_def)

lemma touches_mono: "touches ps m \<Longrightarrow> ps \<subseteq> qs \<Longrightarrow> touches qs m"
  unfolding touches_def by (blast intro: same_files_mono)

lemma touches_drop: "touches ps m \<Longrightarrow> same_files ps s (io_drop m s)"
  by (simp add: io_drop_def touches_def)

lemma touches_bind: "touches ps m \<Longrightarrow> (\<And>x. touches ps (k x)) \<Longrightarrow> touches ps (io_bind m k)"
  unfolding touches_def io_bind_def
  by (auto split: prod.splits sum.splits) (metis fst_conv same_files_trans)+

lemma touches_map_err: "touches ps m \<Longrightarrow> touches ps (io_map_err g m)"
  unfolding touches_def io_map_err_def
  by (auto split: prod.splits sum.splits) (metis fst_conv)+

lemma same_files_tick: "same_files ps s (fst (fs_tick s))"
  by (simp add: same_files_def fs_tick_def)

lemma touches_fallible: "touches ps f \<Longrightarrow> touches ps (fallible f e)"
proof -
  assume f: "touches ps f"
  have "same_files ps s (fst (fallible f e s))" for s
  proof -
    have "same_files ps (fst (fs_tick s)) (fst (f (fst (fs_tick s))))" using f by (simp add: touches_def)
    with same_files_tick [of ps s] have "same_files ps s (fst (f (fst (fs_tick s))))" by (rule same_files_trans)
    with same_files_tick [of ps s] show ?thesis by (simp add: fallible_def case_prod_unfold Let_def)
  qed
  then show ?thesis by (simp add: touches_def)
qed

lemma touches_tick: "touches ps fs_tick"
  using same_files_tick by (simp add: touches_def)

lemma touches_query: "touches ps (dir_exists d)" "touches ps (path_exists p)"
  unfolding touches_def dir_exists_def path_exists_def Let_def case_prod_unfold by (simp_all add: same_files_tick)

lemma touches_return: "touches ps (io_return x)"
  by (simp add: touches_def io_return_def)

lemma touches_ops:
  "touches ps (create_dir_all d)" "touches ps (fs_read p)" "touches ps (fs_modified p)" "touches ps (read_dir d)"
  "touches ps fs_sync" "touches ps file_lock_acquire"
  "p \<in> ps \<Longrightarrow> touches ps (remove_file p)" "p \<in> ps \<Longrightarrow> touches ps (create_new p)"
  "p \<in> ps \<Longrightarrow> touches ps (write_all p data)" "p \<in> ps \<Longrightarrow> touches ps (open_lock_sidecar p)"
  "p \<in> ps \<Longrightarrow> q \<in> ps \<Longrightarrow> touches ps (fs_rename p q)"
proof -
  show "touches ps (create_dir_all d)" "touches ps (fs_read p)" "touches ps (fs_modified p)" "touches ps (read_dir d)"
    "touches ps fs_sync" "touches ps file_lock_acquire"
    unfolding create_dir_all_def fs_read_def fs_modified_def read_dir_def file_lock_acquire_def fs_sync_def
    by (rule touches_fallible; auto simp: touches_def same_files_def)+
  show "p \<in> ps \<Longrightarrow> touches ps (remove_file p)" "p \<in> ps \<Longrightarrow> touches ps (create_new p)"
    "p \<in> ps \<Longrightarrow> touches ps (open_lock_sidecar p)"
    unfolding remove_file_def create_new_def open_lock_sidecar_def
    by (rule touches_fallible; auto simp: touches_def same_files_def)+
  show "p \<in> ps \<Longrightarrow> touches ps (write_all p data)"
    unfolding write_all_def touches_def Let_def fs_tick_def by (auto simp: same_files_def split: option.splits)
  show "p \<in> ps \<Longrightarrow> q \<in> ps \<Longrightarrow> touches ps (fs_rename p q)"
    unfolding fs_rename_def by (rule touches_fallible) (auto simp: touches_def same_files_def split: option.splits)
qed

lemmas touches_intros = touches_bind touches_map_err touches_return touches_tick touches_query touches_ops

lemma temp_path_neq [simp]: "temp_path tag p \<noteq> p"
  by (cases p) (auto simp: temp_path_def dest: arg_cong [of _ _ length])

lemma atomic_lock_path_neq [simp]: "atomic_lock_path p \<noteq> p"
  by (cases p) (auto simp: atomic_lock_path_def dest: arg_cong [of _ _ length])

section \<open>The atomic writer\<close>

lemma write_temp_content:
  assumes "write_temp tmp data s = (t, Inr u)"
  shows "content_at t tmp = Some data"
  using assms
  by (auto simp: write_temp_def io_bind_def create_new_def write_all_def fs_sync_def fallible_def fs_tick_def
      Let_def content_at_def split: prod.splits sum.splits if_splits option.splits)

lemma write_temp_touches: "touches {tmp} (write_temp tmp data)"
  unfolding write_temp_def by (intro touches_intros) simp_all

lemma rename_content:
  assumes "fs_rename p q s = (t, r)" and "p \<noteq> q"
  shows "(r = Inr () \<and> content_at t q = content_at s p) \<or> ((\<exists>e. r = Inl e) \<and> content_at t q = content_at s q)"
  using assms
  by (auto simp: fs_rename_def fallible_def fs_tick_def Let_def content_at_def split: if_splits option.splits)

lemma same_content: "same_files ps s t \<Longrightarrow> q \<notin> ps \<Longrightarrow> content_at t q = content_at s q"
  by (simp add: content_at_def same_filesD)

lemma replace_target_effect:
  assumes "replace_target tmp p data s = (t, r)" and "tmp \<noteq> p"
  shows "((r = Inr () \<and> content_at t p = Some data) \<or> ((\<exists>e. r = Inl e) \<and> content_at t p = content_at s p)) \<and>
         same_files {tmp, p} s t"
proof -
  obtain s1 r1 where w: "write_temp tmp data s = (s1, r1)" by (cases "write_temp tmp data s")
  have f1: "same_files {tmp} s s1" using touchesD [OF write_temp_touches w] .
  have p1: "content_at s1 p = content_at s p" using same_content [OF f1] assms(2) by simp
  have rm: "same_files {tmp} x (io_drop (remove_file tmp) x)" "same_files {} x (io_drop fs_sync x)" for x
    by (rule touches_drop; rule touches_ops; simp)+
  have up: "same_files {tmp} x y \<Longrightarrow> same_files {tmp, p} x y" "same_files {} x y \<Longrightarrow> same_files {tmp, p} x y" for x y
    by (auto elim: same_files_mono)
  show ?thesis
  proof (cases r1)
    case (Inl e)
    then have t: "t = io_drop (remove_file tmp) s1" "r = Inl e" using assms(1) w by (auto simp: replace_target_def)
    have "content_at t p = content_at s1 p" using same_content [OF rm(1)] assms(2) t(1) by simp
    moreover have "same_files {tmp, p} s t" using f1 rm(1) [of s1] t(1) up(1) same_files_trans by blast
    ultimately show ?thesis using t(2) p1 by simp
  next
    case (Inr u)
    obtain s2 r2 where m: "fs_rename tmp p s1 = (s2, r2)" by (cases "fs_rename tmp p s1")
    have "touches {tmp, p} (fs_rename tmp p)" by (rule touches_ops) simp_all
    from touchesD [OF this m] have f2: "same_files {tmp, p} s s2" using up(1) [OF f1] same_files_trans by blast
    have c1: "content_at s1 tmp = Some data" using w Inr by (simp add: write_temp_content)
    from rename_content [OF m assms(2)] show ?thesis
    proof (elim disjE conjE exE)
      assume r2: "r2 = Inr ()" "content_at s2 p = content_at s1 tmp"
      then have t: "t = io_drop fs_sync s2" "r = Inr ()" using assms(1) w Inr m by (auto simp: replace_target_def)
      have "content_at t p = content_at s2 p" using same_content [OF rm(2)] t(1) by simp
      moreover have "same_files {tmp, p} s t" using f2 rm(2) [of s2] t(1) up(2) same_files_trans by blast
      ultimately show ?thesis using r2 c1 t(2) by simp
    next
      fix e assume r2: "r2 = Inl e" "content_at s2 p = content_at s1 p"
      then have t: "t = io_drop (remove_file tmp) s2" "r = Inl e" using assms(1) w Inr m by (auto simp: replace_target_def)
      have "content_at t p = content_at s2 p" using same_content [OF rm(1)] assms(2) t(1) by simp
      moreover have "same_files {tmp, p} s t" using f2 rm(1) [of s2] t(1) up(1) same_files_trans by blast
      ultimately show ?thesis using r2 p1 t(2) by simp
    qed
  qed
qed

text \<open>The files beside the target that an atomic write may leave behind.\<close>

definition atomic_extras :: "path \<Rightarrow> path set" where
  "atomic_extras p = insert (atomic_lock_path p) (range (\<lambda>tag. temp_path tag p))"

lemma atomic_extras_not_target [simp]: "p \<notin> atomic_extras p"
  by (auto simp: atomic_extras_def dest!: sym [of p])

lemma atomic_as_effect:
  assumes "atomic_as p data s = (t, r)"
  shows "(r = Inr () \<and> content_at t p = Some data \<or> (\<exists>e. r = Inl e) \<and> content_at t p = content_at s p) \<and>
         same_files (insert p (atomic_extras p)) s t"
proof -
  let ?ps = "insert p (atomic_extras p)"
  obtain s1 r1 where a1: "create_dir_all (fst p) s = (s1, r1)" by (cases "create_dir_all (fst p) s")
  obtain s2 r2 where a2: "open_lock_sidecar (atomic_lock_path p) s1 = (s2, r2)" by (cases "open_lock_sidecar (atomic_lock_path p) s1")
  obtain s3 r3 where a3: "file_lock_acquire s2 = (s3, r3)" by (cases "file_lock_acquire s2")
  let ?tmp = "temp_path (fs_tag s3 (fs_ops s3)) p"
  obtain s4 r4 where a4: "replace_target ?tmp p data s3 = (s4, r4)" by (cases "replace_target ?tmp p data s3")
  have "touches (atomic_extras p) (create_dir_all (fst p))"
    "touches (atomic_extras p) (open_lock_sidecar (atomic_lock_path p))" "touches (atomic_extras p) file_lock_acquire"
    by (simp_all add: touches_ops atomic_extras_def)
  from touchesD [OF this(1) a1] touchesD [OF this(2) a2] touchesD [OF this(3) a3]
  have f: "same_files (atomic_extras p) s s1" "same_files (atomic_extras p) s s2" "same_files (atomic_extras p) s s3"
    using same_files_trans by blast+
  have "?tmp \<in> atomic_extras p" by (auto simp: atomic_extras_def)
  then have "same_files ?ps s3 s4" "same_files ?ps s s3"
    using replace_target_effect [OF a4 temp_path_neq] f(3) by (auto elim!: same_files_mono)
  then have f4: "same_files ?ps s s4" by (rule same_files_trans [rotated])
  have c: "content_at s1 p = content_at s p" "content_at s2 p = content_at s p" "content_at s3 p = content_at s p"
    using f same_content by simp_all
  have fm: "same_files (atomic_extras p) s x \<Longrightarrow> same_files ?ps s x" for x by (auto elim: same_files_mono)
  show ?thesis
  proof (cases r1)
    case (Inl e)
    then show ?thesis using assms a1 c(1) f(1) fm by (auto simp: atomic_as_def io_bind_def)
  next
    case r1: (Inr u)
    show ?thesis
    proof (cases r2)
      case (Inl e)
      then show ?thesis using assms a1 a2 r1 c(2) f(2) fm by (auto simp: atomic_as_def io_bind_def)
    next
      case r2: (Inr u)
      show ?thesis
      proof (cases r3)
        case (Inl e)
        then show ?thesis using assms a1 a2 a3 r1 r2 c(3) f(3) fm by (auto simp: atomic_as_def io_bind_def)
      next
        case (Inr u)
        then have "t = s4" "r = r4" using assms a1 a2 a3 a4 r1 r2 by (auto simp: atomic_as_def io_bind_def)
        then show ?thesis using replace_target_effect [OF a4 temp_path_neq] c(3) f4 by auto
      qed
    qed
  qed
qed

text \<open>
  \<^bold>\<open>C25\<close> (atomic replacement). Whatever operations fail, and wherever the program crashes among
  them, an atomic write either succeeds and the target holds exactly the new bytes, or fails and
  the target is as before; no other file changes except the lock file and temporary files of the
  target.
\<close>

theorem atomic_as_all_or_nothing:
  assumes "atomic_as p data s = (t, r)"
  shows "(r = Inr () \<and> content_at t p = Some data \<or> (\<exists>e. r = Inl e) \<and> content_at t p = content_at s p) \<and>
         same_files (insert p (atomic_extras p)) s t"
  using atomic_as_effect [OF assms] .

definition empty_fs :: fs where
  "empty_fs =
     \<lparr>fs_dirs = [], fs_files = [], fs_ops = 0, fs_faults = (\<lambda>_. False), fs_partial = (\<lambda>_. 0),
      fs_clock = (\<lambda>_. 0), fs_tag = (\<lambda>n. (1, n, 0)), fs_order = (\<lambda>m. m)\<rparr>"

theorem atomic_as_all_or_nothing_witness:
  "content_at (fst (atomic_as (''d'', ''f'') ''new'' empty_fs)) (''d'', ''f'') = Some ''new''"
proof -
  let ?r = "atomic_as (''d'', ''f'') ''new'' empty_fs"
  have "snd ?r = Inr ()" by code_simp
  with atomic_as_all_or_nothing [OF surjective_pairing [of ?r]] show ?thesis by auto
qed

end
