(* ===== verification/QueueStore.thy ===== *)
theory QueueStore
  imports QueueEntry FileSystem
begin

text \<open>
  The queue directory (\<open>src/crates/queue/src/store.rs\<close>): entry files, claim files, the quarantine of
  unreadable entries and the health file, as operations on the file system of \<open>FileSystem\<close>. The
  directories below the root are named by their last component. The JSON encoding is
  \<open>serde_json\<close>'s and a parameter, the record \<open>json\<close>; \<open>json_ok\<close> states that what it writes it
  reads back. The identifiers that \<open>new_id\<close> would return next are a parameter of \<open>enqueue_new\<close>.
\<close>

definition ENQUEUE_NEW_ATTEMPTS :: nat where "ENQUEUE_NEW_ATTEMPTS = 5"
definition MAX_CORRUPT_FILES :: nat where "MAX_CORRUPT_FILES = 200"
definition CLAIM_TTL_SECONDS :: int where "CLAIM_TTL_SECONDS = 900"

record outbound_health_state =
  hs_consecutive_failures :: nat
  hs_last_success_at :: "string option"
  hs_last_failure :: "string option"

record json =
  js_enc :: "queue_entry \<Rightarrow> string option"
  js_dec :: "string \<Rightarrow> queue_entry option"
  js_header :: "string \<Rightarrow> int option"
  js_enc_health :: "outbound_health_state \<Rightarrow> string option"
  js_dec_health :: "string \<Rightarrow> outbound_health_state option"

definition entries_dir :: string where "entries_dir = ''entries''"
definition corrupt_dir :: string where "corrupt_dir = ''corrupt''"
definition claims_dir :: string where "claims_dir = ''claims''"
definition health_path :: path where "health_path = ([], ''outbound-health.json'')"

section \<open>Claims\<close>

definition claim_file :: "string \<Rightarrow> path" where
  "claim_file i = (claims_dir, i @ ''.claim'')"

definition claim_path :: "string \<Rightarrow> (queue_error, path) result" where
  "claim_path i = (if \<not> is_safe_id i then Inl (QueueInvalid (UnsafeId i)) else Inr (claim_file i))"

definition with_claims_lock :: "(queue_error, 'a) io \<Rightarrow> (queue_error, 'a) io" where
  "with_claims_lock f =
     io_bind (io_map_err (\<lambda>_. QueueIo) (create_dir_all claims_dir)) (\<lambda>_.
     locked_with (claims_dir, ''.claims'') (\<lambda>_. QueueStorage) f)"

text \<open>The modification time counts whole seconds since the epoch, zero before it.\<close>

definition claim_is_fresh :: "path \<Rightarrow> int \<Rightarrow> fs \<Rightarrow> fs \<times> bool" where
  "claim_is_fresh p now s =
     (let (s, text) = fs_read p s;
          parsed = (case text of Inr text \<Rightarrow> if valid_utf8 text then parse_i64 (trim text) else None | Inl _ \<Rightarrow> None)
      in case parsed of
           Some claimed_at \<Rightarrow> (s, sat_i64 (now - claimed_at) < CLAIM_TTL_SECONDS)
         | None \<Rightarrow>
             (case fs_modified p s of
                (s, Inl _) \<Rightarrow> (s, False)
              | (s, Inr modified) \<Rightarrow> (s, sat_i64 (now - max 0 modified div 1000) < CLAIM_TTL_SECONDS)))"

definition remove_if_present :: "path \<Rightarrow> (queue_error, unit) io" where
  "remove_if_present p s =
     (case remove_file p s of
        (s, Inr _) \<Rightarrow> (s, Inr ())
      | (s, Inl e) \<Rightarrow> (s, if e = NotFound then Inr () else Inl QueueIo))"

definition claim_body :: "path \<Rightarrow> int \<Rightarrow> (queue_error, bool) io" where
  "claim_body p now s =
     (let (s, fresh) = claim_is_fresh p now s in
      case (if fresh then (s, Inr ()) else remove_if_present p s) of
        (s, Inl e) \<Rightarrow> (s, Inl e)
      | (s, Inr _) \<Rightarrow>
          (case create_new p s of
             (s, Inr _) \<Rightarrow> (io_drop (write_all p (int_to_string now @ [LF])) s, Inr True)
           | (s, Inl e) \<Rightarrow> (s, if e = AlreadyExists then Inr False else Inl QueueIo)))"

definition try_claim :: "string \<Rightarrow> int \<Rightarrow> (queue_error, bool) io" where
  "try_claim i now s =
     (case claim_path i of Inl e \<Rightarrow> (s, Inl e) | Inr p \<Rightarrow> with_claims_lock (claim_body p now) s)"

definition release_claim :: "string \<Rightarrow> (queue_error, unit) io" where
  "release_claim i s =
     (case claim_path i of Inl e \<Rightarrow> (s, Inl e) | Inr p \<Rightarrow> with_claims_lock (remove_if_present p) s)"

definition strip_suffix :: "string \<Rightarrow> string \<Rightarrow> string option" where
  "strip_suffix suf name = (if suffix suf name then Some (take (length name - length suf) name) else None)"

text \<open>The loop over the items of a directory: an item may fail to be read.\<close>

fun claimed_loop :: "int \<Rightarrow> string list \<Rightarrow> string list \<Rightarrow> fs \<Rightarrow> fs \<times> string list" where
  "claimed_loop now [] claimed s = (s, claimed)"
| "claimed_loop now (name # names) claimed s =
     (let (s, fault) = fs_tick s in
      if fault \<or> \<not> valid_utf8 name then claimed_loop now names claimed s
      else
        (case strip_suffix ''.claim'' name of
           None \<Rightarrow> claimed_loop now names claimed s
         | Some i \<Rightarrow>
             (let (s, fresh) = claim_is_fresh (claims_dir, name) now s
              in claimed_loop now names (if fresh then List.insert i claimed else claimed) s)))"

definition claimed_ids :: "int \<Rightarrow> (queue_error, string list) io" where
  "claimed_ids now s =
     (let (s, present) = dir_exists claims_dir s in
      if \<not> present then (s, Inr [])
      else
        (case read_dir claims_dir s of
           (s, Inl _) \<Rightarrow> (s, Inl QueueIo)
         | (s, Inr names) \<Rightarrow> (let (s, claimed) = claimed_loop now names [] s in (s, Inr claimed))))"

text \<open>\<open>Path::extension\<close>\<close>

definition extension :: "string \<Rightarrow> string option" where
  "extension name =
     (case rsplit_once (CHR ''.'') name of
        None \<Rightarrow> None
      | Some (stem, ext) \<Rightarrow> if stem = [] then None else Some ext)"

fun prune_claims_loop :: "int \<Rightarrow> string list \<Rightarrow> nat \<Rightarrow> fs \<Rightarrow> fs \<times> nat" where
  "prune_claims_loop now [] removed s = (s, removed)"
| "prune_claims_loop now (name # names) removed s =
     (let (s, fault) = fs_tick s in
      if fault \<or> extension name \<noteq> Some ''claim'' then prune_claims_loop now names removed s
      else
        (let (s, fresh) = claim_is_fresh (claims_dir, name) now s in
         if fresh then prune_claims_loop now names removed s
         else
           (case remove_file (claims_dir, name) s of
              (s, Inr _) \<Rightarrow> prune_claims_loop now names (removed + 1) s
            | (s, Inl _) \<Rightarrow> prune_claims_loop now names removed s)))"

definition prune_claims_body :: "int \<Rightarrow> (queue_error, nat) io" where
  "prune_claims_body now s =
     (case read_dir claims_dir s of
        (s, Inl _) \<Rightarrow> (s, Inl QueueIo)
      | (s, Inr names) \<Rightarrow> (let (s, removed) = prune_claims_loop now names 0 s in (s, Inr removed)))"

definition prune_claims :: "int \<Rightarrow> (queue_error, nat) io" where
  "prune_claims now s =
     (let (s, present) = dir_exists claims_dir s in
      if \<not> present then (s, Inr 0) else with_claims_lock (prune_claims_body now) s)"

section \<open>Entries\<close>

definition entry_file :: "string \<Rightarrow> path" where
  "entry_file i = (entries_dir, i @ ''.json'')"

definition entry_path :: "string \<Rightarrow> (queue_error, path) result" where
  "entry_path i = (if \<not> is_safe_id i then Inl (QueueInvalid (UnsafeId i)) else Inr (entry_file i))"

definition reservation_path :: "string \<Rightarrow> path" where
  "reservation_path i = (entries_dir, ''.'' @ i @ ''.json.reserve'')"

definition enqueue :: "json \<Rightarrow> queue_entry \<Rightarrow> (queue_error, unit) io" where
  "enqueue J e s =
     (case entry_validate e of
        Inl err \<Rightarrow> (s, Inl err)
      | Inr _ \<Rightarrow>
          (case entry_path (qe_id e) of
             Inl err \<Rightarrow> (s, Inl err)
           | Inr p \<Rightarrow>
               (case js_enc J e of
                  None \<Rightarrow> (s, Inl QueueJson)
                | Some payload \<Rightarrow> io_map_err (\<lambda>_. QueueStorage) (atomic_as p payload) s)))"

text \<open>The attempts left and the identifiers to come are arguments; the entry is returned as it ended.\<close>

fun enqueue_new_loop ::
  "json \<Rightarrow> (nat \<Rightarrow> string) \<Rightarrow> nat \<Rightarrow> queue_entry \<Rightarrow> fs \<Rightarrow> fs \<times> queue_entry \<times> (queue_error, unit) result" where
  "enqueue_new_loop J ids 0 e s = (s, e, Inl (QueueInvalid IdCollision))"
| "enqueue_new_loop J ids (Suc n) e s =
     (case entry_path (qe_id e) of
        Inl err \<Rightarrow> (s, e, Inl err)
      | Inr p \<Rightarrow>
          (case create_new (reservation_path (qe_id e)) s of
             (s, Inl err) \<Rightarrow>
               if err = AlreadyExists then enqueue_new_loop J ids n (e\<lparr>qe_id := ids n\<rparr>) s
               else (s, e, Inl QueueIo)
           | (s, Inr _) \<Rightarrow>
               (let (s, taken) = path_exists p s in
                if taken
                then enqueue_new_loop J ids n (e\<lparr>qe_id := ids n\<rparr>) (io_drop (remove_file (reservation_path (qe_id e))) s)
                else
                  (case js_enc J e of
                     None \<Rightarrow> (s, e, Inl QueueJson)
                   | Some payload \<Rightarrow>
                       (let (s, r) = atomic_as p payload s;
                            s = io_drop (remove_file (reservation_path (qe_id e))) s
                        in case r of
                             Inr _ \<Rightarrow> (s, e, Inr ())
                           | Inl _ \<Rightarrow> (io_drop (remove_file p) s, e, Inl QueueStorage))))))"

definition enqueue_new ::
  "json \<Rightarrow> (nat \<Rightarrow> string) \<Rightarrow> queue_entry \<Rightarrow> fs \<Rightarrow> fs \<times> queue_entry \<times> (queue_error, unit) result" where
  "enqueue_new J ids e s =
     (case entry_validate e of
        Inl err \<Rightarrow> (s, e, Inl err)
      | Inr _ \<Rightarrow>
          (case create_dir_all entries_dir s of
             (s, Inl _) \<Rightarrow> (s, e, Inl QueueIo)
           | (s, Inr _) \<Rightarrow> enqueue_new_loop J ids ENQUEUE_NEW_ATTEMPTS e s))"

section \<open>Reading the queue\<close>

definition queue_file_name :: "string \<Rightarrow> bool" where
  "queue_file_name name \<longleftrightarrow> \<not> prefix ''.'' name \<and> suffix ''.json'' name"

definition is_queue_file :: "path \<Rightarrow> fs \<Rightarrow> fs \<times> bool" where
  "is_queue_file p s = (let (s, present) = path_exists p s in (s, present \<and> queue_file_name (snd p)))"

definition parse_entry :: "json \<Rightarrow> string \<Rightarrow> queue_entry option" where
  "parse_entry J raw =
     (case js_dec J raw of
        None \<Rightarrow> None
      | Some e \<Rightarrow> (case entry_validate e of Inl _ \<Rightarrow> None | Inr _ \<Rightarrow> Some e))"

fun corrupt_files_loop :: "string list \<Rightarrow> (int \<times> string) list \<Rightarrow> fs \<Rightarrow> fs \<times> (int \<times> string) list" where
  "corrupt_files_loop [] acc s = (s, acc)"
| "corrupt_files_loop (name # names) acc s =
     (let (s, fault) = fs_tick s in
      if fault then corrupt_files_loop names acc s
      else
        (let (s, present) = path_exists (corrupt_dir, name) s in
         if \<not> present then corrupt_files_loop names acc s
         else
           (let (s, modified) = fs_modified (corrupt_dir, name) s
            in corrupt_files_loop names (acc @ [(case modified of Inr m \<Rightarrow> m | Inl _ \<Rightarrow> 0, name)]) s)))"

definition prune_corrupt_dir :: "fs \<Rightarrow> fs" where
  "prune_corrupt_dir s =
     (case read_dir corrupt_dir s of
        (s, Inl _) \<Rightarrow> s
      | (s, Inr names) \<Rightarrow>
          (let (s, files) = corrupt_files_loop names [] s in
           if length files \<le> MAX_CORRUPT_FILES then s
           else foldl (\<lambda>s f. io_drop (remove_file (corrupt_dir, snd f)) s) s
                  (take (length files - MAX_CORRUPT_FILES) (sort_key fst files))))"

definition quarantine_target :: "string \<Rightarrow> int \<Rightarrow> path" where
  "quarantine_target name stamp = (corrupt_dir, name @ ''.'' @ nat_to_string (nat stamp) @ ''.corrupt'')"

definition quarantine :: "path \<Rightarrow> fs \<Rightarrow> fs" where
  "quarantine p s =
     (case create_dir_all corrupt_dir s of
        (s, Inl _) \<Rightarrow> s
      | (s, Inr _) \<Rightarrow>
          prune_corrupt_dir (io_drop (fs_rename p (quarantine_target (snd p) (fs_clock s (fs_ops s)))) s))"

text \<open>
  The body of the two load loops after the raw bytes of a queue file are read: what \<open>load_all\<close>
  keeps, what \<open>load_due\<close> keeps, or that the file goes to the quarantine.
\<close>

datatype load_step = Keep queue_entry | Skip | Unreadable

definition classify_all :: "json \<Rightarrow> string \<Rightarrow> load_step" where
  "classify_all J raw = (case parse_entry J raw of Some e \<Rightarrow> Keep e | None \<Rightarrow> Unreadable)"

definition classify_due :: "json \<Rightarrow> int \<Rightarrow> string \<Rightarrow> load_step" where
  "classify_due J now raw =
     (case js_header J raw of
        None \<Rightarrow> Unreadable
      | Some next_attempt \<Rightarrow>
          if next_attempt > now then Skip
          else (case parse_entry J raw of
                  Some e \<Rightarrow> if is_due e now then Keep e else Skip
                | None \<Rightarrow> Unreadable))"

fun load_loop :: "(string \<Rightarrow> load_step) \<Rightarrow> string list \<Rightarrow> queue_entry list \<Rightarrow> fs \<Rightarrow> fs \<times> queue_entry list" where
  "load_loop step [] acc s = (s, acc)"
| "load_loop step (name # names) acc s =
     (let (s, fault) = fs_tick s in
      if fault then load_loop step names acc s
      else
        (let (s, wanted) = is_queue_file (entries_dir, name) s in
         if \<not> wanted then load_loop step names acc s
         else
           (case fs_read (entries_dir, name) s of
              (s, Inl _) \<Rightarrow> load_loop step names acc s
            | (s, Inr raw) \<Rightarrow>
                (case step raw of
                   Keep e \<Rightarrow> load_loop step names (acc @ [e]) s
                 | Skip \<Rightarrow> load_loop step names acc s
                 | Unreadable \<Rightarrow> load_loop step names acc (quarantine (entries_dir, name) s)))))"

definition load_entries :: "(string \<Rightarrow> load_step) \<Rightarrow> (queue_error, queue_entry list) io" where
  "load_entries step s =
     (let (s, present) = dir_exists entries_dir s in
      if \<not> present then (s, Inr [])
      else
        (case read_dir entries_dir s of
           (s, Inl _) \<Rightarrow> (s, Inl QueueIo)
         | (s, Inr names) \<Rightarrow>
             (let (s, entries) = load_loop step names [] s in (s, Inr (sort_key qe_id entries)))))"

definition load_all :: "json \<Rightarrow> (queue_error, queue_entry list) io" where
  "load_all J = load_entries (classify_all J)"

definition load_due :: "json \<Rightarrow> int \<Rightarrow> (queue_error, queue_entry list) io" where
  "load_due J now = load_entries (classify_due J now)"

definition store_remove :: "string \<Rightarrow> (queue_error, bool) io" where
  "store_remove i s =
     (case entry_path i of
        Inl err \<Rightarrow> (s, Inl err)
      | Inr p \<Rightarrow>
          (let s = io_drop (release_claim i) s in
           case remove_file p s of
             (s, Inr _) \<Rightarrow> (io_drop (remove_file (atomic_lock_path p)) s, Inr True)
           | (s, Inl e) \<Rightarrow>
               if e = NotFound then (io_drop (remove_file (atomic_lock_path p)) s, Inr False)
               else (s, Inl QueueIo)))"

fun count_loop :: "string list \<Rightarrow> nat \<Rightarrow> fs \<Rightarrow> fs \<times> nat" where
  "count_loop [] n s = (s, n)"
| "count_loop (name # names) n s =
     (let (s, fault) = fs_tick s in
      if fault then count_loop names n s
      else (let (s, wanted) = is_queue_file (entries_dir, name) s in count_loop names (if wanted then n + 1 else n) s))"

definition store_len :: "(queue_error, nat) io" where
  "store_len s =
     (let (s, present) = dir_exists entries_dir s in
      if \<not> present then (s, Inr 0)
      else
        (case read_dir entries_dir s of
           (s, Inl _) \<Rightarrow> (s, Inl QueueIo)
         | (s, Inr names) \<Rightarrow> (let (s, n) = count_loop names 0 s in (s, Inr n))))"

definition store_is_empty :: "(queue_error, bool) io" where
  "store_is_empty = io_bind store_len (\<lambda>n. io_return (n = 0))"

definition load_health :: "json \<Rightarrow> fs \<Rightarrow> fs \<times> outbound_health_state option" where
  "load_health J s =
     (case fs_read health_path s of
        (s, Inl _) \<Rightarrow> (s, None)
      | (s, Inr raw) \<Rightarrow> (s, if valid_utf8 raw then js_dec_health J raw else None))"

definition save_health :: "json \<Rightarrow> outbound_health_state \<Rightarrow> (queue_error, unit) io" where
  "save_health J h s =
     (case js_enc_health J h of
        None \<Rightarrow> (s, Inl QueueJson)
      | Some payload \<Rightarrow> io_map_err (\<lambda>_. QueueStorage) (atomic_as health_path payload) s)"

section \<open>The queue as a map\<close>

text \<open>What is relied on of the JSON library: it reads back what it wrote.\<close>

definition json_ok :: "json \<Rightarrow> bool" where
  "json_ok J \<longleftrightarrow>
     (\<forall>e raw. js_enc J e = Some raw \<longrightarrow> js_dec J raw = Some e \<and> js_header J raw = Some (qe_next_attempt_unix e))"

text \<open>The abstraction: the entry stored under an identifier.\<close>

definition queue_of :: "json \<Rightarrow> fs \<Rightarrow> string \<Rightarrow> queue_entry option" where
  "queue_of J s i =
     (if is_safe_id i then (case content_at s (entry_file i) of None \<Rightarrow> None | Some raw \<Rightarrow> js_dec J raw) else None)"

text \<open>The invariant: every queue file holds the valid entry that it is named after.\<close>

definition holds_entry :: "json \<Rightarrow> string \<Rightarrow> string \<Rightarrow> bool" where
  "holds_entry J name raw \<longleftrightarrow>
     (\<exists>e. js_dec J raw = Some e \<and> js_header J raw = Some (qe_next_attempt_unix e) \<and> entry_ok e \<and>
          name = qe_id e @ ''.json'')"

definition store_ok :: "json \<Rightarrow> fs \<Rightarrow> bool" where
  "store_ok J s \<longleftrightarrow>
     fs_wf s \<and>
     (\<forall>name raw. queue_file_name name \<longrightarrow> content_at s (entries_dir, name) = Some raw \<longrightarrow> holds_entry J name raw)"

text \<open>The files that are not entries: locks, temporary files, reservations, claims, quarantine.\<close>

definition aux_paths :: "path set" where
  "aux_paths = {p. \<not> (fst p = entries_dir \<and> queue_file_name (snd p))}"

lemma safe_id_queue_file: "is_safe_id i \<Longrightarrow> queue_file_name (i @ ''.json'')"
proof -
  assume i: "is_safe_id i"
  then obtain c cs where c: "i = c # cs" by (cases i) (auto simp: is_safe_id_def)
  have "CHR ''.'' \<notin> set i"
    by (rule is_safe_id_clean [OF i])
       (simp_all add: is_ascii_alphanumeric_def is_ascii_digit_def is_ascii_upper_def is_ascii_lower_def)
  moreover have "suffix ''.json'' (i @ ''.json'')" by (simp add: suffix_def)
  ultimately show ?thesis using c by (auto simp: queue_file_name_def)
qed

lemma aux_paths_other_dir [simp]: "d \<noteq> entries_dir \<Longrightarrow> (d, name) \<in> aux_paths"
  by (simp add: aux_paths_def)

lemma dirs_distinct [simp]:
  "claims_dir \<noteq> entries_dir" "corrupt_dir \<noteq> entries_dir" "[] \<noteq> entries_dir" "fst health_path \<noteq> entries_dir"
  by (simp_all add: claims_dir_def entries_dir_def corrupt_dir_def health_path_def)

lemma aux_paths_dot [simp]: "(d, CHR ''.'' # name) \<in> aux_paths"
  by (simp add: aux_paths_def queue_file_name_def)

lemma temp_path_aux: "temp_path tag p \<in> aux_paths"
proof -
  obtain c cs where c: "rev (nat_to_string (snd (snd tag))) = c # cs"
    by (cases "rev (nat_to_string (snd (snd tag)))") auto
  have "c \<in> set (rev (nat_to_string (snd (snd tag))))" unfolding c by simp
  then have "is_ascii_digit c" using nat_to_string_digits by simp
  then have "c \<noteq> CHR ''n''" by (auto simp: is_ascii_digit_def)
  then have "\<not> suffix ''.json'' (snd (temp_path tag p))"
    using c by (auto simp: temp_path_def suffix_to_prefix)
  then show ?thesis by (simp add: aux_paths_def queue_file_name_def)
qed

lemma atomic_extras_aux: "atomic_extras p \<subseteq> aux_paths"
  by (simp add: atomic_extras_def atomic_lock_path_def image_subset_iff temp_path_aux del: split_paired_All)

lemma reservation_aux [simp]: "reservation_path i \<in> aux_paths"
  by (simp add: reservation_path_def)

lemma claim_file_aux [simp]: "claim_file i \<in> aux_paths"
  by (simp add: claim_file_def)

lemma atomic_lock_aux [simp]: "atomic_lock_path p \<in> aux_paths"
  by (simp add: atomic_lock_path_def)

lemma entry_file_not_aux: "is_safe_id i \<Longrightarrow> entry_file i \<notin> aux_paths"
  by (simp add: aux_paths_def entry_file_def safe_id_queue_file)

lemma entry_file_inject [simp]: "entry_file i = entry_file j \<longleftrightarrow> i = j"
  by (simp add: entry_file_def)

text \<open>Changing other files changes nothing of the queue.\<close>

lemma aux_queue_of: "same_files aux_paths s t \<Longrightarrow> queue_of J t = queue_of J s"
proof
  fix i assume "same_files aux_paths s t"
  then show "queue_of J t i = queue_of J s i"
    using same_content [of aux_paths s t "entry_file i"] entry_file_not_aux [of i] by (simp add: queue_of_def)
qed

lemma aux_store_ok: "same_files aux_paths s t \<Longrightarrow> store_ok J s \<Longrightarrow> store_ok J t"
proof -
  assume a: "same_files aux_paths s t" and ok: "store_ok J s"
  have "content_at t (entries_dir, name) = content_at s (entries_dir, name)" if "queue_file_name name" for name
    using same_content [OF a] that by (simp add: aux_paths_def)
  moreover have "fs_wf t" using a ok by (simp add: same_files_def store_ok_def)
  ultimately show ?thesis using ok by (simp add: store_ok_def)
qed

section \<open>Operations that leave the entries alone\<close>

lemma touches_claim_is_fresh: "touches ps (claim_is_fresh p now)"
proof -
  have "same_files ps s (fst (claim_is_fresh p now s))" for s
  proof -
    obtain s1 r1 where 1: "fs_read p s = (s1, r1)" by (cases "fs_read p s")
    obtain s2 r2 where 2: "fs_modified p s1 = (s2, r2)" by (cases "fs_modified p s1")
    have "same_files ps s s1" "same_files ps s1 s2"
      using touchesD [OF touches_ops(2) 1] touchesD [OF touches_ops(3) 2] .
    then have "same_files ps s s1" "same_files ps s s2" using same_files_trans by blast+
    with 1 2 show ?thesis
      by (auto simp: claim_is_fresh_def Let_def split: sum.splits option.splits)
  qed
  then show ?thesis by (simp add: touches_def)
qed

lemma touches_remove_if_present: "p \<in> ps \<Longrightarrow> touches ps (remove_if_present p)"
  using touches_ops(7) [of p ps]
  by (auto simp: touches_def remove_if_present_def split: prod.splits sum.splits) (metis fst_conv)+

lemma touches_claim_body: "p \<in> ps \<Longrightarrow> touches ps (claim_body p now)"
proof -
  assume p: "p \<in> ps"
  have "same_files ps s (fst (claim_body p now s))" for s
  proof -
    obtain s1 fresh where 1: "claim_is_fresh p now s = (s1, fresh)" by (cases "claim_is_fresh p now s")
    obtain s2 r2 where 2: "(if fresh then (s1, Inr ()) else remove_if_present p s1) = (s2, r2)"
      by (cases "if fresh then (s1, Inr ()) else remove_if_present p s1")
    obtain s3 r3 where 3: "create_new p s2 = (s3, r3)" by (cases "create_new p s2")
    have "same_files ps s s1" using touchesD [OF touches_claim_is_fresh 1] .
    moreover have "same_files ps s1 s2"
      using 2 touchesD [OF touches_remove_if_present [OF p]] by (auto split: if_splits)
    moreover have "same_files ps s2 s3" using touchesD [OF touches_ops(8) [OF p] 3] .
    moreover have "same_files ps s3 (io_drop (write_all p data) s3)" for data
      by (rule touches_drop) (simp add: touches_ops p)
    ultimately have "same_files ps s s2" "same_files ps s s3" "same_files ps s (io_drop (write_all p data) s3)" for data
      using same_files_trans by blast+
    with 1 2 3 show ?thesis by (auto simp: claim_body_def split: sum.splits)
  qed
  then show ?thesis by (simp add: touches_def)
qed

lemma touches_with_claims_lock: "touches aux_paths f \<Longrightarrow> touches aux_paths (with_claims_lock f)"
  unfolding with_claims_lock_def locked_with_def locked_lock_path_def
  by (intro touches_intros) (simp_all add: touches_ops)

lemma touches_try_claim: "touches aux_paths (try_claim i now)"
  using touches_with_claims_lock [OF touches_claim_body [OF claim_file_aux, of i now]]
  by (auto simp: touches_def try_claim_def claim_path_def)

lemma touches_release_claim: "touches aux_paths (release_claim i)"
  using touches_with_claims_lock [OF touches_remove_if_present [OF claim_file_aux [of i]]]
  by (auto simp: touches_def release_claim_def claim_path_def)

lemma touches_read_only: "touches ps (is_queue_file p)"
  using touches_query(2) [of ps p] by (auto simp: touches_def is_queue_file_def case_prod_unfold Let_def)

lemma claimed_loop_same: "same_files ps s (fst (claimed_loop now names claimed s))"
proof (induction names arbitrary: claimed s)
  case (Cons name names)
  have t: "same_files ps s (fst (fs_tick s))" by (rule same_files_tick)
  have "same_files ps x (fst (claim_is_fresh (claims_dir, name) now x))" for x
    using touches_claim_is_fresh by (simp add: touches_def)
  from same_files_trans [OF t this] have f: "same_files ps s (fst (claim_is_fresh (claims_dir, name) now (fst (fs_tick s))))" .
  show ?case
    using same_files_trans [OF t Cons] same_files_trans [OF f Cons]
    by (auto simp: case_prod_unfold Let_def split: option.splits)
qed simp

lemma touches_claimed_ids: "touches ps (claimed_ids now)"
proof -
  have "same_files ps s (fst (claimed_ids now s))" for s
  proof -
    obtain s1 b where 1: "dir_exists claims_dir s = (s1, b)" by (cases "dir_exists claims_dir s")
    obtain s2 r where 2: "read_dir claims_dir s1 = (s2, r)" by (cases "read_dir claims_dir s1")
    have a: "same_files ps s s1" using touchesD [OF touches_query(1) 1] .
    then have "same_files ps s s2" using touchesD [OF touches_ops(4) 2] same_files_trans by blast
    then have "same_files ps s (fst (claimed_loop now names [] s2))" for names
      using claimed_loop_same same_files_trans by blast
    with a \<open>same_files ps s s2\<close> 1 2 show ?thesis
      by (auto simp: claimed_ids_def case_prod_unfold Let_def split: sum.splits)
  qed
  then show ?thesis by (simp add: touches_def)
qed

lemma prune_claims_loop_same: "same_files aux_paths s (fst (prune_claims_loop now names removed s))"
proof (induction names arbitrary: removed s)
  case (Cons name names)
  let ?p = "(claims_dir, name)"
  obtain s1 b where 1: "fs_tick s = (s1, b)" by (cases "fs_tick s")
  obtain s2 fresh where 2: "claim_is_fresh ?p now s1 = (s2, fresh)" by (cases "claim_is_fresh ?p now s1")
  obtain s3 r where 3: "remove_file ?p s2 = (s3, r)" by (cases "remove_file ?p s2")
  have a: "same_files aux_paths s s1" using touchesD [OF touches_tick 1] .
  then have b: "same_files aux_paths s s2" using touchesD [OF touches_claim_is_fresh 2] same_files_trans by blast
  have "touches aux_paths (remove_file ?p)" by (simp add: touches_ops)
  from touchesD [OF this 3] have c: "same_files aux_paths s s3" using b same_files_trans by blast
  show ?case
    using same_files_trans [OF a Cons] same_files_trans [OF b Cons] same_files_trans [OF c Cons] 1 2 3
    by (auto simp: Let_def split: sum.splits)
qed simp

lemma touches_prune_claims: "touches aux_paths (prune_claims now)"
proof -
  have "same_files aux_paths s (fst (prune_claims_body now s))" for s
  proof -
    obtain s1 r where 1: "read_dir claims_dir s = (s1, r)" by (cases "read_dir claims_dir s")
    then have a: "same_files aux_paths s s1" using touchesD [OF touches_ops(4) 1] by simp
    show ?thesis using a same_files_trans [OF a prune_claims_loop_same] 1
      by (auto simp: prune_claims_body_def case_prod_unfold Let_def split: sum.splits)
  qed
  then have "touches aux_paths (with_claims_lock (prune_claims_body now))"
    by (intro touches_with_claims_lock) (simp add: touches_def)
  then have "same_files aux_paths x (fst (with_claims_lock (prune_claims_body now) x))" for x
    by (simp add: touches_def)
  moreover have "same_files aux_paths s (fst (dir_exists claims_dir s))" for s
    using touches_query(1) by (simp add: touches_def)
  ultimately have "same_files aux_paths s (fst (prune_claims now s))" for s
    using same_files_trans [of aux_paths s "fst (dir_exists claims_dir s)"]
    by (auto simp: prune_claims_def case_prod_unfold Let_def)
  then show ?thesis by (simp add: touches_def)
qed

section \<open>Writing and removing entries\<close>

text \<open>Replacing one queue file by a valid entry of its name.\<close>

lemma write_entry_view:
  assumes J: "json_ok J" and e: "entry_ok e" "js_enc J e = Some payload"
    and w: "atomic_as (entry_file (qe_id e)) payload s = (t, Inr ())"
  shows "queue_of J t = (queue_of J s)(qe_id e \<mapsto> e)" and "store_ok J s \<Longrightarrow> store_ok J t"
proof -
  let ?p = "entry_file (qe_id e)"
  have safe: "is_safe_id (qe_id e)" using e(1) by (simp add: entry_ok_def)
  have c: "content_at t ?p = Some payload" and f: "same_files (insert ?p (atomic_extras ?p)) s t"
    using atomic_as_effect [OF w] by auto
  have other: "content_at t q = content_at s q" if "q \<notin> aux_paths" "q \<noteq> ?p" for q
    using same_content [OF f] that atomic_extras_aux [of ?p] by blast
  show "queue_of J t = (queue_of J s)(qe_id e \<mapsto> e)"
  proof
    fix i
    show "queue_of J t i = ((queue_of J s)(qe_id e \<mapsto> e)) i"
      using c safe J e(2) other [of "entry_file i"] entry_file_not_aux [of i]
      by (auto simp: queue_of_def json_ok_def)
  qed
  assume ok: "store_ok J s"
  have "holds_entry J name raw" if "queue_file_name name" "content_at t (entries_dir, name) = Some raw" for name raw
  proof (cases "(entries_dir, name) = ?p")
    case True
    then have "raw = payload" "name = qe_id e @ ''.json''" using that(2) c by (simp_all add: entry_file_def)
    then show ?thesis using J e by (auto simp: holds_entry_def json_ok_def)
  next
    case False
    have "(entries_dir, name) \<notin> aux_paths" using that(1) by (simp add: aux_paths_def)
    with other False that(2) have "content_at s (entries_dir, name) = Some raw" by metis
    then show ?thesis using ok that(1) by (simp add: store_ok_def)
  qed
  moreover have "fs_wf t" using f ok by (simp add: same_files_def store_ok_def)
  ultimately show "store_ok J t" by (simp add: store_ok_def)
qed

lemma failed_write_view:
  assumes "atomic_as (entry_file i) payload s = (t, Inl err)"
  shows "queue_of J t = queue_of J s" and "store_ok J s \<Longrightarrow> store_ok J t"
proof -
  let ?p = "entry_file i"
  have c: "content_at t ?p = content_at s ?p" and f: "same_files (insert ?p (atomic_extras ?p)) s t"
    using atomic_as_effect [OF assms] by auto
  have other: "content_at t q = content_at s q" if "q \<notin> aux_paths" for q
    using same_content [OF f, of q] that atomic_extras_aux [of ?p] c by (cases "q = ?p") auto
  show "queue_of J t = queue_of J s"
  proof
    fix j show "queue_of J t j = queue_of J s j" using other entry_file_not_aux [of j] by (simp add: queue_of_def)
  qed
  assume ok: "store_ok J s"
  have "fs_wf t" using f ok by (simp add: same_files_def store_ok_def)
  moreover have "content_at t (entries_dir, name) = content_at s (entries_dir, name)" if "queue_file_name name" for name
    using other that by (simp add: aux_paths_def)
  ultimately show "store_ok J t" using ok by (simp add: store_ok_def)
qed

lemma enqueue_ok:
  assumes "json_ok J" and "enqueue J e s = (t, Inr u)"
  shows "entry_ok e" and "queue_of J t = (queue_of J s)(qe_id e \<mapsto> e)" and "store_ok J s \<Longrightarrow> store_ok J t"
proof -
  show e: "entry_ok e"
    using assms(2) entry_validate_ok [of e] by (auto simp: enqueue_def split: sum.splits)
  then have "is_safe_id (qe_id e)" by (simp add: entry_ok_def)
  with assms(2) e obtain payload where "js_enc J e = Some payload" "atomic_as (entry_file (qe_id e)) payload s = (t, Inr ())"
    by (auto simp: enqueue_def entry_path_def io_map_err_def split: sum.splits option.splits prod.splits)
  from write_entry_view [OF assms(1) e this]
  show "queue_of J t = (queue_of J s)(qe_id e \<mapsto> e)" "store_ok J s \<Longrightarrow> store_ok J t" by blast+
qed

lemma enqueue_failed:
  assumes "enqueue J e s = (t, Inl err)"
  shows "queue_of J t = queue_of J s" and "store_ok J s \<Longrightarrow> store_ok J t"
proof -
  have "t = s \<or> (\<exists>payload err. atomic_as (entry_file (qe_id e)) payload s = (t, Inl err))"
    using assms by (auto simp: enqueue_def entry_path_def io_map_err_def split: sum.splits option.splits prod.splits if_splits)
  then show "queue_of J t = queue_of J s" "store_ok J s \<Longrightarrow> store_ok J t"
    using failed_write_view by blast+
qed

text \<open>Removing one queue file.\<close>

lemma remove_entry_view:
  assumes "remove_file (entry_file i) s = (t, r)" and "is_safe_id i"
  shows "queue_of J t = (if r = Inr () then (queue_of J s)(i := None) else queue_of J s)"
    and "store_ok J s \<Longrightarrow> store_ok J t"
    and "r = Inl NotFound \<Longrightarrow> queue_of J s i = None"
proof -
  let ?p = "entry_file i"
  have "touches {?p} (remove_file ?p)" by (simp add: touches_ops)
  from touchesD [OF this assms(1)] have f: "same_files {?p} s t" .
  have c: "content_at t ?p = (if r = Inr () then None else content_at s ?p)"
    "r = Inl NotFound \<Longrightarrow> content_at s ?p = None"
    using assms(1)
    by (auto simp: remove_file_def fallible_def fs_tick_def Let_def content_at_def split: if_splits option.splits)
  show "queue_of J t = (if r = Inr () then (queue_of J s)(i := None) else queue_of J s)"
  proof
    fix j
    show "queue_of J t j = (if r = Inr () then (queue_of J s)(i := None) else queue_of J s) j"
      using same_content [OF f, of "entry_file j"] c by (cases "j = i") (auto simp: queue_of_def)
  qed
  show "r = Inl NotFound \<Longrightarrow> queue_of J s i = None" using c(2) by (simp add: queue_of_def)
  assume ok: "store_ok J s"
  have "holds_entry J name raw" if "queue_file_name name" "content_at t (entries_dir, name) = Some raw" for name raw
  proof -
    have "content_at s (entries_dir, name) = Some raw"
      using that(2) c(1) same_content [OF f, of "(entries_dir, name)"] by (cases "(entries_dir, name) = ?p") (auto split: if_splits)
    then show ?thesis using ok that(1) by (simp add: store_ok_def)
  qed
  moreover have "fs_wf t" using f ok by (simp add: same_files_def store_ok_def)
  ultimately show "store_ok J t" by (simp add: store_ok_def)
qed

lemma drop_aux:
  assumes "touches aux_paths m"
  shows "queue_of J (io_drop m s) = queue_of J s" and "store_ok J s \<Longrightarrow> store_ok J (io_drop m s)"
  using touches_drop [OF assms, of s] aux_queue_of aux_store_ok by blast+

lemma store_remove_ok:
  assumes "store_remove i s = (t, r)"
  shows "queue_of J t = (case r of Inr _ \<Rightarrow> (queue_of J s)(i := None) | Inl _ \<Rightarrow> queue_of J s)"
    and "store_ok J s \<Longrightarrow> store_ok J t"
proof -
  have "queue_of J t = (case r of Inr _ \<Rightarrow> (queue_of J s)(i := None) | Inl _ \<Rightarrow> queue_of J s) \<and>
        (store_ok J s \<longrightarrow> store_ok J t)"
  proof (cases "is_safe_id i")
    case False
    then show ?thesis using assms by (auto simp: store_remove_def entry_path_def)
  next
    case True
    let ?s = "io_drop (release_claim i) s"
    obtain s1 r1 where 1: "remove_file (entry_file i) ?s = (s1, r1)" by (cases "remove_file (entry_file i) ?s")
    have rel: "queue_of J ?s = queue_of J s" "store_ok J s \<Longrightarrow> store_ok J ?s"
      using drop_aux [OF touches_release_claim] by blast+
    have "touches aux_paths (remove_file (atomic_lock_path (entry_file i)))" by (simp add: touches_ops)
    note lock = drop_aux [OF this, of J s1]
    note rem = remove_entry_view [OF 1 True, of J]
    show ?thesis
    proof (cases r1)
      case (Inr u)
      then show ?thesis using assms 1 True rel lock rem by (auto simp: store_remove_def entry_path_def Let_def)
    next
      case (Inl err)
      then show ?thesis using assms 1 True rel lock rem
        by (auto simp: store_remove_def entry_path_def Let_def fun_upd_idem split: if_splits)
    qed
  qed
  then show "queue_of J t = (case r of Inr _ \<Rightarrow> (queue_of J s)(i := None) | Inl _ \<Rightarrow> queue_of J s)"
    and "store_ok J s \<Longrightarrow> store_ok J t" by blast+
qed

section \<open>Adding a new entry\<close>

text \<open>The identifiers an insertion may use are not in the queue yet.\<close>

definition ids_fresh :: "json \<Rightarrow> (nat \<Rightarrow> string) \<Rightarrow> queue_entry \<Rightarrow> fs \<Rightarrow> bool" where
  "ids_fresh J ids e s \<longleftrightarrow> queue_of J s (qe_id e) = None \<and> (\<forall>n. queue_of J s (ids n) = None)"

text \<open>What an insertion of \<open>e\<close> that ended with \<open>e'\<close> and the result \<open>r\<close> did to the queue.\<close>

definition inserted :: "json \<Rightarrow> queue_entry \<Rightarrow> fs \<Rightarrow> fs \<times> queue_entry \<times> (queue_error, unit) result \<Rightarrow> bool" where
  "inserted J e s out \<longleftrightarrow>
     (case out of (t, e', r) \<Rightarrow>
        (store_ok J s \<longrightarrow> store_ok J t) \<and>
        (case r of
           Inl _ \<Rightarrow> queue_of J t = queue_of J s
         | Inr _ \<Rightarrow>
             entry_ok e' \<and> e' = e\<lparr>qe_id := qe_id e'\<rparr> \<and> queue_of J s (qe_id e') = None \<and>
             queue_of J t = (queue_of J s)(qe_id e' \<mapsto> e')))"

lemma inserted_after:
  assumes "same_files aux_paths s s1" and "inserted J (e\<lparr>qe_id := i\<rparr>) s1 out"
  shows "inserted J e s out"
  using assms aux_queue_of [OF assms(1), of J] aux_store_ok [OF assms(1), of J]
  by (auto simp: inserted_def split: sum.splits)

lemma inserted_unchanged: "same_files aux_paths s t \<Longrightarrow> inserted J e s (t, e', Inl err)"
  using aux_queue_of aux_store_ok by (auto simp: inserted_def)

lemma remove_absent:
  assumes "queue_of J s i = None" and "is_safe_id i" and "store_ok J s"
  shows "queue_of J (io_drop (remove_file (entry_file i)) s) = queue_of J s"
    and "store_ok J (io_drop (remove_file (entry_file i)) s)"
  using remove_entry_view [OF surjective_pairing [of "remove_file (entry_file i) s"] assms(2), of J] assms(1,3)
  by (auto simp: io_drop_def fun_upd_idem split: if_splits)

lemma insert_write:
  assumes J: "json_ok J" and ok: "store_ok J s" and e: "entry_ok e" "js_enc J e = Some payload"
    and fresh: "queue_of J s (qe_id e) = None"
    and a: "atomic_as (entry_file (qe_id e)) payload s = (s1, r)"
  shows "inserted J e s
     (case r of Inr _ \<Rightarrow> (io_drop (remove_file (reservation_path (qe_id e))) s1, e, Inr ())
      | Inl _ \<Rightarrow> (io_drop (remove_file (entry_file (qe_id e))) (io_drop (remove_file (reservation_path (qe_id e))) s1),
                  e, Inl QueueStorage))"
proof -
  let ?i = "qe_id e"
  have safe: "is_safe_id ?i" using e(1) by (simp add: entry_ok_def)
  have "touches aux_paths (remove_file (reservation_path ?i))" by (simp add: touches_ops)
  note res = drop_aux [OF this, of J s1]
  show ?thesis
  proof (cases r)
    case (Inr u)
    then have "atomic_as (entry_file ?i) payload s = (s1, Inr ())" using a by simp
    from write_entry_view [OF J e this] show ?thesis using Inr res ok fresh e(1) by (simp add: inserted_def)
  next
    case (Inl err)
    with a have "atomic_as (entry_file ?i) payload s = (s1, Inl err)" by simp
    note fv = failed_write_view [OF this, of J]
    let ?s2 = "io_drop (remove_file (reservation_path ?i)) s1"
    have "queue_of J ?s2 = queue_of J s" "store_ok J ?s2" using res fv ok by simp_all
    with remove_absent [of J ?s2 ?i] fresh safe show ?thesis using Inl by (simp add: inserted_def)
  qed
qed

lemma enqueue_new_loop_inserted:
  assumes J: "json_ok J"
  shows "store_ok J s \<Longrightarrow> ids_fresh J ids e s \<Longrightarrow> entry_ok (e\<lparr>qe_id := ''x''\<rparr>) \<Longrightarrow>
    inserted J e s (enqueue_new_loop J ids n e s)"
proof (induction n arbitrary: e s)
  case 0
  then show ?case by (simp add: inserted_def)
next
  case (Suc n)
  let ?i = "qe_id e"
  have okx: "entry_ok (e\<lparr>qe_id := j\<rparr>) \<longleftrightarrow> is_safe_id j" for j
    using Suc.prems(3) by (simp add: entry_ok_def)
  show ?case
  proof (cases "is_safe_id ?i")
    case False
    then show ?thesis by (simp add: entry_path_def inserted_def)
  next
    case safe: True
    obtain s1 r1 where 1: "create_new (reservation_path ?i) s = (s1, r1)" by (cases "create_new (reservation_path ?i) s")
    obtain s2 taken where 2: "path_exists (entry_file ?i) s1 = (s2, taken)" by (cases "path_exists (entry_file ?i) s1")
    have "touches aux_paths (create_new (reservation_path ?i))" by (simp add: touches_ops)
    from touchesD [OF this 1] have f1: "same_files aux_paths s s1" .
    with touchesD [OF touches_query(2) 2] have f2: "same_files aux_paths s s2" using same_files_trans by blast
    have "touches aux_paths (remove_file (reservation_path ?i))" by (simp add: touches_ops)
    from touches_drop [OF this, of s2] have f3: "same_files aux_paths s (io_drop (remove_file (reservation_path ?i)) s2)"
      using f2 same_files_trans by blast
    have next_id: "inserted J e s (enqueue_new_loop J ids n (e\<lparr>qe_id := ids n\<rparr>) x)" if "same_files aux_paths s x" for x
    proof (rule inserted_after [OF that])
      have "store_ok J x" using aux_store_ok [OF that Suc.prems(1)] .
      moreover have "ids_fresh J ids (e\<lparr>qe_id := ids n\<rparr>) x"
        using Suc.prems(2) aux_queue_of [OF that, of J] by (simp add: ids_fresh_def)
      ultimately show "inserted J (e\<lparr>qe_id := ids n\<rparr>) x (enqueue_new_loop J ids n (e\<lparr>qe_id := ids n\<rparr>) x)"
        using Suc.IH Suc.prems(3) by simp
    qed
    show ?thesis
    proof (cases r1)
      case (Inl err)
      then show ?thesis using safe 1 next_id [OF f1] inserted_unchanged [OF f1] by (simp add: entry_path_def)
    next
      case (Inr u)
      show ?thesis
      proof (cases "taken \<or> js_enc J e = None")
        case True
        then show ?thesis using safe 1 2 Inr next_id [OF f3] inserted_unchanged [OF f2]
          by (auto simp: entry_path_def)
      next
        case False
        then obtain payload where enc: "js_enc J e = Some payload" by auto
        obtain s3 r3 where 3: "atomic_as (entry_file ?i) payload s2 = (s3, r3)" by (cases "atomic_as (entry_file ?i) payload s2")
        have "inserted J e s2
           (case r3 of Inr _ \<Rightarrow> (io_drop (remove_file (reservation_path ?i)) s3, e, Inr ())
            | Inl _ \<Rightarrow> (io_drop (remove_file (entry_file ?i)) (io_drop (remove_file (reservation_path ?i)) s3), e, Inl QueueStorage))"
          using insert_write [OF J aux_store_ok [OF f2 Suc.prems(1)] _ enc _ 3] okx [of ?i] safe
            Suc.prems(2) aux_queue_of [OF f2, of J] by (simp add: ids_fresh_def)
        then have "inserted J (e\<lparr>qe_id := ?i\<rparr>) s2 (enqueue_new_loop J ids (Suc n) e s)"
          using safe 1 2 3 Inr False enc by (auto simp: entry_path_def Let_def split: sum.splits)
        then show ?thesis by (rule inserted_after [OF f2])
      qed
    qed
  qed
qed

lemma enqueue_new_inserted:
  assumes "json_ok J" and "store_ok J s" and "ids_fresh J ids e s"
  shows "inserted J e s (enqueue_new J ids e s)"
proof (cases "entry_ok e")
  case False
  then obtain err where "entry_validate e = Inl err" using entry_validate_not_ok by blast
  then show ?thesis by (simp add: enqueue_new_def inserted_def)
next
  case True
  then have v: "entry_validate e = Inr ()" by simp
  have x: "entry_ok (e\<lparr>qe_id := ''x''\<rparr>)"
    using True by (simp add: entry_ok_def is_safe_id_def is_ascii_alphanumeric_def is_ascii_lower_def)
  obtain s1 r where 1: "create_dir_all entries_dir s = (s1, r)" by (cases "create_dir_all entries_dir s")
  have f: "same_files aux_paths s s1" using touchesD [OF touches_ops(1) 1] .
  have "ids_fresh J ids e s1" using assms(3) aux_queue_of [OF f, of J] by (simp add: ids_fresh_def)
  from enqueue_new_loop_inserted [OF assms(1) aux_store_ok [OF f assms(2)] this x]
  have "inserted J e s (enqueue_new_loop J ids ENQUEUE_NEW_ATTEMPTS e s1)"
    using inserted_after [where e = e and i = "qe_id e" and J = J, OF f] by simp
  with inserted_unchanged [OF f] show ?thesis unfolding enqueue_new_def v 1 by (cases r) simp_all
qed

text \<open>The identifier that an insertion ends with is one of those it was given.\<close>

lemma enqueue_new_loop_id:
  "enqueue_new_loop J ids n e s = (t, e', r) \<Longrightarrow> qe_id e' \<in> insert (qe_id e) (ids ` {..<n})"
proof (induction n arbitrary: e s)
  case (Suc n)
  from Suc.prems consider "qe_id e' = qe_id e" | (next_id) x where "enqueue_new_loop J ids n (e\<lparr>qe_id := ids n\<rparr>) x = (t, e', r)"
    by (auto simp: Let_def split: sum.splits prod.splits if_splits option.splits)
  then show ?case
  proof cases
    case next_id
    from Suc.IH [OF this] show ?thesis by auto
  qed simp
qed simp

lemma enqueue_new_id:
  "enqueue_new J ids e s = (t, e', r) \<Longrightarrow> qe_id e' \<in> insert (qe_id e) (ids ` {..<5})"
  using enqueue_new_loop_id [of J ids ENQUEUE_NEW_ATTEMPTS e _ t e' r]
  by (auto simp: enqueue_new_def ENQUEUE_NEW_ATTEMPTS_def split: sum.splits prod.splits)

end
