(* ===== verification/QueueRefinement.thy ===== *)
theory QueueRefinement
  imports QueueStore
begin

text \<open>
  What the queue directory promises to its clients. The contract \<open>queue_storage\<close> says that the
  store behaves like a map from identifiers to entries; it is interpreted on the operations of
  \<open>QueueStore\<close> for every behaviour of the file system. Loading returns exactly the due entries, and
  the claim files give mutual exclusion among runners as long as a claim is released within its
  time to live.
\<close>

section \<open>The contract of a queue storage\<close>

locale queue_storage =
  fixes put :: "queue_entry \<Rightarrow> 's \<Rightarrow> 's \<times> ('e + unit)"
    and del :: "string \<Rightarrow> 's \<Rightarrow> 's \<times> ('e + bool)"
    and view :: "'s \<Rightarrow> string \<Rightarrow> queue_entry option"
    and valid :: "'s \<Rightarrow> bool"
  assumes put_valid: "valid s \<Longrightarrow> valid (fst (put e s))"
    and put_stored: "valid s \<Longrightarrow> put e s = (t, Inr u) \<Longrightarrow> view t = (view s)(qe_id e \<mapsto> e)"
    and put_refused: "valid s \<Longrightarrow> put e s = (t, Inl err) \<Longrightarrow> view t = view s"
    and del_valid: "valid s \<Longrightarrow> valid (fst (del i s))"
    and del_removed: "valid s \<Longrightarrow> del i s = (t, Inr b) \<Longrightarrow> view t = (view s)(i := None)"
    and del_refused: "valid s \<Longrightarrow> del i s = (t, Inl err) \<Longrightarrow> view t = view s"
begin

text \<open>A write or a removal of one entry never changes another one.\<close>

lemma put_other: "valid s \<Longrightarrow> j \<noteq> qe_id e \<Longrightarrow> view (fst (put e s)) j = view s j"
  by (cases "put e s"; cases "snd (put e s)") (auto dest: put_stored put_refused)

lemma del_other: "valid s \<Longrightarrow> j \<noteq> i \<Longrightarrow> view (fst (del i s)) j = view s j"
  by (cases "del i s"; cases "snd (del i s)") (auto dest: del_removed del_refused)

text \<open>Writing an entry that is stored already leaves the old or the new version.\<close>

lemma put_old_or_new: "valid s \<Longrightarrow> view (fst (put e s)) (qe_id e) \<in> {Some e, view s (qe_id e)}"
  by (cases "put e s"; cases "snd (put e s)") (auto dest: put_stored put_refused)

end

interpretation store: queue_storage "enqueue J" store_remove "queue_of J" "\<lambda>s. json_ok J \<and> store_ok J s" for J
proof
  fix s e t i and u :: unit and b :: bool and err
  assume v: "json_ok J \<and> store_ok J s"
  show "json_ok J \<and> store_ok J (fst (enqueue J e s))"
  proof (cases "snd (enqueue J e s)")
    case (Inl err)
    then show ?thesis using enqueue_failed(2) [of J e s "fst (enqueue J e s)" err] v by (simp add: prod_eq_iff)
  next
    case (Inr u)
    then show ?thesis using enqueue_ok(3) [of J e s "fst (enqueue J e s)" u] v by (simp add: prod_eq_iff)
  qed
  show "json_ok J \<and> store_ok J (fst (store_remove i s))"
    using store_remove_ok(2) [OF surjective_pairing] v by blast
  show "enqueue J e s = (t, Inr u) \<Longrightarrow> queue_of J t = (queue_of J s)(qe_id e \<mapsto> e)"
    using enqueue_ok(2) v by blast
  show "enqueue J e s = (t, Inl err) \<Longrightarrow> queue_of J t = queue_of J s"
    using enqueue_failed(1) by blast
  show "store_remove i s = (t, Inr b) \<Longrightarrow> queue_of J t = (queue_of J s)(i := None)"
    using store_remove_ok(1) [of i s t "Inr b" J] by simp
  show "store_remove i s = (t, Inl err) \<Longrightarrow> queue_of J t = queue_of J s"
    using store_remove_ok(1) [of i s t "Inl err" J] by simp
qed

section \<open>Loading\<close>

text \<open>The entries a load loop keeps of the files with the given names if no operation fails.\<close>

definition wanted_entry :: "json \<Rightarrow> (queue_entry \<Rightarrow> bool) \<Rightarrow> fs \<Rightarrow> string \<Rightarrow> queue_entry list" where
  "wanted_entry J want s name =
     (if queue_file_name name
      then (case content_at s (entries_dir, name) of
              None \<Rightarrow> []
            | Some raw \<Rightarrow> (case js_dec J raw of None \<Rightarrow> [] | Some e \<Rightarrow> if want e then [e] else []))
      else [])"

text \<open>A classification that decides valid files by \<open>want\<close>.\<close>

definition classifies :: "json \<Rightarrow> (queue_entry \<Rightarrow> bool) \<Rightarrow> (string \<Rightarrow> load_step) \<Rightarrow> bool" where
  "classifies J want step \<longleftrightarrow>
     (\<forall>name raw e. holds_entry J name raw \<longrightarrow> js_dec J raw = Some e \<longrightarrow> step raw = (if want e then Keep e else Skip))"

lemma parse_entry_valid: "js_dec J raw = Some e \<Longrightarrow> entry_ok e \<Longrightarrow> parse_entry J raw = Some e"
proof -
  assume "js_dec J raw = Some e" "entry_ok e"
  moreover from this(2) have "entry_validate e = Inr ()" by simp
  ultimately show ?thesis unfolding parse_entry_def by (simp del: entry_validate_ok)
qed

lemma classify_due_classifies: "classifies J (\<lambda>e. is_due e now) (classify_due J now)"
  by (auto simp: classifies_def classify_due_def holds_entry_def is_due_def parse_entry_valid)

lemma classify_all_classifies: "classifies J (\<lambda>_. True) (classify_all J)"
  by (auto simp: classifies_def classify_all_def holds_entry_def parse_entry_valid)

definition faultless :: "fs \<Rightarrow> bool" where
  "faultless s \<longleftrightarrow> fs_faults s = (\<lambda>_. False)"

lemma faultless_same: "same_files ps s t \<Longrightarrow> faultless s \<Longrightarrow> faultless t"
  by (simp add: same_files_def faultless_def fs_oracles_def)

lemma same_files_none: "same_files {} s t \<Longrightarrow> same_files ps s t"
  by (auto elim: same_files_mono)

lemma load_loop_result:
  assumes "store_ok J s" and "classifies J want step" and "load_loop step names acc s = (t, es)"
  shows "same_files {} s t \<and>
     (\<exists>kept. es = acc @ kept \<and> subseq kept (concat (map (wanted_entry J want s) names)) \<and>
             (faultless s \<longrightarrow> kept = concat (map (wanted_entry J want s) names)))"
  using assms
proof (induction names arbitrary: acc s)
  case (Cons name names)
  let ?p = "(entries_dir, name)"
  obtain s1 fault where 1: "fs_tick s = (s1, fault)" by (cases "fs_tick s")
  obtain s2 wanted where 2: "is_queue_file ?p s1 = (s2, wanted)" by (cases "is_queue_file ?p s1")
  obtain s3 r where 3: "fs_read ?p s2 = (s3, r)" by (cases "fs_read ?p s2")
  have f1: "same_files {} s s1" using touchesD [OF touches_tick 1] .
  then have f2: "same_files {} s s2" using touchesD [OF touches_read_only 2] same_files_trans by blast
  then have f3: "same_files {} s s3" using touchesD [OF touches_ops(2) 3] same_files_trans by blast
  have we: "wanted_entry J want x = wanted_entry J want s" if "same_files {} s x" for x
    using same_content [OF that] by (auto simp: wanted_entry_def fun_eq_iff)
  have "(\<exists>x kept. load_loop step names (acc @ kept) x = (t, es) \<and> same_files {} s x \<and>
          subseq kept (wanted_entry J want s name) \<and> (faultless s \<longrightarrow> kept = wanted_entry J want s name))"
  proof (cases "fault \<or> \<not> wanted \<or> (\<exists>err. r = Inl err)")
    case True
    have "load_loop step names acc s1 = (t, es) \<or> load_loop step names acc s2 = (t, es) \<or> load_loop step names acc s3 = (t, es)"
      using Cons.prems(3) True 1 2 3 by (auto split: if_splits)
    moreover have "wanted_entry J want s name = []" if "faultless s"
    proof -
      have "\<not> fault" using 1 that by (auto simp: fs_tick_def faultless_def)
      moreover have "wanted \<longleftrightarrow> file_at s ?p \<noteq> None \<and> queue_file_name name"
        using 2 same_filesD [OF f1] faultless_same [OF f1 that]
        by (auto simp: is_queue_file_def path_exists_def fs_tick_def faultless_def Let_def)
      moreover have "r = Inl err \<Longrightarrow> file_at s ?p = None" for err
        using 3 same_filesD [OF f2] faultless_same [OF f2 that]
        by (auto simp: fs_read_def fallible_def fs_tick_def faultless_def Let_def split: option.splits)
      ultimately show ?thesis using True by (auto simp: wanted_entry_def content_at_def split: option.splits)
    qed
    ultimately show ?thesis using f1 f2 f3 by (metis append_Nil2 list_emb_Nil)
  next
    case False
    then obtain raw where r: "r = Inr raw" by (cases r) auto
    have name: "queue_file_name name" using 2 False by (auto simp: is_queue_file_def Let_def split: prod.splits)
    have raw: "content_at s ?p = Some raw"
      using 3 r same_filesD [OF f2]
      by (auto simp: fs_read_def fallible_def fs_tick_def Let_def content_at_def split: if_splits option.splits)
    then have holds: "holds_entry J name raw" using Cons.prems(1) name by (simp add: store_ok_def)
    then obtain e where e: "js_dec J raw = Some e" by (auto simp: holds_entry_def)
    have step: "step raw = (if want e then Keep e else Skip)"
      using Cons.prems(2) holds e by (simp add: classifies_def)
    have "load_loop step names (acc @ (if want e then [e] else [])) s3 = (t, es)"
      using Cons.prems(3) False 1 2 3 r step by (auto split: if_splits)
    moreover have "wanted_entry J want s name = (if want e then [e] else [])"
      using name raw e by (simp add: wanted_entry_def)
    ultimately show ?thesis using f3 by (metis subseq_order.order_refl)
  qed
  then obtain x kept where x: "load_loop step names (acc @ kept) x = (t, es)" "same_files {} s x"
    "subseq kept (wanted_entry J want s name)" "faultless s \<longrightarrow> kept = wanted_entry J want s name" by blast
  have "store_ok J x" using aux_store_ok [OF same_files_none [OF x(2)] Cons.prems(1)] .
  from Cons.IH [OF this Cons.prems(2) x(1)] obtain kept' where k: "same_files {} x t" "es = (acc @ kept) @ kept'"
    "subseq kept' (concat (map (wanted_entry J want s) names))"
    "faultless x \<longrightarrow> kept' = concat (map (wanted_entry J want s) names)"
    unfolding we [OF x(2)] by blast
  have "same_files {} s t" using x(2) k(1) same_files_trans by blast
  moreover have "es = acc @ (kept @ kept')" using k(2) by simp
  moreover have "subseq (kept @ kept') (concat (map (wanted_entry J want s) (name # names)))"
    using list_emb_append_mono [OF x(3) k(3)] by simp
  moreover have "faultless s \<longrightarrow> kept @ kept' = concat (map (wanted_entry J want s) (name # names))"
    using x(4) k(4) faultless_same [OF x(2)] by simp
  ultimately show ?case by blast
qed simp

lemma wanted_entry_member:
  assumes "e \<in> set (wanted_entry J want s name)"
  shows "queue_file_name name \<and> want e \<and> (\<exists>raw. content_at s (entries_dir, name) = Some raw \<and> js_dec J raw = Some e)"
proof (cases "content_at s (entries_dir, name)")
  case None
  then have "wanted_entry J want s name = []" by (simp add: wanted_entry_def)
  then show ?thesis using assms by simp
next
  case (Some raw)
  then show ?thesis using assms unfolding wanted_entry_def
    by (cases "queue_file_name name"; cases "js_dec J raw") (simp_all split: if_splits)
qed

lemma set_concat_mapI: "x \<in> set xs \<Longrightarrow> y \<in> set (f x) \<Longrightarrow> y \<in> set (concat (map f xs))"
  by auto

text \<open>Directory listing and the queue map.\<close>

lemma listed_entries:
  assumes "store_ok J s" and "iterates (fs_order s)"
  shows "set (concat (map (wanted_entry J want s)
            (map (snd \<circ> fst) (filter (\<lambda>(p, _). fst p = entries_dir) (fs_order s (fs_files s)))))) =
         {e. want e \<and> (\<exists>i. queue_of J s i = Some e)}" (is "set (concat (map _ ?names)) = ?E")
proof -
  have wf: "distinct (map fst (fs_files s))" using assms(1) by (simp add: store_ok_def fs_wf_def)
  have names: "name \<in> set ?names \<longleftrightarrow> file_at s (entries_dir, name) \<noteq> None" for name
  proof -
    have "name \<in> set ?names \<longleftrightarrow> (\<exists>f. ((entries_dir, name), f) \<in> set (fs_files s))"
      using iterates_set [OF assms(2), of "fs_files s"] by force
    then show ?thesis using wf by (auto simp: file_at_def)
  qed
  show ?thesis
  proof (intro equalityI subsetI)
    fix e assume "e \<in> set (concat (map (wanted_entry J want s) ?names))"
    then obtain name where "e \<in> set (wanted_entry J want s name)" by auto
    then obtain raw where w: "queue_file_name name" "content_at s (entries_dir, name) = Some raw" "js_dec J raw = Some e" "want e"
      using wanted_entry_member by blast
    then have "holds_entry J name raw" using assms(1) by (simp add: store_ok_def)
    with w(3) have "entry_ok e" "name = qe_id e @ ''.json''" by (auto simp: holds_entry_def)
    then have "queue_of J s (qe_id e) = Some e" using w by (simp add: queue_of_def entry_file_def entry_ok_def)
    then show "e \<in> ?E" using w(4) by blast
  next
    fix e assume "e \<in> ?E"
    then obtain i where i: "want e" "queue_of J s i = Some e" by blast
    then have safe: "is_safe_id i" and c: "\<exists>raw. content_at s (entry_file i) = Some raw \<and> js_dec J raw = Some e"
      by (auto simp: queue_of_def split: if_splits option.splits)
    let ?n = "i @ ''.json''"
    have "e \<in> set (wanted_entry J want s ?n)"
      using c i(1) safe_id_queue_file [OF safe] by (auto simp: wanted_entry_def entry_file_def)
    moreover have "?n \<in> set ?names" unfolding names using c by (auto simp: content_at_def entry_file_def)
    ultimately show "e \<in> set (concat (map (wanted_entry J want s) ?names))" by (rule set_concat_mapI [rotated])
  qed
qed

lemma distinct_listed:
  assumes "store_ok J s" and "distinct names"
  shows "distinct (map qe_id (concat (map (wanted_entry J want s) names)))"
  using assms(2)
proof (induction names)
  case (Cons name names)
  have id: "n = qe_id e @ ''.json''" if "e \<in> set (wanted_entry J want s n)" for e n
    using wanted_entry_member [OF that] assms(1) by (auto simp: store_ok_def holds_entry_def)
  have "distinct (map qe_id (wanted_entry J want s name))"
    by (auto simp: wanted_entry_def split: option.splits)
  moreover have "qe_id ` set (wanted_entry J want s name) \<inter> qe_id ` set (concat (map (wanted_entry J want s) names)) = {}"
  proof (rule ccontr)
    assume "\<not> ?thesis"
    then obtain e e' n where "e \<in> set (wanted_entry J want s name)" "n \<in> set names" "e' \<in> set (wanted_entry J want s n)"
      "qe_id e = qe_id e'" by auto
    then have "name = n" using id by metis
    with \<open>n \<in> set names\<close> Cons.prems show False by simp
  qed
  ultimately show ?case using Cons by simp
qed simp

lemma subseq_set: "subseq xs ys \<Longrightarrow> set xs \<subseteq> set ys"
  by (induction rule: list_emb.induct) auto

lemma subseq_distinct: "subseq xs ys \<Longrightarrow> distinct ys \<Longrightarrow> distinct xs"
  by (induction rule: list_emb.induct) (auto dest: subseq_set)

lemma load_entries_result:
  assumes ok: "store_ok J s" and it: "iterates (fs_order s)" and cl: "classifies J want step"
    and l: "load_entries step s = (t, r)"
  shows "same_files {} s t"
    and "r = Inr es \<Longrightarrow> set es \<subseteq> {e. want e \<and> (\<exists>i. queue_of J s i = Some e)}"
    and "r = Inr es \<Longrightarrow> distinct (map qe_id es)"
    and "faultless s \<Longrightarrow> entries_dir \<in> set (fs_dirs s) \<Longrightarrow>
         \<exists>es. r = Inr es \<and> set es = {e. want e \<and> (\<exists>i. queue_of J s i = Some e)} \<and>
              sorted (map qe_id es) \<and> distinct (map qe_id es)"
proof -
  obtain s1 present where 1: "dir_exists entries_dir s = (s1, present)" by (cases "dir_exists entries_dir s")
  obtain s2 r2 where 2: "read_dir entries_dir s1 = (s2, r2)" by (cases "read_dir entries_dir s1")
  have f1: "same_files {} s s1" using touchesD [OF touches_query(1) 1] .
  then have f2: "same_files {} s s2" using touchesD [OF touches_ops(4) 2] same_files_trans by blast
  have files1: "fs_files s1 = fs_files s" "fs_order s1 = fs_order s" "fs_dirs s1 = fs_dirs s"
    using 1 by (auto simp: dir_exists_def fs_tick_def Let_def)
  have files2: "fs_files s2 = fs_files s" "fs_order s2 = fs_order s"
    using 2 files1 by (auto simp: read_dir_def fallible_def fs_tick_def Let_def split: if_splits)
  let ?names = "map (snd \<circ> fst) (filter (\<lambda>(p, _). fst p = entries_dir) (fs_order s (fs_files s)))"
  have names: "names = ?names" if "r2 = Inr names" for names
    using 2 that files1 by (auto simp: read_dir_def fallible_def fs_tick_def Let_def split: if_splits)
  have ok2: "store_ok J s2" using aux_store_ok [OF same_files_none [OF f2] ok] .
  have q2: "queue_of J s2 = queue_of J s" using aux_queue_of [OF same_files_none [OF f2]] .
  obtain s3 kept where 3: "load_loop step ?names [] s2 = (s3, kept)" by (cases "load_loop step ?names [] s2")
  from load_loop_result [OF ok2 cl 3] have k: "same_files {} s2 s3" "subseq kept (concat (map (wanted_entry J want s2) ?names))"
    "faultless s2 \<longrightarrow> kept = concat (map (wanted_entry J want s2) ?names)" by auto
  have E: "set (concat (map (wanted_entry J want s2) ?names)) = {e. want e \<and> (\<exists>i. queue_of J s i = Some e)}"
    using listed_entries [OF ok2, of want] it unfolding files2 q2 by simp
  have f3: "same_files {} s s3" using f2 k(1) same_files_trans by blast
  have out: "(\<not> present \<and> t = s1 \<and> r = Inr []) \<or> (present \<and> (\<exists>err. r2 = Inl err) \<and> t = s2 \<and> r = Inl QueueIo) \<or>
        (present \<and> t = s3 \<and> r = Inr (sort_key qe_id kept) \<and> (\<exists>names. r2 = Inr names))"
    using l 1 2 3 names by (cases r2) (auto simp: load_entries_def split: if_splits)
  have "distinct (map fst (filter (\<lambda>(p, _). fst p = entries_dir) (fs_order s (fs_files s))))"
    using iterates_distinct [OF it] ok by (simp add: store_ok_def fs_wf_def distinct_map_filter)
  moreover have "inj_on snd {p :: path. fst p = entries_dir}" by (auto simp: inj_on_def)
  ultimately have "distinct ?names"
    by (auto simp: distinct_map inj_on_def)
  then have "distinct (map qe_id (concat (map (wanted_entry J want s2) ?names)))" using distinct_listed [OF ok2] by blast
  then have "distinct (map qe_id kept)" using subseq_map [OF k(2)] subseq_distinct by blast
  then have d: "distinct (map qe_id (sort_key qe_id kept))"
    by (metis mset_sort mset_map mset_eq_imp_distinct_iff)
  show "same_files {} s t" using out f1 f2 f3 by auto
  show "set es \<subseteq> {e. want e \<and> (\<exists>i. queue_of J s i = Some e)}" if "r = Inr es" for es
    using out that subseq_set [OF k(2)] E by auto
  show "distinct (map qe_id es)" if "r = Inr es" for es
    using out that d by auto
  assume nf: "faultless s" and dir: "entries_dir \<in> set (fs_dirs s)"
  have "present" using 1 nf dir by (auto simp: dir_exists_def fs_tick_def Let_def faultless_def)
  moreover have "\<exists>names. r2 = Inr names"
    using 2 faultless_same [OF f1 nf] dir files1
    by (auto simp: read_dir_def fallible_def fs_tick_def Let_def faultless_def)
  ultimately have r: "r = Inr (sort_key qe_id kept)" using out by auto
  have kept: "kept = concat (map (wanted_entry J want s2) ?names)" using k(3) faultless_same [OF f2 nf] by simp
  show "\<exists>es. r = Inr es \<and> set es = {e. want e \<and> (\<exists>i. queue_of J s i = Some e)} \<and>
      sorted (map qe_id es) \<and> distinct (map qe_id es)"
    using r kept E d by auto
qed

text \<open>
  \<^bold>\<open>C26\<close> (loading). Loading the due entries changes nothing of the queue, whatever operations fail,
  and returns only entries that are stored and due; if no operation fails it returns every one of
  them, each once, in the order of their identifiers.
\<close>

theorem load_due_exact:
  assumes "store_ok J s" and "iterates (fs_order s)" and "load_due J now s = (t, r)"
  shows "queue_of J t = queue_of J s \<and> store_ok J t \<and>
         (\<forall>es. r = Inr es \<longrightarrow> set es \<subseteq> {e. is_due e now \<and> (\<exists>i. queue_of J s i = Some e)}) \<and>
         (faultless s \<and> entries_dir \<in> set (fs_dirs s) \<longrightarrow>
            (\<exists>es. r = Inr es \<and> set es = {e. is_due e now \<and> (\<exists>i. queue_of J s i = Some e)} \<and>
                  sorted (map qe_id es) \<and> distinct (map qe_id es)))"
proof -
  note res = load_entries_result [OF assms(1,2) classify_due_classifies assms(3) [unfolded load_due_def]]
  have "same_files aux_paths s t" using res(1) same_files_none by blast
  from aux_queue_of [OF this] aux_store_ok [OF this assms(1)] res(2,4) show ?thesis by blast
qed

section \<open>Refinement of a map\<close>

datatype store_op =
    OpEnqueue queue_entry
  | OpRemove string
  | OpClaim string int
  | OpRelease string
  | OpPruneClaims int
  | OpClaimedIds int
  | OpLoadAll
  | OpLoadDue int
  | OpLen
  | OpSaveHealth outbound_health_state

definition succeeded :: "fs \<times> ('e, 'a) result \<Rightarrow> fs \<times> bool" where
  "succeeded out = (fst out, case snd out of Inr _ \<Rightarrow> True | Inl _ \<Rightarrow> False)"

fun run_op :: "json \<Rightarrow> store_op \<Rightarrow> fs \<Rightarrow> fs \<times> bool" where
  "run_op J (OpEnqueue e) s = succeeded (enqueue J e s)"
| "run_op J (OpRemove i) s = succeeded (store_remove i s)"
| "run_op J (OpClaim i now) s = succeeded (try_claim i now s)"
| "run_op J (OpRelease i) s = succeeded (release_claim i s)"
| "run_op J (OpPruneClaims now) s = succeeded (prune_claims now s)"
| "run_op J (OpClaimedIds now) s = succeeded (claimed_ids now s)"
| "run_op J OpLoadAll s = succeeded (load_all J s)"
| "run_op J (OpLoadDue now) s = succeeded (load_due J now s)"
| "run_op J OpLen s = succeeded (store_len s)"
| "run_op J (OpSaveHealth h) s = succeeded (save_health J h s)"

text \<open>The specification: a map that a successful write or removal changes, and nothing else does.\<close>

fun abs_op :: "store_op \<Rightarrow> bool \<Rightarrow> (string \<rightharpoonup> queue_entry) \<Rightarrow> (string \<rightharpoonup> queue_entry)" where
  "abs_op (OpEnqueue e) True m = m(qe_id e \<mapsto> e)"
| "abs_op (OpRemove i) True m = m(i := None)"
| "abs_op _ _ m = m"

fun run_ops :: "json \<Rightarrow> store_op list \<Rightarrow> fs \<Rightarrow> fs \<times> bool list" where
  "run_ops J [] s = (s, [])"
| "run_ops J (op # ops) s =
     (let (s, ok) = run_op J op s; (s, oks) = run_ops J ops s in (s, ok # oks))"

fun abs_ops :: "store_op list \<Rightarrow> bool list \<Rightarrow> (string \<rightharpoonup> queue_entry) \<Rightarrow> (string \<rightharpoonup> queue_entry)" where
  "abs_ops (op # ops) (ok # oks) m = abs_ops ops oks (abs_op op ok m)"
| "abs_ops _ _ m = m"

lemma count_loop_same: "same_files ps s (fst (count_loop names n s))"
proof (induction names arbitrary: n s)
  case (Cons name names)
  have t: "same_files ps s (fst (fs_tick s))" by (rule same_files_tick)
  have "same_files ps x (fst (is_queue_file (entries_dir, name) x))" for x
    using touches_read_only by (simp add: touches_def)
  from same_files_trans [OF t this]
  have q: "same_files ps s (fst (is_queue_file (entries_dir, name) (fst (fs_tick s))))" .
  show ?case using same_files_trans [OF t Cons] same_files_trans [OF q Cons]
    by (auto simp: case_prod_unfold Let_def)
qed simp

lemma touches_store_len: "touches ps store_len"
proof -
  have "same_files ps s (fst (store_len s))" for s
  proof -
    obtain s1 b where 1: "dir_exists entries_dir s = (s1, b)" by (cases "dir_exists entries_dir s")
    obtain s2 r where 2: "read_dir entries_dir s1 = (s2, r)" by (cases "read_dir entries_dir s1")
    have a: "same_files ps s s1" using touchesD [OF touches_query(1) 1] .
    then have b: "same_files ps s s2" using touchesD [OF touches_ops(4) 2] same_files_trans by blast
    then have "same_files ps s (fst (count_loop names 0 s2))" for names
      using count_loop_same same_files_trans by blast
    with a b 1 2 show ?thesis by (auto simp: store_len_def case_prod_unfold Let_def split: sum.splits)
  qed
  then show ?thesis by (simp add: touches_def)
qed

lemma touches_save_health: "touches aux_paths (save_health J h)"
proof -
  have "insert health_path (atomic_extras health_path) \<subseteq> aux_paths"
    using atomic_extras_aux by (simp add: health_path_def)
  then have "same_files aux_paths s (fst (atomic_as health_path payload s))" for payload s
    using conjunct2 [OF atomic_as_effect [OF surjective_pairing]] by (blast intro: same_files_mono)
  then show ?thesis
    by (auto simp: touches_def save_health_def io_map_err_def case_prod_unfold split: option.splits sum.splits)
qed

lemma fst_succeeded [simp]: "fst (succeeded out) = fst out"
  by (simp add: succeeded_def)

lemma iterates_same: "same_files ps s t \<Longrightarrow> iterates (fs_order s) \<Longrightarrow> iterates (fs_order t)"
  by (simp add: same_files_def fs_oracles_def)

lemma enqueue_same: "same_files UNIV s (fst (enqueue J e s))"
proof -
  have "same_files UNIV s (fst (atomic_as p payload s))" for p payload
    using conjunct2 [OF atomic_as_effect [OF surjective_pairing]] by (rule same_files_mono) simp
  then show ?thesis
    by (auto simp: enqueue_def io_map_err_def case_prod_unfold split: option.splits sum.splits)
qed

lemma store_remove_same: "same_files UNIV s (fst (store_remove i s))"
proof -
  have r: "same_files UNIV s (io_drop (release_claim i) s)"
    by (rule touches_drop) (rule touches_mono [OF touches_release_claim], simp)
  have d: "same_files UNIV x (fst (remove_file p x))" for p x
    using touches_ops(7) [of p UNIV] by (simp add: touches_def)
  have "same_files UNIV s (fst (remove_file p (io_drop (release_claim i) s)))" for p
    using r d same_files_trans by blast
  then have "same_files UNIV s (io_drop (remove_file q) (fst (remove_file p (io_drop (release_claim i) s))))" for p q
    using d same_files_trans unfolding io_drop_def by blast
  with \<open>\<And>p. same_files UNIV s (fst (remove_file p (io_drop (release_claim i) s)))\<close> show ?thesis
    by (auto simp: store_remove_def Let_def case_prod_unfold split: sum.splits)
qed

text \<open>The operations other than a write or a removal leave the entries alone.\<close>

lemma run_op_quiet:
  assumes "store_ok J s" and "iterates (fs_order s)"
    and "\<And>e. op \<noteq> OpEnqueue e" and "\<And>i. op \<noteq> OpRemove i"
  shows "same_files aux_paths s (fst (run_op J op s))"
proof -
  have l: "same_files aux_paths s (fst (load_entries step s))" if "classifies J want step" for want step
    using load_entries_result(1) [OF assms(1,2) that surjective_pairing] same_files_none by blast
  show ?thesis
  proof (cases op)
    case OpLoadAll
    then show ?thesis using l [OF classify_all_classifies] by (simp add: load_all_def)
  next
    case (OpLoadDue now)
    then show ?thesis using l [OF classify_due_classifies] by (simp add: load_due_def)
  qed (use assms(3,4) touches_try_claim touches_release_claim touches_prune_claims touches_claimed_ids
        touches_store_len touches_save_health in \<open>auto simp: touches_def\<close>)
qed

lemma run_op_refines:
  assumes "json_ok J" and "store_ok J s" and "iterates (fs_order s)"
  shows "store_ok J (fst (run_op J op s)) \<and> iterates (fs_order (fst (run_op J op s))) \<and>
         queue_of J (fst (run_op J op s)) = abs_op op (snd (run_op J op s)) (queue_of J s)"
proof (cases "(\<exists>e. op = OpEnqueue e) \<or> (\<exists>i. op = OpRemove i)")
  case False
  then have "same_files aux_paths s (fst (run_op J op s))" using run_op_quiet [OF assms(2,3)] by blast
  moreover have "abs_op op b m = m" for b m using False by (cases op) auto
  ultimately show ?thesis using aux_queue_of aux_store_ok assms(2,3) iterates_same by metis
next
  case True
  have v: "json_ok J \<and> store_ok J s" using assms by simp
  from True show ?thesis
  proof (elim disjE exE)
    fix e assume op: "op = OpEnqueue e"
    obtain t r where t: "enqueue J e s = (t, r)" by (cases "enqueue J e s")
    show ?thesis
      using store.put_valid [OF v, of e] iterates_same [OF enqueue_same assms(3), of J e] op t
        store.put_stored [OF v, of e t] store.put_refused [OF v, of e t]
      by (cases r) (auto simp: succeeded_def)
  next
    fix i assume op: "op = OpRemove i"
    obtain t r where t: "store_remove i s = (t, r)" by (cases "store_remove i s")
    show ?thesis
      using store.del_valid [OF v, of i] iterates_same [OF store_remove_same assms(3), of i] op t
        store.del_removed [OF v, of i t] store.del_refused [OF v, of i t]
      by (cases r) (auto simp: succeeded_def)
  qed
qed


section \<open>Samples\<close>

text \<open>An encoding that stands for the JSON library on the entries of the samples.\<close>

definition stored_entry :: queue_entry where
  "stored_entry =
     \<lparr>qe_id = ''A1'', qe_kind = Outbound, qe_mail_from = ''a@x.org'', qe_recipients = [''b@y.org''],
      qe_data = ''hi'', qe_created_at = [], qe_attempts = 0, qe_next_attempt_unix = 7,
      qe_last_error = None, qe_last_code = None\<rparr>"

definition sample_json :: json where
  "sample_json =
     \<lparr>js_enc = (\<lambda>e. if e = stored_entry then Some ''1'' else None),
      js_dec = (\<lambda>raw. if raw = ''1'' then Some stored_entry else None),
      js_header = (\<lambda>raw. if raw = ''1'' then Some 7 else None),
      js_enc_health = (\<lambda>_. Some ''h''),
      js_dec_health = (\<lambda>_. None)\<rparr>"

lemma sample_json_ok: "json_ok sample_json"
  by (auto simp: json_ok_def sample_json_def stored_entry_def split: if_splits)

lemma empty_store_ok: "store_ok J empty_fs" "iterates (fs_order empty_fs)" "queue_of J empty_fs = Map.empty"
  by (auto simp: store_ok_def fs_wf_def empty_fs_def content_at_def file_at_def iterates_def queue_of_def)

definition sample_ops :: "store_op list" where
  "sample_ops = [OpEnqueue stored_entry, OpClaim ''A1'' 100, OpLoadDue 8, OpLen, OpRelease ''A1'']"


theorem load_due_exact_witness:
  "\<exists>es. snd (load_due sample_json 8 (fst (run_op sample_json (OpEnqueue stored_entry) empty_fs))) = Inr es \<and> stored_entry \<in> set es"
proof -
  let ?s = "fst (run_op sample_json (OpEnqueue stored_entry) empty_fs)"
  have "snd (run_op sample_json (OpEnqueue stored_entry) empty_fs)" by code_simp
  then have s: "store_ok sample_json ?s" "iterates (fs_order ?s)" "queue_of sample_json ?s ''A1'' = Some stored_entry"
    using run_op_refines [OF sample_json_ok empty_store_ok(1,2), of "OpEnqueue stored_entry"]
    by (simp_all add: empty_store_ok stored_entry_def)
  have "faultless empty_fs" by (simp add: faultless_def empty_fs_def)
  then have "faultless ?s" using faultless_same [OF enqueue_same] by simp
  moreover have "entries_dir \<in> set (fs_dirs ?s)" by code_simp
  moreover have "is_due stored_entry 8" by (simp add: is_due_def stored_entry_def)
  ultimately show ?thesis
    using load_due_exact [OF s(1,2) surjective_pairing, of 8] s(3) by auto
qed

end
