(* ===== verification/Sink.thy ===== *)
theory Sink
  imports MailAuth Session QueueRefinement "HOL-Library.Signed_Division"
begin

text \<open>
  The sink of the SMTP server (\<open>src/crates/smtpd/src/sink.rs\<close>): it checks an accepted message for mail
  loops and, on the MX port, for its DMARC policy, puts the trace headers in front and writes it into
  the queue. The identifiers and the clock readings it draws are sequences; the queue is the directory
  of \<open>QueueStore\<close>. An address prints as \<open>std::net\<close> prints it.
\<close>

section \<open>Dates\<close>

text \<open>
  All quantities below \<open>era\<close> are non-negative, where the division of the source and \<open>div\<close> agree; the
  division for \<open>era\<close> itself truncates.
\<close>

definition civil_from_days :: "int \<Rightarrow> int \<times> int \<times> int" where
  "civil_from_days days =
     (let z = days + 719468;
          era = (if z \<ge> 0 then z else z - 146096) sdiv 146097;
          doe = z - era * 146097;
          yoe = (doe - doe div 1460 + doe div 36524 - doe div 146096) div 365;
          year = yoe + era * 400;
          doy = doe - (365 * yoe + yoe div 4 - yoe div 100);
          mp = (5 * doy + 2) div 153;
          day = doy - (153 * mp + 2) div 5 + 1;
          month = (if mp < 10 then mp + 3 else mp - 9)
      in (if month \<le> 2 then year + 1 else year, month, day))"

definition pad2 :: "int \<Rightarrow> string" where
  "pad2 n = pad_left (CHR ''0'') 2 (nat_to_string (nat n))"

text \<open>\<open>{:04}\<close>: the sign counts as one of the four places.\<close>

definition pad4 :: "int \<Rightarrow> string" where
  "pad4 n = (if n < 0 then CHR ''-'' # pad_left (CHR ''0'') 3 (nat_to_string (nat (- n)))
             else pad_left (CHR ''0'') 4 (nat_to_string (nat n)))"

definition format_rfc5322_date :: "int \<Rightarrow> string" where
  "format_rfc5322_date unix_seconds =
     (let days = unix_seconds div 86400;
          seconds_of_day = unix_seconds mod 86400;
          weekday = nat ((days + 4) mod 7);
          (year, month, day) = civil_from_days days;
          hour = seconds_of_day div 3600;
          minute = (seconds_of_day mod 3600) div 60;
          second = seconds_of_day mod 60
      in [''Sun'', ''Mon'', ''Tue'', ''Wed'', ''Thu'', ''Fri'', ''Sat''] ! weekday @ '', '' @ pad2 day @ '' '' @
         [''Jan'', ''Feb'', ''Mar'', ''Apr'', ''May'', ''Jun'', ''Jul'', ''Aug'', ''Sep'', ''Oct'', ''Nov'', ''Dec''] ! nat (month - 1) @
         '' '' @ pad4 year @ '' '' @ pad2 hour @ '':'' @ pad2 minute @ '':'' @ pad2 second @ '' +0000'')"

section \<open>Addresses\<close>

definition ipv4_text :: "ipv4 \<Rightarrow> string" where
  "ipv4_text a = join ''.'' (map (\<lambda>i. nat_to_string (unat (drop_bit (8 * (3 - i)) a AND 0xFF))) [0, 1, 2, 3])"

text \<open>The longest run of zero groups, the first of several: its start and its length.\<close>

fun zero_run :: "nat \<Rightarrow> 16 word list \<Rightarrow> nat \<times> nat \<Rightarrow> nat \<times> nat \<Rightarrow> nat \<times> nat" where
  "zero_run i [] current longest = longest"
| "zero_run i (g # gs) current longest =
     (if g = 0 then
        (let current = (if snd current = 0 then (i, 1) else (fst current, snd current + 1))
         in zero_run (i + 1) gs current (if snd current > snd longest then current else longest))
      else zero_run (i + 1) gs (0, 0) longest)"

definition ipv6_groups :: "16 word list \<Rightarrow> string" where
  "ipv6_groups gs = join '':'' (map (\<lambda>g. hex_digits False (unat g)) gs)"

definition ipv6_text :: "ipv6 \<Rightarrow> string" where
  "ipv6_text a =
     (case to_ipv4_mapped a of
        Some v4 \<Rightarrow> ''::ffff:'' @ ipv4_text v4
      | None \<Rightarrow>
          (let gs = map (segment a) [0, 1, 2, 3, 4, 5, 6, 7];
               (start, len) = zero_run 0 gs (0, 0) (0, 0)
           in if len > 1 then ipv6_groups (take start gs) @ ''::'' @ ipv6_groups (drop (start + len) gs)
              else ipv6_groups gs))"

definition peer_text :: "ip_addr \<Rightarrow> string" where
  "peer_text ip = (case ip of V4 a \<Rightarrow> ipv4_text a | V6 a \<Rightarrow> ''['' @ ipv6_text a @ '']'')"

section \<open>Trace headers\<close>

definition MAX_RECEIVED_HOPS :: nat where "MAX_RECEIVED_HOPS = 50"

definition trace_protocol :: "accepted_message \<Rightarrow> string" where
  "trace_protocol m = (if am_authenticated m then ''ESMTPSA'' else if am_secured m then ''ESMTPS'' else ''ESMTP'')"

definition received_header :: "string \<Rightarrow> accepted_message \<Rightarrow> socket_addr \<Rightarrow> int \<Rightarrow> string" where
  "received_header hostname m peer now_unix =
     (let helo = (if trim (am_helo m) = [] then ''unknown'' else blank_control (am_helo m));
          for_clause = (case am_recipients m of [] \<Rightarrow> [] | recipient # _ \<Rightarrow> '' for <'' @ recipient @ ''>'')
      in ''Received: from '' @ helo @ '' ('' @ peer_text (sa_ip peer) @ '') by '' @ hostname @ '' with '' @
         trace_protocol m @ for_clause @ ''; '' @ format_rfc5322_date now_unix @ CRLF)"

definition strip_cr_suffix :: "string \<Rightarrow> string" where
  "strip_cr_suffix raw = (if suffix [CR] raw then butlast raw else raw)"

definition has_header_name :: "string \<Rightarrow> string \<Rightarrow> bool" where
  "has_header_name line name \<longleftrightarrow>
     length line > length name \<and> eq_ignore_ascii_case (take (length name) line) name \<and> line ! length name = CHR '':''"

definition contains_ignore_ascii_case :: "string \<Rightarrow> string \<Rightarrow> bool" where
  "contains_ignore_ascii_case haystack needle =
     (if needle = [] \<or> length haystack < length needle then False
      else if \<not> list_all (\<lambda>b. ord b < 128) needle then False
      else list_ex (\<lambda>i. eq_ignore_ascii_case (take (length needle) (drop i haystack)) needle)
             [0..<length haystack - length needle + 1])"

definition is_continuation :: "string \<Rightarrow> bool" where
  "is_continuation line \<longleftrightarrow> (case line of c # _ \<Rightarrow> c = SP \<or> c = HT | [] \<Rightarrow> False)"

fun received_hops_loop :: "string list \<Rightarrow> nat \<Rightarrow> nat" where
  "received_hops_loop [] k = k"
| "received_hops_loop (raw # raws) k =
     (let line = strip_cr_suffix raw in
      if line = [] then k
      else if is_continuation line then received_hops_loop raws k
      else received_hops_loop raws (if has_header_name line ''received'' then k + 1 else k))"

definition received_hops :: "string \<Rightarrow> nat" where
  "received_hops data = received_hops_loop (split_on LF data) 0"

fun via_host_loop :: "string \<Rightarrow> string list \<Rightarrow> bool \<Rightarrow> bool" where
  "via_host_loop needle [] current_is_received = False"
| "via_host_loop needle (raw # raws) current_is_received =
     (let line = strip_cr_suffix raw in
      if line = [] then False
      else if is_continuation line then
        (if current_is_received \<and> contains_ignore_ascii_case line needle then True
         else via_host_loop needle raws current_is_received)
      else
        (let current_is_received = has_header_name line ''received'' in
         if current_is_received \<and> contains_ignore_ascii_case line needle then True
         else via_host_loop needle raws current_is_received))"

definition received_via_host :: "string \<Rightarrow> string \<Rightarrow> bool" where
  "received_via_host data hostname = via_host_loop (''by '' @ trim hostname) (split_on LF data) False"

section \<open>Accepting a message\<close>

record queue_sink =
  qs_hostname :: string
  qs_auth :: mail_auth
  qs_json :: json
  qs_ids :: "nat \<Rightarrow> string"
  qs_stamp :: "int \<Rightarrow> string"
  qs_now_millis :: "nat \<Rightarrow> int"

record sink_state =
  sk_fs :: fs
  sk_drawn :: nat

definition trace_headers :: "queue_sink \<Rightarrow> accepted_message \<Rightarrow> socket_addr \<Rightarrow> int \<Rightarrow> (reply, string) result" where
  "trace_headers S m peer now_unix =
     (let headers = received_header (qs_hostname S) m peer now_unix in
      if am_role m = Submission then Inr headers
      else
        (case dmarc_evaluate (qs_auth S) (am_data m) (sa_ip peer) (am_helo m) (qs_hostname S) (am_mail_from m) of
           None \<Rightarrow> Inl (with_enhanced 451 ''4.7.0'' AUTH_EVAL_FAILED)
         | Some check \<Rightarrow>
             if is_fail (dc_status check) \<and> policy_is_reject check
             then Inl (with_enhanced 550 ''5.7.1'' DMARC_REJECTED)
             else Inr (headers @ ''Return-Path: <'' @ am_mail_from m @ ''>'' @ CRLF @
                       auth_results (qs_hostname S) (am_mail_from m) check None)))"

definition store_message :: "queue_sink \<Rightarrow> accepted_message \<Rightarrow> string \<Rightarrow> int \<Rightarrow> sink_state \<Rightarrow> sink_state \<times> (reply, unit) result" where
  "store_message S m text now_unix st =
     (let k = sk_drawn st; st = st\<lparr>sk_drawn := k + 6\<rparr> in
      case entry_new (qs_stamp S) (qs_ids S k) Outbound (am_mail_from m) (am_recipients m) text now_unix of
        Inl _ \<Rightarrow> (st, Inl (with_enhanced 451 ''4.3.0'' QUEUE_WRITE_FAILED))
      | Inr entry \<Rightarrow>
          (let (s, _, r) = enqueue_new (qs_json S) (\<lambda>n. qs_ids S (k + (5 - n))) entry (sk_fs st);
               st = st\<lparr>sk_fs := s\<rparr>
           in case r of
                Inl _ \<Rightarrow> (st, Inl (with_enhanced 451 ''4.3.0'' QUEUE_WRITE_FAILED))
              | Inr _ \<Rightarrow> (st, Inr ())))"

definition sink_handle :: "queue_sink \<Rightarrow> sink_state \<Rightarrow> accepted_message \<Rightarrow> socket_addr \<Rightarrow> sink_state \<times> (reply, unit) result" where
  "sink_handle S st m peer =
     (if received_hops (am_data m) \<ge> MAX_RECEIVED_HOPS \<or> received_via_host (am_data m) (qs_hostname S)
      then (st, Inl (with_enhanced 554 ''5.4.6'' TOO_MANY_HOPS))
      else
        (let now_unix = qs_now_millis S (sk_drawn st) sdiv 1000 in
         case trace_headers S m peer now_unix of
           Inl rejection \<Rightarrow> (st, Inl rejection)
         | Inr headers \<Rightarrow>
             if \<not> valid_utf8 (am_data m) then (st, Inl (with_enhanced 554 ''5.6.0'' MESSAGE_NOT_UTF8))
             else store_message S m (headers @ am_data m) now_unix st))"

section \<open>The calendar\<close>

text \<open>The Gregorian calendar.\<close>

definition is_leap :: "int \<Rightarrow> bool" where
  "is_leap y \<longleftrightarrow> y mod 4 = 0 \<and> (y mod 100 \<noteq> 0 \<or> y mod 400 = 0)"

definition month_length :: "int \<Rightarrow> int \<Rightarrow> int" where
  "month_length y m =
     (if m = 2 then if is_leap y then 29 else 28 else if m \<in> {4, 6, 9, 11} then 30 else 31)"

definition days_before_year :: "int \<Rightarrow> int" where
  "days_before_year y = 365 * y + (y - 1) div 4 - (y - 1) div 100 + (y - 1) div 400"

definition days_before_month :: "int \<Rightarrow> int \<Rightarrow> int" where
  "days_before_month y m = sum_list (map (month_length y) [1..m - 1])"

text \<open>Days since 1 January 1970.\<close>

definition days_from_civil :: "int \<Rightarrow> int \<Rightarrow> int \<Rightarrow> int" where
  "days_from_civil y m d = days_before_year y + days_before_month y m + (d - 1) - days_before_year 1970"

lemma div_unique: "0 < (k :: int) \<Longrightarrow> k * q \<le> x \<Longrightarrow> x < k * q + k \<Longrightarrow> x div k = q"
  by (rule int_div_pos_eq [of x k q "x - k * q"]) auto

lemma div_bounds: "0 < (k :: int) \<Longrightarrow> k * (x div k) \<le> x \<and> x < k * (x div k) + k"
  using pos_mod_bound [of k x] pos_mod_sign [of k x] mult_div_mod_eq [of k x] by linarith

lemma floor_by_truncation: "(if z \<ge> 0 then z else z - 146096) sdiv (146097 :: int) = z div 146097"
proof (cases "z \<ge> 0")
  case False
  have "z div 146097 = - ((146096 - z) div 146097)"
    using div_bounds [of 146097 "146096 - z"] by (intro div_unique) linarith+
  then show ?thesis using False by (simp add: signed_divide_int_def)
next
  case True
  then show ?thesis by (cases "z = 0") (simp_all add: signed_divide_int_def)
qed

text \<open>A day of a 400-year era in centuries, four-year cycles, years and days.\<close>

lemma era_day:
  assumes "0 \<le> doe" and "doe < (146097 :: int)"
  obtains c q a doy where "doe = 36524 * c + 1461 * q + 365 * a + doy" "0 \<le> c" "c \<le> 3" "0 \<le> q" "q \<le> 24"
    "0 \<le> a" "a \<le> 3" "0 \<le> doy" "doy \<le> 365" "doy = 365 \<Longrightarrow> a = 3" "doy = 365 \<Longrightarrow> q = 24 \<Longrightarrow> c = 3"
proof -
  define c where "c = min 3 (doe div 36524)"
  define r where "r = doe - 36524 * c"
  define q where "q = r div 1461"
  define s where "s = r - 1461 * q"
  define a where "a = min 3 (s div 365)"
  define doy where "doy = s - 365 * a"
  have c: "0 \<le> c" "c \<le> 3" "0 \<le> r" "r \<le> 36524" "r = 36524 \<Longrightarrow> c = 3"
  proof -
    have d: "36524 * (doe div 36524) \<le> doe" "doe < 36524 * (doe div 36524) + 36524" using div_bounds [of 36524 doe] by simp_all
    have "0 \<le> doe div 36524" "doe div 36524 \<le> 4" using d assms by linarith+
    then have "doe div 36524 \<le> 3 \<or> doe div 36524 = 4" by linarith
    then consider "c = doe div 36524" "doe div 36524 \<le> 3" | "c = 3" "doe div 36524 = 4" by (fastforce simp: c_def)
    then show "0 \<le> c" "c \<le> 3" "0 \<le> r" "r \<le> 36524" "r = 36524 \<Longrightarrow> c = 3"
      using d assms \<open>0 \<le> doe div 36524\<close> unfolding r_def by (cases; linarith)+
  qed
  have q: "0 \<le> q" "q \<le> 24" "0 \<le> s" "s < 1461"
    using c(3,4) div_bounds [of 1461 r] by (simp_all add: q_def s_def)
  have a: "0 \<le> a" "a \<le> 3" "0 \<le> doy" "doy \<le> 365" "doy = 365 \<Longrightarrow> a = 3"
  proof -
    have d: "365 * (s div 365) \<le> s" "s < 365 * (s div 365) + 365" using div_bounds [of 365 s] by simp_all
    have "0 \<le> s div 365" "s div 365 \<le> 4" using d q(3,4) by linarith+
    then have "s div 365 \<le> 3 \<or> s div 365 = 4" by linarith
    then consider "a = s div 365" "s div 365 \<le> 3" | "a = 3" "s div 365 = 4" by (fastforce simp: a_def)
    then show "0 \<le> a" "a \<le> 3" "0 \<le> doy" "doy \<le> 365" "doy = 365 \<Longrightarrow> a = 3"
      using d q(3,4) \<open>0 \<le> s div 365\<close> unfolding doy_def by (cases; linarith)+
  qed
  have "doe = 36524 * c + 1461 * q + 365 * a + doy" by (simp add: r_def s_def doy_def)
  moreover have "c = 3" if "doy = 365" "q = 24"
  proof (rule c(5))
    have "r = 1461 * q + (365 * a + doy)" by (simp add: doy_def s_def)
    with that a(5) show "r = 36524" by simp
  qed
  ultimately show thesis using that c(1,2) q(1,2) a by blast
qed

text \<open>The year of the era and the day of the year as the source computes them.\<close>

lemma year_of_era:
  assumes "doe = 36524 * c + 1461 * q + 365 * a + doy" "0 \<le> c" "c \<le> 3" "0 \<le> q" "q \<le> 24"
    "0 \<le> a" "a \<le> 3" "0 \<le> doy" "doy \<le> (365 :: int)" "doy = 365 \<Longrightarrow> a = 3" "doy = 365 \<Longrightarrow> q = 24 \<Longrightarrow> c = 3"
    and "yoe = (doe - doe div 1460 + doe div 36524 - doe div 146096) div 365"
  shows "yoe = 100 * c + 4 * q + a" and "doe - (365 * yoe + yoe div 4 - yoe div 100) = doy"
proof -
  define t where "t = (if 24 * c + q + 365 * a + doy \<ge> 1460 then 1 else 0 :: int)"
  have "doe div 1460 = 25 * c + q + t"
    using assms by (intro div_unique) (auto simp: t_def)
  moreover have "doe div 36524 - doe div 146096 = c"
  proof (cases "doe = 146096")
    case True
    then have "36524 * c \<ge> 109572" using assms by linarith
    with True assms(3) show ?thesis by simp
  next
    case False
    have "doe \<le> 146096" using assms by linarith
    with False assms have "doe div 146096 = 0" by (intro div_pos_pos_trivial) auto
    moreover have "36524 * c + 36524 > doe"
    proof (rule ccontr)
      assume "\<not> 36524 * c + 36524 > doe"
      then have "1461 * q + 365 * a + doy \<ge> 36524" using assms(1) by linarith
      then have "q = 24" "a = 3" "doy = 365" using assms(5,7,9) by linarith+
      with assms(11) have "c = 3" by simp
      with \<open>doe \<le> 146096\<close> False \<open>\<not> 36524 * c + 36524 > doe\<close> show False by linarith
    qed
    moreover have "36524 * c \<le> doe" using assms by linarith
    ultimately show ?thesis using div_unique [of 36524 c doe] by simp
  qed
  ultimately have x: "doe - doe div 1460 + doe div 36524 - doe div 146096 = 36500 * c + 1460 * q + 365 * a + doy - t"
    using assms(1) by linarith
  have "doy \<noteq> 365 \<or> 24 * c + q + 365 * a + doy \<ge> 1460" using assms(2,4,10) by auto
  then have t: "0 \<le> doy - t" "doy - t < 365" using assms(2-9) by (auto simp: t_def)
  show y: "yoe = 100 * c + 4 * q + a"
    unfolding assms(12) x using t by (intro div_unique) (simp_all add: algebra_simps)
  have "(100 * c + 4 * q + a) div 4 = 25 * c + q" using assms(2-7) by (intro div_unique) simp_all
  moreover have "(100 * c + 4 * q + a) div 100 = c" using assms(2-7) by (intro div_unique) simp_all
  ultimately show "doe - (365 * yoe + yoe div 4 - yoe div 100) = doy"
    unfolding y using assms(1) by simp
qed

lemma indicator_leap:
  "(C \<longrightarrow> B) \<and> (B \<longrightarrow> A) \<Longrightarrow>
   (if A \<and> (\<not> B \<or> C) then 1 else 0) = (if A then 1 else 0) - (if B then 1 else 0) + (if C then 1 else 0 :: int)"
  by (cases A; cases B; cases C; simp)

text \<open>Days before 1 March, and before 1 January of the following year.\<close>

lemma march_first:
  "days_before_year y + (if is_leap y then 1 else 0) = 365 * y + y div 4 - y div 100 + y div 400"
proof -
  have step: "y div k = (y - 1) div k + (if y mod k = 0 then 1 else 0)" if "0 < k" for k :: int
  proof -
    have m: "k * (y div k) = y - y mod k" "0 \<le> y mod k" "y mod k < k" using that by (simp_all add: minus_mod_eq_mult_div)
    show ?thesis
    proof (cases "y mod k = 0")
      case True
      have "(y - 1) div k = y div k - 1"
        using m that True by (intro div_unique) (simp_all add: right_diff_distrib)
      with True show ?thesis by simp
    next
      case False
      then have "0 < y mod k" using m(2) by linarith
      then have "(y - 1) div k = y div k" using m that by (intro div_unique) linarith+
      with False show ?thesis by simp
    qed
  qed
  have "(y mod 400 = 0 \<longrightarrow> y mod 100 = 0) \<and> (y mod 100 = 0 \<longrightarrow> y mod 4 = 0)"
    using dvd_trans [of 100 400 y] dvd_trans [of 4 100 y] by (simp add: mod_eq_0_iff_dvd)
  then have "(if is_leap y then 1 else 0) =
      (if y mod 4 = 0 then 1 else 0) - (if y mod 100 = 0 then 1 else 0) + (if y mod 400 = 0 then 1 else 0 :: int)"
    unfolding is_leap_def by (rule indicator_leap)
  then show ?thesis
    unfolding days_before_year_def step [of 4, simplified] step [of 100, simplified] step [of 400, simplified] by simp
qed

lemma months_before:
  "days_before_month y 1 = 0" "days_before_month y 2 = 31"
  "days_before_month y 3 = 59 + (if is_leap y then 1 else 0)" "days_before_month y 4 = 90 + (if is_leap y then 1 else 0)"
  "days_before_month y 5 = 120 + (if is_leap y then 1 else 0)" "days_before_month y 6 = 151 + (if is_leap y then 1 else 0)"
  "days_before_month y 7 = 181 + (if is_leap y then 1 else 0)" "days_before_month y 8 = 212 + (if is_leap y then 1 else 0)"
  "days_before_month y 9 = 243 + (if is_leap y then 1 else 0)" "days_before_month y 10 = 273 + (if is_leap y then 1 else 0)"
  "days_before_month y 11 = 304 + (if is_leap y then 1 else 0)" "days_before_month y 12 = 334 + (if is_leap y then 1 else 0)"
  by (simp_all add: days_before_month_def month_length_def upto.simps)

text \<open>A date of the year that begins in March: its month, and the days before that month.\<close>

lemma march_month:
  assumes "0 \<le> doy" and "doy \<le> (365 :: int)" and "mp = (5 * doy + 2) div 153"
  shows "mp \<in> {0, 1, 2, 3, 4, 5, 6, 7, 8, 9, 10, 11}" and "153 * mp \<le> 5 * doy + 2" and "5 * doy + 2 < 153 * mp + 153"
proof -
  show b: "153 * mp \<le> 5 * doy + 2" "5 * doy + 2 < 153 * mp + 153" using div_bounds [of 153 "5 * doy + 2"] assms(3) by simp_all
  from b assms(1,2) have "0 \<le> mp" "mp \<le> 11" by linarith+
  then show "mp \<in> {0, 1, 2, 3, 4, 5, 6, 7, 8, 9, 10, 11}" by simp presburger
qed

text \<open>
  The day arithmetic behind the date of the \<open>Received\<close> header is the Gregorian calendar,
  for days before 1970 too: the result is a date of that calendar, and counting its days from
  1 January 1970 gives back the argument.
\<close>

lemma civil_date:
  "case civil_from_days days of (y, m, d) \<Rightarrow>
     1 \<le> m \<and> m \<le> 12 \<and> 1 \<le> d \<and> d \<le> month_length y m \<and> days_from_civil y m d = days"
proof -
  define z where "z = days + 719468"
  define era where "era = z div 146097"
  define doe where "doe = z - era * 146097"
  have "0 \<le> doe" "doe < 146097" using div_bounds [of 146097 z] by (simp_all add: doe_def era_def)
  then obtain c q a doy where e: "doe = 36524 * c + 1461 * q + 365 * a + doy" "0 \<le> c" "c \<le> 3" "0 \<le> q" "q \<le> 24"
    "0 \<le> a" "a \<le> 3" "0 \<le> doy" "doy \<le> 365" "doy = 365 \<Longrightarrow> a = 3" "doy = 365 \<Longrightarrow> q = 24 \<Longrightarrow> c = 3"
    using era_day by blast
  define yoe where "yoe = (doe - doe div 1460 + doe div 36524 - doe div 146096) div 365"
  note ye = year_of_era [OF e yoe_def]
  define y where "y = yoe + era * 400"
  define mp where "mp = (5 * doy + 2) div 153"
  note mm = march_month [OF e(8,9) mp_def]
  have civil: "civil_from_days days =
      (let month = (if mp < 10 then mp + 3 else mp - 9)
       in (if month \<le> 2 then y + 1 else y, month, doy - (153 * mp + 2) div 5 + 1))"
    unfolding civil_from_days_def Let_def
    by (simp only: floor_by_truncation z_def [symmetric] era_def [symmetric] doe_def [symmetric] yoe_def [symmetric] ye(2)
        y_def [symmetric] mp_def [symmetric])
  have y: "y = 400 * era + 100 * c + 4 * q + a" by (simp add: y_def ye(1))
  have d: "y div 4 = 100 * era + 25 * c + q" "y div 100 = 4 * era + c" "y div 400 = era"
    using e(2-7) unfolding y by (intro div_unique; simp)+
  have base: "365 * y + y div 4 - y div 100 + y div 400 + doy = days + 719468"
    using d y e(1) doe_def z_def by linarith
  have march: "days_before_year y + (if is_leap y then 1 else 0) + doy = days + 719468" using march_first [of y] base by simp
  have jan: "days_before_year (y + 1) + doy = days + 719468 + 365" using base by (simp add: days_before_year_def)
  have feb: "doy = 365 \<Longrightarrow> is_leap (y + 1)"
  proof -
    assume x: "doy = 365"
    then have y1: "y + 1 = 400 * era + 100 * c + 4 * (q + 1)" using e(10) y by simp
    then have "y + 1 = 4 * (100 * era + 25 * c + q + 1)" by simp
    then have "(y + 1) mod 4 = 0" by (simp only: mod_mult_self1_is_0)
    moreover have "(y + 1) mod 400 = 0" if "q = 24" using y1 e(11) [OF x that] that by simp
    moreover have "(y + 1) mod 100 \<noteq> 0" if "q \<noteq> 24"
    proof -
      have "(y + 1) div 100 = 4 * era + c" using y1 e(4,5) that by (intro div_unique) simp_all
      then have "(y + 1) mod 100 = y + 1 - 100 * (4 * era + c)" using minus_mult_div_eq_mod [of "y + 1" 100] by simp
      moreover have "y + 1 - 100 * (4 * era + c) = 4 * (q + 1)" using y1 by simp
      ultimately have m: "(y + 1) mod 100 = 4 * (q + 1)" by (rule trans)
      show ?thesis unfolding m using e(4) by simp
    qed
    ultimately show ?thesis unfolding is_leap_def by (intro conjI; cases "q = 24") simp_all
  qed
  then have feb': "\<not> is_leap (y + 1) \<Longrightarrow> doy \<le> 364" using e(9) by (cases "doy = 365") simp_all
  have d70: "days_before_year 1970 = 719527" by (simp add: days_before_year_def)
  show ?thesis
    using mm march jan feb' e(8,9) unfolding civil days_from_civil_def d70
    by (elim insertE emptyE) (simp_all add: months_before month_length_def)
qed

section \<open>Mail loops\<close>

lemma contains_ignore_ascii_case_mem:
  assumes "needle \<noteq> []" and "\<forall>b\<in>set needle. ord b < 128"
  shows "contains_ignore_ascii_case (pre @ needle @ post) needle"
proof -
  have "eq_ignore_ascii_case (take (length needle) (drop (length pre) (pre @ needle @ post))) needle"
    by (simp add: eq_ignore_ascii_case_def)
  then have "\<exists>i\<in>set [0..<length (pre @ needle @ post) - length needle + 1].
      eq_ignore_ascii_case (take (length needle) (drop i (pre @ needle @ post))) needle"
    by (intro bexI [of _ "length pre"]) auto
  with assms show ?thesis by (simp add: contains_ignore_ascii_case_def list_ex_iff list_all_iff)
qed

text \<open>Header lines in front of a text do not hide a trace header behind them.\<close>

lemma via_host_loop_received:
  assumes "has_header_name (strip_cr_suffix raw) ''received''" and "contains_ignore_ascii_case (strip_cr_suffix raw) needle"
    and "\<not> is_continuation (strip_cr_suffix raw)"
  shows "via_host_loop needle (raw # raws) c"
  using assms by (auto simp: Let_def has_header_name_def)

lemma via_host_loop_append:
  assumes "\<And>c. via_host_loop needle raws c" and "\<forall>l\<in>set ls. strip_cr_suffix l \<noteq> []"
  shows "via_host_loop needle (ls @ raws) c"
  using assms(2) by (induction ls arbitrary: c) (auto simp: Let_def assms(1))

lemma strip_cr_suffix_CR [simp]: "strip_cr_suffix (l @ [CR]) = l"
  by (simp add: strip_cr_suffix_def)

lemma split_on_lines:
  "\<forall>l\<in>set ls. LF \<notin> set l \<Longrightarrow> split_on LF (concat (map (\<lambda>l. l @ CRLF) ls) @ s) = map (\<lambda>l. l @ [CR]) ls @ split_on LF s"
proof (induction ls)
  case (Cons l ls)
  then have "LF \<notin> set (l @ [CR])" by simp
  from split_on_append_sep [OF this, of "concat (map (\<lambda>l. l @ CRLF) ls) @ s"] Cons show ?case by simp
qed simp

text \<open>A host name as it is configured: ASCII without white space around it and without line breaks.\<close>

definition plain_hostname :: "string \<Rightarrow> bool" where
  "plain_hostname h \<longleftrightarrow> trim h = h \<and> list_all (\<lambda>b. ord b < 128) h \<and> LF \<notin> set h"

lemma digits_no_LF: "LF \<notin> set (nat_to_string n)" "LF \<notin> set (hex_digits up n)"
  by (auto dest: nat_to_string_digits hex_digits_alphanumeric simp: is_ascii_digit_def is_ascii_alphanumeric_def is_ascii_upper_def is_ascii_lower_def)

lemma pad_no_LF: "LF \<notin> set (pad_left (CHR ''0'') w (nat_to_string n))"
  by (simp add: pad_left_def digits_no_LF)

lemma join_no_LF: "LF \<notin> set sep \<Longrightarrow> \<forall>x\<in>set xs. LF \<notin> set x \<Longrightarrow> LF \<notin> set (join sep xs)"
  using set_join [of sep xs] by blast

declare zero_run.simps [simp del]

lemma peer_text_no_LF: "LF \<notin> set (peer_text ip)"
proof -
  have v4: "LF \<notin> set (ipv4_text a)" for a
    unfolding ipv4_text_def by (rule join_no_LF) (auto simp: digits_no_LF)
  have gs: "LF \<notin> set (ipv6_groups g)" for g
    unfolding ipv6_groups_def by (rule join_no_LF) (auto simp: digits_no_LF)
  have v6: "LF \<notin> set (ipv6_text a)" for a
    unfolding ipv6_text_def Let_def case_prod_unfold using v4 gs by (cases "to_ipv4_mapped a") simp_all
  show ?thesis using v4 v6 by (cases ip) (simp_all add: peer_text_def)
qed

lemma date_no_LF: "LF \<notin> set (format_rfc5322_date t)"
proof -
  obtain y m d where c: "civil_from_days (t div 86400) = (y, m, d)" by (cases "civil_from_days (t div 86400)")
  from civil_date [of "t div 86400"] c have "1 \<le> m" "m \<le> 12" by auto
  then have "m = 1 \<or> m = 2 \<or> m = 3 \<or> m = 4 \<or> m = 5 \<or> m = 6 \<or> m = 7 \<or> m = 8 \<or> m = 9 \<or> m = 10 \<or> m = 11 \<or> m = 12" by presburger
  then have mo: "LF \<notin> set ([''Jan'', ''Feb'', ''Mar'', ''Apr'', ''May'', ''Jun'', ''Jul'', ''Aug'', ''Sep'', ''Oct'', ''Nov'', ''Dec''] ! nat (m - 1))"
    by (elim disjE) simp_all
  define w where "w = (t div 86400 + 4) mod 7"
  have "0 \<le> w" "w < 7" by (simp_all add: w_def)
  then have "w = 0 \<or> w = 1 \<or> w = 2 \<or> w = 3 \<or> w = 4 \<or> w = 5 \<or> w = 6" by presburger
  then have wd: "LF \<notin> set ([''Sun'', ''Mon'', ''Tue'', ''Wed'', ''Thu'', ''Fri'', ''Sat''] ! nat w)"
    by (elim disjE) simp_all
  show ?thesis
    unfolding format_rfc5322_date_def Let_def c w_def [symmetric] using mo wd by (simp add: pad2_def pad4_def pad_no_LF)
qed

text \<open>The trace header is one line that names the host.\<close>

lemma received_header_line:
  assumes "plain_hostname h" and "\<forall>r\<in>set (am_recipients m). LF \<notin> set r"
  obtains line where "received_header h m peer now = line @ CRLF" "LF \<notin> set line" "has_header_name line ''received''"
    "contains_ignore_ascii_case line (''by '' @ trim h)" "\<not> is_continuation line"
proof -
  define helo where "helo = (if trim (am_helo m) = [] then ''unknown'' else blank_control (am_helo m))"
  define for_clause where "for_clause = (case am_recipients m of [] \<Rightarrow> [] | recipient # _ \<Rightarrow> '' for <'' @ recipient @ ''>'')"
  define pre where "pre = ''Received: from '' @ helo @ '' ('' @ peer_text (sa_ip peer) @ '') ''"
  define post where "post = '' with '' @ trace_protocol m @ for_clause @ ''; '' @ format_rfc5322_date now"
  have eq: "received_header h m peer now = (pre @ (''by '' @ h) @ post) @ CRLF"
    by (simp add: received_header_def Let_def helo_def for_clause_def pre_def post_def)
  have h: "trim h = h" "\<forall>b\<in>set h. ord b < 128" "LF \<notin> set h" using assms(1) by (auto simp: plain_hostname_def list_all_iff)
  have "LF \<notin> set helo" using blank_control_clean by (auto simp: helo_def)
  then have "LF \<notin> set pre" using peer_text_no_LF by (simp add: pre_def)
  moreover have "LF \<notin> set for_clause" using assms(2) by (cases "am_recipients m") (simp_all add: for_clause_def)
  then have "LF \<notin> set post" using date_no_LF by (simp add: post_def trace_protocol_def)
  ultimately have nl: "LF \<notin> set (pre @ (''by '' @ h) @ post)" using h(3) by simp
  have "contains_ignore_ascii_case (pre @ (''by '' @ h) @ post) (''by '' @ h)"
    by (rule contains_ignore_ascii_case_mem) (use h(2) in auto)
  then have c: "contains_ignore_ascii_case (pre @ (''by '' @ h) @ post) (''by '' @ trim h)" using h(1) by simp
  have "has_header_name (pre @ (''by '' @ h) @ post) ''received''" "\<not> is_continuation (pre @ (''by '' @ h) @ post)"
  proof -
    have "eq_ignore_ascii_case ''Received'' ''received''" by code_simp
    then show "has_header_name (pre @ (''by '' @ h) @ post) ''received''" by (simp add: pre_def has_header_name_def)
    show "\<not> is_continuation (pre @ (''by '' @ h) @ post)" by (simp add: pre_def is_continuation_def)
  qed
  with that [OF eq nl _ c] show thesis by blast
qed

section \<open>The queue\<close>

text \<open>What the sink needs of its surroundings: a working encoding, and identifiers that are not in use.\<close>

definition sink_ready :: "queue_sink \<Rightarrow> sink_state \<Rightarrow> bool" where
  "sink_ready S st \<longleftrightarrow>
     json_ok (qs_json S) \<and> store_ok (qs_json S) (sk_fs st) \<and> inj (qs_ids S) \<and>
     (\<forall>k \<ge> sk_drawn st. queue_of (qs_json S) (sk_fs st) (qs_ids S k) = None)"

abbreviation sink_queue :: "queue_sink \<Rightarrow> sink_state \<Rightarrow> string \<Rightarrow> queue_entry option" where
  "sink_queue S st \<equiv> queue_of (qs_json S) (sk_fs st)"

text \<open>The entry that an accepted message becomes.\<close>

definition entry_of :: "queue_sink \<Rightarrow> accepted_message \<Rightarrow> socket_addr \<Rightarrow> int \<Rightarrow> queue_entry \<Rightarrow> bool" where
  "entry_of S m peer now e \<longleftrightarrow>
     entry_ok e \<and> qe_kind e = Outbound \<and> qe_mail_from e = am_mail_from m \<and> qe_recipients e = am_recipients m \<and>
     qe_attempts e = 0 \<and> is_due e now \<and>
     (\<exists>headers. trace_headers S m peer now = Inr headers \<and> qe_data e = headers @ am_data m)"

lemma store_message_effect:
  assumes ready: "sink_ready S st" and m: "store_message S m text now st = (st', r)"
  shows "sink_ready S st' \<and>
    (case r of
       Inl rejection \<Rightarrow> sink_queue S st' = sink_queue S st \<and> rejection = with_enhanced 451 ''4.3.0'' QUEUE_WRITE_FAILED
     | Inr _ \<Rightarrow> \<exists>e. entry_ok e \<and> qe_kind e = Outbound \<and> qe_mail_from e = am_mail_from m \<and> qe_recipients e = am_recipients m \<and>
                 qe_data e = text \<and> qe_attempts e = 0 \<and> is_due e now \<and> sink_queue S st (qe_id e) = None \<and>
                 sink_queue S st' = (sink_queue S st)(qe_id e \<mapsto> e))"
proof -
  let ?J = "qs_json S" and ?k = "sk_drawn st"
  let ?ids = "\<lambda>n. qs_ids S (?k + (5 - n))" and ?st = "st\<lparr>sk_drawn := ?k + 6\<rparr>"
  have drawn: "sink_ready S ?st" using ready by (simp add: sink_ready_def)
  show ?thesis
  proof (cases "entry_new (qs_stamp S) (qs_ids S ?k) Outbound (am_mail_from m) (am_recipients m) text now")
    case (Inl x)
    with m drawn show ?thesis by (auto simp: store_message_def Let_def)
  next
    case (Inr entry)
    note new = entry_new_ok [OF Inr]
    obtain s e u where n: "enqueue_new ?J ?ids entry (sk_fs st) = (s, e, u)" by (cases "enqueue_new ?J ?ids entry (sk_fs st)")
    have st': "st' = ?st\<lparr>sk_fs := s\<rparr>"
      "r = (case u of Inl _ \<Rightarrow> Inl (with_enhanced 451 ''4.3.0'' QUEUE_WRITE_FAILED) | Inr _ \<Rightarrow> Inr ())"
      using m Inr n by (auto simp: store_message_def Let_def split: sum.splits)
    have "ids_fresh ?J ?ids entry (sk_fs st)" using ready new by (simp add: ids_fresh_def sink_ready_def)
    with enqueue_new_inserted [of ?J "sk_fs st" ?ids entry] ready n have ins: "inserted ?J entry (sk_fs st) (s, e, u)"
      by (simp add: sink_ready_def)
    show ?thesis
    proof (cases u)
      case (Inl x)
      with ins st' ready drawn show ?thesis by (auto simp: inserted_def sink_ready_def)
    next
      case (Inr y)
      with ins ready have e: "store_ok ?J s" "entry_ok e" "e = entry\<lparr>qe_id := qe_id e\<rparr>" "sink_queue S st (qe_id e) = None"
        "queue_of ?J s = (sink_queue S st)(qe_id e \<mapsto> e)"
        by (auto simp: inserted_def sink_ready_def)
      from e(3) obtain i where "e = entry\<lparr>qe_id := i\<rparr>" by blast
      with new have f: "qe_kind e = Outbound" "qe_mail_from e = am_mail_from m" "qe_recipients e = am_recipients m"
        "qe_data e = text" "qe_attempts e = 0" "is_due e now"
        by (simp_all add: is_due_def)
      have "qe_id e \<noteq> qs_ids S k" if "?k + 6 \<le> k" for k
      proof -
        from enqueue_new_id [OF n] new have "qe_id e \<in> insert (qs_ids S ?k) (?ids ` {..<5})" by simp
        moreover have "qs_ids S i \<noteq> qs_ids S k" if "i < ?k + 6" for i
          using that \<open>?k + 6 \<le> k\<close> ready by (auto simp: sink_ready_def dest: injD)
        ultimately show ?thesis by auto
      qed
      then have "\<forall>k \<ge> ?k + 6. qs_ids S k \<noteq> qe_id e" by metis
      then have "sink_ready S st'" using ready e(1,5) st'(1) by (simp add: sink_ready_def)
      with Inr st' e f show ?thesis by auto
    qed
  qed
qed

lemma trace_headers_received:
  "trace_headers S m peer now = Inr headers \<Longrightarrow> \<exists>rest. headers = received_header (qs_hostname S) m peer now @ rest"
  by (auto simp: trace_headers_def Let_def split: if_splits option.splits)

lemma sink_handle_effect:
  assumes "sink_ready S st" and "sink_handle S st m peer = (st', r)"
  shows "sink_ready S st' \<and>
    (case r of
       Inl _ \<Rightarrow> sink_queue S st' = sink_queue S st
     | Inr _ \<Rightarrow> \<exists>e. entry_of S m peer (qs_now_millis S (sk_drawn st) sdiv 1000) e \<and> sink_queue S st (qe_id e) = None \<and>
                 sink_queue S st' = (sink_queue S st)(qe_id e \<mapsto> e))"
proof -
  let ?now = "qs_now_millis S (sk_drawn st) sdiv 1000"
  from assms(2) consider rejection where "st' = st" "r = Inl rejection"
    | headers where "trace_headers S m peer ?now = Inr headers" "store_message S m (headers @ am_data m) ?now st = (st', r)"
    by (auto simp: sink_handle_def Let_def split: if_splits sum.splits)
  then show ?thesis
  proof cases
    case 1
    with assms(1) show ?thesis by simp
  next
    case 2
    from store_message_effect [OF assms(1) 2(2)] 2(1) show ?thesis
      by (auto simp: entry_of_def split: sum.splits)
  qed
qed

text \<open>
  \<^bold>\<open>C20\<close> (no mail loops through this host). A message that the sink has put into the queue is refused
  when it comes back, from whatever peer, with whatever envelope and at any later time, however many
  header lines other hosts have put in front of it: the answer is 554 and the queue does not change.
\<close>

theorem mail_does_not_loop:
  assumes "sink_ready S st" and "plain_hostname (qs_hostname S)"
    and "sink_handle S st m peer = (st1, Inr ())" and "sink_queue S st1 i = Some e" and "sink_queue S st i = None"
    and "\<forall>l\<in>set ls. l \<noteq> [] \<and> LF \<notin> set l" and "am_data m' = concat (map (\<lambda>l. l @ CRLF) ls) @ qe_data e"
  shows "sink_handle S st2 m' peer' = (st2, Inl (with_enhanced 554 ''5.4.6'' TOO_MANY_HOPS))"
proof -
  let ?h = "qs_hostname S" and ?now = "qs_now_millis S (sk_drawn st) sdiv 1000"
  from sink_handle_effect [OF assms(1,3)] assms(4,5) have e: "entry_of S m peer ?now e" by (auto split: if_splits)
  then have ok: "entry_ok e" "qe_recipients e = am_recipients m" by (simp_all add: entry_of_def)
  from e obtain headers where h: "trace_headers S m peer ?now = Inr headers" "qe_data e = headers @ am_data m"
    by (auto simp: entry_of_def)
  from trace_headers_received [OF h(1)] h(2) obtain rest where rest: "qe_data e = received_header ?h m peer ?now @ rest" by auto
  have "\<forall>r\<in>set (am_recipients m). LF \<notin> set r" using ok by (auto simp: entry_ok_def has_line_break_def)
  from received_header_line [OF assms(2) this] obtain line where line: "received_header ?h m peer ?now = line @ CRLF"
    "LF \<notin> set line" "has_header_name line ''received''" "contains_ignore_ascii_case line (''by '' @ trim ?h)"
    "\<not> is_continuation line" by metis
  have "split_on LF (am_data m') = map (\<lambda>l. l @ [CR]) ls @ split_on LF (concat (map (\<lambda>l. l @ CRLF) [line]) @ rest)"
    using split_on_lines [of ls "qe_data e"] assms(6,7) rest line(1) by simp
  also have "split_on LF (concat (map (\<lambda>l. l @ CRLF) [line]) @ rest) = (line @ [CR]) # split_on LF rest"
    using split_on_lines [of "[line]" rest] line(2) by simp
  finally have sp: "split_on LF (am_data m') = map (\<lambda>l. l @ [CR]) ls @ (line @ [CR]) # split_on LF rest" .
  have "received_via_host (am_data m') ?h"
    unfolding received_via_host_def sp
    by (rule via_host_loop_append) (use line via_host_loop_received [of "line @ [CR]"] assms(6) in auto)
  then show ?thesis by (simp add: sink_handle_def)
qed

definition sample_sink_peer :: socket_addr where
  "sample_sink_peer = \<lparr>sa_ip = V4 7, sa_port = 25\<rparr>"

definition sample_message :: accepted_message where
  "sample_message =
     \<lparr>am_mail_from = ''a@x.org'', am_recipients = [''b@y.org''], am_data = ''hi'', am_helo = ''c'', am_role = Submission,
      am_authenticated = True, am_secured = True\<rparr>"

definition sample_sink_entry :: queue_entry where
  "sample_sink_entry =
     \<lparr>qe_id = ''0'', qe_kind = Outbound, qe_mail_from = ''a@x.org'', qe_recipients = [''b@y.org''],
      qe_data = received_header ''mx'' sample_message sample_sink_peer 0 @ ''hi'', qe_created_at = [], qe_attempts = 0,
      qe_next_attempt_unix = 0, qe_last_error = None, qe_last_code = None\<rparr>"

definition sample_sink :: queue_sink where
  "sample_sink =
     \<lparr>qs_hostname = ''mx'',
      qs_auth = \<lparr>ma_parse = (\<lambda>_. None), ma_verify_spf = (\<lambda>_ _ _ _. \<lparr>sp_status = SpfNone, sp_domain = [], sp_explanation = None\<rparr>),
                 ma_verify_dkim = (\<lambda>_. []), ma_verify_dmarc = (\<lambda>_ _ _ _. \<lparr>do_result = DmarcNone, do_domain = [], do_policy = PolicyNone\<rparr>),
                 ma_raw_record = (\<lambda>_. None), ma_draw = (\<lambda>_ _. 0)\<rparr>,
      qs_json = \<lparr>js_enc = (\<lambda>e. if e = sample_sink_entry then Some ''1'' else None),
                 js_dec = (\<lambda>raw. if raw = ''1'' then Some sample_sink_entry else None),
                 js_header = (\<lambda>raw. if raw = ''1'' then Some 0 else None),
                 js_enc_health = (\<lambda>_. Some ''h''), js_dec_health = (\<lambda>_. None)\<rparr>,
      qs_ids = nat_to_string, qs_stamp = (\<lambda>_. []), qs_now_millis = (\<lambda>_. 0)\<rparr>"

definition sample_sink_state :: sink_state where
  "sample_sink_state = \<lparr>sk_fs = empty_fs, sk_drawn = 0\<rparr>"

lemma sample_sink_ready: "sink_ready sample_sink sample_sink_state"
proof -
  have "inj nat_to_string" by (rule inj_on_inverseI [of _ digits_value]) simp
  moreover have "json_ok (qs_json sample_sink)"
    by (auto simp: json_ok_def sample_sink_def sample_sink_entry_def split: if_splits)
  moreover have "qs_ids sample_sink = nat_to_string" by (simp add: sample_sink_def)
  ultimately show ?thesis by (simp add: sink_ready_def sample_sink_state_def empty_store_ok)
qed

text \<open>The sink after it has accepted the sample.\<close>

definition sample_sink_after :: sink_state where
  "sample_sink_after = fst (sink_handle sample_sink sample_sink_state sample_message sample_sink_peer)"

lemma sample_accepted:
  "sink_handle sample_sink sample_sink_state sample_message sample_sink_peer = (sample_sink_after, Inr ())"
proof -
  have "snd (sink_handle sample_sink sample_sink_state sample_message sample_sink_peer) = Inr ()" by code_simp
  then show ?thesis by (simp add: prod_eq_iff sample_sink_after_def)
qed

theorem mail_does_not_loop_witness:
  "\<exists>e. sink_queue sample_sink sample_sink_after (qe_id e) = Some e \<and>
     snd (sink_handle sample_sink sample_sink_state
       (sample_message\<lparr>am_data := ''Subject: x'' @ CRLF @ qe_data e\<rparr>) sample_sink_peer) =
     Inl (with_enhanced 554 ''5.4.6'' TOO_MANY_HOPS)"
proof -
  from sink_handle_effect [OF sample_sink_ready sample_accepted] obtain e where
    e: "sink_queue sample_sink sample_sink_state (qe_id e) = None" "sink_queue sample_sink sample_sink_after (qe_id e) = Some e" by auto
  have "plain_hostname (qs_hostname sample_sink)" by code_simp
  moreover have "\<forall>l\<in>set [''Subject: x'']. l \<noteq> [] \<and> LF \<notin> set l" by simp
  ultimately show ?thesis
    using e(2) mail_does_not_loop [OF sample_sink_ready _ sample_accepted e(2,1), of "[''Subject: x'']"
        "sample_message\<lparr>am_data := ''Subject: x'' @ CRLF @ qe_data e\<rparr>" sample_sink_state sample_sink_peer]
    by (intro exI [of _ e]) simp
qed

end
