(* ===== verification/Relay.thy ===== *)
theory Relay
  imports RelayPolicy
begin

text \<open>
  The configured relay (\<open>src/crates/smtp/src/validate.rs\<close>), the choice of the outbound route
  (\<open>src/crates/smtp/src/policy.rs\<close>), the host check of \<open>src/crates/core/src/validate.rs\<close> and the
  errors of the SMTP client (\<open>src/crates/smtp/src/error.rs\<close>). The messages of the errors are texts
  for people; where a text goes into a bounce it is the \<open>Display\<close> of the error, a parameter there.
\<close>

datatype smtp_error =
    InvalidEndpoint
  | Dns
  | NoAcceptableAddress string
  | NullMx string
  | ConnectFailed
  | ConnectTimeout
  | TlsError
  | ProtocolError
  | HeaderInjection
  | ServerRejected string
  | IncompleteCredentials
  | TlsRequired
  | PrivateRelayDisabled
  | SmtpIo
  | ConfigError

fun smtp_error_kind :: "smtp_error \<Rightarrow> string" where
  "smtp_error_kind InvalidEndpoint = ''InvalidEndpoint''"
| "smtp_error_kind Dns = ''DnsError''"
| "smtp_error_kind (NoAcceptableAddress _) = ''NoAcceptableAddress''"
| "smtp_error_kind (NullMx _) = ''NullMx''"
| "smtp_error_kind ConnectFailed = ''ConnectionError''"
| "smtp_error_kind ConnectTimeout = ''ConnectTimeout''"
| "smtp_error_kind TlsError = ''TlsError''"
| "smtp_error_kind ProtocolError = ''ProtocolError''"
| "smtp_error_kind HeaderInjection = ''HeaderInjection''"
| "smtp_error_kind (ServerRejected _) = ''SmtpRejected''"
| "smtp_error_kind IncompleteCredentials = ''IncompleteCredentials''"
| "smtp_error_kind TlsRequired = ''TlsRequired''"
| "smtp_error_kind PrivateRelayDisabled = ''PrivateRelayDisabled''"
| "smtp_error_kind SmtpIo = ''IoError''"
| "smtp_error_kind ConfigError = ''ConfigError''"

text \<open>\<open>TlsMode\<close> of \<open>src/crates/smtp/src/dial.rs\<close>\<close>

datatype client_tls = StartTls | ImplicitTls

record relay_validation_request =
  rv_host :: string
  rv_port :: nat
  rv_tls_mode :: string
  rv_username :: string
  rv_password :: string
  rv_allow_private_network :: bool

record relay_endpoint =
  re_host :: string
  re_port :: nat
  re_tls_mode :: client_tls
  re_username :: string
  re_password :: string

definition ALLOWED_RELAY_PORTS :: "nat list" where "ALLOWED_RELAY_PORTS = [25, 465, 587, 2525]"

definition has_credentials :: "relay_endpoint \<Rightarrow> bool" where
  "has_credentials e \<longleftrightarrow> re_username e \<noteq> []"

definition relayhost :: "relay_endpoint \<Rightarrow> string" where
  "relayhost e = ''['' @ re_host e @ '']:'' @ nat_to_string (re_port e)"

definition requires_wrappermode :: "relay_endpoint \<Rightarrow> bool" where
  "requires_wrappermode e \<longleftrightarrow> re_tls_mode e = ImplicitTls \<or> re_port e = 465"

definition is_valid_relay_host :: "string \<Rightarrow> bool" where
  "is_valid_relay_host host =
     (if host = [] \<or> length host > 253 then False
      else if prefix ''.'' host \<or> suffix ''.'' host \<or> sublist ''..'' host then False
      else list_all (\<lambda>c. is_ascii_alphanumeric c \<or> c = CHR ''.'' \<or> c = CHR ''-'') host)"

text \<open>The characters that neither user name nor password may contain.\<close>

definition unsafe_credential :: "string \<Rightarrow> bool" where
  "unsafe_credential v \<longleftrightarrow> CR \<in> set v \<or> LF \<in> set v \<or> NUL \<in> set v \<or> SP \<in> set v \<or> HT \<in> set v"

definition parse_tls_mode :: "string \<Rightarrow> client_tls option" where
  "parse_tls_mode s =
     (if trim s = ''STARTTLS'' then Some StartTls
      else if trim s = ''SSL/TLS'' then Some ImplicitTls
      else None)"

definition validate_relay :: "relay_validation_request \<Rightarrow> bool \<Rightarrow> (smtp_error, relay_endpoint) result" where
  "validate_relay request private_network_enabled =
     (let host = trim (rv_host request) in
      if \<not> is_valid_relay_host host then Inl InvalidEndpoint
      else if rv_port request \<notin> set ALLOWED_RELAY_PORTS then Inl InvalidEndpoint
      else
        (case parse_tls_mode (rv_tls_mode request) of
           None \<Rightarrow> Inl TlsRequired
         | Some tls_mode \<Rightarrow>
             if length (rv_username request) > 256 then Inl InvalidEndpoint
             else if length (rv_password request) > 4096 then Inl InvalidEndpoint
             else if unsafe_credential (rv_username request) then Inl InvalidEndpoint
             else if unsafe_credential (rv_password request) then Inl InvalidEndpoint
             else if CHR '':'' \<in> set (rv_username request) then Inl InvalidEndpoint
             else
               (let has_user = rv_username request \<noteq> []; has_pass = rv_password request \<noteq> [] in
                if has_user \<noteq> has_pass then Inl IncompleteCredentials
                else if rv_allow_private_network request \<and> \<not> private_network_enabled then Inl PrivateRelayDisabled
                else Inr \<lparr>re_host = host, re_port = rv_port request, re_tls_mode = tls_mode,
                          re_username = rv_username request, re_password = rv_password request\<rparr>)))"

datatype outbound_route = Direct | ViaRelay string nat bool

fun route_port :: "outbound_route \<Rightarrow> nat" where
  "route_port Direct = 25"
| "route_port (ViaRelay _ port _) = port"

fun route_is_relay :: "outbound_route \<Rightarrow> bool" where
  "route_is_relay Direct = False"
| "route_is_relay (ViaRelay _ _ _) = True"

fun select_outbound_route :: "relay_endpoint option \<Rightarrow> outbound_route" where
  "select_outbound_route (Some e) = ViaRelay (re_host e) (re_port e) (requires_wrappermode e)"
| "select_outbound_route None = Direct"

section \<open>Properties\<close>

text \<open>The endpoints that may be configured.\<close>

definition endpoint_ok :: "relay_endpoint \<Rightarrow> bool" where
  "endpoint_ok e \<longleftrightarrow>
     is_valid_relay_host (re_host e) \<and> re_port e \<in> {25, 465, 587, 2525} \<and>
     \<not> unsafe_credential (re_username e) \<and> \<not> unsafe_credential (re_password e) \<and> CHR '':'' \<notin> set (re_username e) \<and>
     (re_username e = [] \<longleftrightarrow> re_password e = []) \<and> length (re_username e) \<le> 256 \<and> length (re_password e) \<le> 4096"

lemma validate_relay_ok: "validate_relay request enabled = Inr e \<Longrightarrow> endpoint_ok e"
  by (auto simp: validate_relay_def endpoint_ok_def Let_def ALLOWED_RELAY_PORTS_def split: if_splits option.splits)

lemma validate_relay_private:
  "validate_relay request enabled = Inr e \<Longrightarrow> rv_allow_private_network request \<Longrightarrow> enabled"
  by (auto simp: validate_relay_def Let_def split: if_splits option.splits)

text \<open>
  Relay configuration. A relay is accepted exactly when its host (up to surrounding white
  space) is a plain host name, its port is one of the four permitted ones, TLS is demanded in one
  of the two spellings, the credentials are both present or both absent, bounded and free of the
  characters that could break a command or the password table, and private addresses are asked
  for only where the deployment enables them; the endpoint then carries exactly these values.
\<close>

lemma validate_relay_exact:
  "validate_relay request enabled = Inr e \<longleftrightarrow>
     endpoint_ok e \<and> re_host e = trim (rv_host request) \<and> re_port e = rv_port request \<and>
     parse_tls_mode (rv_tls_mode request) = Some (re_tls_mode e) \<and>
     re_username e = rv_username request \<and> re_password e = rv_password request \<and>
     (rv_allow_private_network request \<longrightarrow> enabled)"
proof
  assume v: "validate_relay request enabled = Inr e"
  have "re_host e = trim (rv_host request) \<and> re_port e = rv_port request \<and>
     parse_tls_mode (rv_tls_mode request) = Some (re_tls_mode e) \<and>
     re_username e = rv_username request \<and> re_password e = rv_password request"
    using v by (auto simp: validate_relay_def Let_def split: if_splits option.splits)
  with validate_relay_ok [OF v] validate_relay_private [OF v] show "endpoint_ok e \<and> re_host e = trim (rv_host request) \<and>
     re_port e = rv_port request \<and> parse_tls_mode (rv_tls_mode request) = Some (re_tls_mode e) \<and>
     re_username e = rv_username request \<and> re_password e = rv_password request \<and>
     (rv_allow_private_network request \<longrightarrow> enabled)" by blast
next
  assume a: "endpoint_ok e \<and> re_host e = trim (rv_host request) \<and> re_port e = rv_port request \<and>
     parse_tls_mode (rv_tls_mode request) = Some (re_tls_mode e) \<and>
     re_username e = rv_username request \<and> re_password e = rv_password request \<and>
     (rv_allow_private_network request \<longrightarrow> enabled)"
  obtain h p t u w where e: "e = \<lparr>re_host = h, re_port = p, re_tls_mode = t, re_username = u, re_password = w\<rparr>"
    by (cases e) simp
  have "rv_port request \<in> set ALLOWED_RELAY_PORTS"
    using a unfolding endpoint_ok_def by (auto simp: ALLOWED_RELAY_PORTS_def)
  with a show "validate_relay request enabled = Inr e"
    unfolding e endpoint_ok_def relay_endpoint.simps
    by (auto simp: validate_relay_def Let_def)
qed

end
