(* ===== verification/Target.thy ===== *)
theory Target
  imports Relay Peer "HOL-Library.AList" "HOL-Library.Product_Lexorder"
begin

text \<open>
  Where outbound mail may connect to: the address policy and the pinned targets
  (\<open>src/crates/smtp/src/target.rs\<close>) and the choice of the mail exchangers
  (\<open>src/crates/smtp/src/mx.rs\<close>). The name service is not part of the repository: the answer of the
  MX lookup and of the address lookup are arguments. The classifications of an address that
  \<open>std::net\<close> provides (\<open>is_private\<close>, \<open>is_loopback\<close>, \<open>is_multicast\<close>, \<open>is_link_local\<close>,
  \<open>is_unspecified\<close>) are written out as the standard library documents them.
\<close>

section \<open>Addresses\<close>

definition octet :: "ipv4 \<Rightarrow> nat \<Rightarrow> 8 word" where
  "octet a i = ucast (drop_bit (8 * (3 - i)) a)"

definition ipv4_new :: "8 word \<Rightarrow> 8 word \<Rightarrow> 8 word \<Rightarrow> 8 word \<Rightarrow> ipv4" where
  "ipv4_new a b c d = ucast a * 0x1000000 + ucast b * 0x10000 + ucast c * 0x100 + ucast d"

fun is_unspecified :: "ip_addr \<Rightarrow> bool" where
  "is_unspecified (V4 a) = (a = 0)"
| "is_unspecified (V6 a) = (a = 0)"

fun is_loopback :: "ip_addr \<Rightarrow> bool" where
  "is_loopback (V4 a) = (octet a 0 = 127)"
| "is_loopback (V6 a) = (a = 1)"

fun is_multicast :: "ip_addr \<Rightarrow> bool" where
  "is_multicast (V4 a) = (224 \<le> octet a 0 \<and> octet a 0 \<le> 239)"
| "is_multicast (V6 a) = (segment a 0 AND 0xff00 = 0xff00)"

fun is_link_local :: "ip_addr \<Rightarrow> bool" where
  "is_link_local (V4 a) = (octet a 0 = 169 \<and> octet a 1 = 254)"
| "is_link_local (V6 a) = (segment a 0 AND 0xffc0 = 0xfe80)"

fun is_private :: "ip_addr \<Rightarrow> bool" where
  "is_private (V4 a) =
     (octet a 0 = 10 \<or> octet a 0 = 172 \<and> 16 \<le> octet a 1 \<and> octet a 1 \<le> 31 \<or> octet a 0 = 192 \<and> octet a 1 = 168)"
| "is_private (V6 a) = (segment a 0 AND 0xfe00 = 0xfc00)"

fun is_special_use :: "ip_addr \<Rightarrow> bool" where
  "is_special_use (V4 a) =
     (octet a 0 = 0 \<or>
      octet a 0 = 192 \<and> octet a 1 = 0 \<and> octet a 2 = 0 \<or>
      octet a 0 = 198 \<and> (octet a 1 = 18 \<or> octet a 1 = 19) \<or>
      octet a 0 = 100 \<and> octet a 1 AND 0xc0 = 0x40 \<or>
      octet a 0 AND 0xf0 = 0xf0 \<or>
      octet a 0 = 192 \<and> octet a 1 = 0 \<and> octet a 2 = 2 \<or>
      octet a 0 = 198 \<and> octet a 1 = 51 \<and> octet a 2 = 100 \<or>
      octet a 0 = 203 \<and> octet a 1 = 0 \<and> octet a 2 = 113 \<or>
      octet a 0 = 192 \<and> octet a 1 = 88 \<and> octet a 2 = 99)"
| "is_special_use (V6 a) =
     (segment a 0 = 0x2001 \<and> segment a 1 = 0x0db8 \<or>
      segment a 0 = 0x2001 \<and> segment a 1 = 0 \<or>
      segment a 0 = 0x2001 \<and> segment a 1 = 2 \<and> segment a 2 = 0 \<or>
      segment a 0 = 0x2001 \<and> segment a 1 AND 0xfff0 = 0x0020 \<or>
      segment a 0 AND 0xfff0 = 0x3ff0)"

text \<open>The closure \<open>split\<close>: four octets out of two groups; \<open>as u8\<close> truncates.\<close>

definition split_groups :: "16 word \<Rightarrow> 16 word \<Rightarrow> ipv4" where
  "split_groups high low = ipv4_new (ucast (drop_bit 8 high)) (ucast high) (ucast (drop_bit 8 low)) (ucast low)"

definition embedded_ipv4_candidates :: "ipv6 \<Rightarrow> ipv4 list" where
  "embedded_ipv4_candidates ip =
     (if list_all (\<lambda>i. segment ip i = 0) [0, 1, 2, 3, 4] \<and> segment ip 5 = 0xffff
      then [split_groups (segment ip 6) (segment ip 7)]
      else if segment ip 0 = 0x2002 then [split_groups (segment ip 1) (segment ip 2)]
      else if segment ip 0 = 0x2001 \<and> segment ip 1 = 0
      then [split_groups (segment ip 2) (segment ip 3), split_groups (NOT (segment ip 6)) (NOT (segment ip 7))]
      else [])"

fun is_private_network_address :: "ip_addr \<Rightarrow> bool" where
  "is_private_network_address (V6 v6) =
     (let embedded = embedded_ipv4_candidates v6 in
      if embedded \<noteq> [] then list_all (\<lambda>v4. is_private (V4 v4)) embedded
      else segment v6 0 AND 0xfe00 = 0xfc00)"
| "is_private_network_address ip = is_private ip"

section \<open>The address policy\<close>

record address_policy =
  ap_allow_private :: bool

definition public_only :: address_policy where "public_only = \<lparr>ap_allow_private = False\<rparr>"
definition allow_private :: address_policy where "allow_private = \<lparr>ap_allow_private = True\<rparr>"

text \<open>\<open>accepts\<close> after the embedded addresses have been dealt with.\<close>

definition accepts_plain :: "address_policy \<Rightarrow> ip_addr \<Rightarrow> bool" where
  "accepts_plain policy ip =
     (if ap_allow_private policy then \<not> is_unspecified ip \<and> \<not> is_multicast ip
      else if (case ip of V6 v6 \<Rightarrow> segment v6 0 AND 0xe000 \<noteq> 0x2000 | V4 _ \<Rightarrow> False) then False
      else \<not> (is_unspecified ip \<or> is_loopback ip \<or> is_multicast ip \<or> is_link_local ip \<or> is_private ip \<or> is_special_use ip))"

definition policy_accepts :: "address_policy \<Rightarrow> ip_addr \<Rightarrow> bool" where
  "policy_accepts policy ip =
     (case ip of
        V6 v6 \<Rightarrow>
          (let embedded = embedded_ipv4_candidates v6 in
           if embedded \<noteq> [] then list_all (\<lambda>v4. accepts_plain policy (V4 v4)) embedded
           else accepts_plain policy ip)
      | V4 _ \<Rightarrow> accepts_plain policy ip)"

definition address_policy_for :: "relay_validation_request \<Rightarrow> bool \<Rightarrow> address_policy" where
  "address_policy_for request private_network_enabled =
     (if rv_allow_private_network request \<and> private_network_enabled then allow_private else public_only)"

section \<open>Pinned targets\<close>

record pinned_target =
  pt_hostname :: string
  pt_addresses :: "ip_addr list"
  pt_pinned :: socket_addr

definition dial_addr :: "pinned_target \<Rightarrow> socket_addr" where "dial_addr = pt_pinned"

definition pinned_from_addresses ::
  "string \<Rightarrow> nat \<Rightarrow> ip_addr list \<Rightarrow> address_policy \<Rightarrow> (smtp_error, pinned_target) result" where
  "pinned_from_addresses hostname port addresses policy =
     (let hostname = to_ascii_lowercase (trim hostname) in
      if hostname = [] then Inl InvalidEndpoint
      else
        (let accepted = filter (policy_accepts policy) addresses in
         if accepted = [] then Inl (NoAcceptableAddress hostname)
         else Inr \<lparr>pt_hostname = hostname, pt_addresses = accepted,
                   pt_pinned = \<lparr>sa_ip = hd accepted, sa_port = port\<rparr>\<rparr>))"

text \<open>What the address lookup of a host and port ends with.\<close>

datatype lookup_outcome = LookupTimedOut | LookupFailed | LookedUp "socket_addr list"

definition resolve_pinned ::
  "(string \<Rightarrow> nat \<Rightarrow> lookup_outcome) \<Rightarrow> string \<Rightarrow> nat \<Rightarrow> address_policy \<Rightarrow> (smtp_error, pinned_target) result" where
  "resolve_pinned lookup_host hostname port policy =
     (let hostname = to_ascii_lowercase (trim hostname) in
      if hostname = [] then Inl InvalidEndpoint
      else
        (case lookup_host hostname port of
           LookupTimedOut \<Rightarrow> Inl Dns
         | LookupFailed \<Rightarrow> Inl Dns
         | LookedUp resolved \<Rightarrow>
             (let addresses = filter (policy_accepts policy) (map sa_ip resolved) in
              if addresses = [] then Inl (NoAcceptableAddress hostname)
              else Inr \<lparr>pt_hostname = hostname, pt_addresses = addresses,
                        pt_pinned = \<lparr>sa_ip = hd addresses, sa_port = port\<rparr>\<rparr>)))"

section \<open>Mail exchangers\<close>

definition DIRECT_DELIVERY_PORT :: nat where "DIRECT_DELIVERY_PORT = 25"
definition MAX_MX_CANDIDATES :: nat where "MAX_MX_CANDIDATES = 10"

record mx_record =
  mx_preference :: nat
  mx_host :: string

datatype mx_targets = Hosts "mx_record list" | ImplicitMx string | NullTargets string

definition trim_end_matches :: "char \<Rightarrow> string \<Rightarrow> string" where
  "trim_end_matches c s = rev (dropWhile (\<lambda>x. x = c) (rev s))"

definition normalise_domain :: "string \<Rightarrow> string" where
  "normalise_domain domain = to_ascii_lowercase (trim_end_matches (CHR ''.'') (trim domain))"

definition normalise_host :: "string \<Rightarrow> string" where
  "normalise_host host =
     (let host = to_ascii_lowercase (trim_end_matches (CHR ''.'') (trim host)) in
      if host = ''.'' then [] else host)"

text \<open>
  The loop of \<open>classify_mx\<close> over the answers: the best preference per host, or \<open>None\<close> for the
  empty host that stands for the null MX. A \<open>BTreeMap\<close> is an association list with one pair per key.
\<close>

fun mx_loop :: "mx_record list \<Rightarrow> (string \<times> nat) list \<Rightarrow> (string \<times> nat) list option" where
  "mx_loop [] by_host = Some by_host"
| "mx_loop (r # records) by_host =
     (let host = normalise_host (mx_host r) in
      if host = [] then None
      else mx_loop records
             (AList.update host
               (case map_of by_host host of Some existing \<Rightarrow> min existing (mx_preference r) | None \<Rightarrow> mx_preference r)
               by_host))"

definition classify_mx :: "string \<Rightarrow> mx_record list \<Rightarrow> mx_targets" where
  "classify_mx domain records =
     (let domain = normalise_domain domain in
      case mx_loop records [] of
        None \<Rightarrow> NullTargets domain
      | Some by_host \<Rightarrow>
          if by_host = [] then ImplicitMx domain
          else
            (let hosts = map (\<lambda>(host, preference). \<lparr>mx_preference = preference, mx_host = host\<rparr>) (sort_key fst by_host)
             in Hosts (sort_key (\<lambda>r. (mx_preference r, mx_host r)) hosts)))"

fun resolve_candidates ::
  "(string \<Rightarrow> nat \<Rightarrow> lookup_outcome) \<Rightarrow> nat \<Rightarrow> address_policy \<Rightarrow> string list \<Rightarrow>
   pinned_target list \<Rightarrow> smtp_error option \<Rightarrow> pinned_target list \<times> smtp_error option" where
  "resolve_candidates lookup_host port policy [] targets last_error = (targets, last_error)"
| "resolve_candidates lookup_host port policy (host # candidates) targets last_error =
     (case resolve_pinned lookup_host host port policy of
        Inr target \<Rightarrow> resolve_candidates lookup_host port policy candidates (targets @ [target]) last_error
      | Inl error \<Rightarrow> resolve_candidates lookup_host port policy candidates targets (Some error))"

definition resolve_mx_targets ::
  "(string \<Rightarrow> nat \<Rightarrow> lookup_outcome) \<Rightarrow> (string \<Rightarrow> (smtp_error, mx_record list) result) \<Rightarrow> string \<Rightarrow> nat \<Rightarrow> address_policy \<Rightarrow>
   (smtp_error, pinned_target list) result" where
  "resolve_mx_targets lookup_host lookup_mx domain port policy =
     (case lookup_mx domain of
        Inl error \<Rightarrow> Inl error
      | Inr records \<Rightarrow>
          (case (case classify_mx domain records of
                   NullTargets d \<Rightarrow> Inl (NullMx d)
                 | ImplicitMx d \<Rightarrow> Inr [d]
                 | Hosts hosts \<Rightarrow> Inr (map mx_host hosts)) of
             Inl error \<Rightarrow> Inl error
           | Inr candidates \<Rightarrow>
               (let (targets, last_error) =
                      resolve_candidates lookup_host port policy (take MAX_MX_CANDIDATES candidates) [] None
                in if targets = [] then Inl (case last_error of Some e \<Rightarrow> e | None \<Rightarrow> Dns) else Inr targets)))"

section \<open>Networks\<close>

text \<open>Membership of an address in a network given by its first address and prefix length.\<close>

definition in_net :: "'a::len word \<times> nat \<Rightarrow> 'a word \<Rightarrow> bool" where
  "in_net net a \<longleftrightarrow> drop_bit (LENGTH('a) - snd net) a = drop_bit (LENGTH('a) - snd net) (fst net)"

lemma unat_drop: "unat (drop_bit n w) = unat w div 2 ^ n"
  by (subst unat_drop_bit_eq) (rule drop_bit_eq_div)

lemma in_net_unat: "in_net net (a :: 'a::len word) \<longleftrightarrow>
    unat a div 2 ^ (LENGTH('a) - snd net) = unat (fst net) div 2 ^ (LENGTH('a) - snd net)"
  by (simp add: in_net_def word_unat_eq_iff unat_drop)

text \<open>The IPv4 networks that are not part of the public Internet.\<close>

definition reserved_v4 :: "(ipv4 \<times> nat) list" where
  "reserved_v4 =
     [(0x00000000, 8), (0x0A000000, 8), (0x64400000, 10), (0x7F000000, 8), (0xA9FE0000, 16), (0xAC100000, 12),
      (0xC0000000, 24), (0xC0000200, 24), (0xC0586300, 24), (0xC0A80000, 16), (0xC6120000, 15), (0xC6336400, 24),
      (0xCB007100, 24), (0xE0000000, 4), (0xF0000000, 4)]"

definition public_v4 :: "ipv4 \<Rightarrow> bool" where
  "public_v4 a \<longleftrightarrow> \<not> list_ex (\<lambda>net. in_net net a) reserved_v4"

lemma unat_octet: "unat (octet a i) = unat a div 2 ^ (8 * (3 - i)) mod 256"
  by (simp add: octet_def unat_drop take_bit_eq_mod unsigned_ucast_eq)

lemma unat_segment: "unat (segment a i) = unat a div 2 ^ (16 * (7 - i)) mod 65536"
  by (simp add: segment_def unat_drop take_bit_eq_mod unsigned_ucast_eq)

text \<open>Comparing the upper bits of a word.\<close>

lemma and_upper: "(w :: 'a::len word) AND NOT (mask k) = push_bit k (drop_bit k w)"
  by (rule bit_word_eqI) (auto simp: bit_simps)

lemma upper_bits_eq:
  assumes "m = NOT (mask k)" "d = push_bit k c" "unat c * 2 ^ k < 2 ^ LENGTH('a)"
  shows "(w :: 'a::len word) AND m = d \<longleftrightarrow> unat w div 2 ^ k = unat c"
proof -
  have "unat (push_bit k c) = unat c * 2 ^ k"
    by (subst unsigned_push_bit_eq) (simp only: push_bit_eq_mult take_bit_eq_mod mod_less assms(3))
  then have c: "drop_bit k (push_bit k c) = c" by (simp add: word_unat_eq_iff unat_drop)
  have "w AND NOT (mask k) = push_bit k c \<longleftrightarrow> drop_bit k w = c"
  proof
    assume "w AND NOT (mask k) = push_bit k c"
    then have "drop_bit k (push_bit k (drop_bit k w)) = drop_bit k (push_bit k c)" by (simp add: and_upper)
    moreover have "drop_bit k (push_bit k (drop_bit k w)) = drop_bit k w"
      by (rule bit_word_eqI) (auto simp: bit_simps dest: bit_imp_le_length)
    ultimately show "drop_bit k w = c" using c by simp
  qed (simp add: and_upper)
  then show ?thesis by (simp add: assms word_unat_eq_iff unat_drop)
qed

lemmas upper_masks = mask_eq_exp_minus_1 push_bit_eq_mult

lemma octet_masks:
  "(w :: 8 word) AND 0xc0 = 0x40 \<longleftrightarrow> unat w div 64 = 1"
  "(w :: 8 word) AND 0xf0 = 0xf0 \<longleftrightarrow> unat w div 16 = 15"
  by (rule upper_bits_eq [where k = 6 and c = 1, THEN trans]; simp add: upper_masks)
     (rule upper_bits_eq [where k = 4 and c = 15, THEN trans]; simp add: upper_masks)

lemma group_masks:
  "(w :: 16 word) AND 0xff00 = 0xff00 \<longleftrightarrow> unat w div 256 = 255"
  "w AND 0xffc0 = 0xfe80 \<longleftrightarrow> unat w div 64 = 1018"
  "w AND 0xfe00 = 0xfc00 \<longleftrightarrow> unat w div 512 = 126"
  "w AND 0xe000 = 0x2000 \<longleftrightarrow> unat w div 8192 = 1"
  "w AND 0xfff0 = 0x0020 \<longleftrightarrow> unat w div 16 = 2"
  "w AND 0xfff0 = 0x3ff0 \<longleftrightarrow> unat w div 16 = 1023"
  subgoal by (rule upper_bits_eq [where k = 8 and c = 255, THEN trans]; simp add: upper_masks)
  subgoal by (rule upper_bits_eq [where k = 6 and c = 1018, THEN trans]; simp add: upper_masks)
  subgoal by (rule upper_bits_eq [where k = 9 and c = 126, THEN trans]; simp add: upper_masks)
  subgoal by (rule upper_bits_eq [where k = 13 and c = 1, THEN trans]; simp add: upper_masks)
  subgoal by (rule upper_bits_eq [where k = 4 and c = 2, THEN trans]; simp add: upper_masks)
  subgoal by (rule upper_bits_eq [where k = 4 and c = 1023, THEN trans]; simp add: upper_masks)
  done

lemma nat_octets:
  "n < 4294967296 \<Longrightarrow>
   (n :: nat) = n div 16777216 mod 256 * 16777216 + n div 65536 mod 256 * 65536 + n div 256 mod 256 * 256 + n mod 256"
proof -
  assume "n < 4294967296"
  then have "n div 16777216 mod 256 = n div 16777216" by (simp add: less_mult_imp_div_less)
  moreover have "n div 65536 = n div 256 div 256" "n div 16777216 = n div 65536 div 256"
    by (simp_all flip: div_mult2_eq)
  ultimately show ?thesis
    using div_mult_mod_eq [of n 256] div_mult_mod_eq [of "n div 256" 256] div_mult_mod_eq [of "n div 65536" 256]
    by linarith
qed

lemma digits_eq:
  assumes "x < k" "v < (k :: nat)"
  shows "p * k + x = u * k + v \<longleftrightarrow> p = u \<and> x = v"
proof
  assume e: "p * k + x = u * k + v"
  then have "(p * k + x) div k = (u * k + v) div k" by simp
  with assms have "p = u" by simp
  with e show "p = u \<and> x = v" by simp
qed simp

lemma base256_eq:
  assumes "q < 256" "r < 256" "v < 256" "w < (256 :: nat)" "c = u * 65536 + v * 256 + w"
  shows "p * 65536 + q * 256 + r = c \<longleftrightarrow> p = u \<and> q = v \<and> r = w"
  using digits_eq [OF assms(2,4), of "p * 256 + q" "u * 256 + v"] digits_eq [OF assms(1,3), of p u] 
  by (simp add: algebra_simps assms(5))

lemma octets_of:
  obtains p q r t where "unat (octet a 0) = p" "unat (octet a 1) = q" "unat (octet a 2) = r" "unat (octet a 3) = t"
    "unat a = p * 16777216 + q * 65536 + r * 256 + t" "p < 256" "q < 256" "r < 256" "t < 256"
proof
  have "unat a < 4294967296" using unsigned_less [of a] by simp
  then show "unat a = unat (octet a 0) * 16777216 + unat (octet a 1) * 65536 + unat (octet a 2) * 256 + unat (octet a 3)"
    using nat_octets [of "unat a"] by (simp only: unat_octet) simp
qed (simp_all add: unat_octet)

lemma accepts_plain_v4: "accepts_plain public_only (V4 a) \<longleftrightarrow> public_v4 a"
proof -
  obtain p q r t where o: "unat (octet a 0) = p" "unat (octet a 1) = q" "unat (octet a 2) = r" "unat (octet a 3) = t"
    and n: "unat a = p * 16777216 + q * 65536 + r * 256 + t" and b: "p < 256" "q < 256" "r < 256" "t < 256"
    by (rule octets_of)
  have d256: "unat a div 256 = p * 65536 + q * 256 + r" using n b by simp
  have d65536: "unat a div 65536 = p * 256 + q" using n b by simp
  have d16777216: "unat a div 16777216 = p" using n b by simp
  have d131072: "unat a div 131072 = p * 128 + q div 2" using div_mult2_eq [of "unat a" 65536 2] d65536 by simp
  have d1048576: "unat a div 1048576 = p * 16 + q div 16" using div_mult2_eq [of "unat a" 65536 16] d65536 by simp
  have d4194304: "unat a div 4194304 = p * 4 + q div 64" using div_mult2_eq [of "unat a" 65536 64] d65536 by simp
  have d268435456: "unat a div 268435456 = p div 16" using div_mult2_eq [of "unat a" 16777216 16] d16777216 by simp
  note d = d256 d65536 d16777216 d131072 d1048576 d4194304 d268435456
  have e: "p * 4 + q div 64 = 401 \<longleftrightarrow> p = 100 \<and> q div 64 = 1"
    "p * 16 + q div 16 = 2753 \<longleftrightarrow> p = 172 \<and> q div 16 = 1"
    "p * 128 + q div 2 = 25353 \<longleftrightarrow> p = 198 \<and> q div 2 = 9"
    "p * 256 + q = 43518 \<longleftrightarrow> p = 169 \<and> q = 254"
    "p * 256 + q = 49320 \<longleftrightarrow> p = 192 \<and> q = 168"
    using digits_eq [of "q div 64" 4 1 p 100] digits_eq [of "q div 16" 16 1 p 172] digits_eq [of "q div 2" 128 9 p 198]
      digits_eq [OF b(2), of 254 p 169] digits_eq [OF b(2), of 168 p 192] b by simp_all
  have f: "p * 65536 + q * 256 + r = 12582912 \<longleftrightarrow> p = 192 \<and> q = 0 \<and> r = 0"
    "p * 65536 + q * 256 + r = 12582914 \<longleftrightarrow> p = 192 \<and> q = 0 \<and> r = 2"
    "p * 65536 + q * 256 + r = 12605539 \<longleftrightarrow> p = 192 \<and> q = 88 \<and> r = 99"
    "p * 65536 + q * 256 + r = 12989284 \<longleftrightarrow> p = 198 \<and> q = 51 \<and> r = 100"
    "p * 65536 + q * 256 + r = 13303921 \<longleftrightarrow> p = 203 \<and> q = 0 \<and> r = 113"
    by (rule base256_eq [OF b(2) b(3)]; simp)+
  have g: "q div 16 = 1 \<longleftrightarrow> 16 \<le> q \<and> q \<le> 31" "q div 2 = 9 \<longleftrightarrow> q = 18 \<or> q = 19" "p div 16 = 14 \<longleftrightarrow> 224 \<le> p \<and> p \<le> 239"
    by (rule iffI; linarith)+
  have "public_v4 a \<longleftrightarrow>
      \<not> (p = 0 \<or> p = 10 \<or> p = 100 \<and> q div 64 = 1 \<or> p = 127 \<or> p = 169 \<and> q = 254 \<or> p = 172 \<and> q div 16 = 1 \<or>
         p = 192 \<and> q = 0 \<and> r = 0 \<or> p = 192 \<and> q = 0 \<and> r = 2 \<or> p = 192 \<and> q = 88 \<and> r = 99 \<or> p = 192 \<and> q = 168 \<or>
         p = 198 \<and> q div 2 = 9 \<or> p = 198 \<and> q = 51 \<and> r = 100 \<or> p = 203 \<and> q = 0 \<and> r = 113 \<or> p div 16 = 14 \<or> p div 16 = 15)"
    by (simp add: public_v4_def reserved_v4_def in_net_unat d e f)
  moreover have "accepts_plain public_only (V4 a) \<longleftrightarrow>
      \<not> (unat a = 0 \<or> p = 127 \<or> 224 \<le> p \<and> p \<le> 239 \<or> p = 169 \<and> q = 254 \<or>
         (p = 10 \<or> p = 172 \<and> 16 \<le> q \<and> q \<le> 31 \<or> p = 192 \<and> q = 168) \<or>
         (p = 0 \<or> p = 192 \<and> q = 0 \<and> r = 0 \<or> p = 198 \<and> (q = 18 \<or> q = 19) \<or> p = 100 \<and> q div 64 = 1 \<or> p div 16 = 15 \<or>
          p = 192 \<and> q = 0 \<and> r = 2 \<or> p = 198 \<and> q = 51 \<and> r = 100 \<or> p = 203 \<and> q = 0 \<and> r = 113 \<or> p = 192 \<and> q = 88 \<and> r = 99))"
    unfolding accepts_plain_def public_only_def is_special_use.simps octet_masks
    by (simp add: word_unat_eq_iff word_le_nat_alt o [unfolded One_nat_def])
  moreover have "unat a = 0 \<longrightarrow> p = 0" using n by simp
  ultimately show ?thesis unfolding g by satx
qed

text \<open>
  The IPv6 networks that are excluded from the global unicast range \<open>2000::/3\<close>, and the address
  that an IPv6 address of one of the transition mechanisms stands for.
\<close>

definition reserved_v6 :: "(ipv6 \<times> nat) list" where
  "reserved_v6 =
     [(0x20010DB8000000000000000000000000, 32), (0x20010002000000000000000000000000, 48),
      (0x20010020000000000000000000000000, 28), (0x3FF00000000000000000000000000000, 12)]"

definition mapped_net :: "ipv6 \<times> nat" where "mapped_net = (0x00000000000000000000FFFF00000000, 96)"
definition sixtofour_net :: "ipv6 \<times> nat" where "sixtofour_net = (0x20020000000000000000000000000000, 16)"
definition teredo_net :: "ipv6 \<times> nat" where "teredo_net = (0x20010000000000000000000000000000, 32)"
definition global_net :: "ipv6 \<times> nat" where "global_net = (0x20000000000000000000000000000000, 3)"

definition public_v6 :: "ipv6 \<Rightarrow> bool" where
  "public_v6 a \<longleftrightarrow>
     (if in_net mapped_net a then public_v4 (ucast a)
      else if in_net sixtofour_net a then public_v4 (ucast (drop_bit 80 a))
      else if in_net teredo_net a then public_v4 (ucast (drop_bit 64 a)) \<and> public_v4 (NOT (ucast a))
      else in_net global_net a \<and> \<not> list_ex (\<lambda>net. in_net net a) reserved_v6)"

lemma ipv4_new_bits:
  "ipv4_new a b c d = push_bit 24 (ucast a) OR push_bit 16 (ucast b) OR push_bit 8 (ucast c) OR ucast d"
proof -
  have "(push_bit 24 (ucast a) :: ipv4) + push_bit 16 (ucast b) = push_bit 24 (ucast a) OR push_bit 16 (ucast b)"
    by (rule disjunctive_add) (auto simp: bit_simps dest: bit_imp_le_length)
  moreover have "(push_bit 24 (ucast a) OR push_bit 16 (ucast b) :: ipv4) + push_bit 8 (ucast c) =
      (push_bit 24 (ucast a) OR push_bit 16 (ucast b)) OR push_bit 8 (ucast c)"
    by (rule disjunctive_add) (auto simp: bit_simps dest: bit_imp_le_length)
  moreover have "((push_bit 24 (ucast a) OR push_bit 16 (ucast b)) OR push_bit 8 (ucast c) :: ipv4) + ucast d =
      ((push_bit 24 (ucast a) OR push_bit 16 (ucast b)) OR push_bit 8 (ucast c)) OR ucast d"
    by (rule disjunctive_add) (auto simp: bit_simps dest: bit_imp_le_length)
  ultimately show ?thesis by (simp add: ipv4_new_def push_bit_eq_mult or.assoc)
qed

lemma bit_split_groups:
  "n < 32 \<Longrightarrow> bit (split_groups h l) n \<longleftrightarrow> (if n < 16 then bit l n else bit h (n - 16))"
proof -
  assume n: "n < 32"
  consider "n < 8" | "8 \<le> n" "n < 16" | "16 \<le> n" "n < 24" | "24 \<le> n" by linarith
  then show ?thesis
    using n by cases (auto simp: split_groups_def ipv4_new_bits bit_simps)
qed

lemma split_segments:
  "split_groups (segment a 6) (segment a 7) = ucast a"
  "split_groups (segment a 1) (segment a 2) = ucast (drop_bit 80 a)"
  "split_groups (segment a 2) (segment a 3) = ucast (drop_bit 64 a)"
  "split_groups (NOT (segment a 6)) (NOT (segment a 7)) = NOT (ucast a)"
  by (rule bit_word_eqI; auto simp: bit_split_groups segment_def bit_simps)+

lemma unat_top_group: "unat (segment a 0) = unat a div 2 ^ 112"
proof -
  have "unat a < 2 ^ 112 * 65536" using unsigned_less [of a] by simp
  then have "unat a div 2 ^ 112 < 65536" by (simp add: less_mult_imp_div_less)
  then show ?thesis by (simp add: unat_segment)
qed

lemma next_group:
  assumes "i < 7" "k = 16 * (6 - i)" "m = 16 * (7 - i)" "j = Suc i"
  shows "unat a div 2 ^ k = unat a div 2 ^ m * 65536 + unat (segment a j)"
proof -
  have "16 * (7 - i) = 16 * (6 - i) + 16" "7 - Suc i = 6 - i" using assms by simp_all
  then have "unat a div 2 ^ (16 * (7 - i)) = unat a div 2 ^ (16 * (6 - i)) div 65536"
    by (simp only: power_add div_mult2_eq) simp
  with \<open>7 - Suc i = 6 - i\<close> show ?thesis by (simp add: unat_segment assms)
qed

lemma segment_less: "unat (segment a i) < 65536"
  using unsigned_less [of "segment a i"] by simp

lemma groups_of:
  obtains u v w x y z where
    "unat (segment a 0) = u" "unat (segment a 1) = v" "unat (segment a 2) = w" "unat (segment a 3) = x"
    "unat (segment a 4) = y" "unat (segment a 5) = z"
    "unat a div 2 ^ 112 = u" "unat a div 2 ^ 96 = u * 65536 + v" "unat a div 2 ^ 80 = (u * 65536 + v) * 65536 + w"
    "unat a div 2 ^ 32 = ((((u * 65536 + v) * 65536 + w) * 65536 + x) * 65536 + y) * 65536 + z"
    "v < 65536" "w < 65536" "x < 65536" "y < 65536" "z < 65536"
proof
  have g: "unat a div 2 ^ 96 = unat a div 2 ^ 112 * 65536 + unat (segment a 1)"
    "unat a div 2 ^ 80 = unat a div 2 ^ 96 * 65536 + unat (segment a 2)"
    "unat a div 2 ^ 64 = unat a div 2 ^ 80 * 65536 + unat (segment a 3)"
    "unat a div 2 ^ 48 = unat a div 2 ^ 64 * 65536 + unat (segment a 4)"
    "unat a div 2 ^ 32 = unat a div 2 ^ 48 * 65536 + unat (segment a 5)"
    by (rule next_group [where i = 0] next_group [where i = 1] next_group [where i = 2] next_group [where i = 3]
          next_group [where i = 4]; simp)+
  show "unat a div 2 ^ 112 = unat (segment a 0)" by (simp only: unat_top_group)
  show "unat a div 2 ^ 96 = unat (segment a 0) * 65536 + unat (segment a 1)"
    by (simp only: g unat_top_group)
  show "unat a div 2 ^ 80 = (unat (segment a 0) * 65536 + unat (segment a 1)) * 65536 + unat (segment a 2)"
    by (simp only: g unat_top_group)
  show "unat a div 2 ^ 32 = ((((unat (segment a 0) * 65536 + unat (segment a 1)) * 65536 + unat (segment a 2)) * 65536 +
      unat (segment a 3)) * 65536 + unat (segment a 4)) * 65536 + unat (segment a 5)"
    by (simp only: g unat_top_group)
qed (rule refl segment_less)+

lemma accepts_public_v6: "policy_accepts public_only (V6 a) \<longleftrightarrow> public_v6 a"
proof -
  obtain u v w x y z where s: "unat (segment a 0) = u" "unat (segment a 1) = v" "unat (segment a 2) = w"
      "unat (segment a 3) = x" "unat (segment a 4) = y" "unat (segment a 5) = z"
    and d: "unat a div 2 ^ 112 = u" "unat a div 2 ^ 96 = u * 65536 + v" "unat a div 2 ^ 80 = (u * 65536 + v) * 65536 + w"
      "unat a div 2 ^ 32 = ((((u * 65536 + v) * 65536 + w) * 65536 + x) * 65536 + y) * 65536 + z"
    and b: "v < 65536" "w < 65536" "x < 65536" "y < 65536" "z < 65536"
    by (rule groups_of)
  have zero: "q * 65536 + z = 65535 \<longleftrightarrow> q = 0 \<and> z = 65535" for q
    using digits_eq [OF b(5), of 65535 q 0] by simp
  have "in_net mapped_net a \<longleftrightarrow> unat a div 2 ^ 32 = 65535" by (simp add: in_net_unat mapped_net_def)
  also have "\<dots> \<longleftrightarrow> u = 0 \<and> v = 0 \<and> w = 0 \<and> x = 0 \<and> y = 0 \<and> z = 65535"
    unfolding d zero by simp
  finally have m: "in_net mapped_net a \<longleftrightarrow> list_all (\<lambda>i. segment a i = 0) [0, 1, 2, 3, 4] \<and> segment a 5 = 0xffff"
    by (simp add: word_unat_eq_iff s [unfolded One_nat_def])
  have t: "in_net sixtofour_net a \<longleftrightarrow> segment a 0 = 0x2002" 
    using d(1) by (simp add: in_net_unat sixtofour_net_def word_unat_eq_iff s)
  have n32: "unat a div 2 ^ 96 = 0x20010000 \<longleftrightarrow> u = 0x2001 \<and> v = 0" "unat a div 2 ^ 96 = 0x20010DB8 \<longleftrightarrow> u = 0x2001 \<and> v = 0xDB8"
    unfolding d using digits_eq [OF b(1), of 0 u 8193] digits_eq [OF b(1), of 3512 u 8193] by simp_all
  have e: "in_net teredo_net a \<longleftrightarrow> segment a 0 = 0x2001 \<and> segment a 1 = 0"
    using n32(1) by (simp add: in_net_unat teredo_net_def word_unat_eq_iff s [unfolded One_nat_def])
  have "unat a div 2 ^ 80 = 0x200100020000 \<longleftrightarrow> u = 0x2001 \<and> v = 2 \<and> w = 0"
    unfolding d using digits_eq [OF b(2), of 0 "u * 65536 + v" 536936450] digits_eq [OF b(1), of 2 u 8193] by simp
  moreover have "unat a div 2 ^ 100 = 0x2001002 \<longleftrightarrow> u = 0x2001 \<and> v div 16 = 2"
  proof -
    have "unat a div 2 ^ 100 = unat a div 2 ^ 96 div 16" by (simp flip: div_mult2_eq)
    also have "\<dots> = u * 4096 + v div 16" unfolding d by simp
    finally show ?thesis using digits_eq [of "v div 16" 4096 2 u 8193] b(1) by simp
  qed
  moreover have "unat a div 2 ^ 116 = 0x3ff \<longleftrightarrow> u div 16 = 0x3ff"
    unfolding d(1) [symmetric] by (simp flip: div_mult2_eq)
  ultimately have r: "list_ex (\<lambda>net. in_net net a) reserved_v6 \<longleftrightarrow> u = 0x2001 \<and> v = 0xDB8 \<or> u = 0x2001 \<and> v = 2 \<and> w = 0 \<or> u = 0x2001 \<and> v div 16 = 2 \<or> u div 16 = 0x3ff"
    using n32 by (simp add: in_net_unat reserved_v6_def)
  have g: "in_net global_net a \<longleftrightarrow> u div 8192 = 1"
    unfolding d(1) [symmetric] by (simp add: in_net_unat global_net_def flip: div_mult2_eq)
  have p: "accepts_plain public_only (V6 a) \<longleftrightarrow> in_net global_net a \<and> \<not> list_ex (\<lambda>net. in_net net a) reserved_v6"
    if "\<not> in_net teredo_net a"
  proof -
    have eqs: "segment a 0 = 0x2001 \<longleftrightarrow> u = 0x2001" "segment a 1 = 0xDB8 \<longleftrightarrow> v = 0xDB8" "segment a 1 = 0 \<longleftrightarrow> v = 0"
      "segment a 1 = 2 \<longleftrightarrow> v = 2" "segment a 2 = 0 \<longleftrightarrow> w = 0" "a = 0 \<longleftrightarrow> unat a = 0" "a = 1 \<longleftrightarrow> unat a = 1"
      by (simp_all add: word_unat_eq_iff s [unfolded One_nat_def])
    have "accepts_plain public_only (V6 a) \<longleftrightarrow>
        u div 8192 = 1 \<and>
        \<not> (unat a = 0 \<or> unat a = 1 \<or> u div 256 = 255 \<or> u div 64 = 1018 \<or> u div 512 = 126 \<or>
           (u = 0x2001 \<and> v = 0xDB8 \<or> u = 0x2001 \<and> v = 0 \<or> u = 0x2001 \<and> v = 2 \<and> w = 0 \<or> u = 0x2001 \<and> v div 16 = 2 \<or> u div 16 = 0x3ff))"
      unfolding accepts_plain_def public_only_def is_special_use.simps is_multicast.simps is_link_local.simps is_private.simps
        is_unspecified.simps is_loopback.simps group_masks s ip_addr.case address_policy.simps if_bool_eq_conj eqs
      by satx
    moreover have "u div 8192 = 1 \<longrightarrow> u div 256 \<noteq> 255 \<and> u div 64 \<noteq> 1018 \<and> u div 512 \<noteq> 126 \<and> u \<noteq> 0"
    proof
      assume "u div 8192 = 1"
      then have "8192 \<le> u" "u < 16384" by linarith+
      then have "u div 256 < 64" "u div 64 < 256" "u div 512 < 32" by (simp_all add: less_mult_imp_div_less)
      with \<open>8192 \<le> u\<close> show "u div 256 \<noteq> 255 \<and> u div 64 \<noteq> 1018 \<and> u div 512 \<noteq> 126 \<and> u \<noteq> 0" by simp
    qed
    moreover have "unat a = 0 \<longrightarrow> u = 0" "unat a = 1 \<longrightarrow> u = 0" using d(1) by auto
    moreover have "\<not> (u = 0x2001 \<and> v = 0)" using that e by (simp add: word_unat_eq_iff s [unfolded One_nat_def])
    ultimately show ?thesis unfolding r g by satx
  qed
  show ?thesis
    by (simp add: policy_accepts_def public_v6_def embedded_ipv4_candidates_def m t e p accepts_plain_v4 split_segments [unfolded One_nat_def])
qed

text \<open>
  \<^bold>\<open>C17\<close> (no request to internal networks). With the policy for public relays and direct delivery an
  address is accepted exactly when it is outside every reserved IPv4 network, or is an IPv6 address
  of the global unicast range outside the reserved ranges; an IPv6 address that carries an IPv4
  address (IPv4-mapped, 6to4, both halves of Teredo) is accepted exactly when what it carries is
  public, so that no spelling of an internal address passes.
\<close>

theorem public_only_exact:
  "policy_accepts public_only ip \<longleftrightarrow> (case ip of V4 a \<Rightarrow> public_v4 a | V6 a \<Rightarrow> public_v6 a)"
  by (cases ip) (simp_all add: accepts_public_v6, simp add: policy_accepts_def accepts_plain_v4)

section \<open>The order of the exchangers\<close>

text \<open>The reference: every host once, with its best preference, best first and then by name.\<close>

definition preferences :: "mx_record list \<Rightarrow> string \<Rightarrow> nat set" where
  "preferences rs h = mx_preference ` {r \<in> set rs. normalise_host (mx_host r) = h}"

definition exchangers :: "mx_record list \<Rightarrow> string list" where
  "exchangers rs =
     map snd (sorted_list_of_set ((\<lambda>h. (Min (preferences rs h), h)) ` (normalise_host \<circ> mx_host) ` set rs))"

lemma finite_preferences [simp]: "finite (preferences rs h)"
  by (simp add: preferences_def)

lemma preferences_Cons:
  "preferences (r # rs) h = (if normalise_host (mx_host r) = h then {mx_preference r} else {}) \<union> preferences rs h"
  by (auto simp: preferences_def)

lemma preferences_empty: "preferences rs h = {} \<longleftrightarrow> h \<notin> (normalise_host \<circ> mx_host) ` set rs"
  by (auto simp: preferences_def)

definition merge_preferences :: "nat option \<Rightarrow> nat set \<Rightarrow> nat option" where
  "merge_preferences acc ps =
     (case acc of Some p \<Rightarrow> Some (Min (insert p ps)) | None \<Rightarrow> if ps = {} then None else Some (Min ps))"

lemma merge_preferences_insert:
  "finite ps \<Longrightarrow> merge_preferences acc (insert q ps) =
     merge_preferences (Some (case acc of Some p \<Rightarrow> min p q | None \<Rightarrow> q)) ps"
  by (cases "ps = {}") (auto simp: merge_preferences_def ac_simps split: option.splits)

lemma mx_loop_spec:
  "mx_loop rs acc = Some m \<Longrightarrow> distinct (map fst acc) \<Longrightarrow>
     distinct (map fst m) \<and> (\<forall>h. map_of m h = merge_preferences (map_of acc h) (preferences rs h))"
proof (induction rs arbitrary: acc)
  case Nil
  then show ?case by (auto simp: merge_preferences_def preferences_def split: option.splits)
next
  case (Cons r rs)
  let ?h = "normalise_host (mx_host r)"
  let ?p = "case map_of acc ?h of Some e \<Rightarrow> min e (mx_preference r) | None \<Rightarrow> mx_preference r"
  have *: "distinct (map fst m) \<and> (\<forall>h. map_of m h = merge_preferences (map_of (AList.update ?h ?p acc) h) (preferences rs h))"
    using Cons.prems by (intro Cons.IH) (auto simp: Let_def distinct_update split: if_splits)
  have "merge_preferences (map_of (AList.update ?h ?p acc) h) (preferences rs h) =
      merge_preferences (map_of acc h) (preferences (r # rs) h)" for h
    by (cases "?h = h") (simp_all add: preferences_Cons merge_preferences_insert update_conv')
  with * show ?case by simp
qed

lemma mx_loop_None: "mx_loop rs acc = None \<longleftrightarrow> (\<exists>r \<in> set rs. normalise_host (mx_host r) = [])"
  by (induction rs arbitrary: acc) (auto simp: Let_def)

definition mx_key :: "mx_record \<Rightarrow> nat \<times> string" where
  "mx_key r = (mx_preference r, mx_host r)"

lemma classify_mx_hosts:
  assumes "classify_mx domain rs = Hosts hs"
  shows "map mx_host hs = exchangers rs"
proof -
  obtain m where m: "mx_loop rs [] = Some m" and
    hs: "hs = sort_key mx_key (map (\<lambda>(h, p). \<lparr>mx_preference = p, mx_host = h\<rparr>) (sort_key fst m))"
    using assms by (auto simp: classify_mx_def Let_def mx_key_def [abs_def] split: option.splits if_splits)
  from mx_loop_spec [OF m] have d: "distinct (map fst m)"
    and look: "map_of m h = (if preferences rs h = {} then None else Some (Min (preferences rs h)))" for h
    by (auto simp: merge_preferences_def)
  have keys: "set (map mx_key hs) = (\<lambda>h. (Min (preferences rs h), h)) ` (normalise_host \<circ> mx_host) ` set rs"
  proof -
    have "set (map mx_key hs) = (\<lambda>(h, p). (p, h)) ` set m"
      by (force simp: hs mx_key_def)
    also have "\<dots> = {(p, h). map_of m h = Some p}"
      using map_of_eq_Some_iff [OF d] by (auto simp: image_iff)
    also have "\<dots> = (\<lambda>h. (Min (preferences rs h), h)) ` {h. preferences rs h \<noteq> {}}"
      by (auto simp: look split: if_splits)
    finally show ?thesis by (simp add: preferences_empty)
  qed
  have "distinct (map mx_key hs)"
  proof -
    have "map mx_key (map (\<lambda>(h, p). \<lparr>mx_preference = p, mx_host = h\<rparr>) (sort_key fst m)) = map (\<lambda>(h, p). (p, h)) (sort_key fst m)"
      by (simp add: mx_key_def split_def)
    moreover have "distinct (sort_key fst m)" using d distinct_map by auto
    then have "distinct (map (\<lambda>(h, p). (p, h)) (sort_key fst m))"
      by (simp add: distinct_map inj_on_def split_def prod_eq_iff)
    ultimately have "distinct (map mx_key (map (\<lambda>(h, p). \<lparr>mx_preference = p, mx_host = h\<rparr>) (sort_key fst m)))" by (simp only:)
    then show ?thesis unfolding hs by (simp only: distinct_map [of mx_key] set_sort distinct_sort)
  qed
  moreover have "sorted (map mx_key hs)" by (simp add: hs)
  ultimately have "sorted_list_of_set (set (map mx_key hs)) = map mx_key hs"
    by (intro sorted_list_of_set.idem_if_sorted_distinct)
  then have "map mx_key hs = sorted_list_of_set ((\<lambda>h. (Min (preferences rs h), h)) ` (normalise_host \<circ> mx_host) ` set rs)"
    by (simp only: keys)
  then have "map snd (map mx_key hs) = exchangers rs" by (simp only: exchangers_def)
  then show ?thesis by (simp add: mx_key_def comp_def)
qed

text \<open>What a target is good for: it names a host and only addresses that the policy accepts.\<close>

definition target_ok :: "(string \<Rightarrow> nat \<Rightarrow> lookup_outcome) \<Rightarrow> nat \<Rightarrow> address_policy \<Rightarrow> pinned_target \<Rightarrow> bool" where
  "target_ok lookup_host port policy t \<longleftrightarrow>
     pt_addresses t \<noteq> [] \<and> list_all (policy_accepts policy) (pt_addresses t) \<and>
     pt_pinned t = \<lparr>sa_ip = hd (pt_addresses t), sa_port = port\<rparr> \<and>
     (\<exists>resolved. lookup_host (pt_hostname t) port = LookedUp resolved \<and> set (pt_addresses t) \<subseteq> sa_ip ` set resolved)"

lemma resolve_pinned_ok:
  "resolve_pinned L host port policy = Inr t \<Longrightarrow> target_ok L port policy t \<and> pt_hostname t = to_ascii_lowercase (trim host)"
  by (auto simp: resolve_pinned_def Let_def target_ok_def list_all_iff split: if_splits lookup_outcome.splits dest: arg_cong [where f = set])

lemma resolve_candidates_ok:
  "resolve_candidates L port policy hosts ts e = (us, e') \<Longrightarrow>
   \<exists>vs. us = ts @ vs \<and> list_all (target_ok L port policy) vs \<and> subseq (map pt_hostname vs) (map (to_ascii_lowercase \<circ> trim) hosts)"
proof (induction hosts arbitrary: ts e)
  case (Cons host hosts)
  show ?case
  proof (cases "resolve_pinned L host port policy")
    case (Inl err)
    with Cons show ?thesis by (auto dest!: Cons.IH)
  next
    case (Inr t)
    with Cons.prems have "resolve_candidates L port policy hosts (ts @ [t]) e = (us, e')" by simp
    from Cons.IH [OF this] obtain vs where "us = (ts @ [t]) @ vs" "list_all (target_ok L port policy) vs"
      "subseq (map pt_hostname vs) (map (to_ascii_lowercase \<circ> trim) hosts)" by blast
    then show ?thesis using resolve_pinned_ok [OF Inr] by (intro exI [of _ "t # vs"]) (simp add: comp_def)
  qed
qed simp

text \<open>
  Mail exchangers. When the targets of a domain are found there are between one and ten of
  them; each names only addresses that the policy accepts, all of them answers of the lookup for
  its host, and is pinned to the first; and the targets come in the order of the best preference of
  their hosts, ties broken by name, every host once, or are the domain itself when it has no MX
  record. A null MX among the records means that there is no target.
\<close>

lemma resolve_mx_targets_sound:
  assumes "resolve_mx_targets lookup_host lookup_mx domain port policy = Inr ts"
    and "lookup_mx domain = Inr records"
  shows "ts \<noteq> [] \<and> length ts \<le> 10 \<and> list_all (target_ok lookup_host port policy) ts \<and>
     (\<forall>r \<in> set records. normalise_host (mx_host r) \<noteq> []) \<and>
     subseq (map pt_hostname ts)
       (map (to_ascii_lowercase \<circ> trim) (if records = [] then [normalise_domain domain] else exchangers records))"
proof -
  define hosts where "hosts = (if records = [] then [normalise_domain domain] else exchangers records)"
  have nn: "mx_loop records [] \<noteq> None"
    using assms by (cases "mx_loop records []") (simp_all add: resolve_mx_targets_def classify_mx_def)
  have "(case classify_mx domain records of
                   NullTargets d \<Rightarrow> Inl (NullMx d)
                 | ImplicitMx d \<Rightarrow> Inr [d]
                 | Hosts hosts \<Rightarrow> Inr (map mx_host hosts)) = Inr hosts"
  proof (cases "records = []")
    case True
    then show ?thesis by (simp add: classify_mx_def hosts_def)
  next
    case False
    obtain m where m: "mx_loop records [] = Some m" using nn by blast
    obtain r where "r \<in> set records" using False by (cases records) auto
    then have "preferences records (normalise_host (mx_host r)) \<noteq> {}" by (auto simp: preferences_def)
    with mx_loop_spec [OF m] have "m \<noteq> []" by (auto simp: merge_preferences_def split: if_splits)
    with m obtain hs where "classify_mx domain records = Hosts hs" by (simp add: classify_mx_def Let_def)
    with classify_mx_hosts [OF this] False show ?thesis by (simp add: hosts_def)
  qed
  with assms obtain e where rc: "resolve_candidates lookup_host port policy (take MAX_MX_CANDIDATES hosts) [] None = (ts, e)"
    and "ts \<noteq> []"
    by (auto simp: resolve_mx_targets_def split: prod.splits if_splits)
  from resolve_candidates_ok [OF rc] have ok: "list_all (target_ok lookup_host port policy) ts"
    and sub: "subseq (map pt_hostname ts) (map (to_ascii_lowercase \<circ> trim) (take MAX_MX_CANDIDATES hosts))" by auto
  have "length ts \<le> 10" using list_emb_length [OF sub] by (simp add: MAX_MX_CANDIDATES_def)
  moreover have "subseq (map pt_hostname ts) (map (to_ascii_lowercase \<circ> trim) hosts)"
    using subseq_order.trans [OF sub] by (simp add: take_map [symmetric] prefix_imp_subseq take_is_prefix)
  ultimately show ?thesis
    using ok \<open>ts \<noteq> []\<close> nn unfolding hosts_def mx_loop_None by auto
qed

definition sample_hosts :: "string \<Rightarrow> nat \<Rightarrow> lookup_outcome" where
  "sample_hosts host port =
     (if host = ''mx1.example.org'' then LookedUp [\<lparr>sa_ip = V4 0x0A000001, sa_port = port\<rparr>, \<lparr>sa_ip = V4 0x08080808, sa_port = port\<rparr>]
      else LookupFailed)"

definition sample_mx :: "mx_record list" where
  "sample_mx =
     [\<lparr>mx_preference = 20, mx_host = ''mx2.example.org.''\<rparr>, \<lparr>mx_preference = 10, mx_host = ''MX1.example.org''\<rparr>]"

definition sample_target :: pinned_target where
  "sample_target =
     \<lparr>pt_hostname = ''mx1.example.org'', pt_addresses = [V4 0x08080808],
      pt_pinned = \<lparr>sa_ip = V4 0x08080808, sa_port = 25\<rparr>\<rparr>"

end
