(* ===== verification/SmtpClient.thy ===== *)
theory SmtpClient
  imports Target DataSink
begin

text \<open>
  The SMTP client (\<open>src/crates/smtp/src/client.rs\<close>) and the stream it works on
  (\<open>src/crates/smtp/src/dial.rs\<close>). The peer and the clock are arguments: the events that reads and
  writes end with, and what the TLS handshake gives, are fields of the stream. A \<open>Chunk\<close> is what one
  read returns; a read or write that meets the session deadline ends with a timeout event. The
  record keeps, besides what the code keeps, the trace of the conversation: every write with whether
  the stream was encrypted, and every reply that was read.
\<close>

section \<open>Text helpers of the standard library\<close>

text \<open>
  \<open>String::from_utf8_lossy\<close>: the length of the first character, \<open>Inr\<close>, or of the longest part that
  starts like one but is not, \<open>Inl\<close>, which is replaced by U+FFFD.
\<close>

fun utf8_unit :: "string \<Rightarrow> nat + nat" where
  "utf8_unit [] = Inl 1"
| "utf8_unit (a # s) =
     (let at = (\<lambda>i P. i < length s \<and> P (s ! i)) in
      if ord a < 0x80 then Inr 1
      else if 0xC2 \<le> ord a \<and> ord a \<le> 0xDF then (if at 0 cont_byte then Inr 2 else Inl 1)
      else if 0xE0 \<le> ord a \<and> ord a \<le> 0xEF then
        (if \<not> at 0 (\<lambda>b. cont_byte b \<and> (ord a = 0xE0 \<longrightarrow> 0xA0 \<le> ord b) \<and> (ord a = 0xED \<longrightarrow> ord b \<le> 0x9F)) then Inl 1
         else if \<not> at 1 cont_byte then Inl 2 else Inr 3)
      else if 0xF0 \<le> ord a \<and> ord a \<le> 0xF4 then
        (if \<not> at 0 (\<lambda>b. cont_byte b \<and> (ord a = 0xF0 \<longrightarrow> 0x90 \<le> ord b) \<and> (ord a = 0xF4 \<longrightarrow> ord b \<le> 0x8F)) then Inl 1
         else if \<not> at 1 cont_byte then Inl 2 else if \<not> at 2 cont_byte then Inl 3 else Inr 4)
      else Inl 1)"

lemma utf8_unit_pos: "utf8_unit s = Inl n \<or> utf8_unit s = Inr n \<Longrightarrow> 0 < n"
  by (cases s) (auto simp: Let_def split: if_splits)

definition REPLACEMENT :: string where "REPLACEMENT = map char_of [0xEF, 0xBF, 0xBD :: nat]"

function from_utf8_lossy :: "string \<Rightarrow> string" where
  "from_utf8_lossy s =
     (if s = [] then []
      else case utf8_unit s of
             Inr n \<Rightarrow> take n s @ from_utf8_lossy (drop n s)
           | Inl n \<Rightarrow> REPLACEMENT @ from_utf8_lossy (drop n s))"
  by auto
termination
proof (relation "measure length")
  show "(drop n s, s) \<in> measure length" if "s \<noteq> []" "utf8_unit s = Inr n" for s n
    using that utf8_unit_pos [of s n] by (cases s) auto
  show "(drop n s, s) \<in> measure length" if "s \<noteq> []" "utf8_unit s = Inl n" for s n
    using that utf8_unit_pos [of s n] by (cases s) auto
qed simp

declare from_utf8_lossy.simps [simp del]

text \<open>\<open>s.get(n..)\<close>: nothing past the end and inside a character.\<close>

definition slice_from :: "nat \<Rightarrow> string \<Rightarrow> string option" where
  "slice_from n s =
     (if n = length s \<or> n < length s \<and> \<not> cont_byte (s ! n) then Some (drop n s) else None)"

definition strip_prefix :: "string \<Rightarrow> string \<Rightarrow> string option" where
  "strip_prefix p s = (if prefix p s then Some (drop (length p) s) else None)"

text \<open>\<open>slice.chunks(n)\<close>\<close>

function chunks :: "nat \<Rightarrow> 'a list \<Rightarrow> 'a list list" where
  "chunks n xs = (if xs = [] \<or> n = 0 then [] else take n xs # chunks n (drop n xs))"
  by auto
termination by (relation "measure (length \<circ> snd)") auto

declare chunks.simps [simp del]

section \<open>Replies and capabilities\<close>

definition MAX_RESPONSE_LINE_BYTES :: nat where "MAX_RESPONSE_LINE_BYTES = 4096"
definition MAX_RESPONSE_LINES :: nat where "MAX_RESPONSE_LINES = 64"
definition DATA_WRITE_CHUNK_BYTES :: nat where "DATA_WRITE_CHUNK_BYTES = 32 * 1024"

record response =
  rs_code :: nat
  rs_lines :: "string list"

definition rs_first_line :: "response \<Rightarrow> string" where
  "rs_first_line r = (case rs_lines r of [] \<Rightarrow> [] | l # _ \<Rightarrow> l)"

definition banner :: "response \<Rightarrow> string" where
  "banner r = take_chars 200 (join '' '' (rs_lines r))"

definition rs_is_positive :: "response \<Rightarrow> bool" where
  "rs_is_positive r \<longleftrightarrow> 200 \<le> rs_code r \<and> rs_code r < 400"

definition rs_is_positive_completion :: "response \<Rightarrow> bool" where
  "rs_is_positive_completion r \<longleftrightarrow> 200 \<le> rs_code r \<and> rs_code r < 300"

text \<open>\<open>Rejected\<close> carries the reply, whether it is permanent, and who accepted.\<close>

datatype message_outcome = MessageAccepted response | MessageRejected response bool "string list"

fun outcome_code :: "message_outcome \<Rightarrow> nat" where
  "outcome_code (MessageAccepted r) = rs_code r"
| "outcome_code (MessageRejected r _ _) = rs_code r"

fun outcome_is_accepted :: "message_outcome \<Rightarrow> bool" where
  "outcome_is_accepted (MessageAccepted _) = True"
| "outcome_is_accepted (MessageRejected _ _ _) = False"

fun is_permanent_failure :: "message_outcome \<Rightarrow> bool" where
  "is_permanent_failure (MessageAccepted _) = False"
| "is_permanent_failure (MessageRejected _ permanent _) = permanent"

record capabilities =
  cp_starttls :: bool
  cp_auth_mechanisms :: "string list"
  cp_raw :: "string list"

definition capabilities_default :: capabilities where
  "capabilities_default = \<lparr>cp_starttls = False, cp_auth_mechanisms = [], cp_raw = []\<rparr>"

definition supports :: "capabilities \<Rightarrow> string \<Rightarrow> bool" where
  "supports caps mechanism \<longleftrightarrow> list_ex (\<lambda>m. eq_ignore_ascii_case m mechanism) (cp_auth_mechanisms caps)"

definition parse_response_line :: "string \<Rightarrow> (smtp_error, nat \<times> bool) result" where
  "parse_response_line line =
     (if length line < 3 then Inl ProtocolError
      else if \<not> list_all is_ascii_digit (take 3 line) then Inl ProtocolError
      else Inr (digits_value (take 3 line), length line > 3 \<and> line ! 3 = CHR ''-''))"

definition push_mechanism :: "string list \<Rightarrow> string \<Rightarrow> string list" where
  "push_mechanism ms mech = (if mech \<in> set ms then ms else ms @ [mech])"

definition capability_line :: "capabilities \<Rightarrow> string \<Rightarrow> capabilities" where
  "capability_line caps line =
     (let body = trim (case slice_from 4 line of Some b \<Rightarrow> b | None \<Rightarrow> []);
          upper = to_ascii_uppercase body
      in if prefix ''STARTTLS'' upper then caps\<lparr>cp_starttls := True\<rparr>
         else (case strip_prefix ''AUTH '' upper of
                 Some rest \<Rightarrow>
                   caps\<lparr>cp_auth_mechanisms := foldl push_mechanism (cp_auth_mechanisms caps) (split_whitespace rest)\<rparr>
               | None \<Rightarrow> caps))"

definition parse_capabilities :: "response \<Rightarrow> capabilities" where
  "parse_capabilities r = foldl capability_line (capabilities_default\<lparr>cp_raw := rs_lines r\<rparr>) (rs_lines r)"

section \<open>Base64\<close>

definition TABLE :: string where
  "TABLE = ''ABCDEFGHIJKLMNOPQRSTUVWXYZabcdefghijklmnopqrstuvwxyz0123456789+/''"

definition base64_chunk :: "string \<Rightarrow> string" where
  "base64_chunk chunk =
     (let b = (\<lambda>i. if i < length chunk then ord (chunk ! i) else 0);
          n = b 0 * 65536 + b 1 * 256 + b 2
      in [TABLE ! (n div 262144 mod 64), TABLE ! (n div 4096 mod 64),
          if length chunk > 1 then TABLE ! (n div 64 mod 64) else CHR ''='',
          if length chunk > 2 then TABLE ! (n mod 64) else CHR ''=''])"

definition base64 :: "string \<Rightarrow> string" where
  "base64 input = concat (map base64_chunk (chunks 3 input))"

section \<open>Message data\<close>

definition has_addr_break :: "string \<Rightarrow> bool" where
  "has_addr_break a \<longleftrightarrow> CR \<in> set a \<or> LF \<in> set a \<or> NUL \<in> set a"

definition checked_addr :: "string \<Rightarrow> (smtp_error, string) result" where
  "checked_addr addr = (if has_addr_break addr then Inl HeaderInjection else Inr addr)"

definition stuff_line :: "string \<Rightarrow> string" where
  "stuff_line line =
     (let line = (if suffix [CR] line then butlast line else line)
      in if prefix ''.'' line then CHR ''.'' # line else line)"

definition dot_stuff :: "string \<Rightarrow> string" where
  "dot_stuff data = join CRLF (map stuff_line (split_on LF data))"

definition terminate_data :: "string \<Rightarrow> string" where
  "terminate_data data =
     (let body = dot_stuff data; separator = (if suffix CRLF body then [] else CRLF)
      in body @ separator @ ''.'' @ CRLF)"

section \<open>The session\<close>

datatype write_event = WriteOk | WriteFailed nat | WriteTimedOut nat

datatype tls_outcome = BadServerName | HandshakeFailed | HandshakeDone "read_event list"

datatype wire_event = Sent bool string | Got response

record smtp_session =
  ss_encrypted :: bool
  ss_buf :: string
  ss_reads :: "read_event list"
  ss_writes :: "write_event list"
  ss_tls :: tls_outcome
  ss_caps :: capabilities
  ss_trace :: "wire_event list"

type_synonym 'a smtp_io = "smtp_session \<Rightarrow> smtp_session \<times> (smtp_error, 'a) result"

text \<open>\<open>LineIo::read_line\<close>: what stays buffered, the reads left, and the line with its newline.\<close>

fun read_line :: "string \<Rightarrow> read_event list \<Rightarrow> string \<times> read_event list \<times> (smtp_error, string) result" where
  "read_line buf reads =
     (if LF \<in> set buf
      then (let n = Suc (length (takeWhile (\<lambda>c. c \<noteq> LF) buf))
            in (drop n buf, reads, Inr (from_utf8_lossy (take n buf))))
      else if length buf \<ge> MAX_RESPONSE_LINE_BYTES then (buf, reads, Inl SmtpIo)
      else
        (case reads of
           [] \<Rightarrow> ([], [], Inl SmtpIo)
         | ReadError # rest \<Rightarrow> (buf, rest, Inl SmtpIo)
         | ReadTimeout # rest \<Rightarrow> (buf, rest, Inl ProtocolError)
         | Chunk bytes # rest \<Rightarrow>
             if bytes = [] then ([], rest, Inl SmtpIo) else read_line (buf @ bytes) rest))"

declare read_line.simps [simp del]

definition trim_newlines :: "string \<Rightarrow> string" where
  "trim_newlines line = rev (dropWhile (\<lambda>c. c = CR \<or> c = LF) (rev line))"

function read_response_loop :: "string list \<Rightarrow> nat option \<Rightarrow> response smtp_io" where
  "read_response_loop lines code s =
     (let (buf, reads, r) = read_line (ss_buf s) (ss_reads s);
          s = s\<lparr>ss_buf := buf, ss_reads := reads\<rparr>
      in case r of
           Inl e \<Rightarrow> (s, Inl e)
         | Inr line \<Rightarrow>
             (let trimmed = trim_newlines line in
              case parse_response_line trimmed of
                Inl e \<Rightarrow> (s, Inl e)
              | Inr (this_code, continued) \<Rightarrow>
                  if (case code of None \<Rightarrow> False | Some first \<Rightarrow> first \<noteq> this_code) then (s, Inl ProtocolError)
                  else if \<not> continued then (s, Inr \<lparr>rs_code = this_code, rs_lines = lines @ [trimmed]\<rparr>)
                  else if length lines + 1 > MAX_RESPONSE_LINES then (s, Inl ProtocolError)
                  else read_response_loop (lines @ [trimmed]) (Some this_code) s))"
  by auto
termination
  by (relation "measure (\<lambda>(lines, _, _). Suc MAX_RESPONSE_LINES - length lines)") auto

declare read_response_loop.simps [simp del]

definition read_response :: "response smtp_io" where
  "read_response s =
     (case read_response_loop [] None s of
        (s, Inr r) \<Rightarrow> (s\<lparr>ss_trace := ss_trace s @ [Got r]\<rparr>, Inr r)
      | (s, Inl e) \<Rightarrow> (s, Inl e))"

text \<open>Writing and flushing under one timeout; a failed write may have sent a part.\<close>

definition write_wire :: "string \<Rightarrow> unit smtp_io" where
  "write_wire payload s =
     (let (event, rest) = (case ss_writes s of [] \<Rightarrow> (WriteOk, []) | w # ws \<Rightarrow> (w, ws));
          (sent, r) = (case event of
                         WriteOk \<Rightarrow> (payload, Inr ())
                       | WriteFailed n \<Rightarrow> (take n payload, Inl SmtpIo)
                       | WriteTimedOut n \<Rightarrow> (take n payload, Inl ProtocolError))
      in (s\<lparr>ss_writes := rest, ss_trace := ss_trace s @ [Sent (ss_encrypted s) sent]\<rparr>, r))"

definition write_line :: "string \<Rightarrow> unit smtp_io" where
  "write_line line = write_wire (line @ CRLF)"

definition smtp_command :: "string \<Rightarrow> response smtp_io" where
  "smtp_command line = io_bind (write_line line) (\<lambda>_. read_response)"

definition smtp_ehlo :: "string \<Rightarrow> response smtp_io" where
  "smtp_ehlo client_name s =
     (case smtp_command (''EHLO '' @ client_name) s of
        (s, Inl e) \<Rightarrow> (s, Inl e)
      | (s, Inr r) \<Rightarrow>
          (if rs_is_positive_completion r then s\<lparr>ss_caps := parse_capabilities r\<rparr> else s, Inr r))"

text \<open>\<open>EstablishedStream::upgrade\<close> and the fresh session on the upgraded stream.\<close>

definition stream_upgrade :: "unit smtp_io" where
  "stream_upgrade s =
     (if ss_encrypted s then (s, Inl ProtocolError)
      else (case ss_tls s of
              BadServerName \<Rightarrow> (s, Inl InvalidEndpoint)
            | HandshakeFailed \<Rightarrow> (s, Inl TlsError)
            | HandshakeDone reads \<Rightarrow>
                (s\<lparr>ss_encrypted := True, ss_buf := [], ss_reads := reads, ss_caps := capabilities_default\<rparr>, Inr ())))"

definition smtp_starttls :: "response smtp_io" where
  "smtp_starttls =
     io_bind (smtp_command ''STARTTLS'') (\<lambda>r.
       if \<not> rs_is_positive_completion r then io_fail (ServerRejected (banner r))
       else io_bind stream_upgrade (\<lambda>_. io_return r))"

definition authenticate :: "string \<Rightarrow> string \<Rightarrow> response smtp_io" where
  "authenticate username password s =
     (if unsafe_credential username \<or> unsafe_credential password then (s, Inl HeaderInjection)
      else if supports (ss_caps s) ''PLAIN''
      then smtp_command (''AUTH PLAIN '' @ base64 ([NUL] @ username @ [NUL] @ password)) s
      else if supports (ss_caps s) ''LOGIN''
      then
        io_bind (smtp_command ''AUTH LOGIN'') (\<lambda>challenge.
          if rs_code challenge \<noteq> 334 then io_fail (ServerRejected (banner challenge))
          else io_bind (smtp_command (base64 username)) (\<lambda>user_step.
                 if rs_code user_step \<noteq> 334 then io_fail (ServerRejected (banner user_step))
                 else smtp_command (base64 password))) s
      else (s, Inl (ServerRejected ''no supported AUTH mechanism offered by the server'')))"

section \<open>Sending a message\<close>

text \<open>The outcome of the recipients so far: accepted, first transient and first permanent refusal.\<close>

record rcpt_state =
  ra_accepted :: "string list"
  ra_transient :: "response option"
  ra_permanent :: "response option"

definition first_some :: "'a option \<Rightarrow> 'a option \<Rightarrow> 'a option" where
  "first_some x y = (case x of None \<Rightarrow> y | Some _ \<Rightarrow> x)"

definition rcpt_note :: "rcpt_state \<Rightarrow> string \<Rightarrow> response \<Rightarrow> rcpt_state" where
  "rcpt_note st rcpt r =
     (if rs_is_positive_completion r then st\<lparr>ra_accepted := ra_accepted st @ [rcpt]\<rparr>
      else if rs_code r \<ge> 500 then st\<lparr>ra_permanent := first_some (ra_permanent st) (Some r)\<rparr>
      else st\<lparr>ra_transient := first_some (ra_transient st) (Some r)\<rparr>)"

definition io_lift :: "('e, 'a) result \<Rightarrow> 's \<Rightarrow> 's \<times> ('e, 'a) result" where
  "io_lift r s = (s, r)"

fun rcpt_loop :: "string list \<Rightarrow> rcpt_state \<Rightarrow> rcpt_state smtp_io" where
  "rcpt_loop [] st = io_return st"
| "rcpt_loop (rcpt # rcpts) st =
     io_bind (io_lift (checked_addr rcpt)) (\<lambda>a.
     io_bind (smtp_command (''RCPT TO:<'' @ a @ ''>'')) (\<lambda>r.
     rcpt_loop rcpts (rcpt_note st rcpt r)))"

fun write_chunks :: "string list \<Rightarrow> unit smtp_io" where
  "write_chunks [] = io_return ()"
| "write_chunks (c # cs) = io_bind (write_wire c) (\<lambda>_. write_chunks cs)"

definition data_chunks :: "string \<Rightarrow> string list" where
  "data_chunks data = chunks DATA_WRITE_CHUNK_BYTES data"

definition flush_raw :: "unit smtp_io" where "flush_raw = write_wire []"

definition send_data :: "string \<Rightarrow> rcpt_state \<Rightarrow> message_outcome smtp_io" where
  "send_data data st =
     (let rcpt_rejection = first_some (ra_transient st) (ra_permanent st) in
      io_bind (smtp_command ''DATA'') (\<lambda>data_cmd.
        if rs_code data_cmd \<noteq> 354 then io_return (MessageRejected data_cmd (rs_code data_cmd \<ge> 500) [])
        else
          io_bind (write_chunks (data_chunks (terminate_data data))) (\<lambda>_.
          io_bind flush_raw (\<lambda>_.
          io_bind read_response (\<lambda>r.
            if rs_is_positive_completion r then
              (case rcpt_rejection of
                 None \<Rightarrow> io_return (MessageAccepted r)
               | Some rejection \<Rightarrow> io_return (MessageRejected rejection (ra_transient st = None) (ra_accepted st)))
            else io_return (MessageRejected r (rs_code r \<ge> 500) []))))))"

text \<open>
  Once every recipient has been refused there is a refusal to report: \<open>expect\<close> cannot fail, which
  \<open>rcpt_loop_refusal\<close> shows; the value of the model in that case is an error.
\<close>

definition send_message_detailed :: "string \<Rightarrow> string list \<Rightarrow> string \<Rightarrow> message_outcome smtp_io" where
  "send_message_detailed mail_from recipients data =
     io_bind (io_lift (checked_addr mail_from)) (\<lambda>a.
     io_bind (smtp_command (''MAIL FROM:<'' @ a @ ''>'')) (\<lambda>mail.
       if \<not> rs_is_positive_completion mail then io_return (MessageRejected mail (rs_code mail \<ge> 500) [])
       else if recipients = []
       then io_return (MessageRejected \<lparr>rs_code = 554, rs_lines = [''no valid recipients'']\<rparr> True [])
       else
         io_bind (rcpt_loop recipients \<lparr>ra_accepted = [], ra_transient = None, ra_permanent = None\<rparr>) (\<lambda>st.
           if ra_accepted st = []
           then (case first_some (ra_transient st) (ra_permanent st) of
                   Some r \<Rightarrow> io_return (MessageRejected r (ra_transient st = None) [])
                 | None \<Rightarrow> io_fail ProtocolError)
           else send_data data st)))"

definition send_message :: "string \<Rightarrow> string list \<Rightarrow> string \<Rightarrow> response smtp_io" where
  "send_message mail_from recipients data =
     io_bind (send_message_detailed mail_from recipients data) (\<lambda>outcome.
       case outcome of
         MessageAccepted r \<Rightarrow> io_return r
       | MessageRejected r _ _ \<Rightarrow> io_fail (ServerRejected (banner r)))"

definition smtp_quit :: "response smtp_io" where "smtp_quit = smtp_command ''QUIT''"

section \<open>What a conversation leaves in the trace\<close>

text \<open>From \<open>s\<close> to \<open>t\<close> the events \<open>es\<close> happened, on the same stream.\<close>

definition says :: "smtp_session \<Rightarrow> smtp_session \<Rightarrow> wire_event list \<Rightarrow> bool" where
  "says s t es \<longleftrightarrow> ss_trace t = ss_trace s @ es \<and> ss_encrypted t = ss_encrypted s"

lemma says_refl [simp]: "says s s []"
  by (simp add: says_def)

lemma says_trans: "says s t es \<Longrightarrow> says t u fs \<Longrightarrow> says s u (es @ fs)"
  by (simp add: says_def)

definition exchange :: "bool \<Rightarrow> string \<Rightarrow> response \<Rightarrow> wire_event list" where
  "exchange enc line r = [Sent enc (line @ CRLF), Got r]"

lemma io_bind_ok: "io_bind m k s = (t, Inr y) \<longleftrightarrow> (\<exists>u x. m s = (u, Inr x) \<and> k x u = (t, Inr y))"
  by (auto simp: io_bind_def split: prod.splits sum.splits)

lemma io_lift_ok [simp]: "io_lift r s = (t, Inr y) \<longleftrightarrow> r = Inr y \<and> t = s"
  by (auto simp: io_lift_def)

lemma io_return_ok [simp]: "io_return x s = (t, Inr y) \<longleftrightarrow> x = y \<and> t = s"
  by (auto simp: io_return_def)

lemma io_fail_ok [simp]: "io_fail e s \<noteq> (t, Inr y)"
  by (simp add: io_fail_def)

lemma read_response_loop_frame:
  "read_response_loop lines code s = (t, r) \<Longrightarrow> \<exists>buf reads. t = s\<lparr>ss_buf := buf, ss_reads := reads\<rparr>"
proof (induction lines code s arbitrary: t r rule: read_response_loop.induct)
  case (1 lines code s)
  obtain buf reads x where rl: "read_line (ss_buf s) (ss_reads s) = (buf, reads, x)" by (metis surj_pair)
  note unfold = 1(2) [unfolded read_response_loop.simps [of lines code s] rl Let_def prod.case]
  show ?case
  proof (cases x)
    case (Inl e)
    with unfold show ?thesis by auto
  next
    case line: (Inr line)
    show ?thesis
    proof (cases "parse_response_line (trim_newlines line)")
      case (Inl e)
      with unfold line show ?thesis by auto
    next
      case p: (Inr cc)
      obtain c k where cc: "(c, k) = cc" by (cases cc) auto
      note IH = 1(1) [OF rl [symmetric] refl refl refl line refl p cc]
      from unfold line p cc [symmetric] IH show ?thesis
        by (auto split: if_splits option.splits)
    qed
  qed
qed

lemma read_response_says: "read_response s = (t, Inr r) \<Longrightarrow> says s t [Got r]"
  by (auto simp: read_response_def says_def dest: read_response_loop_frame split: prod.splits sum.splits)

lemma write_wire_says: "write_wire p s = (t, Inr x) \<Longrightarrow> says s t [Sent (ss_encrypted s) p]"
  by (auto simp: write_wire_def says_def split: list.splits write_event.splits)

lemma smtp_command_says: "smtp_command line s = (t, Inr r) \<Longrightarrow> says s t (exchange (ss_encrypted s) line r)"
  unfolding smtp_command_def write_line_def io_bind_ok exchange_def
  using write_wire_says read_response_says says_trans by fastforce

lemma says_encrypted: "says s t es \<Longrightarrow> ss_encrypted t = ss_encrypted s"
  by (simp add: says_def)

text \<open>The recipients that a list of replies accepts.\<close>

definition rcpt_line :: "string \<Rightarrow> string" where
  "rcpt_line a = ''RCPT TO:<'' @ a @ ''>''"

definition rcpt_trace :: "bool \<Rightarrow> (string \<times> response) list \<Rightarrow> wire_event list" where
  "rcpt_trace enc ars = concat (map (\<lambda>(a, r). exchange enc (rcpt_line a) r) ars)"

definition positive_rcpts :: "(string \<times> response) list \<Rightarrow> string list" where
  "positive_rcpts ars = map fst (filter (rs_is_positive_completion \<circ> snd) ars)"

definition rcpt_notes :: "rcpt_state \<Rightarrow> (string \<times> response) list \<Rightarrow> rcpt_state" where
  "rcpt_notes st ars = foldl (\<lambda>st (a, r). rcpt_note st a r) st ars"

lemma rcpt_notes_simps [simp]:
  "rcpt_notes st [] = st" "rcpt_notes st (ar # ars) = rcpt_notes (rcpt_note st (fst ar) (snd ar)) ars"
  by (simp_all add: rcpt_notes_def split_def)

lemma rcpt_loop_says:
  "rcpt_loop rcpts st s = (t, Inr st') \<Longrightarrow>
   \<exists>rs. length rs = length rcpts \<and> says s t (rcpt_trace (ss_encrypted s) (zip rcpts rs)) \<and>
        st' = rcpt_notes st (zip rcpts rs) \<and> list_all (\<lambda>a. \<not> has_addr_break a) rcpts"
proof (induction rcpts arbitrary: st s)
  case Nil
  then show ?case by (simp add: rcpt_trace_def)
next
  case (Cons a rcpts)
  then obtain u r where c: "smtp_command (rcpt_line a) s = (u, Inr r)"
    and rest: "rcpt_loop rcpts (rcpt_note st a r) u = (t, Inr st')" and a: "\<not> has_addr_break a"
    by (auto simp: io_bind_ok checked_addr_def rcpt_line_def split: if_splits)
  from Cons.IH [OF rest] obtain rs where rs: "length rs = length rcpts"
    "says u t (rcpt_trace (ss_encrypted u) (zip rcpts rs))" "st' = rcpt_notes (rcpt_note st a r) (zip rcpts rs)"
    "list_all (\<lambda>a. \<not> has_addr_break a) rcpts" by blast
  have "says s t (rcpt_trace (ss_encrypted s) (zip (a # rcpts) (r # rs)))"
    using says_trans [OF smtp_command_says [OF c] rs(2)] says_encrypted [OF smtp_command_says [OF c]]
    by (simp add: rcpt_trace_def)
  with rs a show ?case by (intro exI [of _ "r # rs"]) simp
qed

lemma rcpt_notes_accepted: "ra_accepted (rcpt_notes st ars) = ra_accepted st @ positive_rcpts ars"
  by (induction ars arbitrary: st) (simp_all add: rcpt_note_def positive_rcpts_def)

definition rcpt_refusal :: "rcpt_state \<Rightarrow> response option" where
  "rcpt_refusal st = first_some (ra_transient st) (ra_permanent st)"

lemma rcpt_note_refusal:
  "rcpt_refusal (rcpt_note st a r) = None \<longleftrightarrow> rcpt_refusal st = None \<and> rs_is_positive_completion r"
  by (auto simp: rcpt_note_def rcpt_refusal_def first_some_def split: option.splits)

lemma rcpt_notes_refusal:
  "rcpt_refusal (rcpt_notes st ars) = None \<longleftrightarrow> rcpt_refusal st = None \<and> list_all (rs_is_positive_completion \<circ> snd) ars"
  by (induction ars arbitrary: st) (simp_all add: rcpt_note_refusal conj_assoc)

lemma write_chunks_says:
  "write_chunks cs s = (t, Inr x) \<Longrightarrow> says s t (map (Sent (ss_encrypted s)) cs)"
proof (induction cs arbitrary: s)
  case (Cons c cs)
  then obtain u where u: "write_wire c s = (u, Inr ())" "write_chunks cs u = (t, Inr x)" by (auto simp: io_bind_ok)
  from says_trans [OF write_wire_says [OF u(1)] Cons.IH [OF u(2)]] says_encrypted [OF write_wire_says [OF u(1)]]
  show ?case by simp
qed simp

definition rcpt_start :: rcpt_state where
  "rcpt_start = \<lparr>ra_accepted = [], ra_transient = None, ra_permanent = None\<rparr>"

text \<open>A message none of whose recipients was accepted has a refusal to report.\<close>

lemma rcpt_loop_refusal:
  assumes "rcpt_loop rcpts rcpt_start s = (t, Inr st)" and "rcpts \<noteq> []" and "ra_accepted st = []"
  shows "rcpt_refusal st \<noteq> None"
proof -
  from rcpt_loop_says [OF assms(1)] obtain rs where rs: "length rs = length rcpts" "st = rcpt_notes rcpt_start (zip rcpts rs)"
    by blast
  then have "positive_rcpts (zip rcpts rs) = []" using assms(3) by (simp add: rcpt_notes_accepted rcpt_start_def)
  moreover have "zip rcpts rs \<noteq> []" using rs(1) assms(2) by (cases rcpts; cases rs) auto
  ultimately have "\<not> list_all (rs_is_positive_completion \<circ> snd) (zip rcpts rs)"
    by (cases "zip rcpts rs") (auto simp: positive_rcpts_def)
  then show ?thesis by (simp add: rs(2) rcpt_notes_refusal)
qed

text \<open>
  The trace of a transaction that got through: the envelope commands with their replies, the
  message in chunks, and the final reply.
\<close>

definition transaction_trace ::
  "bool \<Rightarrow> string \<Rightarrow> response \<Rightarrow> (string \<times> response) list \<Rightarrow> response \<Rightarrow> string \<Rightarrow> response \<Rightarrow> wire_event list" where
  "transaction_trace enc mail_from m ars d data r =
     exchange enc (''MAIL FROM:<'' @ mail_from @ ''>'') m @ rcpt_trace enc ars @ exchange enc ''DATA'' d @
     map (Sent enc) (data_chunks (terminate_data data)) @ [Sent enc [], Got r]"

fun accepted_by :: "string list \<Rightarrow> message_outcome \<Rightarrow> string list" where
  "accepted_by recipients (MessageAccepted _) = recipients"
| "accepted_by recipients (MessageRejected _ _ acc) = acc"

lemma send_data_says:
  assumes "send_data data st s = (t, Inr outcome)" and "outcome_is_accepted outcome \<or> accepted_by [] outcome \<noteq> []"
  shows "\<exists>d r. says s t (exchange (ss_encrypted s) ''DATA'' d @
              map (Sent (ss_encrypted s)) (data_chunks (terminate_data data)) @ [Sent (ss_encrypted s) [], Got r]) \<and>
            rs_code d = 354 \<and> rs_is_positive_completion r \<and>
            (case rcpt_refusal st of None \<Rightarrow> outcome = MessageAccepted r
             | Some rejection \<Rightarrow> outcome = MessageRejected rejection (ra_transient st = None) (ra_accepted st))"
proof -
  obtain d u where d: "smtp_command ''DATA'' s = (u, Inr d)" and code: "rs_code d = 354"
    and cont: "io_bind (write_chunks (data_chunks (terminate_data data))) (\<lambda>_.
          io_bind flush_raw (\<lambda>_.
          io_bind read_response (\<lambda>r.
            if rs_is_positive_completion r then
              (case rcpt_refusal st of
                 None \<Rightarrow> io_return (MessageAccepted r)
               | Some rejection \<Rightarrow> io_return (MessageRejected rejection (ra_transient st = None) (ra_accepted st)))
            else io_return (MessageRejected r (rs_code r \<ge> 500) [])))) u = (t, Inr outcome)"
    using assms by (fastforce simp: send_data_def Let_def io_bind_ok rcpt_refusal_def split: if_splits)
  from cont obtain v w r where v: "write_chunks (data_chunks (terminate_data data)) u = (v, Inr ())"
    and w: "write_wire [] v = (w, Inr ())" and r: "read_response w = (t, Inr r)" "rs_is_positive_completion r"
    "case rcpt_refusal st of None \<Rightarrow> outcome = MessageAccepted r
             | Some rejection \<Rightarrow> outcome = MessageRejected rejection (ra_transient st = None) (ra_accepted st)"
    using assms(2) by (fastforce simp: io_bind_ok flush_raw_def split: if_splits option.splits)
  note says = smtp_command_says [OF d] write_chunks_says [OF v] write_wire_says [OF w] read_response_says [OF r(1)]
  have "says s t (exchange (ss_encrypted s) ''DATA'' d @
      map (Sent (ss_encrypted s)) (data_chunks (terminate_data data)) @ [Sent (ss_encrypted s) []] @ [Got r])"
    using says by (simp add: says_def)
  with code r show ?thesis by (intro exI [of _ d] exI [of _ r]) simp
qed

text \<open>
  Whenever sending reports
  recipients as accepted, all of them or those listed beside a refusal, the conversation was the
  complete transaction: MAIL was answered with 2xx, every recipient was named in one RCPT command
  and exactly those reported were answered with 2xx, DATA was answered with 354, the whole
  dot-stuffed message and its terminator were written, and the server then answered with 2xx. No
  address contained a line break, so that each command was one line.
\<close>

lemma accepted_means_acknowledged:
  assumes "send_message_detailed mail_from recipients data s = (t, Inr outcome)"
    and "accepted_by recipients outcome \<noteq> []"
  shows "\<exists>m rs d r.
     ss_trace t = ss_trace s @ transaction_trace (ss_encrypted s) mail_from m (zip recipients rs) d data r \<and>
     length rs = length recipients \<and> rs_is_positive_completion m \<and> rs_code d = 354 \<and> rs_is_positive_completion r \<and>
     accepted_by recipients outcome = positive_rcpts (zip recipients rs) \<and>
     \<not> has_addr_break mail_from \<and> list_all (\<lambda>a. \<not> has_addr_break a) recipients"
proof -
  obtain u m where m: "smtp_command (''MAIL FROM:<'' @ mail_from @ ''>'') s = (u, Inr m)" "\<not> has_addr_break mail_from"
      "rs_is_positive_completion m"
    and cont: "io_bind (rcpt_loop recipients rcpt_start) (\<lambda>st.
           if ra_accepted st = []
           then (case rcpt_refusal st of
                   Some r \<Rightarrow> io_return (MessageRejected r (ra_transient st = None) [])
                 | None \<Rightarrow> io_fail ProtocolError)
           else send_data data st) u = (t, Inr outcome)"
    using assms by (fastforce simp: send_message_detailed_def io_bind_ok checked_addr_def rcpt_start_def rcpt_refusal_def split: if_splits)
  from cont assms(2) obtain v st where v: "rcpt_loop recipients rcpt_start u = (v, Inr st)" "send_data data st v = (t, Inr outcome)"
    by (fastforce simp: io_bind_ok split: if_splits option.splits)
  from rcpt_loop_says [OF v(1)] obtain rs where rs: "length rs = length recipients"
    "says u v (rcpt_trace (ss_encrypted u) (zip recipients rs))" "st = rcpt_notes rcpt_start (zip recipients rs)"
    "list_all (\<lambda>a. \<not> has_addr_break a) recipients" by blast
  have "outcome_is_accepted outcome \<or> accepted_by [] outcome \<noteq> []" using assms(2) by (cases outcome) auto
  from send_data_says [OF v(2) this] obtain d r where d: "says v t (exchange (ss_encrypted v) ''DATA'' d @
      map (Sent (ss_encrypted v)) (data_chunks (terminate_data data)) @ [Sent (ss_encrypted v) [], Got r])"
    "rs_code d = 354" "rs_is_positive_completion r"
    and out: "case rcpt_refusal st of None \<Rightarrow> outcome = MessageAccepted r
             | Some rejection \<Rightarrow> outcome = MessageRejected rejection (ra_transient st = None) (ra_accepted st)" by blast
  have "ss_trace t = ss_trace s @ transaction_trace (ss_encrypted s) mail_from m (zip recipients rs) d data r"
    using smtp_command_says [OF m(1)] rs(2) d(1) by (simp add: says_def transaction_trace_def)
  moreover have "accepted_by recipients outcome = positive_rcpts (zip recipients rs)"
  proof (cases "rcpt_refusal st")
    case None
    then have "list_all (rs_is_positive_completion \<circ> snd) (zip recipients rs)" by (simp add: rs(3) rcpt_notes_refusal)
    then have "positive_rcpts (zip recipients rs) = recipients"
      using rs(1) by (simp add: positive_rcpts_def list.pred_set filter_id_conv)
    with None out show ?thesis by simp
  next
    case (Some rejection)
    with out show ?thesis by (simp add: rs(3) rcpt_notes_accepted rcpt_start_def)
  qed
  ultimately show ?thesis using m rs d by blast
qed

text \<open>Code equations that compare the two limits as binary numbers.\<close>

lemma read_line_code [code]:
  "read_line buf reads =
     (if LF \<in> set buf
      then (let n = Suc (length (takeWhile (\<lambda>c. c \<noteq> LF) buf))
            in (drop n buf, reads, Inr (from_utf8_lossy (take n buf))))
      else if int (length buf) \<ge> 4096 then (buf, reads, Inl SmtpIo)
      else
        (case reads of
           [] \<Rightarrow> ([], [], Inl SmtpIo)
         | ReadError # rest \<Rightarrow> (buf, rest, Inl SmtpIo)
         | ReadTimeout # rest \<Rightarrow> (buf, rest, Inl ProtocolError)
         | Chunk bytes # rest \<Rightarrow>
             if bytes = [] then ([], rest, Inl SmtpIo) else read_line (buf @ bytes) rest))"
  by (subst read_line.simps) (simp add: MAX_RESPONSE_LINE_BYTES_def)

lemma data_chunks_code [code]:
  "data_chunks data =
     (if data \<noteq> [] \<and> int (length data) \<le> 32768 then [data] else chunks DATA_WRITE_CHUNK_BYTES data)"
  by (simp add: data_chunks_def chunks.simps [of _ data] chunks.simps [of _ "[]"] DATA_WRITE_CHUNK_BYTES_def)

text \<open>A server that accepts the first of two recipients and takes the message.\<close>

definition sample_replies :: "read_event list" where
  "sample_replies =
     [Chunk (''250 ok'' @ CRLF), Chunk (''250 ok'' @ CRLF), Chunk (''550 no'' @ CRLF), Chunk (''354 go'' @ CRLF),
      Chunk (''250-qu''), Chunk (''eued'' @ CRLF @ ''250 bye'' @ CRLF)]"

definition sample_smtp_session :: smtp_session where
  "sample_smtp_session =
     \<lparr>ss_encrypted = True, ss_buf = [], ss_reads = sample_replies, ss_writes = [], ss_tls = HandshakeFailed,
      ss_caps = capabilities_default, ss_trace = []\<rparr>"

section \<open>Upgrading the connection\<close>

lemma smtp_command_frame:
  "smtp_command line s = (t, Inr r) \<Longrightarrow>
   ss_tls t = ss_tls s \<and> ss_caps t = ss_caps s \<and> ss_writes t = tl (ss_writes s) \<and> ss_encrypted t = ss_encrypted s"
  by (auto simp: smtp_command_def write_line_def write_wire_def read_response_def io_bind_ok
      dest!: read_response_loop_frame split: prod.splits sum.splits list.splits write_event.splits)

lemma starttls_result:
  assumes "smtp_starttls s = (t, Inr r)"
  shows "\<exists>reads. ss_tls s = HandshakeDone reads \<and>
     t\<lparr>ss_trace := []\<rparr> = \<lparr>ss_encrypted = True, ss_buf = [], ss_reads = reads, ss_writes = tl (ss_writes s),
        ss_tls = ss_tls s, ss_caps = capabilities_default, ss_trace = []\<rparr> \<and> ss_reads t = reads \<and> ss_encrypted t \<and>
     ss_buf t = [] \<and> ss_caps t = capabilities_default"
proof -
  from assms obtain u where u: "smtp_command ''STARTTLS'' s = (u, Inr r)" "stream_upgrade u = (t, Inr ())"
    by (auto simp: smtp_starttls_def io_bind_ok split: if_splits)
  from u(2) obtain reads where "ss_tls u = HandshakeDone reads"
    "t = u\<lparr>ss_encrypted := True, ss_buf := [], ss_reads := reads, ss_caps := capabilities_default\<rparr>"
    by (auto simp: stream_upgrade_def split: if_splits tls_outcome.splits)
  with smtp_command_frame [OF u(1)] show ?thesis by (cases u) auto
qed

text \<open>
  Nothing read in the clear survives STARTTLS. After a successful upgrade the session is the
  same whatever else the server, or someone in between, sent in the clear before the handshake:
  buffered replies and the capabilities announced in the clear are gone, and every later reply is
  read from the encrypted stream.
\<close>

lemma starttls_discards_plaintext:
  assumes "smtp_starttls s = (t, Inr r)" and "smtp_starttls s' = (t', Inr r')"
    and "ss_tls s = ss_tls s'" and "ss_writes s = ss_writes s'"
  shows "t\<lparr>ss_trace := []\<rparr> = t'\<lparr>ss_trace := []\<rparr> \<and> ss_encrypted t \<and>
         ss_buf t = [] \<and> ss_caps t = capabilities_default \<and> ss_tls s = HandshakeDone (ss_reads t)"
  using starttls_result [OF assms(1)] starttls_result [OF assms(2)] assms(3,4) by auto

section \<open>The message as the receiver sees it\<close>

definition strip_cr :: "string \<Rightarrow> string" where
  "strip_cr line = (if suffix [CR] line then butlast line else line)"

text \<open>The lines of a message, however they are terminated; a final line end does not begin a line.\<close>

definition message_lines :: "string \<Rightarrow> string list" where
  "message_lines data =
     (let ls = map strip_cr (split_on LF data) in if length ls > 1 \<and> last ls = [] then butlast ls else ls)"

lemma stuff_line_stuff: "stuff_line l = stuff (strip_cr l)"
  by (simp add: stuff_line_def strip_cr_def stuff_def Let_def)

lemma join_snoc: "xs \<noteq> [] \<Longrightarrow> join sep (xs @ [x]) = join sep xs @ sep @ x"
  by (induction sep xs rule: join.induct) auto

lemma join_wire_lines: "xs \<noteq> [] \<Longrightarrow> join CRLF xs @ CRLF = wire_lines xs"
  by (induction CRLF xs rule: join.induct) auto

lemma stuff_Nil [simp]: "stuff l = [] \<longleftrightarrow> l = []"
  by (auto simp: stuff_def)

lemma set_strip_cr: "set (strip_cr l) \<subseteq> set l"
  by (auto simp: strip_cr_def dest: in_set_butlastD)

lemma strip_cr_no_LF: "l \<in> set (split_on LF data) \<Longrightarrow> LF \<notin> set (strip_cr l)"
  using set_strip_cr split_on_pieces by blast

lemma join_ends_CRLF:
  assumes "xs \<noteq> []" "LF \<notin> set (last xs)"
  shows "suffix CRLF (join CRLF xs) \<longleftrightarrow> length xs > 1 \<and> last xs = []"
proof (cases "butlast xs = []")
  case True
  then obtain x where "xs = [x]" using assms(1) by (metis append_butlast_last_id append_Nil)
  then show ?thesis using assms(2) by (auto simp: suffix_def)
next
  case False
  define y where "y = last xs"
  have xs: "join CRLF xs = join CRLF (butlast xs) @ CRLF @ y"
    using join_snoc [OF False, of CRLF y] assms(1) by (simp add: y_def)
  have "1 < length xs" using False by (cases xs rule: rev_cases) (auto simp: neq_Nil_conv)
  moreover have "suffix CRLF (join CRLF xs) \<longleftrightarrow> y = []"
  proof (cases y rule: rev_cases)
    case Nil
    then show ?thesis by (simp add: xs suffix_def)
  next
    case (snoc ys c)
    then have "c \<noteq> LF" using assms(2) by (auto simp: y_def)
    then show ?thesis using snoc by (auto simp: xs suffix_def)
  qed
  ultimately show ?thesis by (simp add: y_def)
qed

lemma terminate_data_lines: "terminate_data data = wire_lines (map stuff (message_lines data)) @ ''.'' @ CRLF"
proof -
  define ls where "ls = map strip_cr (split_on LF data)"
  have ne: "map stuff ls \<noteq> []" by (simp add: ls_def)
  have body: "dot_stuff data = join CRLF (map stuff ls)" by (simp add: dot_stuff_def ls_def stuff_line_stuff [abs_def] comp_def)
  have "last ls \<in> set ls" using ne by (intro last_in_set) simp
  then have "LF \<notin> set (last ls)" using strip_cr_no_LF by (auto simp: ls_def)
  then have ends: "suffix CRLF (dot_stuff data) \<longleftrightarrow> length ls > 1 \<and> last ls = []"
    using join_ends_CRLF [OF ne] ne by (simp add: body last_map set_stuff)
  show ?thesis
  proof (cases "length ls > 1 \<and> last ls = []")
    case True
    then have "butlast ls \<noteq> []" by (cases ls rule: rev_cases) auto
    moreover have "ls = butlast ls @ [[]]" using True by (metis append_butlast_last_id list.size(3) not_one_less_zero)
    then have "map stuff ls = map stuff (butlast ls) @ [[]]" by (metis (no_types) list.simps(8,9) map_append stuff_Nil)
    ultimately have "dot_stuff data = wire_lines (map stuff (butlast ls))"
      using join_snoc [of "map stuff (butlast ls)" CRLF "[]"] join_wire_lines [of "map stuff (butlast ls)"] by (simp add: body)
    with True ends show ?thesis by (simp add: terminate_data_def message_lines_def ls_def [symmetric] Let_def)
  next
    case False
    then have "dot_stuff data @ CRLF = wire_lines (map stuff ls)" using join_wire_lines [OF ne] by (simp add: body)
    with False ends show ?thesis by (auto simp: terminate_data_def message_lines_def ls_def [symmetric] Let_def)
  qed
qed

lemma message_lines_no_LF: "l \<in> set (message_lines data) \<Longrightarrow> LF \<notin> set l"
  using strip_cr_no_LF by (auto simp: message_lines_def Let_def dest!: in_set_butlastD split: if_splits)

text \<open>A message that already consists of CRLF lines keeps them.\<close>

lemma split_on_wire_lines:
  "\<forall>l \<in> set ls. LF \<notin> set l \<Longrightarrow> split_on LF (wire_lines ls) = map (\<lambda>l. l @ [CR]) ls @ [[]]"
proof (induction ls)
  case (Cons l ls)
  then have "split_on LF ((l @ [CR]) @ LF # wire_lines ls) = (l @ [CR]) # split_on LF (wire_lines ls)"
    by (intro split_on_append_sep) auto
  with Cons show ?case by simp
qed simp

lemma message_lines_wire_lines:
  assumes "ls \<noteq> []" "\<forall>l \<in> set ls. LF \<notin> set l"
  shows "message_lines (wire_lines ls) = ls"
  using assms by (simp add: message_lines_def split_on_wire_lines strip_cr_def comp_def)

text \<open>
  \<^bold>\<open>C11\<close> (a relayed message arrives as it was sent). What the client writes for a message is read by
  the server's DATA collector as the lines of that message, whatever they contain, and the
  collector stops exactly behind the terminator; a message of CRLF lines is received byte for byte.
  The only condition is that the message stays below the size limit of the receiver.
\<close>

theorem terminate_data_received:
  assumes "length (wire_lines (message_lines data)) < max_size"
  shows "snd (feed (sink_new max_size Reject) (terminate_data data @ rest)) =
           (Complete (Some (wire_lines (message_lines data))), length (terminate_data data)) \<and>
         (ls \<noteq> [] \<and> (\<forall>l \<in> set ls. LF \<notin> set l) \<and> data = wire_lines ls \<longrightarrow> wire_lines (message_lines data) = data)"
  using feed_receives_stuffed_lines [of "message_lines data" max_size rest] assms message_lines_no_LF
  by (auto simp: terminate_data_lines message_lines_wire_lines)

theorem terminate_data_received_witness:
  "snd (feed (sink_new 100 Reject) (terminate_data (wire_lines [''.'', ''hi'']) @ ''QUIT'')) =
     (Complete (Some (wire_lines [''.'', ''hi''])), 11)"
proof -
  have "length (wire_lines (message_lines (wire_lines [''.'', ''hi'']))) < 100"
    "wire_lines (message_lines (wire_lines [''.'', ''hi''])) = wire_lines [''.'', ''hi'']"
    "length (terminate_data (wire_lines [''.'', ''hi''])) = 11" by code_simp+
  with terminate_data_received [of "wire_lines [''.'', ''hi'']" 100 "''QUIT''" "[''.'', ''hi'']"] show ?thesis by simp
qed

end
