(* ===== verification/Delivery.thy ===== *)
theory Delivery
  imports SmtpClient QueueEntry
begin

text \<open>
  Delivery of a queue entry to remote servers (\<open>src/crates/queue/src/delivery.rs\<close>), the dialer
  (\<open>src/crates/smtp/src/dial.rs\<close>) and the signing transport (\<open>src/crates/queue/src/signing.rs\<close>). The
  outside world is the record \<open>network\<close>: how the next connection attempts end, and with what script
  of reads, writes and handshake each established stream behaves. It keeps the addresses that were
  dialled and the trace of every conversation. The name service is part of the transport record; the
  text of an error (its \<open>Display\<close>) is a parameter.
\<close>

section \<open>Failures\<close>

datatype failure_class = Transient | Permanent

record delivery_failure =
  df_class :: failure_class
  df_kind :: string
  df_message :: string
  df_code :: "nat option"
  df_accepted :: "string list"
  df_local_fault :: bool

definition failure_transient :: "string \<Rightarrow> string \<Rightarrow> delivery_failure" where
  "failure_transient kind message =
     \<lparr>df_class = Transient, df_kind = kind, df_message = message, df_code = None, df_accepted = [], df_local_fault = False\<rparr>"

definition failure_permanent :: "string \<Rightarrow> string \<Rightarrow> delivery_failure" where
  "failure_permanent kind message =
     \<lparr>df_class = Permanent, df_kind = kind, df_message = message, df_code = None, df_accepted = [], df_local_fault = False\<rparr>"

definition with_local_fault :: "delivery_failure \<Rightarrow> delivery_failure" where
  "with_local_fault f = f\<lparr>df_local_fault := True\<rparr>"

definition with_accepted :: "delivery_failure \<Rightarrow> string list \<Rightarrow> delivery_failure" where
  "with_accepted f accepted = f\<lparr>df_accepted := accepted\<rparr>"

definition with_code :: "delivery_failure \<Rightarrow> nat \<Rightarrow> delivery_failure" where
  "with_code f code = f\<lparr>df_code := Some code\<rparr>"

definition df_is_permanent :: "delivery_failure \<Rightarrow> bool" where
  "df_is_permanent f \<longleftrightarrow> df_class f = Permanent"

record delivery_receipt =
  receipt_accepted :: nat

datatype delivery_target = LocalTarget | RemoteTarget outbound_route

type_synonym delivery_result = "(delivery_failure, delivery_receipt) result"

definition classify_code :: "nat \<Rightarrow> failure_class" where
  "classify_code code = (if 500 \<le> code \<and> code < 600 then Permanent else Transient)"

fun permanent_error :: "smtp_error \<Rightarrow> bool" where
  "permanent_error InvalidEndpoint = True"
| "permanent_error TlsRequired = True"
| "permanent_error IncompleteCredentials = True"
| "permanent_error PrivateRelayDisabled = True"
| "permanent_error (NoAcceptableAddress _) = True"
| "permanent_error (NullMx _) = True"
| "permanent_error _ = False"

definition classify_smtp_error :: "(smtp_error \<Rightarrow> string) \<Rightarrow> smtp_error \<Rightarrow> delivery_failure" where
  "classify_smtp_error display e =
     (if permanent_error e then failure_permanent (smtp_error_kind e) (display e)
      else failure_transient (smtp_error_kind e) (display e))"

definition classify_response :: "nat \<Rightarrow> string \<Rightarrow> delivery_failure" where
  "classify_response code text =
     \<lparr>df_class = classify_code code, df_kind = ''SmtpRejected'', df_message = text, df_code = Some code,
      df_accepted = [], df_local_fault = False\<rparr>"

section \<open>Dialling\<close>

record stream_script =
  sc_reads :: "read_event list"
  sc_writes :: "write_event list"
  sc_tls :: tls_outcome

datatype dial_event = DialOk stream_script | DialRefused | DialTimedOut

record network =
  nw_dials :: "dial_event list"
  nw_dialled :: "socket_addr list"
  nw_log :: "(socket_addr \<times> wire_event list) list"

definition next_dial :: "network \<Rightarrow> dial_event \<times> network" where
  "next_dial n = (case nw_dials n of [] \<Rightarrow> (DialRefused, n) | d # ds \<Rightarrow> (d, n\<lparr>nw_dials := ds\<rparr>))"

fun dial_loop ::
  "nat \<Rightarrow> ip_addr list \<Rightarrow> smtp_error option \<Rightarrow> network \<Rightarrow> network \<times> (smtp_error, socket_addr \<times> stream_script) result" where
  "dial_loop port [] last_error n = (n, Inl (case last_error of Some e \<Rightarrow> e | None \<Rightarrow> InvalidEndpoint))"
| "dial_loop port (ip # ips) last_error n =
     (let addr = \<lparr>sa_ip = ip, sa_port = port\<rparr>;
          (event, n) = next_dial n;
          n = n\<lparr>nw_dialled := nw_dialled n @ [addr]\<rparr>
      in case event of
           DialOk script \<Rightarrow> (n, Inr (addr, script))
         | DialRefused \<Rightarrow> dial_loop port ips (Some ConnectFailed) n
         | DialTimedOut \<Rightarrow> dial_loop port ips (Some ConnectTimeout) n)"

definition dialer_connect ::
  "pinned_target \<Rightarrow> network \<Rightarrow> network \<times> (smtp_error, socket_addr \<times> stream_script) result" where
  "dialer_connect t = dial_loop (sa_port (pt_pinned t)) (pt_addresses t) None"

text \<open>A session on a fresh stream, plain or after the TLS handshake.\<close>

definition session_from_stream :: "bool \<Rightarrow> read_event list \<Rightarrow> stream_script \<Rightarrow> smtp_session" where
  "session_from_stream encrypted reads script =
     \<lparr>ss_encrypted = encrypted, ss_buf = [], ss_reads = reads, ss_writes = sc_writes script, ss_tls = sc_tls script,
      ss_caps = capabilities_default, ss_trace = []\<rparr>"

definition connect_with_mode ::
  "pinned_target \<Rightarrow> client_tls \<Rightarrow> network \<Rightarrow> network \<times> (smtp_error, socket_addr \<times> smtp_session) result" where
  "connect_with_mode t mode n =
     (case dialer_connect t n of
        (n, Inl e) \<Rightarrow> (n, Inl e)
      | (n, Inr (addr, script)) \<Rightarrow>
          (case mode of
             StartTls \<Rightarrow> (n, Inr (addr, session_from_stream False (sc_reads script) script))
           | ImplicitTls \<Rightarrow>
               (case sc_tls script of
                  BadServerName \<Rightarrow> (n, Inl InvalidEndpoint)
                | HandshakeFailed \<Rightarrow> (n, Inl TlsError)
                | HandshakeDone reads \<Rightarrow> (n, Inr (addr, session_from_stream True reads script)))))"

section \<open>One delivery over one connection\<close>

datatype delivery_tls = RequiredTls client_tls | Plaintext

record smtp_transport =
  tp_helo_name :: string
  tp_credentials :: "(string \<times> string) option"
  tp_policy :: address_policy
  tp_mx :: "(string \<Rightarrow> (smtp_error, mx_record list) result) option"
  tp_direct_port :: nat
  tp_lookup_host :: "string \<Rightarrow> nat \<Rightarrow> lookup_outcome"
  tp_display :: "smtp_error \<Rightarrow> string"

type_synonym 'a delivery_io = "smtp_session \<Rightarrow> smtp_session \<times> (delivery_failure, 'a) result"

definition smtp_step :: "smtp_transport \<Rightarrow> 'a smtp_io \<Rightarrow> 'a delivery_io" where
  "smtp_step tp = io_map_err (classify_smtp_error (tp_display tp))"

definition require_positive :: "response \<Rightarrow> unit delivery_io" where
  "require_positive r = (if \<not> rs_is_positive_completion r then io_fail (classify_response (rs_code r) (banner r)) else io_return ())"

definition greet :: "smtp_transport \<Rightarrow> unit delivery_io" where
  "greet tp = io_bind (smtp_step tp (smtp_ehlo (tp_helo_name tp))) require_positive"

definition secure :: "smtp_transport \<Rightarrow> client_tls \<Rightarrow> unit delivery_io" where
  "secure tp mode =
     (if mode = StartTls then
        (\<lambda>s. if \<not> cp_starttls (ss_caps s)
             then io_fail (failure_permanent ''TlsUnavailable''
                    ''relay does not offer STARTTLS; refusing to send credentials in the clear'') s
             else io_bind (smtp_step tp smtp_starttls) (\<lambda>_. greet tp) s)
      else io_return ())"

definition log_in :: "smtp_transport \<Rightarrow> unit delivery_io" where
  "log_in tp =
     (case tp_credentials tp of
        None \<Rightarrow> io_return ()
      | Some (username, password) \<Rightarrow>
          (\<lambda>s. if cp_auth_mechanisms (ss_caps s) = []
               then io_fail (failure_permanent ''AuthNotOffered''
                      ''relay offers no AUTH mechanism but credentials are configured'') s
               else io_bind (smtp_step tp (authenticate username password)) require_positive s))"

definition prepare :: "smtp_transport \<Rightarrow> delivery_tls \<Rightarrow> unit delivery_io" where
  "prepare tp tls =
     (case tls of
        RequiredTls mode \<Rightarrow> io_bind (secure tp mode) (\<lambda>_. log_in tp)
      | Plaintext \<Rightarrow> io_return ())"

text \<open>The answer to QUIT is not looked at.\<close>

definition hang_up :: "unit delivery_io" where
  "hang_up s = (fst (smtp_quit s), Inr ())"

definition outcome_result :: "string list \<Rightarrow> message_outcome \<Rightarrow> delivery_result" where
  "outcome_result recipients outcome =
     (case outcome of
        MessageAccepted _ \<Rightarrow> Inr \<lparr>receipt_accepted = length recipients\<rparr>
      | MessageRejected r _ accepted \<Rightarrow> Inl (with_accepted (classify_response (rs_code r) (banner r)) accepted))"

definition deliver_session ::
  "smtp_transport \<Rightarrow> delivery_tls \<Rightarrow> queue_entry \<Rightarrow> string list \<Rightarrow> delivery_receipt delivery_io" where
  "deliver_session tp tls entry recipients =
     io_bind (smtp_step tp read_response) (\<lambda>_.
     io_bind (greet tp) (\<lambda>_.
     io_bind (prepare tp tls) (\<lambda>_.
     io_bind (smtp_step tp (send_message_detailed (qe_mail_from entry) recipients (qe_data entry))) (\<lambda>outcome.
     io_bind hang_up (\<lambda>_.
     io_lift (outcome_result recipients outcome))))))"

definition deliver_one ::
  "smtp_transport \<Rightarrow> pinned_target \<Rightarrow> delivery_tls \<Rightarrow> queue_entry \<Rightarrow> string list \<Rightarrow> network \<Rightarrow> network \<times> delivery_result" where
  "deliver_one tp pinned tls entry recipients n =
     (let mode = (case tls of RequiredTls mode \<Rightarrow> mode | Plaintext \<Rightarrow> StartTls) in
      case connect_with_mode pinned mode n of
        (n, Inl e) \<Rightarrow> (n, Inl (classify_smtp_error (tp_display tp) e))
      | (n, Inr (addr, session)) \<Rightarrow>
          (let (session, r) = deliver_session tp tls entry recipients session
           in (n\<lparr>nw_log := nw_log n @ [(addr, ss_trace session)]\<rparr>, r)))"

section \<open>Direct delivery\<close>

fun try_targets ::
  "smtp_transport \<Rightarrow> queue_entry \<Rightarrow> string list \<Rightarrow> pinned_target list \<Rightarrow> delivery_failure option \<Rightarrow> network \<Rightarrow>
   network \<times> (delivery_failure option, delivery_receipt) result" where
  "try_targets tp entry recipients [] last_failure n = (n, Inl last_failure)"
| "try_targets tp entry recipients (pinned # targets) last_failure n =
     (case deliver_one tp pinned Plaintext entry recipients n of
        (n, Inr receipt) \<Rightarrow> (n, Inr receipt)
      | (n, Inl failure) \<Rightarrow>
          if df_is_permanent failure then (n, Inl (Some failure))
          else if df_accepted failure \<noteq> [] then (n, Inl (Some failure))
          else try_targets tp entry recipients targets (Some failure) n)"

definition deliver_direct_to_domain ::
  "smtp_transport \<Rightarrow> (string \<Rightarrow> (smtp_error, mx_record list) result) \<Rightarrow> string \<Rightarrow> string list \<Rightarrow> queue_entry \<Rightarrow> network \<Rightarrow>
   network \<times> delivery_result" where
  "deliver_direct_to_domain tp mx domain recipients entry n =
     (case resolve_mx_targets (tp_lookup_host tp) mx domain (tp_direct_port tp) (tp_policy tp) of
        Inl e \<Rightarrow> (n, Inl (classify_smtp_error (tp_display tp) e))
      | Inr targets \<Rightarrow>
          (case try_targets tp entry recipients targets None n of
             (n, Inr receipt) \<Rightarrow> (n, Inr receipt)
           | (n, Inl (Some failure)) \<Rightarrow> (n, Inl failure)
           | (n, Inl None) \<Rightarrow> (n, Inl (failure_transient ''NoMxTarget'' (''no usable MX target for '' @ domain)))))"

definition recipient_domain :: "string \<Rightarrow> string" where
  "recipient_domain r = (case rsplit_once (CHR ''@'') r of Some (_, d) \<Rightarrow> to_ascii_lowercase d | None \<Rightarrow> [])"

text \<open>A \<open>BTreeMap\<close> of groups, read out in the order of the domains.\<close>

definition push_group :: "(string \<times> string list) list \<Rightarrow> string \<Rightarrow> (string \<times> string list) list" where
  "push_group groups r =
     (let d = recipient_domain r
      in AList.update d ((case map_of groups d of Some g \<Rightarrow> g | None \<Rightarrow> []) @ [r]) groups)"

definition group_by_domain :: "string list \<Rightarrow> (string \<times> string list) list" where
  "group_by_domain recipients = sort_key fst (foldl push_group [] recipients)"

fun deliver_groups ::
  "smtp_transport \<Rightarrow> (string \<Rightarrow> (smtp_error, mx_record list) result) \<Rightarrow> queue_entry \<Rightarrow> (string \<times> string list) list \<Rightarrow>
   string list \<Rightarrow> delivery_failure list \<Rightarrow> network \<Rightarrow> network \<times> string list \<times> delivery_failure list" where
  "deliver_groups tp mx entry [] accepted failures n = (n, accepted, failures)"
| "deliver_groups tp mx entry ((domain, members) # groups) accepted failures n =
     (case deliver_direct_to_domain tp mx domain members entry n of
        (n, Inr _) \<Rightarrow> deliver_groups tp mx entry groups (accepted @ members) failures n
      | (n, Inl failure) \<Rightarrow>
          deliver_groups tp mx entry groups (accepted @ df_accepted failure) (failures @ [failure]) n)"

definition merge_failures :: "delivery_failure list \<Rightarrow> delivery_failure" where
  "merge_failures failures =
     (if length failures = 1 then last failures
      else
        (let any_transient = list_ex (\<lambda>f. \<not> df_is_permanent f) failures;
             detail = join ''; '' (map df_message failures)
         in if any_transient then failure_transient ''DirectDeliveryFailed'' detail
            else failure_permanent ''DirectDeliveryFailed'' detail))"

definition deliver_direct ::
  "smtp_transport \<Rightarrow> queue_entry \<Rightarrow> string list \<Rightarrow> network \<Rightarrow> network \<times> delivery_result" where
  "deliver_direct tp entry recipients n =
     (case tp_mx tp of
        None \<Rightarrow>
          (n, Inl (failure_transient ''DirectDeliveryUnavailable''
                ''direct MX delivery is not configured on this transport; configure a relay (smarthost)''))
      | Some mx \<Rightarrow>
          (let (n, accepted, failures) = deliver_groups tp mx entry (group_by_domain recipients) [] [] n
           in if failures = [] then (n, Inr \<lparr>receipt_accepted = length accepted\<rparr>)
              else (n, Inl (with_accepted (merge_failures failures) accepted))))"

section \<open>The transport\<close>

text \<open>The UTF-8 bytes of the text of the source.\<close>

definition WRONG_TRANSPORT :: string where
  "WRONG_TRANSPORT = map char_of
    [0xE6, 0x9C, 0xAC, 0xE5, 0x9C, 0xB0, 0xE6, 0x8A, 0x95, 0xE9, 0x80, 0x92, 0xE4, 0xB8, 0x8D, 0xE5,
     0xBA, 0x94, 0xE7, 0xBB, 0x8F, 0x20, 0x53, 0x4D, 0x54, 0x50, 0x20, 0xE4, 0xBC, 0xA0, 0xE8, 0xBE, 0x93 :: nat]"

definition deliver_remote ::
  "smtp_transport \<Rightarrow> queue_entry \<Rightarrow> delivery_target \<Rightarrow> string list \<Rightarrow> network \<Rightarrow> network \<times> delivery_result" where
  "deliver_remote tp entry target recipients n =
     (case target of
        LocalTarget \<Rightarrow> (n, Inl (failure_permanent ''WrongTransport'' WRONG_TRANSPORT))
      | RemoteTarget (ViaRelay host port wrappermode) \<Rightarrow>
          (case resolve_pinned (tp_lookup_host tp) host port (tp_policy tp) of
             Inl e \<Rightarrow> (n, Inl (classify_smtp_error (tp_display tp) e))
           | Inr pinned \<Rightarrow>
               deliver_one tp pinned (RequiredTls (if wrappermode \<or> port = 465 then ImplicitTls else StartTls)) entry recipients n)
      | RemoteTarget Direct \<Rightarrow> deliver_direct tp entry recipients n)"

datatype signing_outcome = Signed string | NotApplicable | SigningFailed string

definition SIGNING_FAILURE_KIND :: string where "SIGNING_FAILURE_KIND = ''DkimSigningFailed''"

type_synonym 'n transport = "queue_entry \<Rightarrow> delivery_target \<Rightarrow> string list \<Rightarrow> 'n \<Rightarrow> 'n \<times> delivery_result"

definition signing_deliver :: "'n transport \<Rightarrow> (string \<Rightarrow> signing_outcome) \<Rightarrow> 'n transport" where
  "signing_deliver inner sign entry target recipients n =
     (case sign (qe_data entry) of
        NotApplicable \<Rightarrow> inner entry target recipients n
      | Signed data \<Rightarrow> inner (entry\<lparr>qe_data := data\<rparr>) target recipients n
      | SigningFailed reason \<Rightarrow> (n, Inl (with_local_fault (failure_transient SIGNING_FAILURE_KIND reason))))"

section \<open>What goes over the wire in the clear\<close>

text \<open>From \<open>s\<close> to \<open>t\<close> events were added, and what was sent in the clear satisfies \<open>P\<close>.\<close>

definition extends :: "(string \<Rightarrow> bool) \<Rightarrow> smtp_session \<Rightarrow> smtp_session \<Rightarrow> bool" where
  "extends P s t \<longleftrightarrow>
     (\<exists>es. ss_trace t = ss_trace s @ es \<and> (\<forall>p. Sent False p \<in> set es \<longrightarrow> P p)) \<and> (ss_encrypted s \<longrightarrow> ss_encrypted t)"

lemma extends_refl [simp]: "extends P s s"
  by (simp add: extends_def)

lemma extends_trans: "extends P s t \<Longrightarrow> extends P t u \<Longrightarrow> extends P s u"
  by (fastforce simp: extends_def)

lemma extends_mono: "extends P s t \<Longrightarrow> (\<And>p. P p \<Longrightarrow> Q p) \<Longrightarrow> extends Q s t"
  by (auto simp: extends_def)

text \<open>An operation that always extends, and one that does so when the stream is encrypted.\<close>

definition discreet :: "(string \<Rightarrow> bool) \<Rightarrow> (smtp_session \<Rightarrow> smtp_session \<times> 'r) \<Rightarrow> bool" where
  "discreet P m \<longleftrightarrow> (\<forall>s. extends (\<lambda>p. \<not> ss_encrypted s \<and> P p) s (fst (m s)))"

named_theorems discreet \<open>operations that send only harmless text in the clear\<close>

lemma discreet_run: "discreet P m \<Longrightarrow> m s = (t, r) \<Longrightarrow> extends (\<lambda>p. \<not> ss_encrypted s \<and> P p) s t"
  unfolding discreet_def by (erule allE [of _ s]) simp

lemma discreetI: "(\<And>s t r. m s = (t, r) \<Longrightarrow> extends (\<lambda>p. \<not> ss_encrypted s \<and> P p) s t) \<Longrightarrow> discreet P m"
  unfolding discreet_def by (metis prod.collapse)

lemma discreetD: "discreet P m \<Longrightarrow> m s = (t, r) \<Longrightarrow> extends P s t"
  using discreet_run [of P m s t r] by (auto elim: extends_mono)

lemma discreet_encrypted: "discreet P m \<Longrightarrow> ss_encrypted s \<Longrightarrow> m s = (t, r) \<Longrightarrow> extends (\<lambda>_. False) s t"
  using discreet_run [of P m s t r] by (auto elim: extends_mono)

lemma extends_encrypted: "extends P s t \<Longrightarrow> ss_encrypted s \<Longrightarrow> ss_encrypted t"
  by (simp add: extends_def)

lemma discreet_bind [discreet]:
  assumes m: "discreet P m" and k: "\<And>x. discreet P (k x)"
  shows "discreet P (io_bind m k)"
  unfolding discreet_def
proof
  fix s
  obtain t r where t: "m s = (t, r)" by (cases "m s")
  have s: "extends (\<lambda>p. \<not> ss_encrypted s \<and> P p) s t" by (rule discreet_run [OF m t])
  show "extends (\<lambda>p. \<not> ss_encrypted s \<and> P p) s (fst (io_bind m k s))"
  proof (cases r)
    case (Inl e)
    then show ?thesis using s t by (simp add: io_bind_def)
  next
    case (Inr x)
    have "extends (\<lambda>p. \<not> ss_encrypted t \<and> P p) t (fst (k x t))" using k [of x] unfolding discreet_def by blast
    then have "extends (\<lambda>p. \<not> ss_encrypted s \<and> P p) t (fst (k x t))"
      using extends_encrypted [OF s] by (auto elim: extends_mono)
    with s show ?thesis using t Inr by (auto simp: io_bind_def intro: extends_trans)
  qed
qed

lemma discreet_base [discreet]:
  "discreet P (io_return x)" "discreet P (io_fail e)" "discreet P (io_lift r)" "discreet P (\<lambda>s. (s, v))"
  by (simp_all add: discreet_def io_return_def io_fail_def io_lift_def)

lemma discreet_map_err [discreet]: "discreet P m \<Longrightarrow> discreet P (io_map_err g m)"
  by (rule discreetI) (auto simp: io_map_err_def dest: discreet_run split: prod.splits sum.splits)

lemma discreet_if [discreet]: "discreet P m \<Longrightarrow> discreet P m' \<Longrightarrow> discreet P (if b then m else m')"
  by simp

lemma discreet_cond [discreet]: "discreet P m \<Longrightarrow> discreet P m' \<Longrightarrow> discreet P (\<lambda>s. if b s then m s else m' s)"
  by (simp add: discreet_def)

lemma discreet_option [discreet]:
  "discreet P m \<Longrightarrow> (\<And>x. discreet P (f x)) \<Longrightarrow> discreet P (case v of None \<Rightarrow> m | Some x \<Rightarrow> f x)"
  by (cases v) simp_all

lemma discreet_read_response [discreet]: "discreet P read_response"
  unfolding discreet_def
proof
  fix s
  obtain t r where t: "read_response_loop [] None s = (t, r)" by (cases "read_response_loop [] None s")
  from read_response_loop_frame [OF this] t show "extends (\<lambda>p. \<not> ss_encrypted s \<and> P p) s (fst (read_response s))"
    by (cases r) (auto simp: read_response_def extends_def)
qed

lemma discreet_write_wire: "(\<And>n. P (take n p)) \<Longrightarrow> discreet P (write_wire p)"
  using take_all [of p "length p"]
  by (auto simp: discreet_def write_wire_def extends_def split: list.splits write_event.splits) (metis take_all order_refl)+

lemma discreet_command:
  "(\<And>n. P (take n (line @ CRLF))) \<Longrightarrow> discreet P (smtp_command line)"
  unfolding smtp_command_def write_line_def by (intro discreet discreet_write_wire)

lemma discreet_upgrade [discreet]: "discreet P stream_upgrade"
  by (rule discreetI) (auto simp: stream_upgrade_def extends_def split: if_splits tls_outcome.splits)

lemma discreet_starttls: "(\<And>n. P (take n (''STARTTLS'' @ CRLF))) \<Longrightarrow> discreet P smtp_starttls"
  unfolding smtp_starttls_def by (intro discreet discreet_command)

lemma discreet_ehlo: 
  assumes "\<And>n. P (take n (''EHLO '' @ name @ CRLF))" shows "discreet P (smtp_ehlo name)"
proof (rule discreetI)
  fix s t r assume r: "smtp_ehlo name s = (t, r)"
  obtain u x where u: "smtp_command (''EHLO '' @ name) s = (u, x)" by (cases "smtp_command (''EHLO '' @ name) s")
  have "extends (\<lambda>p. \<not> ss_encrypted s \<and> P p) s u" using assms by (intro discreet_run [OF discreet_command u]) simp
  with r u show "extends (\<lambda>p. \<not> ss_encrypted s \<and> P p) s t"
    by (auto simp: smtp_ehlo_def extends_def split: sum.splits if_splits)
qed

lemma discreet_any_command [discreet]: "discreet (\<lambda>_. True) (smtp_command line)"
  by (rule discreet_command) simp

lemma discreet_authenticate [discreet]: "discreet (\<lambda>_. True) (authenticate u p)"
  unfolding authenticate_def by (intro discreet)

lemma discreet_rcpt_loop [discreet]: "discreet (\<lambda>_. True) (rcpt_loop rcpts st)"
  by (induction rcpts arbitrary: st) (auto intro!: discreet)

lemma discreet_write_chunks [discreet]: "discreet (\<lambda>_. True) (write_chunks cs)"
  by (induction cs) (auto intro!: discreet discreet_write_wire)

lemma discreet_send_message [discreet]: "discreet (\<lambda>_. True) (send_message_detailed f rcpts d)"
  unfolding send_message_detailed_def send_data_def flush_raw_def Let_def
  by (intro discreet discreet_write_wire TrueI)

text \<open>The two commands that go out before the stream is encrypted, or parts of them.\<close>

definition harmless :: "string \<Rightarrow> string \<Rightarrow> bool" where
  "harmless helo p \<longleftrightarrow> prefix p (''EHLO '' @ helo @ CRLF) \<or> prefix p (''STARTTLS'' @ CRLF)"

lemma harmless_parts: "harmless helo (take n (''EHLO '' @ helo @ CRLF))" "harmless helo (take n (''STARTTLS'' @ CRLF))"
  unfolding harmless_def using take_is_prefix by blast+

lemma discreet_greet: "discreet (harmless (tp_helo_name tp)) (greet tp)"
  unfolding greet_def smtp_step_def require_positive_def
  by (intro discreet discreet_ehlo harmless_parts)

lemma discreet_secure: "discreet (harmless (tp_helo_name tp)) (secure tp mode)"
  unfolding secure_def smtp_step_def
  by (intro discreet discreet_greet discreet_starttls harmless_parts)

lemma secure_encrypts:
  assumes "secure tp mode s = (t, Inr x)" "mode = ImplicitTls \<longrightarrow> ss_encrypted s"
  shows "ss_encrypted t"
proof (cases mode)
  case StartTls
  with assms(1) obtain u r v where u: "smtp_starttls s = (u, Inr r)" "greet tp u = (t, Inr v)"
    by (auto simp: secure_def smtp_step_def io_bind_ok io_map_err_def io_fail_def split: if_splits prod.splits sum.splits)
  with starttls_result [OF u(1)] discreetD [OF discreet_greet u(2)] show ?thesis
    by (auto simp: extends_def)
next
  case ImplicitTls
  with assms show ?thesis by (simp add: secure_def)
qed

lemma discreet_log_in [discreet]: "discreet (\<lambda>_. True) (log_in tp)"
  unfolding log_in_def smtp_step_def require_positive_def
  by (cases "tp_credentials tp") (auto intro!: discreet)

lemma discreet_hang_up [discreet]: "discreet (\<lambda>_. True) hang_up"
  using discreet_any_command [of "''QUIT''"] by (simp add: discreet_def hang_up_def smtp_quit_def)

lemma extends_bind:
  assumes r: "io_bind m k s = (t, r)" and m: "\<And>u x. m s = (u, x) \<Longrightarrow> extends P s u"
    and k: "\<And>u x. m s = (u, Inr x) \<Longrightarrow> k x u = (t, r) \<Longrightarrow> extends P u t"
  shows "extends P s t"
proof -
  obtain u x where u: "m s = (u, x)" by (cases "m s")
  show ?thesis
  proof (cases x)
    case (Inl e)
    with r u m show ?thesis by (auto simp: io_bind_def)
  next
    case (Inr y)
    with r u have "k y u = (t, r)" by (simp add: io_bind_def)
    with u Inr show ?thesis using m [OF u] k [of u y] extends_trans by blast
  qed
qed

text \<open>The part of a delivery that follows the preparation of the stream.\<close>

definition deliver_message :: "smtp_transport \<Rightarrow> queue_entry \<Rightarrow> string list \<Rightarrow> delivery_receipt delivery_io" where
  "deliver_message tp entry recipients =
     io_bind (smtp_step tp (send_message_detailed (qe_mail_from entry) recipients (qe_data entry))) (\<lambda>outcome.
     io_bind hang_up (\<lambda>_. io_lift (outcome_result recipients outcome)))"

lemma deliver_session_message:
  "deliver_session tp tls entry recipients =
     io_bind (smtp_step tp read_response) (\<lambda>_. io_bind (greet tp) (\<lambda>_. io_bind (prepare tp tls) (\<lambda>_.
     deliver_message tp entry recipients)))"
  by (simp add: deliver_session_def deliver_message_def)

lemma discreet_deliver_message [discreet]: "discreet (\<lambda>_. True) (deliver_message tp entry recipients)"
  unfolding deliver_message_def smtp_step_def by (intro discreet)

lemma greeting_discreet: "discreet (harmless helo) (smtp_step tp read_response)"
  unfolding smtp_step_def by (intro discreet)

lemma deliver_session_discreet:
  assumes r: "deliver_session tp (RequiredTls mode) entry rcpts s = (t, r)" and s: "mode = ImplicitTls \<longrightarrow> ss_encrypted s"
  shows "extends (harmless (tp_helo_name tp)) s t"
proof -
  let ?P = "harmless (tp_helo_name tp)"
  have login: "extends ?P u t" if u: "ss_encrypted u" "io_bind (log_in tp) (\<lambda>_. deliver_message tp entry rcpts) u = (t, r)" for u
  proof -
    have "discreet (\<lambda>_. True) (io_bind (log_in tp) (\<lambda>_. deliver_message tp entry rcpts))" by (intro discreet)
    from discreet_encrypted [OF this u] show ?thesis by (rule extends_mono) simp
  qed
  have "deliver_session tp (RequiredTls mode) entry rcpts =
     io_bind (smtp_step tp read_response) (\<lambda>_. io_bind (greet tp) (\<lambda>_. io_bind (secure tp mode) (\<lambda>_.
       io_bind (log_in tp) (\<lambda>_. deliver_message tp entry rcpts))))"
    by (simp add: deliver_session_message prepare_def io_bind_def fun_eq_iff split: prod.splits sum.splits)
  with r have r: "io_bind (smtp_step tp read_response) (\<lambda>_. io_bind (greet tp) (\<lambda>_. io_bind (secure tp mode) (\<lambda>_.
       io_bind (log_in tp) (\<lambda>_. deliver_message tp entry rcpts)))) s = (t, r)" by simp
  show ?thesis
  proof (rule extends_bind [OF r discreetD [OF greeting_discreet]])
    fix u x assume u: "smtp_step tp read_response s = (u, Inr x)"
      and ru: "io_bind (greet tp) (\<lambda>_. io_bind (secure tp mode) (\<lambda>_.
         io_bind (log_in tp) (\<lambda>_. deliver_message tp entry rcpts))) u = (t, r)"
    have eu: "mode = ImplicitTls \<longrightarrow> ss_encrypted u"
      using s extends_encrypted [OF discreetD [OF greeting_discreet u]] by blast
    show "extends ?P u t"
    proof (rule extends_bind [OF ru discreetD [OF discreet_greet]])
      fix v y assume v: "greet tp u = (v, Inr y)"
        and rv: "io_bind (secure tp mode) (\<lambda>_. io_bind (log_in tp) (\<lambda>_. deliver_message tp entry rcpts)) v = (t, r)"
      have "mode = ImplicitTls \<longrightarrow> ss_encrypted v"
        using eu extends_encrypted [OF discreetD [OF discreet_greet v]] by blast
      then show "extends ?P v t"
        by (intro extends_bind [OF rv discreetD [OF discreet_secure]] login secure_encrypts) auto
    qed
  qed
qed

section \<open>Which addresses are dialled\<close>

text \<open>From \<open>n\<close> to \<open>n'\<close> only acceptable addresses were dialled and conversations were added.\<close>

definition dials :: "(socket_addr \<Rightarrow> bool) \<Rightarrow> (wire_event list \<Rightarrow> bool) \<Rightarrow> network \<Rightarrow> network \<Rightarrow> bool" where
  "dials A P n n' \<longleftrightarrow>
     (\<exists>ds log. nw_dialled n' = nw_dialled n @ ds \<and> nw_log n' = nw_log n @ log \<and>
        (\<forall>a \<in> set ds. A a) \<and> (\<forall>c \<in> set log. P (snd c)))"

lemma dials_refl [simp]: "dials A P n n"
  by (simp add: dials_def)

lemma dials_trans: "dials A P n n' \<Longrightarrow> dials A P n' n'' \<Longrightarrow> dials A P n n''"
  by (fastforce simp: dials_def)

lemma dials_mono: "dials A P n n' \<Longrightarrow> (\<And>a. A a \<Longrightarrow> B a) \<Longrightarrow> (\<And>es. P es \<Longrightarrow> Q es) \<Longrightarrow> dials B Q n n'"
  by (fastforce simp: dials_def)

lemma next_dial_frame:
  "next_dial n = (e, n') \<Longrightarrow> nw_dialled n' = nw_dialled n \<and> nw_log n' = nw_log n"
  by (auto simp: next_dial_def split: list.splits)

lemma dial_loop_dials:
  "dial_loop port ips last_error n = (n', r) \<Longrightarrow> nw_log n' = nw_log n \<and>
   (\<exists>ds. nw_dialled n' = nw_dialled n @ ds \<and> (\<forall>a \<in> set ds. sa_ip a \<in> set ips \<and> sa_port a = port))"
proof (induction ips arbitrary: last_error n)
  case (Cons ip ips)
  obtain e m where m: "next_dial n = (e, m)" by (cases "next_dial n")
  let ?m = "m\<lparr>nw_dialled := nw_dialled m @ [\<lparr>sa_ip = ip, sa_port = port\<rparr>]\<rparr>"
  show ?case
  proof (cases e)
    case (DialOk script)
    with Cons.prems m next_dial_frame [OF m] show ?thesis by (auto simp: Let_def)
  next
    case DialRefused
    with Cons.prems m have "dial_loop port ips (Some ConnectFailed) ?m = (n', r)" by (simp add: Let_def)
    from Cons.IH [OF this] next_dial_frame [OF m] show ?thesis by auto
  next
    case DialTimedOut
    with Cons.prems m have "dial_loop port ips (Some ConnectTimeout) ?m = (n', r)" by (simp add: Let_def)
    from Cons.IH [OF this] next_dial_frame [OF m] show ?thesis by auto
  qed
qed auto

lemma connect_with_mode_dials:
  assumes "connect_with_mode t mode n = (n', r)"
  shows "dials (\<lambda>a. sa_ip a \<in> set (pt_addresses t) \<and> sa_port a = sa_port (pt_pinned t)) P n n'"
  using assms
  by (auto simp: connect_with_mode_def dialer_connect_def dials_def dest!: dial_loop_dials
      split: prod.splits sum.splits client_tls.splits tls_outcome.splits)

lemma connect_session:
  assumes "connect_with_mode t mode n = (n', Inr (addr, s))"
  shows "ss_trace s = [] \<and> (ss_encrypted s \<longleftrightarrow> mode = ImplicitTls)"
  using assms by (auto simp: connect_with_mode_def session_from_stream_def
      split: prod.splits sum.splits client_tls.splits tls_outcome.splits)

definition tls_of :: "delivery_tls \<Rightarrow> client_tls" where
  "tls_of tls = (case tls of RequiredTls mode \<Rightarrow> mode | Plaintext \<Rightarrow> StartTls)"

lemma deliver_one_cases:
  assumes "deliver_one tp pinned tls entry recipients n = (n', r)"
  obtains (no_stream) e where "connect_with_mode pinned (tls_of tls) n = (n', Inl e)" "r = Inl (classify_smtp_error (tp_display tp) e)"
  | (stream) m addr s t where "connect_with_mode pinned (tls_of tls) n = (m, Inr (addr, s))"
      "deliver_session tp tls entry recipients s = (t, r)" "n' = m\<lparr>nw_log := nw_log m @ [(addr, ss_trace t)]\<rparr>"
  using assms by (auto simp: deliver_one_def tls_of_def [symmetric] Let_def split: prod.splits sum.splits)

lemma deliver_one_dials:
  assumes r: "deliver_one tp pinned tls entry recipients n = (n', r)"
    and P: "\<And>s t r. deliver_session tp tls entry recipients s = (t, r) \<Longrightarrow> ss_trace s = [] \<Longrightarrow>
              ss_encrypted s = (tls_of tls = ImplicitTls) \<Longrightarrow> P (ss_trace t)"
  shows "dials (\<lambda>a. sa_ip a \<in> set (pt_addresses pinned) \<and> sa_port a = sa_port (pt_pinned pinned)) P n n'"
  using r
proof (cases rule: deliver_one_cases)
  case (no_stream e)
  then show ?thesis by (intro connect_with_mode_dials)
next
  case (stream m addr s t)
  have "P (ss_trace t)" using P [OF stream(2)] connect_session [OF stream(1)] by blast
  with connect_with_mode_dials [OF stream(1), of P] stream(3) show ?thesis by (force simp: dials_def)
qed

lemma try_targets_dials:
  assumes "try_targets tp entry recipients targets lf n = (n', r)"
    and "list_all (\<lambda>t. list_all A (pt_addresses t)) targets"
  shows "dials (\<lambda>a. A (sa_ip a)) (\<lambda>_. True) n n'"
  using assms
proof (induction targets arbitrary: lf n)
  case (Cons t targets)
  obtain m x where m: "deliver_one tp t Plaintext entry recipients n = (m, x)" by (cases "deliver_one tp t Plaintext entry recipients n")
  have "dials (\<lambda>a. A (sa_ip a)) (\<lambda>_. True) n m"
    using Cons.prems(2)
    by (intro dials_mono [OF deliver_one_dials [where P = "\<lambda>_. True", OF m]]) (auto simp: list_all_iff)
  moreover have "dials (\<lambda>a. A (sa_ip a)) (\<lambda>_. True) m n'"
    using Cons.prems m Cons.IH by (auto split: sum.splits if_splits)
  ultimately show ?case by (rule dials_trans)
qed simp

lemma resolve_mx_targets_ok:
  "resolve_mx_targets L M domain port policy = Inr ts \<Longrightarrow> list_all (target_ok L port policy) ts"
  by (auto simp: resolve_mx_targets_def dest!: resolve_candidates_ok split: sum.splits mx_targets.splits prod.splits if_splits)

lemma target_ok_policy: "target_ok L port policy t \<Longrightarrow> ip \<in> set (pt_addresses t) \<Longrightarrow> policy_accepts policy ip"
  by (simp add: target_ok_def list_all_iff)

lemma direct_domain_dials:
  assumes "deliver_direct_to_domain tp mx domain recipients entry n = (n', r)"
  shows "dials (\<lambda>a. policy_accepts (tp_policy tp) (sa_ip a)) (\<lambda>_. True) n n'"
proof (cases "resolve_mx_targets (tp_lookup_host tp) mx domain (tp_direct_port tp) (tp_policy tp)")
  case (Inl e)
  with assms show ?thesis by (simp add: deliver_direct_to_domain_def)
next
  case (Inr ts)
  obtain m x where m: "try_targets tp entry recipients ts None n = (m, x)" by (cases "try_targets tp entry recipients ts None n")
  with assms Inr have "n' = m" by (auto simp: deliver_direct_to_domain_def split: sum.splits option.splits)
  with resolve_mx_targets_ok [OF Inr] m show ?thesis
    by (auto intro!: try_targets_dials simp: list_all_iff dest!: target_ok_policy)
qed

lemma groups_dials:
  assumes "deliver_groups tp mx entry groups acc fs n = (n', r)"
  shows "dials (\<lambda>a. policy_accepts (tp_policy tp) (sa_ip a)) (\<lambda>_. True) n n'"
  using assms
proof (induction groups arbitrary: acc fs n)
  case (Cons g groups)
  obtain d members where g: "g = (d, members)" by (cases g)
  obtain m x where m: "deliver_direct_to_domain tp mx d members entry n = (m, x)"
    by (cases "deliver_direct_to_domain tp mx d members entry n")
  have "dials (\<lambda>a. policy_accepts (tp_policy tp) (sa_ip a)) (\<lambda>_. True) m n'"
    using Cons m g by (auto split: sum.splits)
  with direct_domain_dials [OF m] show ?case by (rule dials_trans)
qed simp

text \<open>
  \<^bold>\<open>C16\<close> (where mail goes and what is readable on the way). Whatever the servers answer, a delivery
  dials only addresses that the address policy of the transport accepts, and over a configured
  relay nothing but the EHLO and STARTTLS commands ever leaves in the clear: user name, password,
  envelope and message are written only to an encrypted stream, or not at all.
\<close>

theorem relay_traffic_encrypted:
  assumes "deliver_remote tp entry target recipients n = (n', r)"
  shows "\<exists>ds log. nw_dialled n' = nw_dialled n @ ds \<and> nw_log n' = nw_log n @ log \<and>
     (\<forall>a \<in> set ds. policy_accepts (tp_policy tp) (sa_ip a)) \<and>
     (target \<noteq> RemoteTarget Direct \<longrightarrow>
        (\<forall>c \<in> set log. \<forall>p. Sent False p \<in> set (snd c) \<longrightarrow> harmless (tp_helo_name tp) p))"
proof -
  let ?A = "\<lambda>a. policy_accepts (tp_policy tp) (sa_ip a)"
  let ?P = "\<lambda>es. target \<noteq> RemoteTarget Direct \<longrightarrow> (\<forall>p. Sent False p \<in> set es \<longrightarrow> harmless (tp_helo_name tp) p)"
  have "dials ?A ?P n n'"
  proof (cases target)
    case LocalTarget
    with assms show ?thesis by (simp add: deliver_remote_def)
  next
    case (RemoteTarget route)
    show ?thesis
    proof (cases route)
      case Direct
      with assms RemoteTarget have "deliver_direct tp entry recipients n = (n', r)" by (simp add: deliver_remote_def)
      then have "dials ?A (\<lambda>_. True) n n'"
        by (auto simp: deliver_direct_def dest: groups_dials split: option.splits prod.splits if_splits)
      with RemoteTarget Direct show ?thesis by (auto elim: dials_mono)
    next
      case (ViaRelay host port w)
      show ?thesis
      proof (cases "resolve_pinned (tp_lookup_host tp) host port (tp_policy tp)")
        case (Inl e)
        with assms RemoteTarget ViaRelay show ?thesis by (simp add: deliver_remote_def)
      next
        case (Inr pinned)
        define mode where "mode = (if w \<or> port = 465 then ImplicitTls else StartTls)"
        have d: "deliver_one tp pinned (RequiredTls mode) entry recipients n = (n', r)"
          using assms RemoteTarget ViaRelay Inr by (simp add: deliver_remote_def mode_def)
        have "dials (\<lambda>a. sa_ip a \<in> set (pt_addresses pinned) \<and> sa_port a = sa_port (pt_pinned pinned)) ?P n n'"
        proof (rule deliver_one_dials [OF d])
          fix s t x
          assume ds: "deliver_session tp (RequiredTls mode) entry recipients s = (t, x)" "ss_trace s = []"
            "ss_encrypted s = (tls_of (RequiredTls mode) = ImplicitTls)"
          from deliver_session_discreet [OF ds(1)] ds(2,3) show "?P (ss_trace t)" by (auto simp: extends_def tls_of_def)
        qed
        with resolve_pinned_ok [OF Inr] show ?thesis by (auto elim!: dials_mono dest: target_ok_policy)
      qed
    qed
  qed
  then show ?thesis by (auto simp: dials_def)
qed

section \<open>What is reported as accepted\<close>

text \<open>A conversation in which recipient \<open>r\<close> was accepted and the message then taken.\<close>

definition acknowledges :: "queue_entry \<Rightarrow> wire_event list \<Rightarrow> string \<Rightarrow> bool" where
  "acknowledges entry es r \<longleftrightarrow>
     (\<exists>pre enc m ars d fin post.
        es = pre @ transaction_trace enc (qe_mail_from entry) m ars d (qe_data entry) fin @ post \<and>
        rs_is_positive_completion m \<and> rs_code d = 354 \<and> rs_is_positive_completion fin \<and> r \<in> set (positive_rcpts ars))"

definition truthful :: "string list \<Rightarrow> (string \<Rightarrow> bool) \<Rightarrow> delivery_result \<Rightarrow> bool" where
  "truthful recipients acked res \<longleftrightarrow>
     (case res of
        Inr receipt \<Rightarrow> receipt_accepted receipt = length recipients \<and> (\<forall>r \<in> set recipients. acked r)
      | Inl f \<Rightarrow> set (df_accepted f) \<subseteq> set recipients \<and> (\<forall>r \<in> set (df_accepted f). acked r))"

lemma truthful_mono: "truthful rs P res \<Longrightarrow> (\<And>r. P r \<Longrightarrow> Q r) \<Longrightarrow> truthful rs Q res"
  by (auto simp: truthful_def split: sum.splits)

lemma truthful_none: "df_accepted f = [] \<Longrightarrow> truthful rs P (Inl f)"
  by (simp add: truthful_def)

text \<open>Operations whose failures report nobody as accepted.\<close>

definition reports_none :: "'a delivery_io \<Rightarrow> bool" where
  "reports_none m \<longleftrightarrow> (\<forall>s t f. m s = (t, Inl f) \<longrightarrow> df_accepted f = [])"

lemma classify_accepted [simp]: "df_accepted (classify_smtp_error d e) = []" "df_accepted (classify_response c b) = []"
  "df_accepted (failure_permanent k m) = []" "df_accepted (failure_transient k m) = []"
  by (simp_all add: classify_smtp_error_def classify_response_def failure_permanent_def failure_transient_def)

lemma reports_none_step: "reports_none (smtp_step tp m)"
  by (auto simp: reports_none_def smtp_step_def io_map_err_def split: prod.splits sum.splits)

lemma reports_none_bind: "reports_none m \<Longrightarrow> (\<And>x. reports_none (k x)) \<Longrightarrow> reports_none (io_bind m k)"
  by (auto simp: reports_none_def io_bind_def split: prod.splits sum.splits)

lemma reports_none_positive: "reports_none (require_positive r)"
  by (simp add: reports_none_def require_positive_def io_fail_def io_return_def)

lemmas reports_none_rules = reports_none_step reports_none_bind reports_none_positive

lemma reports_none_greet: "reports_none (greet tp)"
  unfolding greet_def by (intro reports_none_rules)

lemma reports_none_prepare: "reports_none (prepare tp tls)"
proof -
  have "reports_none (secure tp mode)" for mode
  proof -
    have "reports_none (io_bind (smtp_step tp smtp_starttls) (\<lambda>_. greet tp))"
      by (intro reports_none_rules reports_none_greet)
    then show ?thesis by (auto simp: secure_def reports_none_def io_fail_def io_return_def)
  qed
  moreover have "reports_none (log_in tp)"
  proof -
    have "reports_none (io_bind (smtp_step tp (authenticate u p)) require_positive)" for u p
      by (intro reports_none_rules)
    then show ?thesis by (auto simp: log_in_def reports_none_def io_fail_def io_return_def split: option.splits)
  qed
  ultimately show ?thesis
    by (auto simp: prepare_def intro: reports_none_bind split: delivery_tls.splits) (simp add: reports_none_def io_return_def)
qed

lemma acknowledges_later: "acknowledges entry es r \<Longrightarrow> acknowledges entry (es @ fs) r"
  unfolding acknowledges_def by (metis append.assoc)

lemma deliver_message_truthful:
  assumes "deliver_message tp entry recipients s = (t, res)"
  shows "truthful recipients (acknowledges entry (ss_trace t)) res"
proof -
  obtain u x where u: "smtp_step tp (send_message_detailed (qe_mail_from entry) recipients (qe_data entry)) s = (u, x)"
    by (cases "smtp_step tp (send_message_detailed (qe_mail_from entry) recipients (qe_data entry)) s")
  show ?thesis
  proof (cases x)
    case (Inl f)
    with assms u have "res = Inl f" by (auto simp: deliver_message_def io_bind_def)
    with u Inl show ?thesis using reports_none_step [of tp] by (auto simp: reports_none_def intro!: truthful_none)
  next
    case (Inr outcome)
    with u have send: "send_message_detailed (qe_mail_from entry) recipients (qe_data entry) s = (u, Inr outcome)"
      by (auto simp: smtp_step_def io_map_err_def split: prod.splits sum.splits)
    from assms u Inr have res: "res = outcome_result recipients outcome" and t: "t = fst (hang_up u)"
      by (auto simp: deliver_message_def io_bind_def io_lift_def hang_up_def split: prod.splits)
    have "\<exists>es. ss_trace t = ss_trace u @ es"
      using discreetD [OF discreet_hang_up prod.collapse [symmetric], of u] by (auto simp: extends_def t)
    then obtain post where post: "ss_trace t = ss_trace u @ post" by blast
    have "truthful recipients (acknowledges entry (ss_trace t)) res" if acc: "accepted_by recipients outcome \<noteq> []"
    proof -
      from accepted_means_acknowledged [OF send acc] obtain m rs d fin where
        tr: "ss_trace u = ss_trace s @ transaction_trace (ss_encrypted s) (qe_mail_from entry) m (zip recipients rs) d (qe_data entry) fin"
          "rs_is_positive_completion m" "rs_code d = 354" "rs_is_positive_completion fin"
        and a: "accepted_by recipients outcome = positive_rcpts (zip recipients rs)" by blast
      have "acknowledges entry (ss_trace t) r" if "r \<in> set (accepted_by recipients outcome)" for r
        unfolding acknowledges_def using tr that post a by (metis append.assoc)
      moreover have "set (positive_rcpts (zip recipients rs)) \<subseteq> set recipients"
        by (auto simp: positive_rcpts_def dest: set_zip_leftD)
      ultimately show ?thesis
        using a by (cases outcome) (auto simp: res truthful_def outcome_result_def with_accepted_def)
    qed
    moreover have "truthful recipients (acknowledges entry (ss_trace t)) res" if "accepted_by recipients outcome = []"
      using that by (cases outcome) (auto simp: res truthful_def outcome_result_def with_accepted_def)
    ultimately show ?thesis by blast
  qed
qed

lemma deliver_session_truthful:
  assumes "deliver_session tp tls entry recipients s = (t, res)"
  shows "truthful recipients (acknowledges entry (ss_trace t)) res"
proof -
  define before where "before = io_bind (smtp_step tp read_response) (\<lambda>_. io_bind (greet tp) (\<lambda>_. prepare tp tls))"
  have split: "deliver_session tp tls entry recipients = io_bind before (\<lambda>_. deliver_message tp entry recipients)"
    by (simp add: deliver_session_message before_def io_bind_def fun_eq_iff split: prod.splits sum.splits)
  have none: "reports_none before"
    unfolding before_def by (intro reports_none_rules reports_none_greet reports_none_prepare)
  obtain u x where u: "before s = (u, x)" by (cases "before s")
  show ?thesis
  proof (cases x)
    case (Inl f)
    with assms u none show ?thesis by (auto simp: split io_bind_def reports_none_def intro!: truthful_none)
  next
    case (Inr y)
    with assms u have "deliver_message tp entry recipients u = (t, res)" by (simp add: split io_bind_def)
    then show ?thesis by (rule deliver_message_truthful)
  qed
qed

definition acked_in :: "queue_entry \<Rightarrow> (socket_addr \<times> wire_event list) list \<Rightarrow> string \<Rightarrow> bool" where
  "acked_in entry log r \<longleftrightarrow> (\<exists>c \<in> set log. acknowledges entry (snd c) r)"

text \<open>From \<open>n\<close> to \<open>n'\<close> conversations were added that bear out the result.\<close>

definition honest :: "queue_entry \<Rightarrow> string list \<Rightarrow> network \<Rightarrow> network \<Rightarrow> delivery_result \<Rightarrow> bool" where
  "honest entry rs n n' res \<longleftrightarrow> (\<exists>log. nw_log n' = nw_log n @ log \<and> truthful rs (acked_in entry log) res)"

definition logs :: "network \<Rightarrow> network \<Rightarrow> bool" where
  "logs n n' \<longleftrightarrow> prefix (nw_log n) (nw_log n')"

lemma acked_in_append: "acked_in entry (l @ l') r \<longleftrightarrow> acked_in entry l r \<or> acked_in entry l' r"
  by (auto simp: acked_in_def)

lemma honest_later: "logs n m \<Longrightarrow> honest entry rs m n' res \<Longrightarrow> honest entry rs n n' res"
  by (fastforce simp: logs_def honest_def prefix_def acked_in_append elim: truthful_mono)

lemma honest_logs: "honest entry rs n n' res \<Longrightarrow> logs n n'"
  by (auto simp: honest_def logs_def)

lemma honest_none: "logs n n' \<Longrightarrow> df_accepted f = [] \<Longrightarrow> honest entry rs n n' (Inl f)"
  by (auto simp: honest_def logs_def prefix_def truthful_none)

lemma logs_refl [simp]: "logs n n"
  by (simp add: logs_def)

lemma logs_trans: "logs n m \<Longrightarrow> logs m n' \<Longrightarrow> logs n n'"
  by (auto simp: logs_def)

lemma connect_logs: "connect_with_mode t mode n = (n', r) \<Longrightarrow> nw_log n' = nw_log n"
  by (auto simp: connect_with_mode_def dialer_connect_def dest!: dial_loop_dials
      split: prod.splits sum.splits client_tls.splits tls_outcome.splits)

lemma deliver_one_honest:
  assumes "deliver_one tp pinned tls entry rs n = (n', r)"
  shows "honest entry rs n n' r"
  using assms
proof (cases rule: deliver_one_cases)
  case (no_stream e)
  with connect_logs [OF no_stream(1)] show ?thesis by (auto simp: logs_def intro!: honest_none)
next
  case (stream m addr s t)
  have "truthful rs (acked_in entry [(addr, ss_trace t)]) r"
    by (rule truthful_mono [OF deliver_session_truthful [OF stream(2)]]) (simp add: acked_in_def)
  with connect_logs [OF stream(1)] stream(3) show ?thesis by (auto simp: honest_def)
qed

lemma try_targets_honest:
  assumes "try_targets tp entry rs targets lf n = (n', r)" and "\<And>f. lf = Some f \<Longrightarrow> df_accepted f = []"
  shows "logs n n' \<and> (\<forall>f. r = Inl (Some f) \<longrightarrow> honest entry rs n n' (Inl f)) \<and> (\<forall>x. r = Inr x \<longrightarrow> honest entry rs n n' (Inr x))"
  using assms
proof (induction targets arbitrary: lf n)
  case Nil
  then show ?case by (auto intro: honest_none)
next
  case (Cons t targets)
  obtain m x where m: "deliver_one tp t Plaintext entry rs n = (m, x)" by (cases "deliver_one tp t Plaintext entry rs n")
  note h = deliver_one_honest [OF m] and l = honest_logs [OF deliver_one_honest [OF m]]
  show ?case
  proof (cases x)
    case (Inr y)
    with Cons.prems m h l show ?thesis by auto
  next
    case (Inl f)
    show ?thesis
    proof (cases "df_is_permanent f \<or> df_accepted f \<noteq> []")
      case True
      with Cons.prems m h l Inl show ?thesis by (auto split: if_splits)
    next
      case False
      with Cons.prems m Inl have "try_targets tp entry rs targets (Some f) m = (n', r)" by simp
      from Cons.IH [OF this] False l show ?thesis by (auto intro: logs_trans honest_later)
    qed
  qed
qed

lemma direct_domain_honest:
  assumes "deliver_direct_to_domain tp mx domain rs entry n = (n', r)"
  shows "honest entry rs n n' r"
proof (cases "resolve_mx_targets (tp_lookup_host tp) mx domain (tp_direct_port tp) (tp_policy tp)")
  case (Inl e)
  with assms show ?thesis by (auto simp: deliver_direct_to_domain_def intro!: honest_none)
next
  case (Inr ts)
  obtain m x where m: "try_targets tp entry rs ts None n = (m, x)" by (cases "try_targets tp entry rs ts None n")
  with assms Inr try_targets_honest [OF m] show ?thesis
    by (auto simp: deliver_direct_to_domain_def intro!: honest_none split: sum.splits option.splits)
qed

definition members :: "(string \<times> string list) list \<Rightarrow> string list" where
  "members groups = concat (map snd groups)"

lemma deliver_groups_honest:
  assumes "deliver_groups tp mx entry groups acc fs n = (n', acc', fs')"
  shows "\<exists>log new more. nw_log n' = nw_log n @ log \<and> acc' = acc @ new \<and> fs' = fs @ more \<and>
     set new \<subseteq> set (members groups) \<and> (\<forall>r \<in> set new. acked_in entry log r) \<and>
     (more = [] \<longrightarrow> new = members groups)"
  using assms
proof (induction groups arbitrary: acc fs n)
  case Nil
  then show ?case by (simp add: members_def)
next
  case (Cons g groups)
  obtain d ms where g: "g = (d, ms)" by (cases g)
  obtain m x where m: "deliver_direct_to_domain tp mx d ms entry n = (m, x)" by (cases "deliver_direct_to_domain tp mx d ms entry n")
  from direct_domain_honest [OF m] obtain log where log: "nw_log m = nw_log n @ log" "truthful ms (acked_in entry log) x"
    by (auto simp: honest_def)
  define step where "step = (case x of Inr _ \<Rightarrow> (acc @ ms, fs) | Inl f \<Rightarrow> (acc @ df_accepted f, fs @ [f]))"
  from Cons.prems g m have "deliver_groups tp mx entry groups (fst step) (snd step) m = (n', acc', fs')"
    by (auto simp: step_def split: sum.splits)
  from Cons.IH [OF this] obtain log' new more where rest: "nw_log n' = nw_log m @ log'" "acc' = fst step @ new" "fs' = snd step @ more"
    "set new \<subseteq> set (members groups)" "\<forall>r \<in> set new. acked_in entry log' r" "more = [] \<longrightarrow> new = members groups" by blast
  show ?case
  proof (cases x)
    case (Inl f)
    with log rest g show ?thesis
      by (intro exI [of _ "log @ log'"] exI [of _ "df_accepted f @ new"] exI [of _ "f # more"])
         (auto simp: step_def truthful_def members_def acked_in_append)
  next
    case (Inr y)
    with log rest g show ?thesis
      by (intro exI [of _ "log @ log'"] exI [of _ "ms @ new"] exI [of _ more])
         (auto simp: step_def truthful_def members_def acked_in_append)
  qed
qed

lemma mset_members: "mset (members groups) = (\<Sum>g \<leftarrow> groups. mset (snd g))"
  by (induction groups) (simp_all add: members_def)

lemma members_update:
  "distinct (map fst groups) \<Longrightarrow>
   mset (members (AList.update d ((case map_of groups d of Some g \<Rightarrow> g | None \<Rightarrow> []) @ [r]) groups)) = add_mset r (mset (members groups))"
  by (induction groups) (auto simp: members_def split: option.splits)

lemma push_group_members:
  "distinct (map fst groups) \<Longrightarrow> distinct (map fst (push_group groups r)) \<and> mset (members (push_group groups r)) = add_mset r (mset (members groups))"
  by (simp add: push_group_def Let_def distinct_update members_update)

lemma group_by_domain_members: "mset (members (group_by_domain rs)) = mset rs"
proof -
  have "distinct (map fst groups) \<Longrightarrow> mset (members (foldl push_group groups rs)) = mset (members groups) + mset rs" for groups
    by (induction rs arbitrary: groups) (simp_all add: push_group_members)
  from this [of "[]"] have "mset (members (foldl push_group [] rs)) = mset rs" by (simp add: members_def)
  moreover have "mset (members (sort_key fst gs)) = mset (members gs)" for gs :: "(string \<times> string list) list"
    unfolding mset_members sum_mset_sum_list [symmetric] mset_map by simp
  ultimately show ?thesis by (simp add: group_by_domain_def)
qed

lemma deliver_direct_honest:
  assumes "deliver_direct tp entry rs n = (n', r)"
  shows "honest entry rs n n' r"
proof (cases "tp_mx tp")
  case None
  with assms show ?thesis by (auto simp: deliver_direct_def intro!: honest_none)
next
  case (Some mx)
  obtain m acc fs where m: "deliver_groups tp mx entry (group_by_domain rs) [] [] n = (m, acc, fs)"
    by (metis surj_pair)
  from deliver_groups_honest [OF m] obtain log where log: "nw_log m = nw_log n @ log"
    "set acc \<subseteq> set (members (group_by_domain rs))" "\<forall>r \<in> set acc. acked_in entry log r"
    "fs = [] \<longrightarrow> acc = members (group_by_domain rs)" by auto
  have all: "set (members (group_by_domain rs)) = set rs" "length (members (group_by_domain rs)) = length rs"
    using group_by_domain_members by (metis set_mset_mset, metis size_mset)
  show ?thesis
    using assms Some m log all by (auto simp: deliver_direct_def honest_def truthful_def with_accepted_def split: if_splits)
qed

lemma deliver_remote_honest:
  assumes "deliver_remote tp entry target rs n = (n', r)"
  shows "honest entry rs n n' r"
  using assms
  by (auto simp: deliver_remote_def intro!: honest_none dest: deliver_direct_honest deliver_one_honest
      split: delivery_target.splits outbound_route.splits sum.splits)

text \<open>
  \<^bold>\<open>C6\<close> (no recipient is reported as served who was not). Whatever the servers answer and whichever
  connections fail, a delivery that succeeds counts every recipient, and for each of them, as for
  each recipient that a failed delivery reports as accepted, one of the conversations it held
  contains the complete transaction for this sender and message: 2xx to MAIL and to the RCPT command
  of that recipient, 354 to DATA, the whole dot-stuffed message and its terminator, and a final 2xx.
  A failure never reports a recipient that was not asked for.
\<close>

theorem delivered_means_acknowledged:
  assumes "deliver_remote tp entry target recipients n = (n', res)"
  shows "\<exists>log. nw_log n' = nw_log n @ log \<and>
     (case res of
        Inr receipt \<Rightarrow> receipt_accepted receipt = length recipients \<and> (\<forall>r \<in> set recipients. acked_in entry log r)
      | Inl f \<Rightarrow> set (df_accepted f) \<subseteq> set recipients \<and> (\<forall>r \<in> set (df_accepted f). acked_in entry log r))"
  using deliver_remote_honest [OF assms] by (simp add: honest_def truthful_def)

section \<open>The contract of a transport\<close>

text \<open>What the queue relies on: a failure reports only recipients it was asked to serve.\<close>

locale transport =
  fixes deliver :: "queue_entry \<Rightarrow> delivery_target \<Rightarrow> string list \<Rightarrow> 'n \<Rightarrow> 'n \<times> delivery_result"
  assumes accepted_sub: "deliver e tgt rs n = (n', Inl f) \<Longrightarrow> set (df_accepted f) \<subseteq> set rs"
    and receipt_all: "deliver e tgt rs n = (n', Inr receipt) \<Longrightarrow> receipt_accepted receipt = length rs"

text \<open>Signing in front of a transport keeps the contract.\<close>

locale signed_transport = transport deliver
  for deliver :: "queue_entry \<Rightarrow> delivery_target \<Rightarrow> string list \<Rightarrow> 'n \<Rightarrow> 'n \<times> delivery_result" +
  fixes sign :: "string \<Rightarrow> signing_outcome"
begin

lemma signing_accepted_sub:
  "signing_deliver deliver sign e tgt rs n = (n', Inl f) \<Longrightarrow> set (df_accepted f) \<subseteq> set rs"
  by (auto simp: signing_deliver_def with_local_fault_def failure_transient_def dest: accepted_sub split: signing_outcome.splits)

lemma signing_receipt_all:
  "signing_deliver deliver sign e tgt rs n = (n', Inr receipt) \<Longrightarrow> receipt_accepted receipt = length rs"
  by (auto simp: signing_deliver_def dest: receipt_all split: signing_outcome.splits)

end

sublocale signed_transport \<subseteq> signed: transport "signing_deliver deliver sign"
  using signing_accepted_sub signing_receipt_all by unfold_locales

interpretation remote: signed_transport "deliver_remote tp" sign for tp sign
proof
  fix e tgt rs n n' f and receipt
  show "deliver_remote tp e tgt rs n = (n', Inl f) \<Longrightarrow> set (df_accepted f) \<subseteq> set rs"
    using deliver_remote_honest [of tp e tgt rs n n' "Inl f"] by (auto simp: honest_def truthful_def)
  show "deliver_remote tp e tgt rs n = (n', Inr receipt) \<Longrightarrow> receipt_accepted receipt = length rs"
    using deliver_remote_honest [of tp e tgt rs n n' "Inr receipt"] by (auto simp: honest_def truthful_def)
qed

section \<open>A delivery through a relay\<close>

lemma base64_chunk_code [code]:
  "base64_chunk chunk =
     (let b = (\<lambda>i. if i < length chunk then of_char (chunk ! i) else 0 :: int);
          n = b 0 * 65536 + b 1 * 256 + b 2
      in [TABLE ! nat (n div 262144 mod 64), TABLE ! nat (n div 4096 mod 64),
          if length chunk > 1 then TABLE ! nat (n div 64 mod 64) else CHR ''='',
          if length chunk > 2 then TABLE ! nat (n mod 64) else CHR ''=''])"
proof -
  define b :: "nat \<Rightarrow> nat" where "b = (\<lambda>i. if i < length chunk then ord (chunk ! i) else 0)"
  have b: "(if i < length chunk then of_char (chunk ! i) else 0 :: int) = int (b i)" for i
    by (simp add: b_def of_nat_of_char)
  have n: "int (b 0) * 65536 + int (b 1) * 256 + int (b 2) = int (b 0 * 65536 + b 1 * 256 + b 2)" by simp
  have d: "nat (int n div numeral k mod 64) = n div numeral k mod 64" "nat (int n mod 64) = n mod 64" for n :: nat and k
    by (metis nat_int of_nat_numeral zdiv_int zmod_int)+
  show ?thesis
    unfolding base64_chunk_def b Let_def n d b_def [symmetric] by (rule refl)
qed

definition sample_transport :: smtp_transport where
  "sample_transport =
     \<lparr>tp_helo_name = ''mx'', tp_credentials = Some (''u'', ''p''), tp_policy = public_only, tp_mx = None,
      tp_direct_port = 25, tp_lookup_host = (\<lambda>_ port. LookedUp [\<lparr>sa_ip = V4 0x08080808, sa_port = port\<rparr>]),
      tp_display = smtp_error_kind\<rparr>"

definition sample_network :: network where
  "sample_network =
     \<lparr>nw_dials = [DialOk \<lparr>sc_reads = [Chunk (''220 hi'' @ CRLF), Chunk (''250-mx'' @ CRLF @ ''250 STARTTLS'' @ CRLF), Chunk (''220 go'' @ CRLF)],
        sc_writes = [],
        sc_tls = HandshakeDone (Chunk (''250-mx'' @ CRLF @ ''250 AUTH PLAIN'' @ CRLF) # Chunk (''235 ok'' @ CRLF) # sample_replies)\<rparr>],
      nw_dialled = [], nw_log = []\<rparr>"

definition relayed_entry :: queue_entry where
  "relayed_entry =
     \<lparr>qe_id = ''a'', qe_kind = Outbound, qe_mail_from = ''a@b'', qe_recipients = [''x@y'', ''z@y''], qe_data = ''hi'',
      qe_created_at = [], qe_attempts = 0, qe_next_attempt_unix = 0, qe_last_error = None, qe_last_code = None\<rparr>"

definition sample_delivery :: "network \<times> delivery_result" where
  "sample_delivery =
     deliver_remote sample_transport relayed_entry (RemoteTarget (ViaRelay ''r'' 587 False)) [''x@y'', ''z@y''] sample_network"

lemma sample_delivery_result:
  "nw_log (fst sample_delivery) \<noteq> [] \<and> (case snd sample_delivery of Inl f \<Rightarrow> df_accepted f = [''x@y''] | Inr _ \<Rightarrow> False)"
proof -
  have "(let run = sample_delivery in
      nw_log (fst run) \<noteq> [] \<and> (case snd run of Inl f \<Rightarrow> df_accepted f = [''x@y''] | Inr _ \<Rightarrow> False))" by code_simp
  then show ?thesis by (simp add: Let_def)
qed

lemma sample_network_new: "nw_log sample_network = []" "nw_dialled sample_network = []"
  by (simp_all add: sample_network_def)

theorem relay_traffic_encrypted_witness:
  "\<exists>log. log \<noteq> [] \<and> nw_log (fst sample_delivery) = log \<and>
     (\<forall>a \<in> set (nw_dialled (fst sample_delivery)). policy_accepts (tp_policy sample_transport) (sa_ip a)) \<and>
     (\<forall>c \<in> set log. \<forall>p. Sent False p \<in> set (snd c) \<longrightarrow> harmless (tp_helo_name sample_transport) p)"
proof -
  obtain n r where run: "deliver_remote sample_transport relayed_entry (RemoteTarget (ViaRelay ''r'' 587 False)) [''x@y'', ''z@y''] sample_network = (n, r)"
    by (metis surj_pair)
  from relay_traffic_encrypted [OF this] sample_delivery_result show ?thesis
    by (auto simp: sample_delivery_def run sample_network_new)
qed

theorem delivered_means_acknowledged_witness: "acked_in relayed_entry (nw_log (fst sample_delivery)) ''x@y''"
proof -
  obtain n r where run: "deliver_remote sample_transport relayed_entry (RemoteTarget (ViaRelay ''r'' 587 False)) [''x@y'', ''z@y''] sample_network = (n, r)"
    by (metis surj_pair)
  from delivered_means_acknowledged [OF this] sample_delivery_result show ?thesis
    by (auto simp: sample_delivery_def run sample_network_new split: sum.splits)
qed

end
