(* ===== verification/Lmtp.thy ===== *)
theory Lmtp
  imports Delivery
begin

text \<open>
  Local delivery over LMTP (\<open>src/crates/store/src/lmtp.rs\<close>) and its transport
  (\<open>src/crates/store/src/lmtp_transport.rs\<close>). The server is an argument: how the next connections
  end, and with what events the reads and writes of each stream end. A \<open>BufReader\<close> is the bytes it
  holds and the reads to come. The texts of \<open>StoreError::Lmtp\<close> are the constructors of
  \<open>lmtp_reason\<close>; the text a failure shows (its \<open>Display\<close>) is a parameter. Every conversation is kept
  in the log of the world.
\<close>

section \<open>Endpoints and errors\<close>

datatype lmtp_endpoint = UnixEndpoint string | TcpEndpoint string nat

definition DEFAULT_LMTP_SOCKET :: string where "DEFAULT_LMTP_SOCKET = ''/run/dovecot/lmtp''"
definition LMTP_MAX_RESPONSE_LINE_BYTES :: nat where "LMTP_MAX_RESPONSE_LINE_BYTES = 4096"

definition default_unix :: lmtp_endpoint where "default_unix = UnixEndpoint DEFAULT_LMTP_SOCKET"
definition loopback_endpoint :: lmtp_endpoint where "loopback_endpoint = TcpEndpoint ''127.0.0.1'' 24"

definition strip_host_brackets :: "string \<Rightarrow> string" where
  "strip_host_brackets host =
     (let trimmed = trim host in
      if prefix ''['' trimmed \<and> suffix '']'' (drop 1 trimmed) then butlast (drop 1 trimmed) else trimmed)"

definition parse_tcp_endpoint :: "string \<Rightarrow> (string \<times> nat) option" where
  "parse_tcp_endpoint addr =
     (case rsplit_once (CHR '':'') (trim addr) of
        None \<Rightarrow> None
      | Some (host, port) \<Rightarrow>
          (case parse_unsigned U16_MAX port of
             None \<Rightarrow> None
           | Some port \<Rightarrow>
               let host = strip_host_brackets host in if host = [] then None else Some (host, port)))"

text \<open>\<open>env\<close> is \<open>std::env::var\<close>, \<open>None\<close> for an error.\<close>

definition from_env_with_default :: "(string \<Rightarrow> string option) \<Rightarrow> lmtp_endpoint \<Rightarrow> lmtp_endpoint" where
  "from_env_with_default env dflt =
     (let by_addr = (case env ''MAILSTACK_LMTP_ADDR'' of
                       None \<Rightarrow> dflt
                     | Some addr \<Rightarrow>
                         (case parse_tcp_endpoint addr of Some (host, port) \<Rightarrow> TcpEndpoint host port | None \<Rightarrow> dflt))
      in case env ''MAILSTACK_LMTP_SOCKET'' of
           None \<Rightarrow> by_addr
         | Some path \<Rightarrow> if trim path \<noteq> [] then UnixEndpoint (trim path) else by_addr)"

definition endpoint_from_env :: "(string \<Rightarrow> string option) \<Rightarrow> lmtp_endpoint" where
  "endpoint_from_env env = from_env_with_default env default_unix"

fun describe :: "lmtp_endpoint \<Rightarrow> string" where
  "describe (UnixEndpoint path) = path"
| "describe (TcpEndpoint host port) = host @ '':'' @ nat_to_string port"

datatype lmtp_reason =
    LmtpNoRecipients
  | LmtpInjection
  | LmtpBadName
  | CannotConnect
  | ConnectTimedOut
  | ServerRefused nat string
  | LhloRejected nat string
  | MailRejected nat string
  | DataRejected nat string
  | LmtpReadTimedOut
  | LmtpReadFailed
  | LmtpClosed
  | LmtpLineTooLong
  | LmtpWriteTimedOut
  | LmtpWriteFailed
  | LmtpMalformed string
  | LmtpUnanswered

datatype store_error = StoreIo | StoreJson | StoreInvalid | StoreLmtp lmtp_reason | StorePostmap

fun store_error_kind :: "store_error \<Rightarrow> string" where
  "store_error_kind StoreIo = ''IoError''"
| "store_error_kind StoreJson = ''JsonError''"
| "store_error_kind StoreInvalid = ''InvalidInput''"
| "store_error_kind (StoreLmtp _) = ''LmtpError''"
| "store_error_kind StorePostmap = ''PostmapError''"

section \<open>Results\<close>

record recipient_result =
  rr_recipient :: string
  rr_code :: nat
  rr_message :: string

definition lmtp_is_positive :: "nat \<Rightarrow> bool" where
  "lmtp_is_positive code \<longleftrightarrow> 200 \<le> code \<and> code < 300"

definition rr_accepted :: "recipient_result \<Rightarrow> bool" where
  "rr_accepted r \<longleftrightarrow> 200 \<le> rr_code r \<and> rr_code r < 300"

record lmtp_delivery =
  ld_results :: "recipient_result list"

definition ld_accepted :: "lmtp_delivery \<Rightarrow> string list" where
  "ld_accepted d = map rr_recipient (filter rr_accepted (ld_results d))"

definition ld_failed :: "lmtp_delivery \<Rightarrow> recipient_result list" where
  "ld_failed d = filter (\<lambda>r. \<not> rr_accepted r) (ld_results d)"

definition all_accepted :: "lmtp_delivery \<Rightarrow> bool" where
  "all_accepted d \<longleftrightarrow> list_all rr_accepted (ld_results d)"

section \<open>Reading and writing\<close>

datatype lmtp_event = LSent string | LGot nat string

record lmtp_stream =
  li_buf :: string
  li_reads :: "read_event list"
  li_writes :: "write_event list"
  li_trace :: "lmtp_event list"

type_synonym 'a lmtp_io = "lmtp_stream \<Rightarrow> lmtp_stream \<times> (store_error, 'a) result"

text \<open>What stays buffered, the reads left, and the line with its newline.\<close>

function read_line_bounded ::
  "string \<Rightarrow> string \<Rightarrow> read_event list \<Rightarrow> string \<times> read_event list \<times> (store_error, string) result" where
  "read_line_bounded line buf reads =
     (if buf \<noteq> [] then
        (if LF \<in> set buf
         then
           (let n = Suc (length (takeWhile (\<lambda>c. c \<noteq> LF) buf)) in
            if length line + n > LMTP_MAX_RESPONSE_LINE_BYTES then (buf, reads, Inl (StoreLmtp LmtpLineTooLong))
            else (drop n buf, reads, Inr (line @ take n buf)))
         else if length line + length buf > LMTP_MAX_RESPONSE_LINE_BYTES then (buf, reads, Inl (StoreLmtp LmtpLineTooLong))
         else read_line_bounded (line @ buf) [] reads)
      else
        (let at_end = (if line = [] then Inl (StoreLmtp LmtpClosed) else Inr line) in
         case reads of
           [] \<Rightarrow> ([], [], at_end)
         | ReadError # rest \<Rightarrow> ([], rest, Inl (StoreLmtp LmtpReadFailed))
         | ReadTimeout # rest \<Rightarrow> ([], rest, Inl (StoreLmtp LmtpReadTimedOut))
         | Chunk bytes # rest \<Rightarrow> if bytes = [] then ([], rest, at_end) else read_line_bounded line bytes rest))"
  by auto
termination
  by (relation "measure (\<lambda>(line, buf, reads). 2 * length reads + (if buf = [] then 0 else 1))") auto

declare read_line_bounded.simps [simp del]

definition parse_status_line :: "string \<Rightarrow> (store_error, nat \<times> bool) result" where
  "parse_status_line line =
     (if length line < 3 then Inl (StoreLmtp (LmtpMalformed line))
      else if \<not> list_all is_ascii_digit (take 3 line) then Inl (StoreLmtp (LmtpMalformed line))
      else Inr (digits_value (take 3 line), length line > 3 \<and> line ! 3 = CHR ''-''))"

text \<open>The bytes that are left to read; a line that was read used up at least one.\<close>

fun event_bytes :: "read_event \<Rightarrow> nat" where
  "event_bytes (Chunk bytes) = length bytes"
| "event_bytes _ = 0"

definition bytes_left :: "string \<Rightarrow> read_event list \<Rightarrow> nat" where
  "bytes_left buf reads = length buf + sum_list (map event_bytes reads)"

lemma read_line_bounded_uses:
  "read_line_bounded line buf reads = (buf', reads', Inr out) \<Longrightarrow>
     length out + bytes_left buf' reads' \<le> length line + bytes_left buf reads \<and> out \<noteq> []"
proof (induction line buf reads rule: read_line_bounded.induct)
  case (1 line buf reads)
  have tw: "LF \<in> set buf \<Longrightarrow> Suc (length (takeWhile (\<lambda>c. c \<noteq> LF) buf)) \<le> length buf"
    by (induction buf) auto
  show ?case
  proof (cases "buf = []")
    case False
    show ?thesis
    proof (cases "LF \<in> set buf")
      case True
      with "1.prems" False tw show ?thesis
        by (subst (asm) read_line_bounded.simps) (auto simp: Let_def bytes_left_def split: if_splits)
    next
      case no_lf: False
      with "1.prems" False have c: "\<not> length line + length buf > LMTP_MAX_RESPONSE_LINE_BYTES"
        "read_line_bounded (line @ buf) [] reads = (buf', reads', Inr out)"
        by (subst (asm) read_line_bounded.simps, simp split: if_splits)+
      from "1.IH"(1) [OF False no_lf c] show ?thesis by (simp add: bytes_left_def)
    qed
  next
    case True
    with "1.prems" "1.IH"(2) [OF _ refl] show ?thesis
      by (subst (asm) read_line_bounded.simps) (auto simp: Let_def bytes_left_def split: if_splits list.splits read_event.splits)
  qed
qed

text \<open>The loop of \<open>read_response\<close>: \<open>valid_utf8\<close> is \<open>String::from_utf8\<close>.\<close>

function lmtp_response_loop :: "nat option \<Rightarrow> string list \<Rightarrow> (nat \<times> string) lmtp_io" where
  "lmtp_response_loop code lines s =
     (case read_line_bounded [] (li_buf s) (li_reads s) of
        (buf, reads, Inl e) \<Rightarrow> (s\<lparr>li_buf := buf, li_reads := reads\<rparr>, Inl e)
      | (buf, reads, Inr line) \<Rightarrow>
          (let s = s\<lparr>li_buf := buf, li_reads := reads\<rparr> in
           if \<not> valid_utf8 line then (s, Inl (StoreLmtp LmtpReadFailed))
           else
             (let trimmed = trim_newlines line in
              case parse_status_line trimmed of
                Inl e \<Rightarrow> (s, Inl e)
              | Inr (this_code, continued) \<Rightarrow>
                  (let code = (case code of None \<Rightarrow> Some this_code | Some c \<Rightarrow> Some c);
                       lines = lines @ [trimmed]
                   in if continued then lmtp_response_loop code lines s
                      else (s, Inr (case code of Some c \<Rightarrow> c | None \<Rightarrow> 0, join '' '' lines))))))"
  by auto
termination
proof (relation "measure (\<lambda>(code, lines, s). bytes_left (li_buf s) (li_reads s))")
  fix code :: "nat option" and lines :: "string list" and s :: lmtp_stream and y line xa trimmed xb this_code continued xc xd and x buf reads
  assume a: "(buf, y) = read_line_bounded [] (li_buf s) (li_reads s)" "(reads, xa) = y" "xa = Inr line"
    and s: "xb = s\<lparr>li_buf := buf, li_reads := reads\<rparr>"
  show "((xc, xd, xb), (code, lines, s)) \<in> measure (\<lambda>(code, lines, s). bytes_left (li_buf s) (li_reads s))"
    using read_line_bounded_uses [of "[]" "li_buf s" "li_reads s" buf reads line] a s
    by (cases line) (auto simp: bytes_left_def)
qed simp

declare lmtp_response_loop.simps [simp del]

definition lmtp_read_response :: "(nat \<times> string) lmtp_io" where
  "lmtp_read_response s =
     (case lmtp_response_loop None [] s of
        (s, Inl e) \<Rightarrow> (s, Inl e)
      | (s, Inr (code, text)) \<Rightarrow> (s\<lparr>li_trace := li_trace s @ [LGot code text]\<rparr>, Inr (code, text)))"

definition lmtp_write_all :: "string \<Rightarrow> unit lmtp_io" where
  "lmtp_write_all payload s =
     (let (event, rest) = (case li_writes s of [] \<Rightarrow> (WriteOk, []) | w # ws \<Rightarrow> (w, ws));
          (sent, r) = (case event of
                         WriteOk \<Rightarrow> (payload, Inr ())
                       | WriteFailed n \<Rightarrow> (take n payload, Inl (StoreLmtp LmtpWriteFailed))
                       | WriteTimedOut n \<Rightarrow> (take n payload, Inl (StoreLmtp LmtpWriteTimedOut)))
      in (s\<lparr>li_writes := rest, li_trace := li_trace s @ [LSent sent]\<rparr>, r))"

definition lmtp_command :: "string \<Rightarrow> (nat \<times> string) lmtp_io" where
  "lmtp_command line = io_bind (lmtp_write_all (line @ CRLF)) (\<lambda>_. lmtp_read_response)"


section \<open>Delivery\<close>

record lmtp_client =
  lc_endpoint :: lmtp_endpoint
  lc_helo_name :: string

definition lmtp_result :: "string \<Rightarrow> nat \<times> string \<Rightarrow> recipient_result" where
  "lmtp_result recipient answer =
     \<lparr>rr_recipient = recipient, rr_code = fst answer, rr_message = snd answer\<rparr>"

fun lmtp_rcpt_loop ::
  "nat \<Rightarrow> string list \<Rightarrow> recipient_result option list \<Rightarrow> nat list \<Rightarrow> (recipient_result option list \<times> nat list) lmtp_io" where
  "lmtp_rcpt_loop index [] slots todo = io_return (slots, todo)"
| "lmtp_rcpt_loop index (recipient # recipients) slots todo =
     io_bind (lmtp_command (''RCPT TO:<'' @ recipient @ ''>'')) (\<lambda>answer.
       if lmtp_is_positive (fst answer)
       then lmtp_rcpt_loop (Suc index) recipients slots (todo @ [index])
       else lmtp_rcpt_loop (Suc index) recipients (slots[index := Some (lmtp_result recipient answer)]) todo)"

fun lmtp_data_loop ::
  "string list \<Rightarrow> nat list \<Rightarrow> recipient_result option list \<Rightarrow> (recipient_result option list) lmtp_io" where
  "lmtp_data_loop recipients [] slots = io_return slots"
| "lmtp_data_loop recipients (index # todo) slots =
     io_bind lmtp_read_response (\<lambda>answer.
       lmtp_data_loop recipients todo (slots[index := Some (lmtp_result (recipients ! index) answer)]))"

definition lmtp_collect :: "recipient_result option list \<Rightarrow> (store_error, recipient_result list) result" where
  "lmtp_collect slots =
     (if list_ex (\<lambda>s. s = None) slots then Inl (StoreLmtp LmtpUnanswered) else Inr (map the slots))"

text \<open>The state of the scan is whether a line starts.\<close>

fun lmtp_dot_stuff_at :: "bool \<Rightarrow> string \<Rightarrow> string" where
  "lmtp_dot_stuff_at start [] = []"
| "lmtp_dot_stuff_at start (b # bs) =
     (if b = LF then CRLF @ lmtp_dot_stuff_at True bs
      else
        (if start \<and> b = CHR ''.'' then ''.'' else []) @
        (if b = CR \<and> (bs = [] \<or> hd bs = LF) then lmtp_dot_stuff_at False bs
         else b # lmtp_dot_stuff_at False bs))"

definition lmtp_dot_stuff :: "string \<Rightarrow> string" where
  "lmtp_dot_stuff data = lmtp_dot_stuff_at True data"

definition lmtp_payload :: "string \<Rightarrow> string" where
  "lmtp_payload data =
     (let body = lmtp_dot_stuff data; separator = (if suffix CRLF body then [] else CRLF)
      in body @ separator @ ''.'' @ CRLF)"

definition lmtp_quit :: "unit lmtp_io" where
  "lmtp_quit s = (io_drop (lmtp_command ''QUIT'') s, Inr ())"

definition lmtp_finish :: "recipient_result option list \<Rightarrow> lmtp_delivery lmtp_io" where
  "lmtp_finish slots =
     io_bind lmtp_quit (\<lambda>_.
     io_bind (io_lift (lmtp_collect slots)) (\<lambda>results. io_return \<lparr>ld_results = results\<rparr>))"

text \<open>A command whose answer has to be a 2xx; \<open>why\<close> is the error otherwise.\<close>

definition lmtp_expect :: "(nat \<times> string) lmtp_io \<Rightarrow> (nat \<Rightarrow> string \<Rightarrow> lmtp_reason) \<Rightarrow> (nat \<times> string) lmtp_io" where
  "lmtp_expect m why =
     io_bind m (\<lambda>answer.
       if \<not> lmtp_is_positive (fst answer) then io_fail (StoreLmtp (why (fst answer) (snd answer))) else io_return answer)"

definition lmtp_transfer ::
  "string list \<Rightarrow> string \<Rightarrow> recipient_result option list \<times> nat list \<Rightarrow> lmtp_delivery lmtp_io" where
  "lmtp_transfer recipients data opened =
     (let (slots, todo) = opened in
      if todo = [] then lmtp_finish slots
      else
        io_bind (lmtp_command ''DATA'') (\<lambda>answer.
          if fst answer \<noteq> 354
          then io_bind lmtp_quit (\<lambda>_. io_fail (StoreLmtp (DataRejected (fst answer) (snd answer))))
          else
            io_bind (lmtp_write_all (lmtp_payload data)) (\<lambda>_.
            io_bind (lmtp_data_loop recipients todo slots) lmtp_finish)))"

definition lmtp_converse :: "string \<Rightarrow> string \<Rightarrow> string list \<Rightarrow> string \<Rightarrow> lmtp_delivery lmtp_io" where
  "lmtp_converse helo mail_from recipients data =
     io_bind (lmtp_expect lmtp_read_response ServerRefused) (\<lambda>_.
     io_bind (lmtp_expect (lmtp_command (''LHLO '' @ helo)) LhloRejected) (\<lambda>_.
     io_bind (lmtp_expect (lmtp_command (''MAIL FROM:<'' @ mail_from @ ''>'')) MailRejected) (\<lambda>_.
     io_bind (lmtp_rcpt_loop 0 recipients (replicate (length recipients) None) [])
       (lmtp_transfer recipients data))))"

text \<open>The world of the client: how the next connections end, and the conversations so far.\<close>

datatype lmtp_connect = LmtpStream "read_event list" "write_event list" | LmtpRefused | LmtpTimedOut

record lmtp_world =
  lw_connects :: "(lmtp_endpoint \<Rightarrow> lmtp_connect) list"
  lw_log :: "lmtp_event list list"

definition connect_lmtp :: "lmtp_endpoint \<Rightarrow> lmtp_world \<Rightarrow> lmtp_world \<times> (store_error, lmtp_stream) result" where
  "connect_lmtp endpoint w =
     (let endpoint = (case endpoint of
                        UnixEndpoint path \<Rightarrow> UnixEndpoint path
                      | TcpEndpoint host port \<Rightarrow> TcpEndpoint (strip_host_brackets host) port);
          (event, rest) = (case lw_connects w of [] \<Rightarrow> (LmtpRefused, []) | c # cs \<Rightarrow> (c endpoint, cs))
      in (w\<lparr>lw_connects := rest\<rparr>,
          case event of
            LmtpStream reads writes \<Rightarrow> Inr \<lparr>li_buf = [], li_reads = reads, li_writes = writes, li_trace = []\<rparr>
          | LmtpRefused \<Rightarrow> Inl (StoreLmtp CannotConnect)
          | LmtpTimedOut \<Rightarrow> Inl (StoreLmtp ConnectTimedOut)))"

definition bad_helo :: "string \<Rightarrow> bool" where
  "bad_helo helo \<longleftrightarrow> helo = [] \<or> has_addr_break helo \<or> has_control helo \<or> has_whitespace helo"

definition lmtp_deliver ::
  "lmtp_client \<Rightarrow> string \<Rightarrow> string list \<Rightarrow> string \<Rightarrow> lmtp_world \<Rightarrow> lmtp_world \<times> (store_error, lmtp_delivery) result" where
  "lmtp_deliver client mail_from recipients data w =
     (if recipients = [] then (w, Inl (StoreLmtp LmtpNoRecipients))
      else if has_addr_break mail_from \<or> list_ex has_addr_break recipients then (w, Inl (StoreLmtp LmtpInjection))
      else
        (let helo = trim (lc_helo_name client) in
         if bad_helo helo then (w, Inl (StoreLmtp LmtpBadName))
         else
           (case connect_lmtp (lc_endpoint client) w of
              (w, Inl e) \<Rightarrow> (w, Inl e)
            | (w, Inr stream) \<Rightarrow>
                (let (stream, r) = lmtp_converse helo mail_from recipients data stream
                 in (w\<lparr>lw_log := lw_log w @ [li_trace stream]\<rparr>, r)))))"

section \<open>The transport\<close>

definition failed_line :: "recipient_result \<Rightarrow> string" where
  "failed_line r = rr_recipient r @ '': '' @ nat_to_string (rr_code r) @ '' '' @ rr_message r"

definition classify_partial :: "string list \<Rightarrow> recipient_result list \<Rightarrow> delivery_failure option" where
  "classify_partial accepted failed =
     (if failed = [] then None
      else
        (let any_transient = list_ex (\<lambda>r. rr_code r < 500) failed;
             first_code = rr_code (hd failed);
             detail = join ''; '' (map failed_line failed);
             failure = (if any_transient then failure_transient ''LmtpRejected'' detail
                        else failure_permanent ''LmtpRejected'' detail)
         in Some (with_accepted (with_code failure first_code) accepted)))"

definition classify_lmtp_error :: "(store_error \<Rightarrow> string) \<Rightarrow> store_error \<Rightarrow> delivery_failure" where
  "classify_lmtp_error display e = failure_transient ''LmtpUnavailable'' (display e)"

definition lmtp_transport_deliver ::
  "(store_error \<Rightarrow> string) \<Rightarrow> lmtp_client \<Rightarrow> queue_entry \<Rightarrow> delivery_target \<Rightarrow> string list \<Rightarrow> lmtp_world \<Rightarrow>
   lmtp_world \<times> delivery_result" where
  "lmtp_transport_deliver display client entry target recipients w =
     (if target \<noteq> LocalTarget
      then (w, Inl (failure_permanent ''WrongTransport'' ''LMTP transport only handles local recipients''))
      else
        (case lmtp_deliver client (qe_mail_from entry) recipients (qe_data entry) w of
           (w, Inl e) \<Rightarrow> (w, Inl (classify_lmtp_error display e))
         | (w, Inr delivery) \<Rightarrow>
             (w, let accepted = ld_accepted delivery in
                 if all_accepted delivery then Inr \<lparr>receipt_accepted = length accepted\<rparr>
                 else
                   (case classify_partial accepted (ld_failed delivery) of
                      None \<Rightarrow> Inr \<lparr>receipt_accepted = length recipients\<rparr>
                    | Some failure \<Rightarrow> Inl failure))))"


section \<open>The trace of a conversation\<close>

lemma lmtp_response_loop_trace: "li_trace (fst (lmtp_response_loop code lines s)) = li_trace s"
proof (induction code lines s rule: lmtp_response_loop.induct)
  case (1 code lines s)
  obtain buf reads r where r: "read_line_bounded [] (li_buf s) (li_reads s) = (buf, reads, r)"
    by (cases "read_line_bounded [] (li_buf s) (li_reads s)") auto
  show ?case
  proof (cases r)
    case (Inl e)
    with r show ?thesis by (subst lmtp_response_loop.simps) simp
  next
    case (Inr line)
    show ?thesis
    proof (cases "valid_utf8 line")
      case False
      with r Inr show ?thesis by (subst lmtp_response_loop.simps) (simp add: Let_def)
    next
      case True
      note IH = "1" [OF r [symmetric] refl Inr refl, simplified True, OF _ refl]
      show ?thesis
        using r Inr True IH
        by (subst lmtp_response_loop.simps) (auto simp: Let_def split: sum.splits prod.splits)
    qed
  qed
qed

lemma lmtp_read_trace:
  "lmtp_read_response s = (t, Inr a) \<Longrightarrow> li_trace t = li_trace s @ [LGot (fst a) (snd a)]"
  using lmtp_response_loop_trace [of None "[]" s]
  by (auto simp: lmtp_read_response_def split: prod.splits sum.splits)

lemma lmtp_write_trace:
  "lmtp_write_all p s = (t, Inr u) \<Longrightarrow> li_trace t = li_trace s @ [LSent p]"
  by (auto simp: lmtp_write_all_def split: list.splits write_event.splits)

lemma lmtp_command_trace:
  "lmtp_command l s = (t, Inr a) \<Longrightarrow> li_trace t = li_trace s @ [LSent (l @ CRLF), LGot (fst a) (snd a)]"
  by (auto simp: lmtp_command_def io_bind_ok dest!: lmtp_write_trace lmtp_read_trace)

lemma lmtp_expect_trace:
  "lmtp_expect m why s = (t, Inr a) \<Longrightarrow> m s = (t, Inr a) \<and> lmtp_is_positive (fst a)"
  by (auto simp: lmtp_expect_def io_bind_ok io_fail_def io_return_def split: if_splits)

text \<open>The results by recursion on the recipients: the answers to RCPT and the ones after the data.\<close>

fun lmtp_results :: "string list \<Rightarrow> (nat \<times> string) list \<Rightarrow> (nat \<times> string) list \<Rightarrow> recipient_result list" where
  "lmtp_results (r # rs) (a # as) fins =
     (if lmtp_is_positive (fst a)
      then lmtp_result r (hd fins) # lmtp_results rs as (tl fins)
      else lmtp_result r a # lmtp_results rs as fins)"
| "lmtp_results _ _ _ = []"

definition lmtp_rcpt_trace :: "string list \<Rightarrow> (nat \<times> string) list \<Rightarrow> lmtp_event list" where
  "lmtp_rcpt_trace rs as = concat (map2 (\<lambda>r a. [LSent (''RCPT TO:<'' @ r @ ''>'' @ CRLF), LGot (fst a) (snd a)]) rs as)"

definition rcpt_slot :: "string \<Rightarrow> nat \<times> string \<Rightarrow> recipient_result option" where
  "rcpt_slot r a = (if lmtp_is_positive (fst a) then None else Some (lmtp_result r a))"

fun positives :: "nat \<Rightarrow> (nat \<times> string) list \<Rightarrow> nat list" where
  "positives i [] = []"
| "positives i (a # as) = (if lmtp_is_positive (fst a) then i # positives (Suc i) as else positives (Suc i) as)"

lemma lmtp_rcpt_loop_result:
  assumes "lmtp_rcpt_loop (length pre) rs (pre @ replicate (length rs) None) todo s = (t, Inr out)"
  shows "\<exists>as. length as = length rs \<and> li_trace t = li_trace s @ lmtp_rcpt_trace rs as \<and>
     out = (pre @ map2 rcpt_slot rs as, todo @ positives (length pre) as)"
  using assms
proof (induction rs arbitrary: pre todo s)
  case Nil
  then show ?case by (simp add: io_return_def lmtp_rcpt_trace_def)
next
  case (Cons r rs)
  from Cons.prems obtain u a where u: "lmtp_command (''RCPT TO:<'' @ r @ ''>'') s = (u, Inr a)"
    and k: "lmtp_rcpt_loop (length (pre @ [rcpt_slot r a])) rs ((pre @ [rcpt_slot r a]) @ replicate (length rs) None)
        (todo @ (if lmtp_is_positive (fst a) then [length pre] else [])) u = (t, Inr out)"
    by (auto simp: io_bind_ok rcpt_slot_def split: if_splits)
  from Cons.IH [OF k] obtain as where "length as = length rs" "li_trace t = li_trace u @ lmtp_rcpt_trace rs as"
    "out = ((pre @ [rcpt_slot r a]) @ map2 rcpt_slot rs as,
            (todo @ (if lmtp_is_positive (fst a) then [length pre] else [])) @ positives (Suc (length pre)) as)" by auto
  with lmtp_command_trace [OF u] show ?case
    by (intro exI [of _ "a # as"]) (simp add: lmtp_rcpt_trace_def)
qed

lemma lmtp_data_loop_result:
  assumes "lmtp_data_loop recipients todo slots s = (t, Inr out)"
  shows "\<exists>fins. length fins = length todo \<and> li_trace t = li_trace s @ map (\<lambda>a. LGot (fst a) (snd a)) fins \<and>
     out = foldl (\<lambda>sl (i, a). sl[i := Some (lmtp_result (recipients ! i) a)]) slots (zip todo fins)"
  using assms
proof (induction todo arbitrary: slots s)
  case Nil
  then show ?case by (simp add: io_return_def)
next
  case (Cons i todo)
  from Cons.prems obtain u a where u: "lmtp_read_response s = (u, Inr a)"
    and k: "lmtp_data_loop recipients todo (slots[i := Some (lmtp_result (recipients ! i) a)]) u = (t, Inr out)"
    by (auto simp: io_bind_ok)
  from Cons.IH [OF k] obtain fins where "length fins = length todo"
    "li_trace t = li_trace u @ map (\<lambda>a. LGot (fst a) (snd a)) fins"
    "out = foldl (\<lambda>sl (i, a). sl[i := Some (lmtp_result (recipients ! i) a)])
       (slots[i := Some (lmtp_result (recipients ! i) a)]) (zip todo fins)" by blast
  with lmtp_read_trace [OF u] show ?case by (intro exI [of _ "a # fins"]) simp
qed

text \<open>Filling the slots by index gives the results in the order of the recipients.\<close>

lemma fill_slots:
  assumes "length as = length rs" and "length fins = length (positives (length pre) as)" and "length prs = length pre"
  shows "foldl (\<lambda>sl (i, a). sl[i := Some (lmtp_result ((prs @ rs) ! i) a)]) (pre @ map2 rcpt_slot rs as) (zip (positives (length pre) as) fins) =
         pre @ map Some (lmtp_results rs as fins)"
  using assms
proof (induction rs as arbitrary: pre prs fins rule: list_induct2')
  case (4 r rs a as)
  show ?case
  proof (cases "lmtp_is_positive (fst a)")
    case True
    with "4.prems" obtain f fins' where f: "fins = f # fins'" by (cases fins) auto
    have "(prs @ r # rs) ! length pre = r" using "4.prems"(3) by (simp add: nth_append)
    then show ?thesis
      using "4.IH" [of fins' "pre @ [Some (lmtp_result r f)]" "prs @ [r]"] "4.prems" True f
      by (simp add: rcpt_slot_def list_update_append)
  next
    case False
    then show ?thesis
      using "4.IH" [of fins "pre @ [Some (lmtp_result r a)]" "prs @ [r]"] "4.prems" by (simp add: rcpt_slot_def)
  qed
qed simp_all

lemma lmtp_results_recipients:
  "length as = length rs \<Longrightarrow> map rr_recipient (lmtp_results rs as fins) = rs"
  by (induction rs as fins rule: lmtp_results.induct) (auto simp: lmtp_result_def)

lemma lmtp_collect_Some [simp]: "lmtp_collect (map Some xs) = Inr xs"
  by (auto simp: lmtp_collect_def list_ex_iff comp_def)

lemma lmtp_finish_ok:
  assumes "lmtp_finish slots s = (t, Inr d)"
  shows "prefix (li_trace s) (li_trace t) \<and> lmtp_collect slots = Inr (ld_results d)"
proof -
  have w: "prefix (li_trace x) (li_trace (fst (lmtp_write_all p x)))" for p x
    by (auto simp: lmtp_write_all_def split: list.splits write_event.splits)
  have r: "prefix (li_trace x) (li_trace (fst (lmtp_read_response x)))" for x
    using lmtp_response_loop_trace [of None "[]" x]
    by (auto simp: lmtp_read_response_def split: prod.splits sum.splits)
  have "prefix (li_trace s) (li_trace (io_drop (lmtp_command ''QUIT'') s))"
    using w [of s "''QUIT'' @ CRLF"] r [of "fst (lmtp_write_all (''QUIT'' @ CRLF) s)"]
    by (auto simp: io_drop_def lmtp_command_def io_bind_def split: prod.splits sum.splits dest: prefix_order.trans)
  with assms show ?thesis
    by (auto simp: lmtp_finish_def lmtp_quit_def io_bind_ok io_lift_def io_return_def)
qed


section \<open>Dot stuffing\<close>

lemma strip_cr_Cons: "strip_cr (c # l) = (if l = [] then if c = CR then [] else [c] else c # strip_cr l)"
  by (auto simp: strip_cr_def suffix_def Cons_eq_append_conv)

lemma lmtp_dot_stuff_line:
  assumes "LF \<notin> set l" and "tail = [] \<or> (\<exists>bs. tail = LF # bs)"
  shows "lmtp_dot_stuff_at start (l @ tail) =
     (if start \<and> prefix ''.'' (strip_cr l) then ''.'' else []) @ strip_cr l @ lmtp_dot_stuff_at (start \<and> l = []) tail"
  using assms(1)
proof (induction l arbitrary: start)
  case Nil
  then show ?case by (simp add: strip_cr_def)
next
  case (Cons c l)
  then have IH: "lmtp_dot_stuff_at False (l @ tail) = strip_cr l @ lmtp_dot_stuff_at False tail" by simp
  show ?case
  proof (cases l)
    case Nil
    with Cons.prems assms(2) show ?thesis by (auto simp: strip_cr_Cons)
  next
    case (Cons d l')
    with Cons.prems IH show ?thesis by (auto simp: strip_cr_Cons)
  qed
qed

lemma payload_eq: "lmtp_payload data = terminate_data data"
proof -
  have "lmtp_dot_stuff_at True data = dot_stuff data"
  proof (induction data rule: measure_induct_rule [of length])
    case (less data)
    show ?case
    proof (cases "LF \<in> set data")
      case True
      then obtain l bs where d: "data = l @ LF # bs" "LF \<notin> set l" by (metis split_list_first)
      with less [of bs] lmtp_dot_stuff_line [of l "LF # bs" True] show ?thesis
        by (cases "split_on LF bs") (simp_all add: dot_stuff_def split_on_append_sep stuff_line_stuff stuff_def)
    next
      case False
      with lmtp_dot_stuff_line [of data "[]" True] show ?thesis
        by (simp add: dot_stuff_def stuff_line_stuff stuff_def)
    qed
  qed
  then show ?thesis by (simp add: lmtp_payload_def terminate_data_def lmtp_dot_stuff_def)
qed

section \<open>What a delivery reports\<close>

lemma lmtp_deliver_exact_aux:
  assumes "lmtp_deliver client mail_from recipients data w = (w', Inr d)"
  shows "map rr_recipient (ld_results d) = recipients \<and> (\<forall>a \<in> set (mail_from # recipients). \<not> has_addr_break a) \<and>
     (\<exists>g l m as fins dt rest. length as = length recipients \<and> length fins = length (positives 0 as) \<and>
     lmtp_is_positive (fst g) \<and> lmtp_is_positive (fst l) \<and> lmtp_is_positive (fst m) \<and>
     lw_log w' = lw_log w @
       [[LGot (fst g) (snd g), LSent (''LHLO '' @ trim (lc_helo_name client) @ CRLF), LGot (fst l) (snd l),
         LSent (''MAIL FROM:<'' @ mail_from @ ''>'' @ CRLF), LGot (fst m) (snd m)] @
        lmtp_rcpt_trace recipients as @
        (if fins = [] then []
         else [LSent (''DATA'' @ CRLF), LGot 354 dt, LSent (terminate_data data)] @ map (\<lambda>a. LGot (fst a) (snd a)) fins) @ rest] \<and>
     ld_results d = lmtp_results recipients as fins)"
proof -
  let ?helo = "trim (lc_helo_name client)" and ?lines = "map (\<lambda>a :: nat \<times> string. LGot (fst a) (snd a))"
  from assms obtain w1 s0 s1 where safe: "\<not> has_addr_break mail_from" "\<not> list_ex has_addr_break recipients"
    and c: "connect_lmtp (lc_endpoint client) w = (w1, Inr s0)"
    and v: "lmtp_converse ?helo mail_from recipients data s0 = (s1, Inr d)" "w' = w1\<lparr>lw_log := lw_log w1 @ [li_trace s1]\<rparr>"
    by (auto simp: lmtp_deliver_def Let_def split: if_splits prod.splits sum.splits)
  have w: "lw_log w' = lw_log w @ [li_trace s1]" "li_trace s0 = []"
    using c v(2) by (auto simp: connect_lmtp_def Let_def split: prod.splits list.splits lmtp_connect.splits)
  from v(1) obtain a b e u g l m opened where
    g: "lmtp_expect lmtp_read_response ServerRefused s0 = (a, Inr g)" and
    l: "lmtp_expect (lmtp_command (''LHLO '' @ ?helo)) LhloRejected a = (b, Inr l)" and
    m: "lmtp_expect (lmtp_command (''MAIL FROM:<'' @ mail_from @ ''>'')) MailRejected b = (e, Inr m)" and
    o: "lmtp_rcpt_loop 0 recipients (replicate (length recipients) None) [] e = (u, Inr opened)" and
    x: "lmtp_transfer recipients data opened u = (s1, Inr d)"
    unfolding lmtp_converse_def io_bind_ok by blast
  from lmtp_expect_trace [OF g] lmtp_expect_trace [OF l] lmtp_expect_trace [OF m]
  have pos: "lmtp_is_positive (fst g)" "lmtp_is_positive (fst l)" "lmtp_is_positive (fst m)"
    and e: "li_trace e = [LGot (fst g) (snd g), LSent (''LHLO '' @ ?helo @ CRLF), LGot (fst l) (snd l),
        LSent (''MAIL FROM:<'' @ mail_from @ ''>'' @ CRLF), LGot (fst m) (snd m)]"
    by (auto simp: w(2) dest!: lmtp_read_trace lmtp_command_trace)
  from lmtp_rcpt_loop_result [of "[]" recipients "[]" e u opened] o obtain as where
    as: "length as = length recipients" "li_trace u = li_trace e @ lmtp_rcpt_trace recipients as"
      "opened = (map2 rcpt_slot recipients as, positives 0 as)" by auto
  note fill = fill_slots [of as recipients _ "[]" "[]", simplified]
  have "\<exists>fins dt rest. length fins = length (positives 0 as) \<and> ld_results d = lmtp_results recipients as fins \<and>
     li_trace s1 = li_trace u @ (if fins = [] then []
         else [LSent (''DATA'' @ CRLF), LGot 354 dt, LSent (terminate_data data)] @ ?lines fins) @ rest"
  proof (cases "positives 0 as = []")
    case True
    with x as(3) have "lmtp_finish (map2 rcpt_slot recipients as) u = (s1, Inr d)" by (simp add: lmtp_transfer_def)
    from lmtp_finish_ok [OF this] fill [of "[]"] as(1) True show ?thesis by (auto simp: prefix_def)
  next
    case False
    with x as(3) obtain u1 u2 u3 ans slots where
      da: "lmtp_command ''DATA'' u = (u1, Inr ans)" "fst ans = 354" and
      pa: "lmtp_write_all (lmtp_payload data) u1 = (u2, Inr ())" and
      lo: "lmtp_data_loop recipients (positives 0 as) (map2 rcpt_slot recipients as) u2 = (u3, Inr slots)" and
      fi: "lmtp_finish slots u3 = (s1, Inr d)"
      by (auto simp: lmtp_transfer_def io_bind_ok io_fail_def split: if_splits)
    from lmtp_data_loop_result [OF lo] obtain fins where
      fins: "length fins = length (positives 0 as)" "li_trace u3 = li_trace u2 @ ?lines fins" "slots = map Some (lmtp_results recipients as fins)"
      using fill as(1) by auto
    from lmtp_finish_ok [OF fi] fins(3) obtain rest where fin: "li_trace s1 = li_trace u3 @ rest" "ld_results d = lmtp_results recipients as fins"
      by (auto simp: prefix_def)
    have "li_trace u3 = li_trace u @ [LSent (''DATA'' @ CRLF), LGot 354 (snd ans), LSent (terminate_data data)] @ ?lines fins"
      using lmtp_command_trace [OF da(1)] da(2) lmtp_write_trace [OF pa] fins(2) by (simp add: payload_eq)
    then have "li_trace s1 = li_trace u @ (if fins = [] then []
         else [LSent (''DATA'' @ CRLF), LGot 354 (snd ans), LSent (terminate_data data)] @ ?lines fins) @ rest"
      using fin(1) fins(1) False by auto
    with fins(1) fin(2) show ?thesis by blast
  qed
  then obtain fins dt rest where f: "length fins = length (positives 0 as)" "ld_results d = lmtp_results recipients as fins"
    "li_trace s1 = li_trace u @ (if fins = [] then []
         else [LSent (''DATA'' @ CRLF), LGot 354 dt, LSent (terminate_data data)] @ ?lines fins) @ rest" by blast
  have "map rr_recipient (ld_results d) = recipients" "\<forall>a \<in> set (mail_from # recipients). \<not> has_addr_break a"
    using f(2) lmtp_results_recipients [OF as(1)] safe by (auto simp: list_ex_iff)
  moreover have "lw_log w' = lw_log w @ [li_trace e @ lmtp_rcpt_trace recipients as @
      (if fins = [] then [] else [LSent (''DATA'' @ CRLF), LGot 354 dt, LSent (terminate_data data)] @ ?lines fins) @ rest]"
    unfolding w(1) f(3) as(2) by simp
  ultimately show ?thesis unfolding e using as(1) f(1,2) pos by blast
qed


text \<open>
  \<^bold>\<open>C18\<close> (local delivery). When the LMTP client reports results, it has one for every recipient, in
  their order, and the conversation was complete: the greeting, LHLO and MAIL were answered with 2xx,
  each recipient was sent as one RCPT command, and if any was accepted the server answered 354 to DATA
  and the whole message was written before any final reply was read. The result of a recipient is the
  server's refusal of its RCPT, or the reply that the server gave for it after the data.
\<close>

theorem lmtp_deliver_exact:
  assumes "lmtp_deliver client mail_from recipients data w = (w', Inr d)"
  shows "map rr_recipient (ld_results d) = recipients \<and> (\<forall>a \<in> set (mail_from # recipients). \<not> has_addr_break a) \<and>
     (\<exists>g l m as fins dt rest. length as = length recipients \<and> length fins = length (positives 0 as) \<and>
     lmtp_is_positive (fst g) \<and> lmtp_is_positive (fst l) \<and> lmtp_is_positive (fst m) \<and>
     lw_log w' = lw_log w @
       [[LGot (fst g) (snd g), LSent (''LHLO '' @ trim (lc_helo_name client) @ CRLF), LGot (fst l) (snd l),
         LSent (''MAIL FROM:<'' @ mail_from @ ''>'' @ CRLF), LGot (fst m) (snd m)] @
        lmtp_rcpt_trace recipients as @
        (if fins = [] then []
         else [LSent (''DATA'' @ CRLF), LGot 354 dt, LSent (terminate_data data)] @ map (\<lambda>a. LGot (fst a) (snd a)) fins) @ rest] \<and>
     ld_results d = lmtp_results recipients as fins)"
  using assms by (rule lmtp_deliver_exact_aux)

section \<open>The transport contract\<close>

interpretation local: transport "lmtp_transport_deliver display client" for display client
proof
  fix e :: queue_entry and tgt rs w w' f and receipt
  have r: "map rr_recipient (ld_results d) = rs"
    if "lmtp_deliver client (qe_mail_from e) rs (qe_data e) w = (x, Inr d)" for x d
    using lmtp_deliver_exact_aux [OF that] by blast
  show "lmtp_transport_deliver display client e tgt rs w = (w', Inl f) \<Longrightarrow> set (df_accepted f) \<subseteq> set rs"
    by (auto simp: lmtp_transport_deliver_def classify_lmtp_error_def failure_transient_def failure_permanent_def with_accepted_def
          with_code_def classify_partial_def ld_accepted_def Let_def dest!: r split: if_splits prod.splits sum.splits option.splits)
  show "lmtp_transport_deliver display client e tgt rs w = (w', Inr receipt) \<Longrightarrow> receipt_accepted receipt = length rs"
    by (auto simp: lmtp_transport_deliver_def ld_accepted_def all_accepted_def list_all_iff Let_def
          dest!: r split: if_splits prod.splits sum.splits option.splits)
qed

section \<open>A local delivery\<close>

lemma read_line_bounded_code [code]:
  "read_line_bounded line buf reads =
     (if buf \<noteq> [] then
        (if LF \<in> set buf
         then
           (let n = Suc (length (takeWhile (\<lambda>c. c \<noteq> LF) buf)) in
            if int (length line + n) > 4096 then (buf, reads, Inl (StoreLmtp LmtpLineTooLong))
            else (drop n buf, reads, Inr (line @ take n buf)))
         else if int (length line + length buf) > 4096 then (buf, reads, Inl (StoreLmtp LmtpLineTooLong))
         else read_line_bounded (line @ buf) [] reads)
      else
        (let at_end = (if line = [] then Inl (StoreLmtp LmtpClosed) else Inr line) in
         case reads of
           [] \<Rightarrow> ([], [], at_end)
         | ReadError # rest \<Rightarrow> ([], rest, Inl (StoreLmtp LmtpReadFailed))
         | ReadTimeout # rest \<Rightarrow> ([], rest, Inl (StoreLmtp LmtpReadTimedOut))
         | Chunk bytes # rest \<Rightarrow> if bytes = [] then ([], rest, at_end) else read_line_bounded line bytes rest))"
  by (subst read_line_bounded.simps) (simp add: LMTP_MAX_RESPONSE_LINE_BYTES_def)

definition sample_client :: lmtp_client where
  "sample_client = \<lparr>lc_endpoint = TcpEndpoint ''[::1]'' 24, lc_helo_name = ''mx''\<rparr>"

definition sample_world :: lmtp_world where
  "sample_world =
     \<lparr>lw_connects = [\<lambda>_. LmtpStream [Chunk (''220 hi'' @ CRLF), Chunk (''250-mx'' @ CRLF @ ''250 '' @ CRLF), Chunk (''250 ok'' @ CRLF),
        Chunk (''550 no'' @ CRLF), Chunk (''250 ok'' @ CRLF), Chunk (''354 go'' @ CRLF), Chunk (''250 saved'' @ CRLF)] []],
      lw_log = []\<rparr>"

definition local_run :: "lmtp_world \<times> (store_error, lmtp_delivery) result" where
  "local_run = lmtp_deliver sample_client ''s@x'' [''a@b'', ''c@b''] ''hi'' sample_world"

lemma local_run_result: "\<exists>d. snd local_run = Inr d \<and> ld_accepted d = [''c@b'']"
proof -
  have "(case snd local_run of Inl _ \<Rightarrow> False | Inr d \<Rightarrow> ld_accepted d = [''c@b''])" by code_simp
  then show ?thesis by (auto split: sum.splits)
qed

theorem lmtp_deliver_exact_witness:
  "\<exists>d. snd local_run = Inr d \<and> ld_accepted d = [''c@b''] \<and> map rr_recipient (ld_results d) = [''a@b'', ''c@b'']"
proof -
  from local_run_result obtain d where d: "snd local_run = Inr d" "ld_accepted d = [''c@b'']" by blast
  then have "lmtp_deliver sample_client ''s@x'' [''a@b'', ''c@b''] ''hi'' sample_world = (fst local_run, Inr d)"
    by (simp add: local_run_def prod_eq_iff)
  from lmtp_deliver_exact [OF this] have "map rr_recipient (ld_results d) = [''a@b'', ''c@b'']"
    by (rule conjunct1)
  with d show ?thesis by (intro exI [of _ d] conjI)
qed

end
