(* ===== verification/Dsn.thy ===== *)
theory Dsn
  imports QueueEntry
begin

text \<open>
  Delivery status notifications (\<open>src/crates/queue/src/dsn.rs\<close>). The text of the report is built as
  the source builds it, line by line with \<open>push\<close>. The random generator is a parameter: \<open>rng i n\<close> is
  the buffer of \<open>n\<close> bytes that the \<open>i\<close>-th call fills. The second loop of \<open>fresh_boundary\<close> has no
  bound in the source, so it is a \<open>partial_function\<close> and not finding a boundary is \<open>None\<close>; that
  it does find one is proved from the number of different buffers the generator produces. The
  current time is a record of the fields that \<open>rfc2822\<close> reads.
\<close>

record date_time =
  dt_weekday :: nat
  dt_day :: nat
  dt_month :: nat
  dt_year :: int
  dt_hour :: nat
  dt_minute :: nat
  dt_second :: nat
  dt_offset_minutes :: int

record dsn_request =
  dr_reporting_mta :: string
  dr_original :: queue_entry
  dr_failed_recipients :: "string list"
  dr_diagnostic :: string
  dr_status_code :: "nat option"

definition dsn_recipient :: "queue_entry \<Rightarrow> string option" where
  "dsn_recipient original =
     (if is_null_sender original then None
      else
        let recipient = trim (qe_mail_from original) in
        if recipient = [] \<or> has_line_break recipient \<or> SP \<in> set recipient then None else Some recipient)"

definition dsn_envelope_from :: string where
  "dsn_envelope_from = []"

fun extended_status :: "nat option \<Rightarrow> string" where
  "extended_status None = ''5.0.0''"
| "extended_status (Some code) =
     (if code = 550 then ''5.1.1''
      else if code = 551 then ''5.1.6''
      else if code = 552 then ''5.2.2''
      else if code = 553 then ''5.1.3''
      else if code = 554 then ''5.0.0''
      else ''5.0.0'')"

definition sanitize_header :: "string \<Rightarrow> string" where
  "sanitize_header value = trim (blank_control value)"

definition random_hex :: "string \<Rightarrow> string" where
  "random_hex buf = concat (map (\<lambda>b. format_hex False 2 (ord b)) buf)"

definition boundary_candidate :: "(nat \<Rightarrow> nat \<Rightarrow> string) \<Rightarrow> nat \<Rightarrow> nat \<Rightarrow> string" where
  "boundary_candidate rng i n = ''=_MailStack_'' @ random_hex (rng i n)"

definition boundary_unused :: "string list \<Rightarrow> string \<Rightarrow> bool" where
  "boundary_unused parts candidate \<longleftrightarrow> \<not> list_ex (sublist candidate) parts"

partial_function (option) boundary_loop :: "(nat \<Rightarrow> nat \<Rightarrow> string) \<Rightarrow> string list \<Rightarrow> nat \<Rightarrow> string option" where
  "boundary_loop rng parts i =
     (if boundary_unused parts (boundary_candidate rng i 32) then Some (boundary_candidate rng i 32)
      else boundary_loop rng parts (Suc i))"

declare boundary_loop.simps [code]

definition fresh_boundary :: "(nat \<Rightarrow> nat \<Rightarrow> string) \<Rightarrow> string list \<Rightarrow> string option" where
  "fresh_boundary rng parts =
     (case find (boundary_unused parts) (map (\<lambda>i. boundary_candidate rng i 16) [0..<16]) of
        Some candidate \<Rightarrow> Some candidate
      | None \<Rightarrow> boundary_loop rng parts 16)"

definition is_7bit_clean :: "string \<Rightarrow> bool" where
  "is_7bit_clean s \<longleftrightarrow> list_all (\<lambda>b. ord b < 0x80) s"

definition cte_for :: "string \<Rightarrow> string" where
  "cte_for s = (if is_7bit_clean s then ''7bit'' else ''8bit'')"

text \<open>A run of \<open>push\<close> calls.\<close>

definition push_lines :: "string list \<Rightarrow> string" where
  "push_lines ls = concat (map (\<lambda>l. l @ CRLF) ls)"

text \<open>\<open>replace("\r\n", "\n")\<close>\<close>

fun replace_crlf :: "string \<Rightarrow> string" where
  "replace_crlf [] = []"
| "replace_crlf [c] = [c]"
| "replace_crlf (c # d # cs) = (if c = CR \<and> d = LF then LF # replace_crlf cs else c # replace_crlf (d # cs))"

definition cr_to_lf :: "string \<Rightarrow> string" where
  "cr_to_lf = map (\<lambda>c. if c = CR then LF else c)"

definition lf_to_crlf :: "string \<Rightarrow> string" where
  "lf_to_crlf s = concat (map (\<lambda>c. if c = LF then CRLF else [c]) s)"

definition normalize_crlf :: "string \<Rightarrow> string" where
  "normalize_crlf text = lf_to_crlf (cr_to_lf (replace_crlf text))"

definition two_digits :: "nat \<Rightarrow> string" where
  "two_digits n = pad_left (CHR ''0'') 2 (nat_to_string n)"

definition rfc2822 :: "date_time \<Rightarrow> string" where
  "rfc2822 dt =
     (let weekday = [''Mon'', ''Tue'', ''Wed'', ''Thu'', ''Fri'', ''Sat'', ''Sun''] ! dt_weekday dt;
          month = [''Jan'', ''Feb'', ''Mar'', ''Apr'', ''May'', ''Jun'', ''Jul'', ''Aug'', ''Sep'', ''Oct'',
                   ''Nov'', ''Dec''] ! (dt_month dt - 1);
          sign = (if dt_offset_minutes dt < 0 then ''-'' else ''+'');
          minutes = nat \<bar>dt_offset_minutes dt\<bar>
      in weekday @ '', '' @ two_digits (dt_day dt) @ '' '' @ month @ '' '' @ int_to_string (dt_year dt) @ '' '' @
         two_digits (dt_hour dt) @ '':'' @ two_digits (dt_minute dt) @ '':'' @ two_digits (dt_second dt) @ '' '' @
         sign @ two_digits (minutes div 60) @ two_digits (minutes mod 60))"

text \<open>The lines of the report up to the original message, in the groups of the source.\<close>

definition dsn_header :: "date_time \<Rightarrow> string \<Rightarrow> dsn_request \<Rightarrow> string list" where
  "dsn_header now boundary req =
     (let mta = sanitize_header (dr_reporting_mta req);
          to = sanitize_header (case dsn_recipient (dr_original req) of Some r \<Rightarrow> r | None \<Rightarrow> [])
      in [''From: Mail Delivery System <MAILER-DAEMON@'' @ mta @ ''>'',
          ''To: <'' @ to @ ''>'',
          ''Subject: Undelivered Mail Returned to Sender'',
          ''Date: '' @ rfc2822 now,
          ''Message-ID: <dsn-'' @ qe_id (dr_original req) @ ''@'' @ mta @ ''>'',
          ''Auto-Submitted: auto-replied'',
          ''MIME-Version: 1.0'',
          ''Content-Type: multipart/report; report-type=delivery-status; boundary='' @ [CHR 0x22] @ boundary @ [CHR 0x22]])"

definition dsn_notice :: "string \<Rightarrow> dsn_request \<Rightarrow> string list" where
  "dsn_notice boundary req =
     [''--'' @ boundary,
      ''Content-Type: text/plain; charset=utf-8'',
      ''Content-Transfer-Encoding: 7bit'',
      [],
      ''This is the mail system at host '' @ sanitize_header (dr_reporting_mta req) @ ''.'',
      [],
      ''I'' @ [CHR 0x27] @ ''m sorry to have to inform you that your message could not be delivered to one'',
      ''or more recipients. The original message is attached below.'',
      []] @
     map (\<lambda>r. ''    '' @ sanitize_header r @ '': '' @ sanitize_header (dr_diagnostic req)) (dr_failed_recipients req) @
     [[]]"

definition dsn_status :: "string \<Rightarrow> dsn_request \<Rightarrow> string list" where
  "dsn_status boundary req =
     [''--'' @ boundary,
      ''Content-Type: message/delivery-status'',
      [],
      ''Reporting-MTA: dns; '' @ sanitize_header (dr_reporting_mta req),
      []] @
     concat (map (\<lambda>r.
       [''Final-Recipient: rfc822; '' @ sanitize_header r,
        ''Action: failed'',
        ''Status: '' @ extended_status (dr_status_code req),
        ''Diagnostic-Code: smtp; '' @ sanitize_header (dr_diagnostic req),
        []]) (dr_failed_recipients req))"

definition dsn_original_head :: "string \<Rightarrow> dsn_request \<Rightarrow> string list" where
  "dsn_original_head boundary req =
     [''--'' @ boundary,
      ''Content-Type: message/rfc822'',
      ''Content-Transfer-Encoding: '' @ cte_for (qe_data (dr_original req)),
      []]"

definition dsn_head :: "date_time \<Rightarrow> string \<Rightarrow> dsn_request \<Rightarrow> string list" where
  "dsn_head now b req =
     dsn_header now b req @ [[]] @ dsn_notice b req @ dsn_status b req @ dsn_original_head b req"

definition dsn_text :: "date_time \<Rightarrow> string \<Rightarrow> dsn_request \<Rightarrow> string" where
  "dsn_text now boundary req =
     (let out = push_lines (dsn_head now boundary req);
          out = out @ normalize_crlf (qe_data (dr_original req));
          out = (if suffix CRLF out then out else out @ CRLF)
      in out @ push_lines [''--'' @ boundary @ ''--''])"

definition build_dsn :: "(nat \<Rightarrow> nat \<Rightarrow> string) \<Rightarrow> date_time \<Rightarrow> dsn_request \<Rightarrow> string option" where
  "build_dsn rng now req =
     map_option (\<lambda>boundary. dsn_text now boundary req)
       (fresh_boundary rng [qe_data (dr_original req), dr_diagnostic req])"

section \<open>Header values\<close>

lemma sanitize_header_clean: "c \<in> set (sanitize_header v) \<Longrightarrow> \<not> is_ascii_control c"
  using set_trim blank_control_set by (fastforce simp: sanitize_header_def)

lemma sanitize_header_no_break [simp]: "CR \<notin> set (sanitize_header v)" "LF \<notin> set (sanitize_header v)"
  using sanitize_header_clean control_bytes by blast+

text \<open>A line that cannot be taken for more than one.\<close>

definition one_line :: "string \<Rightarrow> bool" where
  "one_line l \<longleftrightarrow> CR \<notin> set l \<and> LF \<notin> set l"

lemma one_line_append [simp]: "one_line (x @ y) \<longleftrightarrow> one_line x \<and> one_line y"
  by (auto simp: one_line_def)

lemma one_line_Cons [simp]: "one_line (c # x) \<longleftrightarrow> c \<noteq> CR \<and> c \<noteq> LF \<and> one_line x"
  by (auto simp: one_line_def)

lemma one_line_Nil [simp]: "one_line []"
  by (simp add: one_line_def)

lemma one_line_sanitize [simp]: "one_line (sanitize_header v)"
  by (simp add: one_line_def)

lemma one_line_digits [simp]: "one_line (nat_to_string n)"
  using nat_to_string_digits [of _ n] by (fastforce simp: one_line_def is_ascii_digit_def)

lemma one_line_two_digits [simp]: "one_line (two_digits n)"
  using one_line_digits [of n] by (auto simp: two_digits_def pad_left_def one_line_def)

lemma one_line_alphanumeric: "(\<And>c. c \<in> set s \<Longrightarrow> is_ascii_alphanumeric c \<or> c = CHR ''-'') \<Longrightarrow> one_line s"
  by (fastforce simp: one_line_def is_ascii_alphanumeric_def is_ascii_digit_def is_ascii_upper_def is_ascii_lower_def)

lemma one_line_safe_id: "is_safe_id i \<Longrightarrow> one_line i"
  by (rule one_line_alphanumeric) (rule is_safe_id_chars)

lemma random_hex_alphanumeric: "c \<in> set (random_hex buf) \<Longrightarrow> is_ascii_alphanumeric c"
  by (auto simp: random_hex_def dest: format_hex_alphanumeric)

lemma one_line_candidate [simp]: "one_line (boundary_candidate rng i n)"
proof -
  have "one_line (random_hex (rng i n))" using random_hex_alphanumeric one_line_alphanumeric by blast
  then show ?thesis by (simp add: boundary_candidate_def)
qed

text \<open>The \<open>time\<close> crate keeps the fields of a date in their ranges.\<close>

definition date_ok :: "date_time \<Rightarrow> bool" where
  "date_ok dt \<longleftrightarrow> dt_weekday dt < 7 \<and> 1 \<le> dt_month dt \<and> dt_month dt \<le> 12"

lemma one_line_nth: "list_all one_line xs \<Longrightarrow> n < length xs \<Longrightarrow> one_line (xs ! n)"
  by (simp add: list_all_length)

lemma one_line_rfc2822: "date_ok dt \<Longrightarrow> one_line (rfc2822 dt)"
  unfolding rfc2822_def Let_def date_ok_def
  by (auto simp: int_to_string_def intro!: one_line_nth)

section \<open>The boundary\<close>

lemma boundary_loop_unused:
  "boundary_loop rng parts i = Some b \<Longrightarrow> boundary_unused parts b \<and> (\<exists>j. b = boundary_candidate rng j 32)"
proof (erule boundary_loop.raw_induct [where P = "\<lambda>rng parts i b. boundary_unused parts b \<and> (\<exists>j. b = boundary_candidate rng j 32)", rotated])
  fix loop and rng :: "nat \<Rightarrow> nat \<Rightarrow> string" and parts and i :: nat and b
  assume IH: "\<And>rng parts i b. loop rng parts i = Some b \<Longrightarrow> boundary_unused parts b \<and> (\<exists>j. b = boundary_candidate rng j 32)"
    and eq: "(if boundary_unused parts (boundary_candidate rng i 32) then Some (boundary_candidate rng i 32)
              else loop rng parts (Suc i)) = Some b"
  show "boundary_unused parts b \<and> (\<exists>j. b = boundary_candidate rng j 32)"
    using eq IH [of rng parts "Suc i" b] by (auto split: if_splits)
qed

lemma fresh_boundary_unused:
  assumes "fresh_boundary rng parts = Some b"
  shows "boundary_unused parts b \<and> (\<exists>j n. b = boundary_candidate rng j n)"
  using assms boundary_loop_unused
  by (fastforce simp: fresh_boundary_def find_Some_iff split: option.splits)

lemma boundary_loop_finds:
  assumes "boundary_unused parts (boundary_candidate rng (i + k) 32)"
  shows "\<exists>b. boundary_loop rng parts i = Some b"
  using assms
proof (induction k arbitrary: i)
  case 0
  then show ?case by (subst boundary_loop.simps) simp
next
  case (Suc k)
  then show ?case by (subst boundary_loop.simps) simp
qed

lemma sublist_window: "sublist x s \<Longrightarrow> x \<in> (\<lambda>j. take (length x) (drop j s)) ` {..length s}"
proof -
  assume "sublist x s"
  then obtain a b where "s = a @ x @ b" by (auto simp: sublist_def)
  then have "x = take (length x) (drop (length a) s)" "length a \<le> length s" by simp_all
  then show ?thesis by blast
qed

lemma card_windows: "finite {x. sublist x s \<and> length x = n}" "card {x. sublist x s \<and> length x = n} \<le> Suc (length s)"
proof -
  have sub: "{x. sublist x s \<and> length x = n} \<subseteq> (\<lambda>j. take n (drop j s)) ` {..length s}"
    using sublist_window by blast
  then show "finite {x. sublist x s \<and> length x = n}" by (rule finite_subset) simp
  have "card {x. sublist x s \<and> length x = n} \<le> card ((\<lambda>j. take n (drop j s)) ` {..length s})"
    by (rule card_mono [OF _ sub]) simp
  also have "\<dots> \<le> card {..length s}" by (rule card_image_le) simp
  finally show "card {x. sublist x s \<and> length x = n} \<le> Suc (length s)" by simp
qed

lemma length_format_hex_byte [simp]: "length (format_hex False 2 (ord b)) = 2"
proof -
  have "(of_char b :: nat) < 16 ^ 2" by (simp add: of_char_def)
  then show ?thesis by (intro length_format_hex) simp_all
qed

lemma length_random_hex [simp]: "length (random_hex buf) = 2 * length buf"
  by (induction buf) (simp_all add: random_hex_def)

lemma random_hex_inject: "random_hex x = random_hex y \<longleftrightarrow> x = y"
proof (induction x arbitrary: y)
  case Nil
  then show ?case by (cases y) (auto simp: random_hex_def simp flip: length_0_conv)
next
  case (Cons a x)
  show ?case
  proof (cases y)
    case Nil
    then show ?thesis by (auto simp: random_hex_def simp flip: length_0_conv)
  next
    case (Cons b y')
    have "random_hex (a # x) = random_hex (b # y') \<longleftrightarrow>
          format_hex False 2 (ord a) = format_hex False 2 (ord b) \<and> random_hex x = random_hex y'"
      by (simp add: random_hex_def)
    then show ?thesis using Cons.IH [of y'] Cons by (simp add: format_hex_inject)
  qed
qed

lemma windows_many:
  "finite (\<Union>p \<in> set parts. {x. sublist x p \<and> length x = n})"
  "card (\<Union>p \<in> set parts. {x. sublist x p \<and> length x = n}) \<le> (\<Sum>p \<leftarrow> parts. Suc (length p))"
proof -
  show "finite (\<Union>p \<in> set parts. {x. sublist x p \<and> length x = n})" using card_windows(1) by blast
  show "card (\<Union>p \<in> set parts. {x. sublist x p \<and> length x = n}) \<le> (\<Sum>p \<leftarrow> parts. Suc (length p))"
  proof (induction parts)
    case (Cons p parts)
    have "card ({x. sublist x p \<and> length x = n} \<union> (\<Union>q \<in> set parts. {x. sublist x q \<and> length x = n})) \<le>
          card {x. sublist x p \<and> length x = n} + card (\<Union>q \<in> set parts. {x. sublist x q \<and> length x = n})"
      by (rule card_Un_le)
    with Cons card_windows(2) [of p n] show ?case by simp
  qed simp
qed

lemma fresh_boundary_found:
  assumes len: "\<forall>i. length (rng i 32) = 32"
    and many: "card ((\<lambda>i. rng i 32) ` {16..<m}) > (\<Sum>p \<leftarrow> parts. Suc (length p))"
  shows "\<exists>b. fresh_boundary rng parts = Some b"
proof -
  let ?W = "\<Union>p \<in> set parts. {x. sublist x p \<and> length x = 76}"
  have "\<exists>i \<in> {16..<m}. boundary_unused parts (boundary_candidate rng i 32)"
  proof (rule ccontr)
    assume "\<not> ?thesis"
    then have used: "boundary_candidate rng i 32 \<in> ?W" if "i \<in> {16..<m}" for i
      using that len by (fastforce simp: boundary_unused_def list_ex_iff boundary_candidate_def)
    have "card ((\<lambda>i. rng i 32) ` {16..<m}) = card ((\<lambda>x. ''=_MailStack_'' @ random_hex x) ` (\<lambda>i. rng i 32) ` {16..<m})"
      by (rule card_image [symmetric]) (simp add: inj_on_def random_hex_inject)
    also have "\<dots> \<le> card ?W"
      by (rule card_mono [OF windows_many(1)]) (use used in \<open>auto simp: boundary_candidate_def\<close>)
    also have "\<dots> \<le> (\<Sum>p \<leftarrow> parts. Suc (length p))" by (rule windows_many(2))
    finally show False using many by simp
  qed
  then obtain i where "16 \<le> i" "boundary_unused parts (boundary_candidate rng i 32)" by auto
  then have "\<exists>b. boundary_loop rng parts 16 = Some b"
    using boundary_loop_finds [of parts rng 16 "i - 16"] by simp
  then show ?thesis by (auto simp: fresh_boundary_def split: option.splits)
qed

section \<open>The lines of the report\<close>

lemma push_lines_append [simp]: "push_lines (x @ y) = push_lines x @ push_lines y"
  by (simp add: push_lines_def)

lemma push_lines_Nil [simp]: "push_lines [] = []"
  by (simp add: push_lines_def)

lemma push_lines_Cons: "push_lines (l # ls) = l @ CRLF @ push_lines ls"
  by (simp add: push_lines_def)

text \<open>The lines of the original message, whatever its line ends are.\<close>

definition source_lines :: "string \<Rightarrow> string list" where
  "source_lines data = split_on LF (cr_to_lf (replace_crlf data))"

lemma lf_to_crlf_join: "lf_to_crlf s = join CRLF (split_on LF s)"
proof (induction s)
  case (Cons c cs)
  obtain p ps where ps: "split_on LF cs = p # ps" by (cases "split_on LF cs") auto
  with Cons show ?case by (cases ps) (auto simp: lf_to_crlf_def)
qed (simp add: lf_to_crlf_def)

lemma normalize_crlf_join: "normalize_crlf data = join CRLF (source_lines data)"
  by (simp add: normalize_crlf_def lf_to_crlf_join source_lines_def)

lemma source_lines_not_Nil [simp]: "source_lines data \<noteq> []"
  by (simp add: source_lines_def)

lemma source_lines_one_line: "l \<in> set (source_lines data) \<Longrightarrow> one_line l"
proof -
  assume l: "l \<in> set (source_lines data)"
  then have "set l \<subseteq> set (cr_to_lf (replace_crlf data))"
    unfolding source_lines_def by (rule set_split_on_subset)
  moreover have "CR \<notin> set (cr_to_lf (replace_crlf data))" by (auto simp: cr_to_lf_def)
  moreover have "LF \<notin> set l" using l split_on_pieces unfolding source_lines_def by blast
  ultimately show ?thesis by (auto simp: one_line_def)
qed

lemma join_CRLF_last: "xs \<noteq> [] \<Longrightarrow> join CRLF xs = push_lines (butlast xs) @ last xs"
  by (induction CRLF xs rule: join.induct) (auto simp: push_lines_Cons)

text \<open>The original is written with every line ended, the last one too.\<close>

lemma normalize_crlf_terminated:
  assumes "suffix CRLF out"
  shows "\<exists>ls. set ls \<subseteq> set (source_lines data) \<and>
     (if suffix CRLF (out @ normalize_crlf data) then out @ normalize_crlf data
      else out @ normalize_crlf data @ CRLF) = out @ push_lines ls"
proof (cases "last (source_lines data) = []")
  case True
  then have "normalize_crlf data = push_lines (butlast (source_lines data))"
    by (simp add: normalize_crlf_join join_CRLF_last)
  moreover have "suffix CRLF (out @ push_lines ls)" for ls
    using assms by (cases ls rule: rev_cases) (auto simp: push_lines_Cons suffix_def)
  ultimately show ?thesis
    by (intro exI [of _ "butlast (source_lines data)"]) (auto dest: in_set_butlastD)
next
  case False
  have d: "normalize_crlf data = push_lines (butlast (source_lines data)) @ last (source_lines data)"
    by (simp add: normalize_crlf_join join_CRLF_last)
  have "one_line (last (source_lines data))" by (rule source_lines_one_line [of _ data]) simp
  then have "\<not> suffix CRLF (out @ normalize_crlf data)"
    using False by (cases "last (source_lines data)" rule: rev_cases) (auto simp: d suffix_def)
  moreover have "normalize_crlf data @ CRLF = push_lines (source_lines data)"
    using append_butlast_last_id [of "source_lines data"] d
    by (metis append.assoc append_Nil2 push_lines_Cons push_lines_Nil push_lines_append source_lines_not_Nil)
  ultimately show ?thesis by (intro exI [of _ "source_lines data"]) simp
qed

lemma sublist_Cons_right: "sublist x s \<Longrightarrow> sublist x (c # s)"
  by (metis append_Cons sublist_def)

lemma source_lines_split:
  "\<exists>p ps. source_lines s = p # ps \<and> prefix p s \<and> (\<forall>q \<in> set ps. sublist q s)"
proof (induction s rule: replace_crlf.induct)
  case (3 c d cs)
  have split: "source_lines (c # d # cs) =
      (if c = CR \<and> d = LF then [] # source_lines cs
       else if c = CR \<or> c = LF then [] # source_lines (d # cs)
       else (c # hd (source_lines (d # cs))) # tl (source_lines (d # cs)))"
    by (auto simp: source_lines_def cr_to_lf_def split: list.splits)
  show ?case
  proof (cases "c = CR \<and> d = LF")
    case True
    with 3(1) obtain p ps where "source_lines cs = p # ps" "prefix p cs" "\<forall>q \<in> set ps. sublist q cs" by blast
    with True split show ?thesis by (auto intro!: sublist_Cons_right dest: prefix_imp_sublist)
  next
    case False
    with 3(2) obtain p ps where "source_lines (d # cs) = p # ps" "prefix p (d # cs)" "\<forall>q \<in> set ps. sublist q (d # cs)"
      by blast
    with False split show ?thesis
      by (auto intro!: sublist_Cons_right [of _ "d # cs"] dest: prefix_imp_sublist)
  qed
qed (auto simp: source_lines_def cr_to_lf_def)

lemma source_lines_sublist: "l \<in> set (source_lines s) \<Longrightarrow> sublist l s"
  using source_lines_split [of s] prefix_imp_sublist by auto

lemma source_lines_no_boundary:
  assumes "boundary_unused (data # parts) b" and "l \<in> set (source_lines data)"
  shows "\<not> prefix (''--'' @ b) l"
proof
  assume "prefix (''--'' @ b) l"
  then have "sublist b l" by (auto simp: prefix_def sublist_def intro: exI [of _ "''--''"])
  then have "sublist b data" using source_lines_sublist [OF assms(2)] sublist_order.order_trans by blast
  then show False using assms(1) by (simp add: boundary_unused_def)
qed

section \<open>Properties\<close>

lemma dsn_head_one_line:
  assumes "one_line b" and "date_ok now" and "is_safe_id (qe_id (dr_original req))"
  shows "l \<in> set (dsn_head now b req) \<Longrightarrow> one_line l"
proof -
  have "one_line (extended_status c)" for c by (cases c) auto
  then show "l \<in> set (dsn_head now b req) \<Longrightarrow> one_line l"
    using assms one_line_rfc2822 [of now] one_line_safe_id [of "qe_id (dr_original req)"]
    by (auto simp: dsn_head_def dsn_header_def dsn_notice_def dsn_status_def dsn_original_head_def cte_for_def Let_def)
qed

lemma dsn_head_delimiters:
  "filter (prefix (''--'' @ b)) (dsn_head now b req) = replicate 3 (''--'' @ b)"
proof -
  have "filter (prefix (''--'' @ b)) (concat (map (\<lambda>r. [''Final-Recipient: rfc822; '' @ f r, ''Action: failed'',
          ''Status: '' @ s, ''Diagnostic-Code: smtp; '' @ d, []]) rs)) = []" for f s d and rs :: "string list"
    by (induction rs) simp_all
  then show ?thesis
    by (simp add: dsn_head_def dsn_header_def dsn_notice_def dsn_status_def dsn_original_head_def Let_def
        numeral_3_eq_3 filter_map o_def)
qed

text \<open>
  \<^bold>\<open>C21\<close> (a bounce is well-formed). Whatever the diagnostic, the host name, the recipients and the
  original message contain, the report is a sequence of lines each ended by CR LF; the header is
  exactly the eight fields of the program, so nothing a remote server or a sender wrote can add a
  header; and the lines that start with the delimiter are exactly the three part openings and the
  closing one, so the original message cannot break out of its part.
\<close>

theorem dsn_well_formed:
  assumes "build_dsn rng now req = Some out"
    and "is_safe_id (qe_id (dr_original req))" and "date_ok now"
  shows "\<exists>b ls. out = push_lines ls \<and> list_all one_line ls \<and>
           takeWhile (\<lambda>l. l \<noteq> []) ls = dsn_header now b req \<and>
           filter (prefix (''--'' @ b)) ls = [''--'' @ b, ''--'' @ b, ''--'' @ b, ''--'' @ b @ ''--''] \<and>
           \<not> sublist b (qe_data (dr_original req))"
proof -
  let ?data = "qe_data (dr_original req)"
  from assms(1) obtain b where b: "fresh_boundary rng [?data, dr_diagnostic req] = Some b" "out = dsn_text now b req"
    by (auto simp: build_dsn_def)
  from fresh_boundary_unused [OF b(1)] have unused: "boundary_unused [?data, dr_diagnostic req] b" and "one_line b"
    by auto
  have "suffix CRLF (push_lines (dsn_head now b req))"
    by (simp add: dsn_head_def dsn_original_head_def push_lines_Cons suffix_def)
  from normalize_crlf_terminated [OF this] obtain ls where ls: "set ls \<subseteq> set (source_lines ?data)"
    "(if suffix CRLF (push_lines (dsn_head now b req) @ normalize_crlf ?data)
      then push_lines (dsn_head now b req) @ normalize_crlf ?data
      else push_lines (dsn_head now b req) @ normalize_crlf ?data @ CRLF) = push_lines (dsn_head now b req) @ push_lines ls"
    by blast
  let ?ls = "dsn_head now b req @ ls @ [''--'' @ b @ ''--'']"
  have "out = push_lines ?ls"
    using ls(2) by (simp add: b(2) dsn_text_def Let_def split: if_splits)
  moreover have "list_all one_line ?ls"
    using dsn_head_one_line [OF \<open>one_line b\<close> assms(3,2)] ls(1) source_lines_one_line \<open>one_line b\<close>
    by (auto simp: list_all_iff)
  moreover have "takeWhile (\<lambda>l. l \<noteq> []) ?ls = dsn_header now b req"
    by (simp add: dsn_head_def dsn_header_def Let_def)
  moreover have "filter (prefix (''--'' @ b)) ls = []"
    using ls(1) source_lines_no_boundary [OF unused] by (auto simp: filter_empty_conv)
  then have "filter (prefix (''--'' @ b)) ?ls = [''--'' @ b, ''--'' @ b, ''--'' @ b, ''--'' @ b @ ''--'']"
    using dsn_head_delimiters [of b now req] by (simp add: numeral_3_eq_3)
  moreover have "\<not> sublist b ?data" using unused by (simp add: boundary_unused_def)
  ultimately show ?thesis by blast
qed

definition sample_entry :: queue_entry where
  "sample_entry =
     \<lparr>qe_id = ''A1'', qe_kind = Outbound, qe_mail_from = ''a@x.org'', qe_recipients = [''b@y.org'', ''c@z.org''],
      qe_data = ''Subject: hi'' @ CRLF @ CRLF @ ''.hello'' @ [LF], qe_created_at = [], qe_attempts = 0,
      qe_next_attempt_unix = 0, qe_last_error = None, qe_last_code = None\<rparr>"

definition sample_request :: dsn_request where
  "sample_request =
     \<lparr>dr_reporting_mta = ''mx.x.org'', dr_original = sample_entry, dr_failed_recipients = [''b@y.org''],
      dr_diagnostic = ''550 no'' @ CRLF @ ''Bcc: all'', dr_status_code = Some 550\<rparr>"

definition sample_now :: date_time where
  "sample_now =
     \<lparr>dt_weekday = 3, dt_day = 1, dt_month = 1, dt_year = 1970, dt_hour = 0, dt_minute = 0, dt_second = 0,
      dt_offset_minutes = 0\<rparr>"

definition sample_rng :: "nat \<Rightarrow> nat \<Rightarrow> string" where
  "sample_rng i n = replicate n (char_of (65 + i))"

theorem dsn_well_formed_witness:
  "\<exists>out b ls. build_dsn sample_rng sample_now sample_request = Some out \<and> out = push_lines ls \<and>
     filter (prefix (''--'' @ b)) ls = [''--'' @ b, ''--'' @ b, ''--'' @ b, ''--'' @ b @ ''--'']"
proof -
  have "boundary_unused [qe_data (dr_original sample_request), dr_diagnostic sample_request]
          (boundary_candidate sample_rng 0 16)" by code_simp
  then have "build_dsn sample_rng sample_now sample_request \<noteq> None"
    by (simp add: build_dsn_def fresh_boundary_def upt_conv_Cons)
  then obtain out where out: "build_dsn sample_rng sample_now sample_request = Some out" by blast
  have "is_safe_id (qe_id (dr_original sample_request)) \<and> date_ok sample_now" by code_simp
  with dsn_well_formed [OF out] out show ?thesis by blast
qed

text \<open>
  \<^bold>\<open>C38\<close> (the search for a boundary ends). The unbounded retry loop for a boundary that occurs
  neither in the original message nor in the diagnostic ends, and the report is built, as soon as
  the random source has produced more different buffers than the two texts have bytes.
\<close>

theorem build_dsn_terminates:
  assumes "\<forall>i. length (rng i 32) = 32"
    and "card ((\<lambda>i. rng i 32) ` {16..<m}) > length (qe_data (dr_original req)) + length (dr_diagnostic req) + 2"
  shows "\<exists>out. build_dsn rng now req = Some out"
  using fresh_boundary_found [of rng "[qe_data (dr_original req), dr_diagnostic req]" m] assms
  by (auto simp: build_dsn_def)

theorem build_dsn_terminates_witness:
  "\<exists>out. build_dsn sample_rng sample_now
     (sample_request\<lparr>dr_original := sample_entry\<lparr>qe_data := ''x''\<rparr>, dr_diagnostic := []\<rparr>) = Some out"
proof -
  let ?f = "\<lambda>i. sample_rng i 32"
  have "inj_on ?f {16..<20}"
  proof (rule inj_onI)
    fix i j :: nat
    assume ij: "i \<in> {16..<20}" "j \<in> {16..<20}" "?f i = ?f j"
    then have "(char_of (65 + i) :: char) = char_of (65 + j)" by (simp add: sample_rng_def)
    then have "of_char (char_of (65 + i) :: char) = (of_char (char_of (65 + j) :: char) :: nat)" by (rule arg_cong)
    with ij(1,2) show "i = j" by simp
  qed
  then have "card (?f ` {16..<20}) = 4" by (simp add: card_image)
  then show ?thesis
    by (intro build_dsn_terminates [where m = 20]) (simp_all add: sample_rng_def)
qed

end
