(* ===== verification/Backoff.thy ===== *)
theory Backoff
  imports Dsn "HOL-Library.Word"
begin

unbundle bit_operations_syntax

text \<open>
  Retry scheduling (\<open>src/crates/queue/src/backoff.rs\<close>). The \<open>u32\<close> and \<open>u64\<close> fields are \<open>nat\<close> with
  the saturating operations of the source; the jitter hash is computed on 64-bit words, where
  multiplication wraps. The result of \<open>delay_secs\<close> is cast to \<open>i64\<close> by \<open>wrap_i64\<close>.
\<close>

record backoff_policy =
  bp_base_secs :: nat
  bp_factor :: nat
  bp_max_secs :: nat
  bp_max_attempts :: nat

definition backoff_policy_default :: backoff_policy where
  "backoff_policy_default = \<lparr>bp_base_secs = 300, bp_factor = 2, bp_max_secs = 14400, bp_max_attempts = 10\<rparr>"

definition MAX_LAST_ERROR_LEN :: nat where "MAX_LAST_ERROR_LEN = 500"

definition sanitize_last_error :: "string \<Rightarrow> string" where
  "sanitize_last_error text = take_chars MAX_LAST_ERROR_LEN (sanitize_header text)"

definition stable_hash :: "string \<Rightarrow> 64 word" where
  "stable_hash input =
     foldl (\<lambda>hash byte. (hash XOR word_of_nat (ord byte)) * 0x100000001b3) 0xcbf29ce484222325 input"

text \<open>The loop of \<open>nominal_delay_secs\<close> with \<open>n\<close> iterations to go.\<close>

fun nominal_loop :: "backoff_policy \<Rightarrow> nat \<Rightarrow> nat \<Rightarrow> nat" where
  "nominal_loop p delay 0 = min delay (bp_max_secs p)"
| "nominal_loop p delay (Suc n) =
     (let delay = sat_u64 (delay * bp_factor p)
      in if delay \<ge> bp_max_secs p then bp_max_secs p else nominal_loop p delay n)"

definition nominal_delay_secs :: "backoff_policy \<Rightarrow> nat \<Rightarrow> nat" where
  "nominal_delay_secs p attempt = (if attempt = 0 then 0 else nominal_loop p (bp_base_secs p) (attempt - 1))"

definition delay_secs :: "backoff_policy \<Rightarrow> nat \<Rightarrow> string \<Rightarrow> nat" where
  "delay_secs p attempt entry_id =
     (let nominal = nominal_delay_secs p attempt in
      if nominal = 0 then 0
      else
        let spread = max (nominal div 10) 1;
            hash = unat (stable_hash entry_id);
            lower = max (nominal - spread) 1;
            upper = (if nominal \<ge> bp_max_secs p then nominal
                     else min (sat_u64 (nominal + spread)) (max (bp_max_secs p) 1));
            span = upper - lower
        in max (sat_u64 (lower + hash mod (span + 1))) 1)"

definition exhausted :: "backoff_policy \<Rightarrow> nat \<Rightarrow> bool" where
  "exhausted p attempts \<longleftrightarrow> attempts \<ge> bp_max_attempts p"

definition wrap_i64 :: "nat \<Rightarrow> int" where
  "wrap_i64 n = (if int n < 2 ^ 63 then int n else int n - 2 ^ 64)"

definition on_failure ::
  "backoff_policy \<Rightarrow> queue_entry \<Rightarrow> int \<Rightarrow> string option \<Rightarrow> nat option \<Rightarrow> queue_entry \<times> bool" where
  "on_failure p e now last_error last_code =
     (let e = e\<lparr>qe_attempts := sat_u32 (qe_attempts e + 1)\<rparr>;
          e = e\<lparr>qe_last_error := map_option sanitize_last_error last_error\<rparr>;
          e = e\<lparr>qe_last_code := last_code\<rparr>;
          spent = exhausted p (qe_attempts e);
          delay = wrap_i64 (delay_secs p (qe_attempts e) (qe_id e))
      in (e\<lparr>qe_next_attempt_unix := sat_i64 (now + delay)\<rparr>, spent))"

section \<open>The nominal delay is the capped exponential\<close>

lemma nominal_loop_closed:
  assumes "bp_max_secs p \<le> U64_MAX"
  shows "nominal_loop p d n = min (d * bp_factor p ^ n) (bp_max_secs p)"
proof -
  have "nominal_loop p d n = min (d * bp_factor p ^ n) (bp_max_secs p)" if "bp_factor p > 0" for d
  proof (induction n arbitrary: d)
    case (Suc n)
    show ?case
    proof (cases "sat_u64 (d * bp_factor p) \<ge> bp_max_secs p")
      case True
      then have "bp_max_secs p \<le> d * bp_factor p" by (simp add: sat_u64_def)
      also have "\<dots> \<le> d * bp_factor p * bp_factor p ^ n" using that by simp
      finally show ?thesis using True by (simp add: Let_def mult.assoc)
    next
      case False
      then have "sat_u64 (d * bp_factor p) = d * bp_factor p" using assms by (simp add: sat_u64_def)
      with False Suc show ?thesis by (simp add: Let_def mult.assoc)
    qed
  qed simp
  moreover have "nominal_loop p d n = min (d * bp_factor p ^ n) (bp_max_secs p)" if "bp_factor p = 0"
  proof (cases n)
    case (Suc m)
    have "nominal_loop p 0 m = 0" using that by (induction m) (simp_all add: sat_u64_def)
    with Suc that show ?thesis by (simp add: sat_u64_def)
  qed simp
  ultimately show ?thesis by blast
qed

lemma nominal_delay_closed:
  assumes "bp_max_secs p \<le> U64_MAX" and "0 < attempt"
  shows "nominal_delay_secs p attempt = min (bp_base_secs p * bp_factor p ^ (attempt - 1)) (bp_max_secs p)"
  using nominal_loop_closed [OF assms(1)] assms(2) by (simp add: nominal_delay_secs_def)

lemma nominal_delay_le_max: "nominal_delay_secs p attempt \<le> bp_max_secs p"
proof -
  have "nominal_loop p d n \<le> bp_max_secs p" for d n
    by (induction n arbitrary: d) (auto simp: Let_def)
  then show ?thesis by (simp add: nominal_delay_secs_def)
qed

lemma delay_secs_bounds:
  assumes "bp_max_secs p \<le> U64_MAX" and "nominal_delay_secs p attempt = N" and "0 < N"
  shows "1 \<le> delay_secs p attempt i" and "delay_secs p attempt i \<le> bp_max_secs p"
    and "N - max (N div 10) 1 \<le> delay_secs p attempt i"
    and "delay_secs p attempt i \<le> N + max (N div 10) 1"
proof -
  have N: "N \<le> bp_max_secs p" using nominal_delay_le_max [of p attempt] assms(2) by simp
  define spread where "spread = max (N div 10) 1"
  define lower where "lower = max (N - spread) 1"
  define upper where "upper = (if N \<ge> bp_max_secs p then N else min (sat_u64 (N + spread)) (max (bp_max_secs p) 1))"
  have up: "upper \<le> bp_max_secs p" "upper \<le> N + spread"
    using N assms(3) by (auto simp: upper_def sat_u64_def)
  have lo: "lower \<le> upper" "1 \<le> lower" "N - spread \<le> lower"
    using N assms(1,3) by (auto simp: lower_def upper_def spread_def sat_u64_def)
  define h where "h = unat (stable_hash i) mod (upper - lower + 1)"
  have "h < upper - lower + 1" unfolding h_def by simp
  then have h: "lower + h \<le> upper" using lo(1) by linarith
  have "delay_secs p attempt i = max (sat_u64 (lower + h)) 1"
    using assms(2,3) by (simp add: delay_secs_def Let_def spread_def lower_def upper_def h_def)
  moreover have "sat_u64 (lower + h) = lower + h"
    using h up(1) assms(1) by (simp add: sat_u64_def)
  ultimately have d: "delay_secs p attempt i = lower + h" using lo(2) by simp
  show "1 \<le> delay_secs p attempt i" "delay_secs p attempt i \<le> bp_max_secs p"
    "N - max (N div 10) 1 \<le> delay_secs p attempt i" "delay_secs p attempt i \<le> N + max (N div 10) 1"
    using d h up lo unfolding spread_def by linarith+
qed

section \<open>Recording a failure\<close>

lemma on_failure_frame [simp]:
  "qe_id (fst (on_failure p e now err code)) = qe_id e"
  "qe_kind (fst (on_failure p e now err code)) = qe_kind e"
  "qe_mail_from (fst (on_failure p e now err code)) = qe_mail_from e"
  "qe_recipients (fst (on_failure p e now err code)) = qe_recipients e"
  "qe_data (fst (on_failure p e now err code)) = qe_data e"
  "qe_attempts (fst (on_failure p e now err code)) = sat_u32 (qe_attempts e + 1)"
  "snd (on_failure p e now err code) = exhausted p (sat_u32 (qe_attempts e + 1))"
  "entry_ok (fst (on_failure p e now err code)) = entry_ok e"
  by (simp_all add: on_failure_def Let_def)

lemma wrap_i64_id: "int n \<le> I64_MAX \<Longrightarrow> wrap_i64 n = int n"
  by (simp add: wrap_i64_def)



end
