(* ===== verification/QueueClaims.thy ===== *)
theory QueueClaims
  imports QueueRefinement
begin

text \<open>
  Mutual exclusion through claim files (\<open>try_claim\<close>, \<open>release_claim\<close> and \<open>prune_claims\<close> of
  \<open>src/crates/queue/src/store.rs\<close>), for any number of runners that share the queue directory. Each
  operation runs under the lock of the claims directory, so the runners interleave operation by
  operation. A holder is a runner, an identifier and the time of its claim; a claim lives for
  \<open>CLAIM_TTL_SECONDS\<close>. A holder releases at the latest when its claim expires: the source deletes
  the claim file without looking at whose claim it is.
\<close>

type_synonym holder = "nat \<times> string \<times> int"

definition live :: "int \<Rightarrow> holder \<Rightarrow> bool" where
  "live now h \<longleftrightarrow> now - snd (snd h) < CLAIM_TTL_SECONDS"

inductive claim_step :: "fs \<times> int \<times> holder list \<Rightarrow> fs \<times> int \<times> holder list \<Rightarrow> bool" where
  time_passes: "now \<le> now' \<Longrightarrow> is_i64 now' \<Longrightarrow> claim_step (s, now, hs) (s, now', hs)"
| claim: "try_claim i now s = (t, Inr True) \<Longrightarrow> claim_step (s, now, hs) (t, now, (w, i, now) # hs)"
| refused: "try_claim i now s = (t, r) \<Longrightarrow> r \<noteq> Inr True \<Longrightarrow> claim_step (s, now, hs) (t, now, hs)"
| release: "h \<in> set hs \<Longrightarrow> live now h \<Longrightarrow> release_claim (fst (snd h)) s = (t, r) \<Longrightarrow>
    claim_step (s, now, hs) (t, now, remove1 h hs)"
| prune: "prune_claims now s = (t, r) \<Longrightarrow> claim_step (s, now, hs) (t, now, hs)"
| other: "same_files {p. fst p \<noteq> claims_dir} s t \<Longrightarrow> claim_step (s, now, hs) (t, now, hs)"

definition claim_text :: "int \<Rightarrow> string" where
  "claim_text at = int_to_string at @ [LF]"

definition claim_stored :: "fs \<Rightarrow> int \<Rightarrow> holder \<Rightarrow> bool" where
  "claim_stored s now h \<longleftrightarrow>
     is_safe_id (fst (snd h)) \<and> is_i64 (snd (snd h)) \<and> snd (snd h) \<le> now \<and>
     content_at s (claim_file (fst (snd h))) = Some (claim_text (snd (snd h)))"

definition claims_inv :: "fs \<times> int \<times> holder list \<Rightarrow> bool" where
  "claims_inv st \<longleftrightarrow>
     (case st of (s, now, hs) \<Rightarrow>
        faultless s \<and> is_i64 now \<and>
        (\<forall>h \<in> set hs. live now h \<longrightarrow> claim_stored s now h) \<and>
        distinct (map (fst \<circ> snd) (filter (live now) hs)))"

section \<open>Operations without faults\<close>

lemma faultless_tick: "faultless s \<Longrightarrow> fs_tick s = (s\<lparr>fs_ops := Suc (fs_ops s)\<rparr>, False)"
  by (simp add: fs_tick_def faultless_def)

lemma claim_text_parses: "is_i64 at \<Longrightarrow> valid_utf8 (claim_text at) \<and> parse_i64 (trim (claim_text at)) = Some at"
proof -
  assume at: "is_i64 at"
  have d: "is_ascii_digit c \<or> c = CHR ''-''" if "c \<in> set (int_to_string at)" for c
    using that nat_to_string_digits by (auto simp: int_to_string_def split: if_splits)
  have "ord c < 128 \<and> is_ascii_graphic c" if "c \<in> set (int_to_string at)" for c
    using d [OF that] by (auto simp: is_ascii_digit_def is_ascii_graphic_def)
  then have "list_all is_ascii_graphic (int_to_string at)" "\<And>c. c \<in> set (claim_text at) \<Longrightarrow> ord c < 128"
    by (auto simp: list_all_iff claim_text_def)
  moreover from this(2) have "valid_utf8 (claim_text at)" by (rule valid_utf8_ascii)
  ultimately show ?thesis
    using parse_i64_to_string [of at] at by (simp add: claim_text_def trim_graphic is_i64_def)
qed

text \<open>A claim that was written and has not expired is seen as fresh.\<close>

lemma claim_is_fresh_stored:
  assumes "faultless s" and "content_at s p = Some (claim_text at)" and "is_i64 at" and "claim_is_fresh p now s = (t, fresh)"
  shows "fresh \<longleftrightarrow> sat_i64 (now - at) < CLAIM_TTL_SECONDS"
proof -
  have "fs_read p s = (s\<lparr>fs_ops := Suc (fs_ops s)\<rparr>, Inr (claim_text at))"
    using assms(1,2) by (auto simp: fs_read_def fallible_def faultless_tick content_at_def)
  then show ?thesis using assms(4) claim_text_parses [OF assms(3)]
    by (auto simp: claim_is_fresh_def)
qed

lemma live_fresh:
  assumes "claim_stored s now h" and "live now h" and "is_i64 now" and "faultless s"
    and "claim_is_fresh (claim_file (fst (snd h))) now s = (t, fresh)"
  shows fresh
proof -
  have "sat_i64 (now - snd (snd h)) < CLAIM_TTL_SECONDS"
    using assms(1,2) by (auto simp: claim_stored_def live_def sat_i64_def CLAIM_TTL_SECONDS_def)
  then show ?thesis using claim_is_fresh_stored [OF assms(4) _ _ assms(5)] assms(1) by (simp add: claim_stored_def)
qed

definition claims_lock :: path where
  "claims_lock = (claims_dir, ''.claims.lock'')"

lemma claims_lock_not_claim: "claims_lock \<noteq> claim_file i"
proof
  assume "claims_lock = claim_file i"
  then have "rev ''.claims.lock'' = rev (i @ ''.claim'')" by (simp add: claims_lock_def claim_file_def)
  then show False by simp
qed

text \<open>Without faults the lock is taken and the body runs on a state with the same claims.\<close>

lemma with_claims_lock_runs:
  assumes "faultless s"
  shows "\<exists>s1. same_files {claims_lock} s s1 \<and> claims_dir \<in> set (fs_dirs s1) \<and> with_claims_lock f s = f s1"
proof -
  have "touches {claims_lock} (with_claims_lock (\<lambda>s. (s, Inr () :: queue_error + unit)))"
    unfolding with_claims_lock_def locked_with_def locked_lock_path_def
    by (intro touches_intros) (simp_all add: claims_lock_def touches_ops, simp add: touches_def)
  then have f: "same_files {claims_lock} s (fst (with_claims_lock (\<lambda>s. (s, Inr () :: queue_error + unit)) s))"
    by (simp add: touches_def)
  have "with_claims_lock f s = f (fst (with_claims_lock (\<lambda>s. (s, Inr () :: queue_error + unit)) s)) \<and>
        claims_dir \<in> set (fs_dirs (fst (with_claims_lock (\<lambda>s. (s, Inr () :: queue_error + unit)) s)))"
    using assms
    by (simp add: with_claims_lock_def locked_with_def locked_lock_path_def io_bind_def io_map_err_def create_dir_all_def
        open_lock_sidecar_def file_lock_acquire_def fs_sync_def fallible_def fs_tick_def faultless_def Let_def fs_put_def)
  with f show ?thesis by blast
qed

lemma claim_stored_same:
  assumes "same_files ps s t" and "claim_file (fst (snd h)) \<notin> ps" and "claim_stored s now h"
  shows "claim_stored t now h"
  using assms same_content [OF assms(1,2)] by (simp add: claim_stored_def)

text \<open>What a claim attempt does.\<close>

lemma try_claim_faultless:
  assumes nf: "faultless s" and now: "is_i64 now" and t: "try_claim i now s = (t, r)"
  shows "same_files {claims_lock, claim_file i} s t"
    and "\<And>w at. claim_stored s now (w, i, at) \<Longrightarrow> live now (w, i, at) \<Longrightarrow> r \<noteq> Inr True \<and> claim_stored t now (w, i, at)"
    and "r = Inr True \<Longrightarrow> is_safe_id i \<and> content_at t (claim_file i) = Some (claim_text now)"
proof -
  let ?p = "claim_file i"
  have "same_files {claims_lock, ?p} s t \<and>
     (\<forall>w at. claim_stored s now (w, i, at) \<longrightarrow> live now (w, i, at) \<longrightarrow> r \<noteq> Inr True \<and> claim_stored t now (w, i, at)) \<and>
     (r = Inr True \<longrightarrow> is_safe_id i \<and> content_at t ?p = Some (claim_text now))"
  proof (cases "is_safe_id i")
    case False
    then show ?thesis using t by (auto simp: try_claim_def claim_path_def claim_stored_def)
  next
    case safe: True
    from with_claims_lock_runs [OF nf] obtain s1 where s1: "same_files {claims_lock} s s1" "claims_dir \<in> set (fs_dirs s1)"
      "claim_body ?p now s1 = (t, r)"
      using t safe by (metis claim_path_def sum.simps(6) try_claim_def)
    have nf1: "faultless s1" using faultless_same [OF s1(1) nf] .
    have st1: "claim_stored s1 now h" if "claim_stored s now h" for h
      using claim_stored_same [OF s1(1) _ that] claims_lock_not_claim [of "fst (snd h)"] by simp
    obtain s2 fresh where 2: "claim_is_fresh ?p now s1 = (s2, fresh)" by (cases "claim_is_fresh ?p now s1")
    have f2: "same_files {} s1 s2" using touchesD [OF touches_claim_is_fresh 2] .
    have nf2: "faultless s2" using faultless_same [OF f2 nf1] .
    have "touches {?p} (claim_body ?p now)" by (rule touches_claim_body) simp
    from touchesD [OF this s1(3)] have "same_files {?p} s1 t" .
    then have all: "same_files {claims_lock, ?p} s t"
      using s1(1) same_files_mono [of "{?p}" s1 t "{claims_lock, ?p}"] same_files_mono [of "{claims_lock}" s s1 "{claims_lock, ?p}"]
        same_files_trans by blast
    have dir: "fst ?p \<in> set (fs_dirs s2)" using s1(2) f2 by (auto simp: same_files_def claim_file_def)
    show ?thesis
    proof (cases fresh)
      case True
      have "file_at s1 ?p \<noteq> None"
        using 2 True nf1
        by (auto simp: claim_is_fresh_def fs_read_def fs_modified_def fallible_def fs_tick_def faultless_def Let_def
            split: option.splits sum.splits)
      then have "file_at s2 ?p \<noteq> None" using same_filesD [OF f2] by simp
      then have "create_new ?p s2 = (s2\<lparr>fs_ops := Suc (fs_ops s2)\<rparr>, Inl AlreadyExists)"
        using nf2 dir by (auto simp: create_new_def fallible_def faultless_tick)
      with s1(3) 2 True have tr: "t = s2\<lparr>fs_ops := Suc (fs_ops s2)\<rparr>" "r = Inr False" by (auto simp: claim_body_def)
      have "same_files {} s2 t" unfolding tr(1) by (simp add: same_files_def)
      then have "same_files {} s1 t" using f2 same_files_trans by blast
      then have "claim_stored t now h" if "claim_stored s now h" for h
        using claim_stored_same [of "{}" s1 t] st1 [OF that] by simp
      then show ?thesis using all tr(2) by simp
    next
      case False
      have nolive: "\<not> (claim_stored s now (w, i, at) \<and> live now (w, i, at))" for w at
        using live_fresh [of s1 now "(w, i, at)" s2 fresh] st1 nf1 now 2 False by auto
      have "\<exists>s3. remove_if_present ?p s2 = (s3, Inr ()) \<and> file_at s3 ?p = None \<and> faultless s3 \<and> fst ?p \<in> set (fs_dirs s3)"
        using nf2 dir
        by (auto simp: remove_if_present_def remove_file_def fallible_def faultless_tick) (simp_all add: faultless_def fs_del_def)
      then obtain s3 where 3: "remove_if_present ?p s2 = (s3, Inr ())" "file_at s3 ?p = None" "faultless s3" "fst ?p \<in> set (fs_dirs s3)"
        by blast
      let ?s = "s3\<lparr>fs_ops := Suc (fs_ops s3)\<rparr>"
      let ?s4 = "fs_put ?p \<lparr>fl_content = [], fl_mtime = fs_clock ?s (fs_ops ?s)\<rparr> ?s"
      have "create_new ?p s3 = (?s4, Inr ())" using 3 by (simp add: create_new_def fallible_def faultless_tick)
      moreover have "faultless ?s4" using 3(3) by (simp add: faultless_def fs_put_def)
      ultimately obtain f s4 where 4: "create_new ?p s3 = (s4, Inr ())" "file_at s4 ?p = Some f" "fl_content f = []" "faultless s4"
        by (metis file_at_put fs_file.select_convs(1))
      have "content_at (io_drop (write_all ?p (claim_text now)) s4) ?p = Some (claim_text now)"
        using 4 by (auto simp: io_drop_def write_all_def faultless_tick content_at_def Let_def)
      moreover have "t = io_drop (write_all ?p (claim_text now)) s4" "r = Inr True"
        using s1(3) 2 False 3(1) 4(1) by (auto simp: claim_body_def claim_text_def)
      ultimately show ?thesis using all safe nolive by blast
    qed
  qed
  then show "same_files {claims_lock, claim_file i} s t"
    and "\<And>w at. claim_stored s now (w, i, at) \<Longrightarrow> live now (w, i, at) \<Longrightarrow> r \<noteq> Inr True \<and> claim_stored t now (w, i, at)"
    and "r = Inr True \<Longrightarrow> is_safe_id i \<and> content_at t (claim_file i) = Some (claim_text now)" by blast+
qed

text \<open>Releasing and pruning.\<close>

lemma release_claim_faultless:
  assumes "release_claim i s = (t, r)" and "faultless s"
  shows "same_files {claims_lock, claim_file i} s t"
proof (cases "is_safe_id i")
  case True
  from with_claims_lock_runs [OF assms(2)] obtain s1 where s1: "same_files {claims_lock} s s1" "remove_if_present (claim_file i) s1 = (t, r)"
    using assms(1) True by (metis claim_path_def release_claim_def sum.simps(6))
  have "same_files {claim_file i} s1 t"
    by (rule touchesD [where m = "remove_if_present (claim_file i)", OF _ s1(2)]) (simp add: touches_remove_if_present)
  then show ?thesis
    using s1(1) same_files_mono [of "{claim_file i}" s1 t "{claims_lock, claim_file i}"]
      same_files_mono [of "{claims_lock}" s s1 "{claims_lock, claim_file i}"] same_files_trans by blast
qed (use assms in \<open>simp add: release_claim_def claim_path_def\<close>)

lemma prune_loop_keeps:
  assumes "faultless s" and "is_i64 now" and "claim_stored s now h" and "live now h"
    and "prune_claims_loop now names n s = (t, k)"
  shows "claim_stored t now h \<and> faultless t"
  using assms
proof (induction names arbitrary: n s)
  case (Cons name names)
  let ?p = "(claims_dir, name)"
  obtain s1 fault where 1: "fs_tick s = (s1, fault)" by (cases "fs_tick s")
  obtain s2 fresh where 2: "claim_is_fresh ?p now s1 = (s2, fresh)" by (cases "claim_is_fresh ?p now s1")
  obtain s3 r where 3: "remove_file ?p s2 = (s3, r)" by (cases "remove_file ?p s2")
  have f1: "same_files {} s s1" using touchesD [OF touches_tick 1] .
  have f2: "same_files {} s s2" using f1 touchesD [OF touches_claim_is_fresh 2] same_files_trans by blast
  have "touches {?p} (remove_file ?p)" by (simp add: touches_ops)
  from touchesD [OF this 3] have f3: "same_files {?p} s2 s3" .
  have k1: "faultless s1 \<and> claim_stored s1 now h" and k2: "faultless s2 \<and> claim_stored s2 now h"
    using faultless_same [OF f1 Cons.prems(1)] claim_stored_same [OF f1 _ Cons.prems(3)]
      faultless_same [OF f2 Cons.prems(1)] claim_stored_same [OF f2 _ Cons.prems(3)] by simp_all
  have "fresh" if "?p = claim_file (fst (snd h))"
    using live_fresh [of s1 now h s2 fresh] k1 Cons.prems(2,4) 2 that by simp
  then have k3: "faultless s3 \<and> claim_stored s3 now h" if "\<not> fresh"
    using claim_stored_same [OF f3, of h now] faultless_same [OF f3] k2 that by (metis singletonD)
  have "prune_claims_loop now names n s1 = (t, k) \<or> prune_claims_loop now names n s2 = (t, k) \<or>
        (\<not> fresh \<and> (\<exists>m. prune_claims_loop now names m s3 = (t, k)))"
    using Cons.prems(5) 1 2 3 by (auto split: if_splits sum.splits)
  then show ?case using Cons.IH Cons.prems(2,4) k1 k2 k3 by blast
qed simp

lemma prune_claims_keeps:
  assumes "faultless s" and "is_i64 now" and "prune_claims now s = (t, r)"
  shows "faultless t" and "claim_stored s now h \<Longrightarrow> live now h \<Longrightarrow> claim_stored t now h"
proof -
  show "faultless t"
    using faultless_same [OF touchesD [OF touches_prune_claims assms(3)] assms(1)] .
  assume h: "claim_stored s now h" "live now h"
  let ?f = "prune_claims_body now"
  obtain s1 present where 1: "dir_exists claims_dir s = (s1, present)" by (cases "dir_exists claims_dir s")
  have f1: "same_files {} s s1" using touchesD [OF touches_query(1) 1] .
  have nf1: "faultless s1" and h1: "claim_stored s1 now h"
    using faultless_same [OF f1 assms(1)] claim_stored_same [OF f1 _ h(1)] by simp_all
  from with_claims_lock_runs [OF nf1, of ?f] obtain s2 where
    s2: "same_files {claims_lock} s1 s2" "with_claims_lock ?f s1 = ?f s2" by blast
  have nf2: "faultless s2" and h2: "claim_stored s2 now h"
    using faultless_same [OF s2(1) nf1] claim_stored_same [OF s2(1) _ h1] claims_lock_not_claim [of "fst (snd h)"] by simp_all
  obtain s3 names where 3: "read_dir claims_dir s2 = (s3, names)" by (cases "read_dir claims_dir s2")
  have f3: "same_files {} s2 s3" using touchesD [OF touches_ops(4) 3] .
  have nf3: "faultless s3" and h3: "claim_stored s3 now h"
    using faultless_same [OF f3 nf2] claim_stored_same [OF f3 _ h2] by simp_all
  have "claim_stored (fst (?f s2)) now h"
    using 3 h3 prune_loop_keeps [OF nf3 assms(2) h3 h(2) surjective_pairing]
    by (auto simp: prune_claims_body_def case_prod_unfold Let_def split: sum.splits)
  then show "claim_stored t now h"
    using assms(3) 1 s2(2) h1 by (auto simp: prune_claims_def dest: sym split: if_splits)
qed

section \<open>The invariant\<close>

lemma distinct_live_later:
  assumes "distinct (map (fst \<circ> snd) (filter (live now) hs))" and "now \<le> now'"
  shows "distinct (map (fst \<circ> snd) (filter (live now') hs))"
proof -
  have "filter (live now') hs = filter (live now') (filter (live now) hs)"
    using assms(2) by (auto simp: live_def intro!: filter_cong)
  also have "distinct (map (fst \<circ> snd) \<dots>)" using assms(1) by (rule distinct_map_filter)
  finally show ?thesis .
qed

lemma claim_step_inv: "claim_step st st' \<Longrightarrow> claims_inv st \<Longrightarrow> claims_inv st'"
proof (induction rule: claim_step.induct)
  case (time_passes now now' s hs)
  have l: "live now' h \<Longrightarrow> live now h" for h using time_passes(1) by (simp add: live_def)
  have "claim_stored s now h \<Longrightarrow> claim_stored s now' h" for h using time_passes(1) by (simp add: claim_stored_def)
  with l time_passes distinct_live_later [OF _ time_passes(1), of hs] show ?case
    by (simp add: claims_inv_def)
next
  case (claim i now s t hs w)
  have nf: "faultless s" and now: "is_i64 now" and st: "\<forall>h \<in> set hs. live now h \<longrightarrow> claim_stored s now h"
    and d: "distinct (map (fst \<circ> snd) (filter (live now) hs))" using claim.prems by (auto simp: claims_inv_def)
  note tc = try_claim_faultless [OF nf now claim(1)]
  have free: "fst (snd h) \<noteq> i" if "h \<in> set hs" "live now h" for h
    using tc(2) [of "fst h" "snd (snd h)"] st that by auto
  have "claim_stored t now h" if "h \<in> set hs" "live now h" for h
  proof -
    have "claim_file (fst (snd h)) \<notin> {claims_lock, claim_file i}"
      using free [OF that] claims_lock_not_claim [of "fst (snd h)"] by (auto simp: claim_file_def)
    from claim_stored_same [OF tc(1) this] st that show ?thesis by blast
  qed
  moreover have "claim_stored t now (w, i, now)" using tc(3) now by (simp add: claim_stored_def)
  ultimately show ?case
    using faultless_same [OF tc(1) nf] now d free [of "(a, i, b)" for a b] by (auto simp: claims_inv_def)
next
  case (refused i now s t r hs)
  have nf: "faultless s" and now: "is_i64 now" and st: "\<forall>h \<in> set hs. live now h \<longrightarrow> claim_stored s now h"
    using refused.prems by (auto simp: claims_inv_def)
  note tc = try_claim_faultless [OF nf now refused(1)]
  have "claim_stored t now h" if "h \<in> set hs" "live now h" for h
  proof (cases "fst (snd h) = i")
    case True
    then show ?thesis using tc(2) [of "fst h" "snd (snd h)"] st that by auto
  next
    case False
    then have "claim_file (fst (snd h)) \<notin> {claims_lock, claim_file i}"
      using claims_lock_not_claim [of "fst (snd h)"] by (auto simp: claim_file_def)
    from claim_stored_same [OF tc(1) this] st that show ?thesis by blast
  qed
  then show ?case using refused.prems faultless_same [OF tc(1) nf] by (auto simp: claims_inv_def)
next
  case (release h hs now s t r)
  have nf: "faultless s" and st: "\<forall>h \<in> set hs. live now h \<longrightarrow> claim_stored s now h"
    and d: "distinct (map (fst \<circ> snd) (filter (live now) hs))" using release.prems by (auto simp: claims_inv_def)
  have f: "same_files {claims_lock, claim_file (fst (snd h))} s t" using release_claim_faultless [OF release(3) nf] .
  have fl: "filter (live now) (remove1 h hs) = remove1 h (filter (live now) hs)"
    using release(2) by (simp add: filter_remove1)
  have dl: "distinct (filter (live now) hs)" using d by (simp add: distinct_map)
  have "fst (snd g) \<noteq> fst (snd h)" if "g \<in> set (remove1 h hs)" "live now g" for g
  proof -
    have "g \<in> set (remove1 h (filter (live now) hs))" using that by (simp flip: fl)
    then have "g \<in> set (filter (live now) hs)" "g \<noteq> h" using dl by (auto simp: set_remove1_eq)
    moreover have "inj_on (fst \<circ> snd) (set (filter (live now) hs))" using d unfolding distinct_map by blast
    moreover have "h \<in> set (filter (live now) hs)" using release(1,2) by simp
    ultimately show ?thesis unfolding inj_on_def o_def by blast
  qed
  then have "claim_stored t now g" if "g \<in> set (remove1 h hs)" "live now g" for g
    using that claim_stored_same [OF f, of g now] st claims_lock_not_claim [of "fst (snd g)"] set_remove1_subset [of h hs]
    by (auto simp: claim_file_def)
  moreover have "distinct (map (fst \<circ> snd) (filter (live now) (remove1 h hs)))"
    unfolding fl distinct_map using d dl by (auto simp: distinct_map elim: inj_on_subset)
  ultimately show ?case using release.prems faultless_same [OF f nf] by (simp add: claims_inv_def)
next
  case (prune now s t r hs)
  then show ?case using prune_claims_keeps [OF _ _ prune(1)] by (auto simp: claims_inv_def)
next
  case (other s t now hs)
  have "claim_stored s now h \<Longrightarrow> claim_stored t now h" for h
    by (rule claim_stored_same [OF other(1)]) (simp_all add: claim_file_def)
  then show ?case using other faultless_same [OF other(1)] by (auto simp: claims_inv_def)
qed

interpretation claims: step_invariant claim_step claims_inv
  by unfold_locales (rule claim_step_inv)



end
