(* ===== verification/Runner.thy ===== *)
theory Runner
  imports Lmtp Backoff QueueClaims
begin

text \<open>
  The queue runner (\<open>src/crates/queue/src/runner.rs\<close>). The record \<open>runner\<close> holds what does not change:
  the two transports, the configuration, the relay, and the outside world the code reads, the JSON
  library, the identifiers that \<open>new_id\<close> returns, the random generator, the clock. The record
  \<open>run_state\<close> holds what does: the file system, the world of the transports, the health record, the
  two flags, how many identifiers were drawn, and the log of delivery attempts and warnings.
  A round runs one task per claimed entry. Tasks interleave where the source awaits: a task is a
  record whose \<open>phase\<close> says where it is, \<open>task_step\<close> runs it to its next await, and the scheduler is
  an arbitrary choice among the tasks that can go on; the semaphore keeps the others waiting. The
  claims of a round are taken before its tasks start.
\<close>

section \<open>Configuration and health\<close>

definition DEFAULT_BLOCKED_THRESHOLD :: nat where "DEFAULT_BLOCKED_THRESHOLD = 10"

record queue_config =
  qc_relay_concurrency :: nat
  qc_backoff :: backoff_policy
  qc_reporting_mta :: string
  qc_managed_domains :: "string list"
  qc_blocked_threshold :: nat

definition queue_config_default :: queue_config where
  "queue_config_default =
     \<lparr>qc_relay_concurrency = 20, qc_backoff = backoff_policy_default, qc_reporting_mta = ''localhost'',
      qc_managed_domains = [], qc_blocked_threshold = DEFAULT_BLOCKED_THRESHOLD\<rparr>"

record outbound_health =
  oh_consecutive_failures :: nat
  oh_blocked :: bool
  oh_needs_relay :: bool
  oh_message :: string

definition outbound_health_from :: "nat \<Rightarrow> nat \<Rightarrow> string option \<Rightarrow> outbound_health" where
  "outbound_health_from failures blocked_threshold relay_host =
     (let threshold = max blocked_threshold 1;
          blocked = failures \<ge> threshold;
          needs_relay = (blocked \<and> relay_host = None);
          message =
            (if \<not> blocked then ''outbound delivery is healthy''
             else if needs_relay
             then ''Outbound port 25 is blocked ('' @ nat_to_string failures @
                  '' consecutive delivery failures); configure a relay (smarthost)''
             else ''Relay '' @ (case relay_host of Some h \<Rightarrow> h | None \<Rightarrow> []) @ '' is failing repeatedly ('' @ nat_to_string failures @
                  '' consecutive delivery failures); verify credentials and TLS mode'')
      in \<lparr>oh_consecutive_failures = failures, oh_blocked = blocked, oh_needs_relay = needs_relay, oh_message = message\<rparr>)"

record entry_outcome =
  eo_delivered :: nat
  eo_bounced :: nat
  eo_discarded :: nat
  eo_deferred :: nat
  eo_fast_failed :: bool

definition entry_outcome_default :: entry_outcome where
  "entry_outcome_default = \<lparr>eo_delivered = 0, eo_bounced = 0, eo_discarded = 0, eo_deferred = 0, eo_fast_failed = False\<rparr>"

definition eo_merge :: "entry_outcome \<Rightarrow> entry_outcome \<Rightarrow> entry_outcome" where
  "eo_merge o1 o2 =
     \<lparr>eo_delivered = eo_delivered o1 + eo_delivered o2, eo_bounced = eo_bounced o1 + eo_bounced o2,
      eo_discarded = eo_discarded o1 + eo_discarded o2, eo_deferred = eo_deferred o1 + eo_deferred o2,
      eo_fast_failed = (eo_fast_failed o1 \<or> eo_fast_failed o2)\<rparr>"

record pending_bounce =
  pb_failed :: "string list"
  pb_diagnostic :: string
  pb_code :: "nat option"

record queue_run_report =
  qr_considered :: nat
  qr_delivered :: nat
  qr_deferred :: nat
  qr_bounced :: nat
  qr_discarded :: nat
  qr_fast_failed :: bool
  qr_backlog :: nat
  qr_failed :: nat
  qr_relay_concurrency :: nat
  qr_outbound_health :: outbound_health

record queue_metrics =
  qm_backlog :: nat
  qm_relay_concurrency :: nat
  qm_outbound_health :: outbound_health

section \<open>The runner\<close>

record 'n runner =
  rn_json :: json
  rn_local :: "'n transport"
  rn_remote :: "'n transport"
  rn_config :: queue_config
  rn_relay :: "relay_endpoint option"
  rn_ids :: "nat \<Rightarrow> string"
  rn_stamp :: "int \<Rightarrow> string"
  rn_rng :: "nat \<Rightarrow> nat \<Rightarrow> nat \<Rightarrow> string"
  rn_date :: "nat \<Rightarrow> date_time"
  rn_iso :: "nat \<Rightarrow> string"

datatype run_event =
    Attempted string delivery_target "string list" delivery_result
  | Warned string

record 'n run_state =
  rs_fs :: fs
  rs_net :: 'n
  rs_health :: outbound_health_state
  rs_half_open_used :: bool
  rs_round_in_flight :: bool
  rs_drawn :: nat
  rs_log :: "run_event list"

definition health_default :: outbound_health_state where
  "health_default = \<lparr>hs_consecutive_failures = 0, hs_last_success_at = None, hs_last_failure = None\<rparr>"

text \<open>\<open>QueueRunner::new\<close>: the remote transport is wrapped in the signer and the health record loaded.\<close>

definition runner_new :: "'n runner \<Rightarrow> (string \<Rightarrow> signing_outcome) \<Rightarrow> fs \<Rightarrow> 'n \<Rightarrow> 'n runner \<times> 'n run_state" where
  "runner_new R sign s n =
     (let (s, health) = load_health (rn_json R) s
      in (R\<lparr>rn_remote := signing_deliver (rn_remote R) sign\<rparr>,
          \<lparr>rs_fs = s, rs_net = n, rs_health = (case health of Some h \<Rightarrow> h | None \<Rightarrow> health_default),
           rs_half_open_used = False, rs_round_in_flight = False, rs_drawn = 0, rs_log = []\<rparr>))"

definition log_event :: "run_event \<Rightarrow> 'n run_state \<Rightarrow> 'n run_state" where
  "log_event ev st = st\<lparr>rs_log := rs_log st @ [ev]\<rparr>"

text \<open>An operation of the store, and one whose error is only warned about.\<close>

definition on_store :: "('e, 'a) io \<Rightarrow> 'n run_state \<Rightarrow> 'n run_state \<times> ('e, 'a) result" where
  "on_store m st = (let (s, r) = m (rs_fs st) in (st\<lparr>rs_fs := s\<rparr>, r))"

definition warn_on_error :: "string \<Rightarrow> ('e, 'a) io \<Rightarrow> 'n run_state \<Rightarrow> 'n run_state" where
  "warn_on_error topic m st =
     (case on_store m st of (st, Inl _) \<Rightarrow> log_event (Warned topic) st | (st, Inr _) \<Rightarrow> st)"

definition outbound_route_of :: "'n runner \<Rightarrow> outbound_route" where
  "outbound_route_of R = select_outbound_route (rn_relay R)"

definition outbound_health :: "'n runner \<Rightarrow> 'n run_state \<Rightarrow> outbound_health" where
  "outbound_health R st =
     outbound_health_from (hs_consecutive_failures (rs_health st)) (qc_blocked_threshold (rn_config R))
       (map_option relayhost (rn_relay R))"

definition metrics_snapshot :: "'n runner \<Rightarrow> 'n run_state \<Rightarrow> 'n run_state \<times> queue_metrics" where
  "metrics_snapshot R st =
     (let (st, backlog) = on_store store_len st
      in (st, \<lparr>qm_backlog = (case backlog of Inr n \<Rightarrow> n | Inl _ \<Rightarrow> 0),
               qm_relay_concurrency = max (qc_relay_concurrency (rn_config R)) 1,
               qm_outbound_health = outbound_health R st\<rparr>))"

section \<open>Recipients\<close>

definition is_local :: "relay_policy \<Rightarrow> string \<Rightarrow> bool" where
  "is_local policy recipient =
     is_managed policy (case rsplit_once (CHR ''@'') recipient of Some (_, domain) \<Rightarrow> domain | None \<Rightarrow> [])"

definition partition_recipients :: "relay_policy \<Rightarrow> queue_entry \<Rightarrow> string list \<times> string list" where
  "partition_recipients policy entry =
     (filter (is_local policy) (qe_recipients entry), filter (\<lambda>r. \<not> is_local policy r) (qe_recipients entry))"

definition remove_recipients :: "queue_entry \<Rightarrow> string list \<Rightarrow> queue_entry" where
  "remove_recipients entry gone = entry\<lparr>qe_recipients := filter (\<lambda>r. r \<notin> set gone) (qe_recipients entry)\<rparr>"

section \<open>Outbound health\<close>

definition record_remote_success :: "'n runner \<Rightarrow> 'n run_state \<Rightarrow> 'n run_state" where
  "record_remote_success R st =
     st\<lparr>rs_health := \<lparr>hs_consecutive_failures = 0, hs_last_success_at = Some (rn_iso R (length (rs_log st))), hs_last_failure = None\<rparr>\<rparr>"

definition record_remote_failure :: "delivery_failure \<Rightarrow> 'n run_state \<Rightarrow> 'n run_state" where
  "record_remote_failure failure st =
     (if df_local_fault failure then st
      else if df_class failure \<noteq> Transient then st
      else st\<lparr>rs_health := (rs_health st)\<lparr>hs_consecutive_failures := sat_u32 (hs_consecutive_failures (rs_health st) + 1),
                                         hs_last_failure := Some (df_message failure)\<rparr>\<rparr>)"

definition may_attempt_remote :: "'n runner \<Rightarrow> 'n run_state \<Rightarrow> 'n run_state \<times> bool" where
  "may_attempt_remote R st =
     (if hs_consecutive_failures (rs_health st) < max (qc_blocked_threshold (rn_config R)) 1 then (st, True)
      else (st\<lparr>rs_half_open_used := True\<rparr>, \<not> rs_half_open_used st))"

section \<open>Failures and bounces\<close>

record progress =
  pr_entry :: queue_entry
  pr_outcome :: entry_outcome
  pr_pending :: "pending_bounce list"

definition apply_failure :: "queue_config \<Rightarrow> string list \<Rightarrow> delivery_failure \<Rightarrow> int \<Rightarrow> progress \<Rightarrow> progress" where
  "apply_failure cfg attempted failure now p =
     (let accepted = df_accepted failure;
          p = (if accepted \<noteq> []
               then p\<lparr>pr_outcome := (pr_outcome p)\<lparr>eo_delivered := eo_delivered (pr_outcome p) + length accepted\<rparr>,
                      pr_entry := remove_recipients (pr_entry p) accepted\<rparr>
               else p);
          failed = filter (\<lambda>r. r \<notin> set accepted) attempted;
          bounce_them = (\<lambda>p. p\<lparr>pr_entry := remove_recipients (pr_entry p) failed,
                               pr_pending := pr_pending p @ [\<lparr>pb_failed = failed, pb_diagnostic = df_message failure, pb_code = df_code failure\<rparr>]\<rparr>)
      in if failed = [] then p
         else
           (case df_class failure of
              Permanent \<Rightarrow> bounce_them p
            | Transient \<Rightarrow>
                (let (entry, spent) = on_failure (qc_backoff cfg) (pr_entry p) now (Some (df_message failure)) (df_code failure);
                     p = p\<lparr>pr_entry := entry\<rparr>
                 in if spent then bounce_them p
                    else p\<lparr>pr_outcome := (pr_outcome p)\<lparr>eo_deferred := eo_deferred (pr_outcome p) + 1\<rparr>\<rparr>)))"

text \<open>
  A bounce sets the next six identifiers aside: one for \<open>QueueEntry::new\<close> and one for each further
  attempt of \<open>enqueue_new\<close>. A report whose boundary search does not end is an error here; in the
  source it does not return.
\<close>

definition bounce ::
  "'n runner \<Rightarrow> queue_entry \<Rightarrow> string list \<Rightarrow> string \<Rightarrow> nat option \<Rightarrow> int \<Rightarrow> 'n run_state \<Rightarrow> 'n run_state \<times> (queue_error, bool) result" where
  "bounce R entry failed diagnostic code now st =
     (if qe_kind entry = Bounce \<or> is_null_sender entry then (st, Inr False)
      else
        (case dsn_recipient entry of
           None \<Rightarrow> (st, Inr False)
         | Some recipient \<Rightarrow>
             (let k = rs_drawn st;
                  request = \<lparr>dr_reporting_mta = qc_reporting_mta (rn_config R), dr_original = entry,
                             dr_failed_recipients = failed, dr_diagnostic = diagnostic, dr_status_code = code\<rparr>;
                  st = st\<lparr>rs_drawn := k + 6\<rparr>
              in case build_dsn (rn_rng R k) (rn_date R k) request of
                   None \<Rightarrow> (st, Inl QueueStorage)
                 | Some message \<Rightarrow>
                     (case entry_new (rn_stamp R) (rn_ids R k) Bounce dsn_envelope_from [recipient] message now of
                        Inl e \<Rightarrow> (st, Inl e)
                      | Inr dsn \<Rightarrow>
                          (let (s, _, r) = enqueue_new (rn_json R) (\<lambda>n. rn_ids R (k + (5 - n))) dsn (rs_fs st);
                               st = st\<lparr>rs_fs := s\<rparr>
                           in case r of Inl e \<Rightarrow> (st, Inl e) | Inr _ \<Rightarrow> (st, Inr True))))))"

definition put_back :: "queue_entry \<Rightarrow> string list \<Rightarrow> queue_entry" where
  "put_back entry failed =
     entry\<lparr>qe_recipients := foldl (\<lambda>rs r. if r \<in> set rs then rs else rs @ [r]) (qe_recipients entry) failed\<rparr>"

fun flush_loop ::
  "'n runner \<Rightarrow> int \<Rightarrow> pending_bounce list \<Rightarrow> queue_entry \<Rightarrow> entry_outcome \<Rightarrow> queue_error option \<Rightarrow> 'n run_state \<Rightarrow>
   'n run_state \<times> queue_entry \<times> entry_outcome \<times> queue_error option" where
  "flush_loop R now [] entry outcome first_error st = (st, entry, outcome, first_error)"
| "flush_loop R now (b # bs) entry outcome first_error st =
     (case bounce R entry (pb_failed b) (pb_diagnostic b) (pb_code b) now st of
        (st, Inr True) \<Rightarrow>
          flush_loop R now bs entry (outcome\<lparr>eo_bounced := eo_bounced outcome + length (pb_failed b)\<rparr>) first_error st
      | (st, Inr False) \<Rightarrow>
          flush_loop R now bs entry (outcome\<lparr>eo_discarded := eo_discarded outcome + length (pb_failed b)\<rparr>) first_error st
      | (st, Inl e) \<Rightarrow>
          flush_loop R now bs (put_back entry (pb_failed b)) outcome (first_some first_error (Some e)) st)"

definition persist_best_effort :: "'n runner \<Rightarrow> queue_entry \<Rightarrow> 'n run_state \<Rightarrow> 'n run_state" where
  "persist_best_effort R entry = warn_on_error ''queue entry write-back'' (enqueue (rn_json R) entry)"

definition flush_bounces :: "'n runner \<Rightarrow> int \<Rightarrow> progress \<Rightarrow> 'n run_state \<Rightarrow> 'n run_state \<times> (queue_error, entry_outcome) result" where
  "flush_bounces R now p st =
     (let (st, entry, outcome, first_error) = flush_loop R now (pr_pending p) (pr_entry p) (pr_outcome p) None st
      in case first_error of
           Some e \<Rightarrow> (persist_best_effort R entry st, Inl e)
         | None \<Rightarrow> (st, Inr outcome))"


section \<open>Tasks\<close>

datatype task_phase = Waiting | AtLocal | AtGate | AtRemote | AtFinish | Done "(queue_error, entry_outcome) result"

record task =
  tk_progress :: progress
  tk_local :: "string list"
  tk_remote :: "string list"
  tk_mutated :: bool
  tk_phase :: task_phase

definition task_new :: "relay_policy \<Rightarrow> queue_entry \<Rightarrow> task" where
  "task_new policy entry =
     \<lparr>tk_progress = \<lparr>pr_entry = entry, pr_outcome = entry_outcome_default, pr_pending = []\<rparr>,
      tk_local = fst (partition_recipients policy entry), tk_remote = snd (partition_recipients policy entry),
      tk_mutated = False, tk_phase = Waiting\<rparr>"

definition tk_id :: "task \<Rightarrow> string" where
  "tk_id t = qe_id (pr_entry (tk_progress t))"

text \<open>Leaving \<open>process\<close>: the guard gives the claim back.\<close>

definition finish_task :: "task \<Rightarrow> (queue_error, entry_outcome) result \<Rightarrow> 'n run_state \<Rightarrow> task \<times> 'n run_state" where
  "finish_task t r st = (t\<lparr>tk_phase := Done r\<rparr>, warn_on_error ''release queue claim'' (release_claim (tk_id t)) st)"

definition mark_delivered :: "string list \<Rightarrow> nat \<Rightarrow> progress \<Rightarrow> progress" where
  "mark_delivered recipients n p =
     p\<lparr>pr_outcome := (pr_outcome p)\<lparr>eo_delivered := eo_delivered (pr_outcome p) + n\<rparr>,
       pr_entry := (remove_recipients (pr_entry p) recipients)\<lparr>qe_last_error := None, qe_last_code := None\<rparr>\<rparr>"

definition attempt ::
  "'n transport \<Rightarrow> delivery_target \<Rightarrow> string list \<Rightarrow> task \<Rightarrow> 'n run_state \<Rightarrow> 'n run_state \<times> delivery_result" where
  "attempt deliver target recipients t st =
     (let (n, r) = deliver (pr_entry (tk_progress t)) target recipients (rs_net st)
      in (log_event (Attempted (tk_id t) target recipients r) (st\<lparr>rs_net := n\<rparr>), r))"

definition task_local :: "'n runner \<Rightarrow> int \<Rightarrow> task \<Rightarrow> 'n run_state \<Rightarrow> task \<times> 'n run_state" where
  "task_local R now t st =
     (if tk_local t = [] then (t\<lparr>tk_phase := AtGate\<rparr>, st)
      else
        (case attempt (rn_local R) LocalTarget (tk_local t) t st of
           (st, Inr receipt) \<Rightarrow>
             if receipt_accepted receipt \<noteq> length (tk_local t)
             then finish_task t (Inl (QueueInvalid (AcceptedMismatch (receipt_accepted receipt) (length (tk_local t))))) st
             else (t\<lparr>tk_progress := mark_delivered (tk_local t) (receipt_accepted receipt) (tk_progress t),
                     tk_mutated := True, tk_phase := AtGate\<rparr>, st)
         | (st, Inl failure) \<Rightarrow>
             (t\<lparr>tk_progress := apply_failure (rn_config R) (tk_local t) failure now (tk_progress t),
                tk_mutated := True, tk_phase := AtGate\<rparr>, st)))"

definition task_gate :: "'n runner \<Rightarrow> task \<Rightarrow> 'n run_state \<Rightarrow> task \<times> 'n run_state" where
  "task_gate R t st =
     (if tk_remote t = [] then (t\<lparr>tk_phase := AtFinish\<rparr>, st)
      else
        (let (st, go) = may_attempt_remote R st; p = tk_progress t in
         if go then (t\<lparr>tk_phase := AtRemote\<rparr>, st)
         else (t\<lparr>tk_progress := p\<lparr>pr_outcome := (pr_outcome p)\<lparr>eo_fast_failed := True, eo_deferred := eo_deferred (pr_outcome p) + 1\<rparr>\<rparr>,
                 tk_phase := AtFinish\<rparr>, st)))"

definition remote_mismatch :: "'n runner \<Rightarrow> int \<Rightarrow> task \<Rightarrow> delivery_receipt \<Rightarrow> 'n run_state \<Rightarrow> task \<times> 'n run_state" where
  "remote_mismatch R now t receipt st =
     (let st = (if tk_mutated t then persist_best_effort R (pr_entry (tk_progress t)) st else st);
          st = (if pr_pending (tk_progress t) = [] then st
                else (case flush_bounces R now (tk_progress t) st of
                        (st, Inl _) \<Rightarrow> log_event (Warned ''queue bounce write-back'') st
                      | (st, Inr _) \<Rightarrow> st))
      in finish_task t (Inl (QueueInvalid (AcceptedMismatch (receipt_accepted receipt) (length (tk_remote t))))) st)"

definition task_remote :: "'n runner \<Rightarrow> int \<Rightarrow> task \<Rightarrow> 'n run_state \<Rightarrow> task \<times> 'n run_state" where
  "task_remote R now t st =
     (case attempt (rn_remote R) (RemoteTarget (outbound_route_of R)) (tk_remote t) t st of
        (st, Inr receipt) \<Rightarrow>
          if receipt_accepted receipt \<noteq> length (tk_remote t) then remote_mismatch R now t receipt st
          else (t\<lparr>tk_progress := mark_delivered (tk_remote t) (receipt_accepted receipt) (tk_progress t),
                  tk_mutated := True, tk_phase := AtFinish\<rparr>, record_remote_success R st)
      | (st, Inl failure) \<Rightarrow>
          (t\<lparr>tk_progress := apply_failure (rn_config R) (tk_remote t) failure now (tk_progress t),
             tk_mutated := True, tk_phase := AtFinish\<rparr>, record_remote_failure failure st))"

definition write_entry :: "'n runner \<Rightarrow> task \<Rightarrow> 'n run_state \<Rightarrow> 'n run_state \<times> (queue_error, unit) result" where
  "write_entry R t st =
     (let entry = pr_entry (tk_progress t) in
      if qe_recipients entry = [] then
        (case on_store (store_remove (qe_id entry)) st of (st, Inl e) \<Rightarrow> (st, Inl e) | (st, Inr _) \<Rightarrow> (st, Inr ()))
      else if tk_mutated t then
        (case entry_validate entry of Inl e \<Rightarrow> (st, Inl e) | Inr _ \<Rightarrow> on_store (enqueue (rn_json R) entry) st)
      else (st, Inr ()))"

definition task_finish :: "'n runner \<Rightarrow> int \<Rightarrow> task \<Rightarrow> 'n run_state \<Rightarrow> task \<times> 'n run_state" where
  "task_finish R now t st =
     (case write_entry R t st of
        (st, Inl e) \<Rightarrow> finish_task t (Inl e) st
      | (st, Inr _) \<Rightarrow> (let (st, r) = flush_bounces R now (tk_progress t) st in finish_task t r st))"

definition task_step :: "'n runner \<Rightarrow> int \<Rightarrow> task \<Rightarrow> 'n run_state \<Rightarrow> task \<times> 'n run_state" where
  "task_step R now t st =
     (case tk_phase t of
        Waiting \<Rightarrow> (t\<lparr>tk_phase := AtLocal\<rparr>, st)
      | AtLocal \<Rightarrow> task_local R now t st
      | AtGate \<Rightarrow> task_gate R t st
      | AtRemote \<Rightarrow> task_remote R now t st
      | AtFinish \<Rightarrow> task_finish R now t st
      | Done _ \<Rightarrow> (t, st))"

text \<open>\<open>process\<close> without other tasks in between.\<close>

definition process :: "'n runner \<Rightarrow> int \<Rightarrow> relay_policy \<Rightarrow> queue_entry \<Rightarrow> 'n run_state \<Rightarrow> task \<times> 'n run_state" where
  "process R now policy entry st =
     ((\<lambda>(t, st). task_step R now t st) ^^ 5) (task_new policy entry, st)"

section \<open>A round\<close>

definition holds_permit :: "task \<Rightarrow> bool" where
  "holds_permit t \<longleftrightarrow> (case tk_phase t of Waiting \<Rightarrow> False | Done _ \<Rightarrow> False | _ \<Rightarrow> True)"

definition runnable :: "nat \<Rightarrow> task list \<Rightarrow> task \<Rightarrow> bool" where
  "runnable permits ts t \<longleftrightarrow>
     (case tk_phase t of
        Done _ \<Rightarrow> False
      | Waiting \<Rightarrow> length (filter holds_permit ts) < permits
      | _ \<Rightarrow> True)"

definition runnable_tasks :: "nat \<Rightarrow> task list \<Rightarrow> nat list" where
  "runnable_tasks permits ts = filter (\<lambda>i. runnable permits ts (ts ! i)) [0..<length ts]"

fun steps_left :: "task_phase \<Rightarrow> nat" where
  "steps_left Waiting = 5"
| "steps_left AtLocal = 4"
| "steps_left AtGate = 3"
| "steps_left AtRemote = 2"
| "steps_left AtFinish = 1"
| "steps_left (Done _) = 0"

definition work_left :: "task list \<Rightarrow> nat" where
  "work_left ts = sum_list (map (steps_left \<circ> tk_phase) ts)"

lemma tk_phase_finish [simp]: "tk_phase (fst (finish_task t r st)) = Done r"
  by (simp add: finish_task_def)

lemma task_local_phase: "steps_left (tk_phase (fst (task_local R now t st))) \<le> 3"
  by (simp add: task_local_def split: prod.splits sum.splits)

lemma task_gate_phase: "steps_left (tk_phase (fst (task_gate R t st))) \<le> 2"
  by (simp add: task_gate_def Let_def split: prod.splits)

lemma task_remote_phase: "steps_left (tk_phase (fst (task_remote R now t st))) \<le> 1"
  by (simp add: task_remote_def remote_mismatch_def Let_def split: prod.splits sum.splits)

lemma task_finish_phase: "steps_left (tk_phase (fst (task_finish R now t st))) = 0"
  by (simp add: task_finish_def Let_def split: prod.splits sum.splits)

lemma task_step_progresses:
  "(\<forall>r. tk_phase t \<noteq> Done r) \<Longrightarrow> steps_left (tk_phase (fst (task_step R now t st))) < steps_left (tk_phase t)"
  using task_local_phase [of R now t st] task_gate_phase [of R t st] task_remote_phase [of R now t st] task_finish_phase [of R now t st]
  by (cases "tk_phase t") (simp_all add: task_step_def)

lemma work_left_update:
  "i < length ts \<Longrightarrow> steps_left (tk_phase t) < steps_left (tk_phase (ts ! i)) \<Longrightarrow> work_left (ts[i := t]) < work_left ts"
  unfolding work_left_def by (induction ts arbitrary: i) (auto simp: nth_Cons' split: nat.splits)

lemma runnable_tasks_member: "i \<in> set (runnable_tasks permits ts) \<longleftrightarrow> i < length ts \<and> runnable permits ts (ts ! i)"
  by (auto simp: runnable_tasks_def)

lemma run_tasks_step:
  assumes "i \<in> set (runnable_tasks permits ts)" and "task_step R now (ts ! i) st = (t, st')"
  shows "i < length ts" and "work_left (ts[i := t]) < work_left ts"
proof -
  show i: "i < length ts" using assms(1) by (simp add: runnable_tasks_member)
  have "\<forall>r. tk_phase (ts ! i) \<noteq> Done r" using assms(1) by (auto simp: runnable_tasks_member runnable_def)
  then have "steps_left (tk_phase t) < steps_left (tk_phase (ts ! i))"
    using task_step_progresses [of "ts ! i" R now st] assms(2) by simp
  then show "work_left (ts[i := t]) < work_left ts" using work_left_update i by blast
qed

text \<open>The scheduler \<open>pick\<close> chooses among the tasks that can go on, by the number of steps made.\<close>

function run_tasks :: "'n runner \<Rightarrow> int \<Rightarrow> nat \<Rightarrow> (nat \<Rightarrow> nat) \<Rightarrow> nat \<Rightarrow> task list \<Rightarrow> 'n run_state \<Rightarrow> task list \<times> 'n run_state" where
  "run_tasks R now permits pick k ts st =
     (let ready = runnable_tasks permits ts in
      if ready = [] then (ts, st)
      else
        (let i = ready ! (pick k mod length ready); (t, st) = task_step R now (ts ! i) st
         in run_tasks R now permits pick (Suc k) (ts[i := t]) st))"
  by auto
termination
proof (relation "measure (\<lambda>(R, now, permits, pick, k, ts, st). work_left ts)")
  fix R :: "'n runner" and now :: int and permits :: nat and pick :: "nat \<Rightarrow> nat" and k :: nat and ts and st x :: "'n run_state" and ready i p t
  assume a: "ready = runnable_tasks permits ts" "ready \<noteq> []" "i = ready ! (pick k mod length ready)"
    "p = task_step R now (ts ! i) st" "(t, x) = p"
  have "i \<in> set (runnable_tasks permits ts)" using a(1-3) by simp
  moreover have "task_step R now (ts ! i) st = (t, x)" using a(4,5) by simp
  ultimately show "((R, now, permits, pick, Suc k, ts[i := t], x), (R, now, permits, pick, k, ts, st)) \<in>
      measure (\<lambda>(R, now, permits, pick, k, ts, st). work_left ts)" using run_tasks_step(2) by fastforce
qed simp

declare run_tasks.simps [simp del]

lemma run_tasks_idle: "runnable_tasks permits (fst (run_tasks R now permits pick k ts st)) = []"
proof (induction R now permits pick k ts st rule: run_tasks.induct)
  case (1 R now permits pick k ts st)
  let ?ready = "runnable_tasks permits ts"
  show ?case
  proof (cases "?ready = []")
    case True
    then show ?thesis by (subst run_tasks.simps) (simp add: Let_def)
  next
    case False
    obtain t st1 where step: "task_step R now (ts ! (?ready ! (pick k mod length ?ready))) st = (t, st1)"
      by (cases "task_step R now (ts ! (?ready ! (pick k mod length ?ready))) st")
    from 1 [OF refl False refl step [symmetric] refl] show ?thesis
      using False step by (subst run_tasks.simps) (simp add: Let_def)
  qed
qed

text \<open>With a permit to give, only finished tasks cannot go on.\<close>

lemma idle_done:
  assumes "runnable_tasks permits ts = []" and "0 < permits" and "t \<in> set ts"
  shows "\<exists>r. tk_phase t = Done r"
proof (rule ccontr)
  assume t: "\<not> ?thesis"
  have no: "\<not> runnable permits ts x" if "x \<in> set ts" for x
    using assms(1) that by (auto simp: runnable_tasks_def filter_empty_conv in_set_conv_nth)
  have "holds_permit x \<Longrightarrow> runnable permits ts x" for x
    by (auto simp: runnable_def holds_permit_def split: task_phase.splits)
  then have "filter holds_permit ts = []" using no by (auto simp: filter_empty_conv)
  then show False using no [OF assms(3)] t assms(2) by (auto simp: runnable_def split: task_phase.splits)
qed

text \<open>The steps of a round as a relation, for statements about every state on the way.\<close>

inductive round_step :: "'n runner \<Rightarrow> int \<Rightarrow> nat \<Rightarrow> task list \<times> 'n run_state \<Rightarrow> task list \<times> 'n run_state \<Rightarrow> bool"
  for R now permits where
  advance: "i \<in> set (runnable_tasks permits ts) \<Longrightarrow> task_step R now (ts ! i) st = (t, st') \<Longrightarrow>
    round_step R now permits (ts, st) (ts[i := t], st')"

inductive_cases round_stepE: "round_step R now permits (ts, st) (ts', st')"

lemma run_tasks_steps: "(round_step R now permits)\<^sup>*\<^sup>* (ts, st) (run_tasks R now permits pick k ts st)"
proof (induction R now permits pick k ts st rule: run_tasks.induct)
  case (1 R now permits pick k ts st)
  let ?ready = "runnable_tasks permits ts"
  show ?case
  proof (cases "?ready = []")
    case True
    then show ?thesis by (subst run_tasks.simps) (simp add: Let_def)
  next
    case False
    let ?i = "?ready ! (pick k mod length ?ready)"
    obtain t st1 where step: "task_step R now (ts ! ?i) st = (t, st1)" by (cases "task_step R now (ts ! ?i) st")
    have "?i \<in> set ?ready" using False by simp
    from advance [OF this step] 1 [OF refl False refl step [symmetric] refl] show ?thesis
      using False step by (subst run_tasks.simps) (simp add: Let_def converse_rtranclp_into_rtranclp)
  qed
qed

text \<open>Claiming: the tasks started and the number of claims that failed.\<close>

fun claim_loop :: "int \<Rightarrow> relay_policy \<Rightarrow> queue_entry list \<Rightarrow> task list \<Rightarrow> nat \<Rightarrow> 'n run_state \<Rightarrow> task list \<times> nat \<times> 'n run_state" where
  "claim_loop now policy [] ts failed st = (ts, failed, st)"
| "claim_loop now policy (e # es) ts failed st =
     (case on_store (try_claim (qe_id e) now) st of
        (st, Inr True) \<Rightarrow> claim_loop now policy es (ts @ [task_new policy e]) failed st
      | (st, Inr False) \<Rightarrow> claim_loop now policy es ts failed st
      | (st, Inl _) \<Rightarrow> claim_loop now policy es ts (failed + 1) (log_event (Warned ''queue claim'') st))"

definition load_round :: "'n runner \<Rightarrow> int \<Rightarrow> (queue_error, queue_entry list \<times> string list) io" where
  "load_round R now =
     io_bind (prune_claims now) (\<lambda>_.
     io_bind (claimed_ids now) (\<lambda>claimed.
     io_bind (load_due (rn_json R) now) (\<lambda>entries. io_return (entries, claimed))))"

fun join_results :: "task list \<Rightarrow> nat \<Rightarrow> nat \<Rightarrow> entry_outcome \<Rightarrow> nat \<times> nat \<times> entry_outcome" where
  "join_results [] considered failed totals = (considered, failed, totals)"
| "join_results (t # ts) considered failed totals =
     (case tk_phase t of
        Done (Inr outcome) \<Rightarrow> join_results ts (considered + 1) failed (eo_merge totals outcome)
      | _ \<Rightarrow> join_results ts considered (failed + 1) totals)"

definition task_failed :: "task \<Rightarrow> bool" where
  "task_failed t \<longleftrightarrow> (case tk_phase t of Done (Inl _) \<Rightarrow> True | _ \<Rightarrow> False)"

definition warn_failures :: "task list \<Rightarrow> 'n run_state \<Rightarrow> 'n run_state" where
  "warn_failures ts st =
     foldl (\<lambda>st t. if task_failed t then log_event (Warned ''queue entry processing'') st else st) st ts"

definition round_report :: "'n runner \<Rightarrow> task list \<Rightarrow> nat \<Rightarrow> nat \<Rightarrow> 'n run_state \<Rightarrow> queue_run_report" where
  "round_report R ts failed backlog st =
     (let (considered, failed, totals) = join_results ts 0 failed entry_outcome_default
      in \<lparr>qr_considered = considered, qr_delivered = eo_delivered totals, qr_deferred = eo_deferred totals,
          qr_bounced = eo_bounced totals, qr_discarded = eo_discarded totals, qr_fast_failed = eo_fast_failed totals,
          qr_backlog = backlog, qr_failed = failed, qr_relay_concurrency = max (qc_relay_concurrency (rn_config R)) 1,
          qr_outbound_health = outbound_health R st\<rparr>)"

definition round_tasks :: "'n runner \<Rightarrow> int \<Rightarrow> (nat \<Rightarrow> nat) \<Rightarrow> queue_entry list \<Rightarrow> 'n run_state \<Rightarrow> task list \<times> nat \<times> 'n run_state" where
  "round_tasks R now pick due st =
     (let policy = relay_policy_new (qc_managed_domains (rn_config R));
          (ts, failed, st) = claim_loop now policy due [] 0 st;
          (ts, st) = run_tasks R now (max (qc_relay_concurrency (rn_config R)) 1) pick 0 ts st
      in (ts, failed, warn_failures ts st))"

definition round_body :: "'n runner \<Rightarrow> int \<Rightarrow> (nat \<Rightarrow> nat) \<Rightarrow> 'n run_state \<Rightarrow> 'n run_state \<times> (queue_error, queue_run_report) result" where
  "round_body R now pick st =
     (case on_store (load_round R now) st of
        (st, Inl e) \<Rightarrow> (st, Inl e)
      | (st, Inr (entries, claimed)) \<Rightarrow>
          (let due = filter (\<lambda>e. is_due e now \<and> qe_id e \<notin> set claimed) entries;
               (ts, failed, st) = round_tasks R now pick due st
           in case on_store (save_health (rn_json R) (rs_health st)) st of
                (st, Inl e) \<Rightarrow> (st, Inl e)
              | (st, Inr _) \<Rightarrow>
                  (case on_store store_len (if list_ex task_failed ts then log_event (Warned ''queue run had failures'') st else st) of
                     (st, Inl e) \<Rightarrow> (st, Inl e)
                   | (st, Inr backlog) \<Rightarrow> (st, Inr (round_report R ts failed backlog st)))))"

definition run_once :: "'n runner \<Rightarrow> int \<Rightarrow> (nat \<Rightarrow> nat) \<Rightarrow> 'n run_state \<Rightarrow> 'n run_state \<times> (queue_error, queue_run_report) result" where
  "run_once R now pick st =
     (if rs_round_in_flight st then (st, Inl QueueBusy)
      else
        (let st = st\<lparr>rs_round_in_flight := True, rs_half_open_used := False\<rparr>;
             (st, r) = round_body R now pick st
         in (st\<lparr>rs_round_in_flight := False\<rparr>, r)))"

section \<open>How many deliveries run at once\<close>

lemma length_filter_update:
  "i < length xs \<Longrightarrow> length (filter P (xs[i := y])) + (if P (xs ! i) then 1 else 0) = length (filter P xs) + (if P y then 1 else 0)"
proof (induction xs arbitrary: i)
  case (Cons x xs)
  then show ?case by (cases i) auto
qed simp

interpretation permits: step_invariant "round_step R now permits" "\<lambda>s. length (filter holds_permit (fst s)) \<le> permits" for R now permits
proof
  fix s u assume "round_step R now permits s u" and inv: "length (filter holds_permit (fst s)) \<le> permits"
  then obtain ts st i t st' where s: "s = (ts, st)" "u = (ts[i := t], st')" "i \<in> set (runnable_tasks permits ts)"
    by (cases rule: round_step.cases) auto
  then have i: "i < length ts" "runnable permits ts (ts ! i)" by (simp_all add: runnable_tasks_member)
  have "holds_permit (ts ! i) \<or> length (filter holds_permit ts) < permits"
    using i(2) by (auto simp: runnable_def holds_permit_def split: task_phase.splits)
  with length_filter_update [OF i(1), of holds_permit t] inv s show "length (filter holds_permit (fst u)) \<le> permits"
    by (auto split: if_splits)
qed

lemma claim_loop_waiting:
  "claim_loop now policy es ts failed st = (ts', failed', st') \<Longrightarrow> list_all (\<lambda>t. tk_phase t = Waiting) ts \<Longrightarrow>
     list_all (\<lambda>t. tk_phase t = Waiting) ts'"
proof (induction es arbitrary: ts failed st)
  case (Cons e es)
  then show ?case by (auto simp: task_new_def split: prod.splits sum.splits bool.splits)
qed simp


section \<open>The circuit breaker\<close>

definition is_remote_attempt :: "run_event \<Rightarrow> bool" where
  "is_remote_attempt ev \<longleftrightarrow> (case ev of Attempted _ (RemoteTarget _) _ _ \<Rightarrow> True | _ \<Rightarrow> False)"

definition remote_attempts :: "run_event list \<Rightarrow> run_event list" where
  "remote_attempts log = filter is_remote_attempt log"

definition remote_success :: "run_event \<Rightarrow> bool" where
  "remote_success ev \<longleftrightarrow> (case ev of Attempted _ (RemoteTarget _) _ (Inr _) \<Rightarrow> True | _ \<Rightarrow> False)"

text \<open>Nothing happened that concerns the breaker.\<close>

definition calm :: "'n run_state \<Rightarrow> 'n run_state \<Rightarrow> bool" where
  "calm st st' \<longleftrightarrow>
     rs_health st' = rs_health st \<and> rs_half_open_used st' = rs_half_open_used st \<and>
     remote_attempts (rs_log st') = remote_attempts (rs_log st)"

lemma calm_refl [simp]: "calm st st"
  by (simp add: calm_def)

lemma calm_trans: "calm a b \<Longrightarrow> calm b c \<Longrightarrow> calm a c"
  by (simp add: calm_def)

lemma calm_warned [simp]: "calm st (log_event (Warned topic) st')  = calm st st'"
  by (simp add: calm_def log_event_def remote_attempts_def is_remote_attempt_def)

lemma calm_store: "on_store m st = (st', r) \<Longrightarrow> calm st st'"
  by (auto simp: on_store_def calm_def split: prod.splits)

lemma calm_warn_on_error [simp]: "calm st (warn_on_error topic m st)"
  by (auto simp: warn_on_error_def dest: calm_store split: prod.splits sum.splits)

lemma calm_finish: "finish_task t r st = (t', st') \<Longrightarrow> calm st st'"
  by (auto simp: finish_task_def)

lemma calm_bounce: "bounce R entry failed diagnostic code now st = (st', r) \<Longrightarrow> calm st st'"
  by (auto simp: bounce_def calm_def Let_def split: if_splits option.splits sum.splits prod.splits)

lemma calm_flush_loop: "flush_loop R now bs entry outcome err st = (st', entry', outcome', err') \<Longrightarrow> calm st st'"
proof (induction bs arbitrary: entry outcome err st)
  case (Cons b bs)
  obtain st1 r where 1: "bounce R entry (pb_failed b) (pb_diagnostic b) (pb_code b) now st = (st1, r)"
    by (cases "bounce R entry (pb_failed b) (pb_diagnostic b) (pb_code b) now st")
  with Cons.prems have "\<exists>en ou er. flush_loop R now bs en ou er st1 = (st', entry', outcome', err')"
    by (auto split: sum.splits bool.splits)
  with Cons.IH calm_trans [OF calm_bounce [OF 1]] show ?case by blast
qed simp

lemma calm_flush: "flush_bounces R now p st = (st', r) \<Longrightarrow> calm st st'"
  by (auto simp: flush_bounces_def persist_best_effort_def dest: calm_flush_loop intro: calm_trans split: prod.splits option.splits)

lemma calm_write_entry: "write_entry R t st = (st', r) \<Longrightarrow> calm st st'"
  by (auto simp: write_entry_def Let_def dest: calm_store split: if_splits prod.splits sum.splits)

lemma calm_task_finish: "task_finish R now t st = (t', st') \<Longrightarrow> calm st st'"
  by (auto simp: task_finish_def dest!: calm_write_entry calm_flush calm_finish intro: calm_trans split: prod.splits sum.splits)

lemma calm_remote_mismatch:
  assumes "remote_mismatch R now t receipt st = (t', st')" shows "calm st st'"
proof -
  define st1 where "st1 = (if tk_mutated t then persist_best_effort R (pr_entry (tk_progress t)) st else st)"
  define st2 where "st2 = (if pr_pending (tk_progress t) = [] then st1
      else (case flush_bounces R now (tk_progress t) st1 of
              (st, Inl _) \<Rightarrow> log_event (Warned ''queue bounce write-back'') st | (st, Inr _) \<Rightarrow> st))"
  have "calm st st1" by (simp add: st1_def persist_best_effort_def)
  moreover have "calm st1 st2" by (auto simp: st2_def dest: calm_flush split: prod.splits sum.splits)
  moreover have "calm st2 st'"
    using assms unfolding remote_mismatch_def Let_def st1_def [symmetric] st2_def [symmetric] by (rule calm_finish)
  ultimately show ?thesis using calm_trans by blast
qed

lemma calm_task_local:
  assumes "task_local R now t st = (t', st')"
  shows "calm st st'" and "tk_phase t' \<noteq> AtRemote"
proof -
  obtain st1 r where a: "attempt (rn_local R) LocalTarget (tk_local t) t st = (st1, r)"
    by (cases "attempt (rn_local R) LocalTarget (tk_local t) t st")
  have "calm st st1"
    using a by (auto simp: attempt_def log_event_def calm_def remote_attempts_def is_remote_attempt_def split: prod.splits)
  then have "st' = st \<or> st' = st1 \<or> calm st1 st'"
    using assms a by (auto simp: task_local_def dest: calm_finish split: if_splits sum.splits)
  with \<open>calm st st1\<close> show "calm st st'" using calm_trans by fastforce
  show "tk_phase t' \<noteq> AtRemote"
    using assms a by (auto simp: task_local_def finish_task_def split: if_splits sum.splits)
qed

lemma task_finish_done: "task_finish R now t st = (t', st') \<Longrightarrow> tk_phase t' \<noteq> AtRemote"
  by (auto simp: task_finish_def finish_task_def split: prod.splits sum.splits)

text \<open>
  The breaker is open and the round has made the attempts \<open>new\<close> at the remote transport: unless one
  succeeded, they and the tasks about to make one are at most the half-open probe.
\<close>

definition probing :: "'n runner \<Rightarrow> run_event list \<Rightarrow> task list \<times> 'n run_state \<Rightarrow> bool" where
  "probing R before s \<longleftrightarrow>
     (\<exists>new. remote_attempts (rs_log (snd s)) = before @ new \<and>
        (list_ex remote_success new \<or>
         max (qc_blocked_threshold (rn_config R)) 1 \<le> hs_consecutive_failures (rs_health (snd s)) \<and>
         length new + length (filter (\<lambda>t. tk_phase t = AtRemote) (fst s)) \<le> (if rs_half_open_used (snd s) then 1 else 0)))"

lemma probing_calm:
  assumes "probing R before (ts, st)" and "calm st st'" and "length (filter (\<lambda>t. tk_phase t = AtRemote) ts') \<le> length (filter (\<lambda>t. tk_phase t = AtRemote) ts)"
  shows "probing R before (ts', st')"
  using assms unfolding probing_def calm_def by fastforce

lemma task_remote_log:
  assumes "task_remote R now t st = (t', st')"
  shows "\<exists>res. remote_attempts (rs_log st') = remote_attempts (rs_log st) @ [Attempted (tk_id t) (RemoteTarget (outbound_route_of R)) (tk_remote t) res] \<and>
     rs_half_open_used st' = rs_half_open_used st \<and>
     (\<forall>f. res = Inl f \<longrightarrow> hs_consecutive_failures (rs_health st') \<in>
        {hs_consecutive_failures (rs_health st), sat_u32 (hs_consecutive_failures (rs_health st) + 1)})"
proof -
  obtain st1 res where a: "attempt (rn_remote R) (RemoteTarget (outbound_route_of R)) (tk_remote t) t st = (st1, res)"
    by (cases "attempt (rn_remote R) (RemoteTarget (outbound_route_of R)) (tk_remote t) t st")
  then have st1: "remote_attempts (rs_log st1) = remote_attempts (rs_log st) @ [Attempted (tk_id t) (RemoteTarget (outbound_route_of R)) (tk_remote t) res]"
    "rs_half_open_used st1 = rs_half_open_used st" "rs_health st1 = rs_health st"
    by (auto simp: attempt_def log_event_def remote_attempts_def is_remote_attempt_def split: prod.splits)
  have c: "calm x y \<Longrightarrow> remote_attempts (rs_log y) = remote_attempts (rs_log x) \<and> rs_half_open_used y = rs_half_open_used x" for x y :: "'a run_state"
    by (simp add: calm_def)
  show ?thesis
    using assms a st1
    by (cases res) (auto simp: task_remote_def record_remote_success_def record_remote_failure_def
        dest!: calm_remote_mismatch c split: if_splits)
qed

interpretation breaker: step_invariant "round_step R now permits"
  "\<lambda>s. qc_blocked_threshold (rn_config R) \<le> U32_MAX \<longrightarrow> probing R before s" for R now permits before
proof
  fix s u
  assume "round_step R now permits s u" and inv: "qc_blocked_threshold (rn_config R) \<le> U32_MAX \<longrightarrow> probing R before s"
  then obtain ts st i t st' where s: "s = (ts, st)" "u = (ts[i := t], st')" "i \<in> set (runnable_tasks permits ts)"
    and step: "task_step R now (ts ! i) st = (t, st')" by (cases rule: round_step.cases) auto
  have i: "i < length ts" using s(3) by (simp add: runnable_tasks_member)
  note len = length_filter_update [OF i, of "\<lambda>t. tk_phase t = AtRemote" t]
  let ?n = "length (filter (\<lambda>t. tk_phase t = AtRemote) ts)" and ?n' = "length (filter (\<lambda>t. tk_phase t = AtRemote) (ts[i := t]))"
  show "qc_blocked_threshold (rn_config R) \<le> U32_MAX \<longrightarrow> probing R before u"
  proof
    assume u32: "qc_blocked_threshold (rn_config R) \<le> U32_MAX"
    with inv s have p: "probing R before (ts, st)" by simp
    have low: "?n' \<le> ?n" if "tk_phase t \<noteq> AtRemote" using len that by (auto split: if_splits)
    have calmly: "calm st st' \<Longrightarrow> tk_phase t \<noteq> AtRemote \<Longrightarrow> probing R before (ts[i := t], st')"
      using probing_calm [OF p] low by blast
    from p obtain new where new: "remote_attempts (rs_log st) = before @ new"
      "list_ex remote_success new \<or> max (qc_blocked_threshold (rn_config R)) 1 \<le> hs_consecutive_failures (rs_health st) \<and>
         length new + ?n \<le> (if rs_half_open_used st then 1 else 0)" by (auto simp: probing_def)
    have "probing R before (ts[i := t], st')"
    proof (cases "tk_phase (ts ! i)")
      case Waiting
      then show ?thesis using step calmly by (auto simp: task_step_def)
    next
      case AtLocal
      then have "task_local R now (ts ! i) st = (t, st')" using step by (simp add: task_step_def)
      then show ?thesis using calmly calm_task_local by blast
    next
      case AtGate
      have g: "task_gate R (ts ! i) st = (t, st')" using step AtGate by (simp add: task_step_def)
      have log: "rs_log st' = rs_log st" "rs_health st' = rs_health st"
        using g by (auto simp: task_gate_def may_attempt_remote_def Let_def split: if_splits)
      show ?thesis
      proof (cases "list_ex remote_success new")
        case True
        then show ?thesis using new(1) log by (auto simp: probing_def)
      next
        case False
        with new(2) have closed: "max (qc_blocked_threshold (rn_config R)) 1 \<le> hs_consecutive_failures (rs_health st)"
          "length new + ?n \<le> (if rs_half_open_used st then 1 else 0)" by auto
        have "if tk_phase t = AtRemote then \<not> rs_half_open_used st \<and> rs_half_open_used st' else rs_half_open_used st \<longrightarrow> rs_half_open_used st'"
          using g closed(1) by (auto simp: task_gate_def may_attempt_remote_def Let_def split: if_splits)
        then have "length new + ?n' \<le> (if rs_half_open_used st' then 1 else 0)"
          using closed(2) len AtGate by (auto split: if_splits)
        then show ?thesis using new(1) log closed(1) by (auto simp: probing_def)
      qed
    next
      case AtRemote
      then have "task_remote R now (ts ! i) st = (t, st')" using step by (simp add: task_step_def)
      from task_remote_log [OF this] obtain ev res where ev: "remote_attempts (rs_log st') = remote_attempts (rs_log st) @ [ev]"
        "remote_success ev \<longleftrightarrow> (\<exists>x. res = Inr x)" "rs_half_open_used st' = rs_half_open_used st"
        "\<forall>f. res = Inl f \<longrightarrow> hs_consecutive_failures (rs_health st') \<in>
            {hs_consecutive_failures (rs_health st), sat_u32 (hs_consecutive_failures (rs_health st) + 1)}"
        by (force simp: remote_success_def split: sum.splits)
      show ?thesis
      proof (cases "list_ex remote_success (new @ [ev])")
        case True
        then show ?thesis using new(1) ev(1) unfolding probing_def by (intro exI [of _ "new @ [ev]"]) simp
      next
        case False
        with new(2) have closed: "max (qc_blocked_threshold (rn_config R)) 1 \<le> hs_consecutive_failures (rs_health st)"
          "length new + ?n \<le> (if rs_half_open_used st then 1 else 0)" by auto
        obtain f where "res = Inl f" using False ev(2) by (cases res) auto
        then have "max (qc_blocked_threshold (rn_config R)) 1 \<le> hs_consecutive_failures (rs_health st')"
          using ev(4) closed(1) u32 by (auto simp: sat_u32_def)
        moreover have "tk_phase t \<noteq> AtRemote"
          using task_remote_phase [of R now "ts ! i" st] step AtRemote by (auto simp: task_step_def)
        then have "length (new @ [ev]) + ?n' \<le> (if rs_half_open_used st' then 1 else 0)"
          using closed(2) len AtRemote ev(3) by (auto split: if_splits)
        ultimately show ?thesis using new(1) ev(1) unfolding probing_def by (intro exI [of _ "new @ [ev]"]) simp
      qed
    next
      case AtFinish
      then have "task_finish R now (ts ! i) st = (t, st')" using step by (simp add: task_step_def)
      then show ?thesis using calmly calm_task_finish task_finish_done by blast
    next
      case (Done r)
      then show ?thesis using step calmly by (auto simp: task_step_def)
    qed
    then show "probing R before u" using s by simp
  qed
qed


lemma calm_claim_loop: "claim_loop now policy es ts failed st = (ts', failed', st') \<Longrightarrow> calm st st'"
proof (induction es arbitrary: ts failed st)
  case (Cons e es)
  obtain st1 r where 1: "on_store (try_claim (qe_id e) now) st = (st1, r)" by (cases "on_store (try_claim (qe_id e) now) st")
  with Cons.prems obtain ts1 failed1 st2 where "claim_loop now policy es ts1 failed1 st2 = (ts', failed', st')" "calm st1 st2"
    by (auto split: sum.splits bool.splits)
  with Cons.IH calm_store [OF 1] show ?case using calm_trans by blast
qed simp

lemma calm_warn_failures: "calm st (warn_failures ts st)"
proof (induction ts arbitrary: st)
  case (Cons t ts)
  define st1 where "st1 = (if task_failed t then log_event (Warned ''queue entry processing'') st else st)"
  have "calm st st1" "warn_failures (t # ts) st = warn_failures ts st1" by (simp_all add: warn_failures_def st1_def)
  then show ?case using Cons calm_trans by metis
qed (simp add: warn_failures_def)

lemma probing_round:
  assumes "max (qc_blocked_threshold (rn_config R)) 1 \<le> hs_consecutive_failures (rs_health st)"
    and "qc_blocked_threshold (rn_config R) \<le> U32_MAX" and "\<not> rs_half_open_used st"
    and r: "round_tasks R now pick due st = (ts, failed, st')"
  shows "probing R (remote_attempts (rs_log st)) (ts, st')"
proof -
  define policy where "policy = relay_policy_new (qc_managed_domains (rn_config R))"
  define permits where "permits = max (qc_relay_concurrency (rn_config R)) 1"
  obtain ts1 failed1 st1 where 1: "claim_loop now policy due [] 0 st = (ts1, failed1, st1)"
    by (cases "claim_loop now policy due [] 0 st")
  obtain ts2 st2 where 2: "run_tasks R now permits pick 0 ts1 st1 = (ts2, st2)"
    by (cases "run_tasks R now permits pick 0 ts1 st1")
  have st': "ts = ts2" "st' = warn_failures ts2 st2"
    using r 1 2 unfolding round_tasks_def policy_def [symmetric] permits_def [symmetric] Let_def by auto
  have "filter (\<lambda>t. tk_phase t = AtRemote) ts1 = []"
    using claim_loop_waiting [OF 1] by (auto simp: filter_empty_conv list_all_iff)
  then have "probing R (remote_attempts (rs_log st)) (ts1, st1)"
    using calm_claim_loop [OF 1] assms(1,3) by (simp add: probing_def calm_def)
  then have "probing R (remote_attempts (rs_log st)) (ts2, st2)"
    using breaker.run_inv [OF run_tasks_steps [of R now permits ts1 st1 pick 0]] 2 assms(2) by simp
  then show ?thesis using probing_calm calm_warn_failures st' by blast
qed

text \<open>
  \<^bold>\<open>C15\<close> (circuit breaker). While the outbound path counts as blocked, a round makes at most one attempt
  at the remote transport, the half-open probe, unless an attempt of that round succeeds; this holds
  for every schedule of its tasks. A round that would overlap another one is refused and changes
  nothing, and a round gives the flag back however it ends.
\<close>

theorem breaker_single_probe:
  assumes r: "run_once R now pick st = (st', res)"
    and u32: "qc_blocked_threshold (rn_config R) \<le> U32_MAX"
    and blocked: "max (qc_blocked_threshold (rn_config R)) 1 \<le> hs_consecutive_failures (rs_health st)"
  shows "(\<exists>new. remote_attempts (rs_log st') = remote_attempts (rs_log st) @ new \<and> (list_ex remote_success new \<or> length new \<le> 1)) \<and>
         (if rs_round_in_flight st then st' = st \<and> res = Inl QueueBusy else \<not> rs_round_in_flight st')"
proof (cases "rs_round_in_flight st")
  case True
  then show ?thesis using r by (simp add: run_once_def)
next
  case False
  define st0 where "st0 = st\<lparr>rs_round_in_flight := True, rs_half_open_used := False\<rparr>"
  obtain st9 where b: "round_body R now pick st0 = (st9, res)" and st': "st' = st9\<lparr>rs_round_in_flight := False\<rparr>"
    using r False by (auto simp: run_once_def st0_def [symmetric] Let_def split: prod.splits)
  obtain st1 l where l: "on_store (load_round R now) st0 = (st1, l)" by (cases "on_store (load_round R now) st0")
  have c1: "calm st0 st1" by (rule calm_store [OF l])
  have st1: "remote_attempts (rs_log st1) = remote_attempts (rs_log st)" "rs_health st1 = rs_health st" "\<not> rs_half_open_used st1"
    using c1 by (simp_all add: calm_def st0_def)
  have "\<exists>ts x. probing R (remote_attempts (rs_log st)) (ts, x) \<and> calm x st9"
  proof (cases l)
    case (Inl e)
    have "probing R (remote_attempts (rs_log st)) ([], st1)" using st1 blocked by (simp add: probing_def)
    moreover have "st9 = st1" using b l Inl by (simp add: round_body_def)
    ultimately show ?thesis by (metis calm_refl)
  next
    case (Inr loaded)
    obtain entries claimed where loaded: "loaded = (entries, claimed)" by (cases loaded)
    define due where "due = filter (\<lambda>e. is_due e now \<and> qe_id e \<notin> set claimed) entries"
    obtain ts failed st2 where t: "round_tasks R now pick due st1 = (ts, failed, st2)" by (cases "round_tasks R now pick due st1")
    have p: "probing R (remote_attempts (rs_log st)) (ts, st2)"
      using probing_round [OF _ u32 st1(3) t] st1(1,2) blocked by simp
    obtain st3 h where 3: "on_store (save_health (rn_json R) (rs_health st2)) st2 = (st3, h)"
      by (cases "on_store (save_health (rn_json R) (rs_health st2)) st2")
    define st4 where "st4 = (if list_ex task_failed ts then log_event (Warned ''queue run had failures'') st3 else st3)"
    obtain st5 n where 5: "on_store store_len st4 = (st5, n)" by (cases "on_store store_len st4")
    have "calm st2 st3" "calm st3 st4" "calm st4 st5" using calm_store [OF 3] calm_store [OF 5] by (simp_all add: st4_def)
    then have "calm st2 st3" "calm st2 st5" using calm_trans by blast+
    moreover have "st9 = st3 \<or> st9 = st5"
      using b l Inr loaded t 3 5
      by (auto simp: round_body_def due_def [symmetric] st4_def [symmetric] Let_def split: sum.splits)
    ultimately show ?thesis using p by blast
  qed
  then obtain new where "remote_attempts (rs_log st9) = remote_attempts (rs_log st) @ new" "list_ex remote_success new \<or> length new \<le> 1"
    by (auto simp: probing_def calm_def split: if_splits)
  then show ?thesis using False st' by auto
qed


section \<open>Samples\<close>

text \<open>A runner whose local deliveries succeed and whose remote ones are put off.\<close>

definition sample_runner :: "unit runner" where
  "sample_runner =
     \<lparr>rn_json = sample_json,
      rn_local = (\<lambda>_ _ rs n. (n, Inr \<lparr>receipt_accepted = length rs\<rparr>)),
      rn_remote = (\<lambda>_ _ _ n. (n, Inl (failure_transient ''SmtpRejected'' ''busy''))),
      rn_config = queue_config_default, rn_relay = None, rn_ids = (\<lambda>k. new_id k 0 0), rn_stamp = (\<lambda>_. []),
      rn_rng = (\<lambda>_. sample_rng), rn_date = (\<lambda>_. sample_now), rn_iso = (\<lambda>_. [])\<rparr>"

definition sample_run_state :: "unit run_state" where
  "sample_run_state =
     \<lparr>rs_fs = fst (enqueue sample_json stored_entry empty_fs), rs_net = (), rs_health = health_default\<lparr>hs_consecutive_failures := 12\<rparr>,
      rs_half_open_used = False, rs_round_in_flight = False, rs_drawn = 0, rs_log = []\<rparr>"

definition sample_claims :: "task list \<times> nat \<times> unit run_state" where
  "sample_claims = claim_loop 8 (relay_policy_new [''y.org'']) [stored_entry] [] 0 sample_run_state"


theorem breaker_single_probe_witness:
  "\<exists>new. remote_attempts (rs_log (fst (run_once sample_runner 8 (\<lambda>_. 0) sample_run_state))) = new \<and> (list_ex remote_success new \<or> length new \<le> 1)"
proof -
  have "qc_blocked_threshold (rn_config sample_runner) \<le> U32_MAX"
    "max (qc_blocked_threshold (rn_config sample_runner)) 1 \<le> hs_consecutive_failures (rs_health sample_run_state)"
    "rs_log sample_run_state = []"
    by (simp_all add: sample_runner_def sample_run_state_def queue_config_default_def DEFAULT_BLOCKED_THRESHOLD_def)
  from breaker_single_probe [OF surjective_pairing this(1,2), of 8 "\<lambda>_. 0"] this(3) show ?thesis
    by (auto simp: remote_attempts_def)
qed

end
