(* ===== verification/RunnerSafety.thy ===== *)
theory RunnerSafety
  imports Runner
begin

text \<open>
  What a round of the queue runner does to the queue. The locale \<open>queue_runner\<close> is the contract
  between the runner and its transports; inside it, an invariant of the tasks and of the queue is
  kept by every step of every task, under every interleaving and with any file system call failing,
  so that a round can also stop anywhere.
\<close>

section \<open>What became of a recipient\<close>

abbreviation queue :: "'n runner \<Rightarrow> 'n run_state \<Rightarrow> string \<Rightarrow> queue_entry option" where
  "queue R st \<equiv> queue_of (rn_json R) (rs_fs st)"

text \<open>A later version of an entry: the same message to some of the recipients.\<close>

definition version_of :: "queue_entry \<Rightarrow> queue_entry \<Rightarrow> bool" where
  "version_of e e' \<longleftrightarrow>
     qe_id e' = qe_id e \<and> qe_kind e' = qe_kind e \<and> qe_mail_from e' = qe_mail_from e \<and> qe_data e' = qe_data e \<and>
     qe_created_at e' = qe_created_at e \<and> set (qe_recipients e') \<subseteq> set (qe_recipients e)"

text \<open>A transport reported the recipient as delivered.\<close>

definition delivered_in :: "run_event list \<Rightarrow> string \<Rightarrow> string \<Rightarrow> bool" where
  "delivered_in log i r \<longleftrightarrow>
     (\<exists>tgt rs res. Attempted i tgt rs res \<in> set log \<and> r \<in> set rs \<and>
        (case res of Inr _ \<Rightarrow> True | Inl f \<Rightarrow> r \<in> set (df_accepted f)))"

text \<open>The entry \<open>d\<close> is a bounce to the sender of \<open>e\<close>, from the null sender, about the recipients \<open>failed\<close>.\<close>

definition reports :: "queue_entry \<Rightarrow> queue_entry \<Rightarrow> string set \<Rightarrow> bool" where
  "reports d e failed \<longleftrightarrow>
     qe_kind d = Bounce \<and> is_null_sender d \<and> (\<exists>sender. dsn_recipient e = Some sender \<and> qe_recipients d = [sender]) \<and>
     (\<exists>rng date request. build_dsn rng date request = Some (qe_data d) \<and> set (dr_failed_recipients request) = failed \<and>
        version_of e (dr_original request))"

definition no_bounce_for :: "queue_entry \<Rightarrow> bool" where
  "no_bounce_for e \<longleftrightarrow> qe_kind e = Bounce \<or> dsn_recipient e = None"

definition write_back_failed :: "run_event list \<Rightarrow> bool" where
  "write_back_failed log \<longleftrightarrow> Warned ''queue entry write-back'' \<in> set log"

text \<open>
  The recipient \<open>r\<close> of \<open>e\<close>, an entry of the queue \<open>m\<close> at the start: still queued, delivered, in a new
  bounce, not entitled to one, or the runner has warned that it could not write the entry back.
\<close>

definition settled :: "'n runner \<Rightarrow> (string \<rightharpoonup> queue_entry) \<Rightarrow> 'n run_state \<Rightarrow> queue_entry \<Rightarrow> string \<Rightarrow> bool" where
  "settled R m st e r \<longleftrightarrow>
     (\<exists>e'. queue R st (qe_id e) = Some e' \<and> version_of e e' \<and> r \<in> set (qe_recipients e')) \<or>
     delivered_in (rs_log st) (qe_id e) r \<or>
     (\<exists>i d failed. m i = None \<and> queue R st i = Some d \<and> reports d e failed \<and> r \<in> failed) \<or>
     no_bounce_for e \<or> write_back_failed (rs_log st)"

lemma version_of_refl [simp]: "version_of e e"
  by (simp add: version_of_def)

lemma version_of_trans: "version_of e f \<Longrightarrow> version_of f g \<Longrightarrow> version_of e g"
  by (auto simp: version_of_def)

lemma version_of_remove [simp]: "version_of e (remove_recipients e gone)"
  by (auto simp: version_of_def remove_recipients_def)

lemma version_of_sender:
  "version_of e f \<Longrightarrow> dsn_recipient f = dsn_recipient e" "version_of e f \<Longrightarrow> is_null_sender f = is_null_sender e"
  by (auto simp: version_of_def dsn_recipient_def is_null_sender_def)

lemma version_of_on_failure [simp]: "version_of e (fst (on_failure p e now err code))"
  by (auto simp: version_of_def on_failure_def Let_def)

lemma set_put_back [simp]: "set (qe_recipients (put_back e failed)) = set (qe_recipients e) \<union> set failed"
proof -
  have "set (foldl (\<lambda>rs r. if r \<in> set rs then rs else rs @ [r]) xs failed) = set xs \<union> set failed" for xs :: "string list"
    by (induction failed arbitrary: xs) auto
  then show ?thesis by (simp add: put_back_def)
qed

lemma version_of_put_back: "version_of e f \<Longrightarrow> set failed \<subseteq> set (qe_recipients e) \<Longrightarrow> version_of e (put_back f failed)"
  using set_put_back [of f failed] by (auto simp: version_of_def put_back_def)

lemma delivered_in_mono: "set log \<subseteq> set log' \<Longrightarrow> delivered_in log i r \<Longrightarrow> delivered_in log' i r"
  unfolding delivered_in_def by blast

section \<open>The effect of the operations on the queue\<close>

text \<open>
  What a round relies on: the JSON library reads back what it wrote, no identifier is drawn twice, the
  store is well-formed and the identifiers to come are not in use.
\<close>

definition run_ready :: "'n runner \<Rightarrow> 'n run_state \<Rightarrow> bool" where
  "run_ready R st \<longleftrightarrow> json_ok (rn_json R) \<and> inj (rn_ids R) \<and> store_ok (rn_json R) (rs_fs st) \<and> (\<forall>k \<ge> rs_drawn st. queue R st (rn_ids R k) = None)"

text \<open>
  From \<open>st\<close> to \<open>st'\<close> at most the entry of the original \<open>e\<close> changed, bounces about \<open>e\<close> under new
  identifiers were added, and the log grew.
\<close>

definition steps_to :: "'n runner \<Rightarrow> queue_entry \<Rightarrow> 'n run_state \<Rightarrow> 'n run_state \<Rightarrow> bool" where
  "steps_to R e st st' \<longleftrightarrow>
     run_ready R st' \<and> rs_drawn st \<le> rs_drawn st' \<and> set (rs_log st) \<subseteq> set (rs_log st') \<and>
     (\<forall>j d. j \<noteq> qe_id e \<longrightarrow> queue R st j = Some d \<longrightarrow> queue R st' j = Some d) \<and>
     (\<forall>j d. j \<noteq> qe_id e \<longrightarrow> queue R st' j = Some d \<longrightarrow>
        queue R st j = Some d \<or> ((\<exists>k \<ge> rs_drawn st. j = rn_ids R k) \<and> (\<exists>failed. reports d e failed)))"

lemma steps_to_refl: "run_ready R st \<Longrightarrow> steps_to R e st st"
  by (simp add: steps_to_def)

lemma steps_to_trans:
  assumes "steps_to R e a b" and "steps_to R e b c" shows "steps_to R e a c"
proof -
  have d: "rs_drawn a \<le> rs_drawn b" using assms(1) by (simp add: steps_to_def)
  have "queue R a j = Some x \<or> ((\<exists>k \<ge> rs_drawn a. j = rn_ids R k) \<and> (\<exists>failed. reports x e failed))"
    if "j \<noteq> qe_id e" "queue R c j = Some x" for j x
  proof -
    from that assms(2) have "queue R b j = Some x \<or> ((\<exists>k \<ge> rs_drawn b. j = rn_ids R k) \<and> (\<exists>failed. reports x e failed))"
      unfolding steps_to_def by blast
    then show ?thesis
    proof
      assume "queue R b j = Some x"
      with that(1) assms(1) show ?thesis unfolding steps_to_def by blast
    next
      assume "(\<exists>k \<ge> rs_drawn b. j = rn_ids R k) \<and> (\<exists>failed. reports x e failed)"
      with d show ?thesis by (blast intro: order_trans)
    qed
  qed
  then show ?thesis using assms unfolding steps_to_def by (meson order_trans subset_trans)
qed

text \<open>Only the log, the health, the flags or the network changed.\<close>

lemma steps_to_quiet:
  assumes "run_ready R st" and "queue R st' = queue R st" and "store_ok (rn_json R) (rs_fs st) \<Longrightarrow> store_ok (rn_json R) (rs_fs st')"
    and "rs_drawn st \<le> rs_drawn st'" and "set (rs_log st) \<subseteq> set (rs_log st')"
  shows "steps_to R e st st'"
  using assms by (simp add: steps_to_def run_ready_def)

text \<open>Writing or removing the entry itself, whose identifier is not one of those to come.\<close>

lemma steps_to_own:
  assumes "run_ready R st" and "store_ok (rn_json R) (rs_fs st')" and "queue R st' = (queue R st)(qe_id e := v)"
    and "rs_drawn st' = rs_drawn st" and "rs_log st' = rs_log st" and "\<forall>k \<ge> rs_drawn st. rn_ids R k \<noteq> qe_id e"
  shows "steps_to R e st st'"
  using assms by (auto simp: steps_to_def run_ready_def)

lemma bounce_effect:
  assumes J: "json_ok (rn_json R)" and inj: "inj (rn_ids R)" and ready: "run_ready R st"
    and v: "version_of e entry" and b: "bounce R entry failed diagnostic code now st = (st', r)"
  shows "run_ready R st' \<and> rs_log st' = rs_log st \<and> rs_drawn st \<le> rs_drawn st' \<and>
    (case r of
       Inl _ \<Rightarrow> queue R st' = queue R st
     | Inr sent \<Rightarrow>
         if sent then \<exists>j d. queue R st' = (queue R st)(j \<mapsto> d) \<and> queue R st j = None \<and> (\<exists>k \<ge> rs_drawn st. j = rn_ids R k) \<and> reports d e (set failed)
         else queue R st' = queue R st \<and> no_bounce_for e)"
proof -
  let ?J = "rn_json R" and ?k = "rs_drawn st"
  let ?ids = "\<lambda>n. rn_ids R (?k + (5 - n))" and ?st = "st\<lparr>rs_drawn := ?k + 6\<rparr>"
  have drawn: "run_ready R ?st" using ready by (simp add: run_ready_def)
  define request where "request = \<lparr>dr_reporting_mta = qc_reporting_mta (rn_config R), dr_original = entry,
      dr_failed_recipients = failed, dr_diagnostic = diagnostic, dr_status_code = code\<rparr>"
  show ?thesis
  proof (cases "qe_kind entry = Bounce \<or> dsn_recipient entry = None")
    case True
    then have "st' = st \<and> r = Inr False" using b by (auto simp: bounce_def dsn_recipient_def split: if_splits)
    moreover have "no_bounce_for e" using True v version_of_sender(1) [OF v] by (auto simp: no_bounce_for_def version_of_def)
    ultimately show ?thesis using ready by simp
  next
    case False
    then obtain rcpt where rcpt: "dsn_recipient entry = Some rcpt" "qe_kind entry \<noteq> Bounce" "\<not> is_null_sender entry"
      by (auto simp: dsn_recipient_def split: if_splits)
    show ?thesis
    proof (cases "build_dsn (rn_rng R ?k) (rn_date R ?k) request")
      case None
      then have "st' = ?st \<and> (\<exists>x. r = Inl x)" using b rcpt by (auto simp: bounce_def Let_def request_def)
      then show ?thesis using drawn by auto
    next
      case (Some message)
      show ?thesis
      proof (cases "entry_new (rn_stamp R) (rn_ids R ?k) Bounce dsn_envelope_from [rcpt] message now")
        case (Inl x)
        then have "st' = ?st \<and> (\<exists>x. r = Inl x)" using b rcpt Some by (auto simp: bounce_def Let_def request_def)
        then show ?thesis using drawn by auto
      next
        case (Inr dsn)
        note new = entry_new_ok [OF Inr]
        obtain s d u where n: "enqueue_new ?J ?ids dsn (rs_fs st) = (s, d, u)" by (cases "enqueue_new ?J ?ids dsn (rs_fs st)")
        have st': "st' = ?st\<lparr>rs_fs := s\<rparr>" "r = (case u of Inl x \<Rightarrow> Inl x | Inr _ \<Rightarrow> Inr True)"
          using b rcpt Some Inr n by (auto simp: bounce_def Let_def request_def split: sum.splits)
        have "ids_fresh ?J ?ids dsn (rs_fs st)"
        proof -
          have "queue R st (?ids n) = None" for n
            using ready by (simp add: run_ready_def)
          then show ?thesis using ready new by (simp add: ids_fresh_def run_ready_def)
        qed
        with enqueue_new_inserted [OF J _ this] ready n have ins: "inserted ?J dsn (rs_fs st) (s, d, u)"
          by (simp add: run_ready_def)
        from enqueue_new_id [OF n] new have "qe_id d \<in> insert (rn_ids R ?k) (?ids ` {..<5})" by simp
        then have "\<exists>k. ?k \<le> k \<and> k < ?k + 6 \<and> qe_id d = rn_ids R k"
        proof (elim insertE imageE)
          show "qe_id d = rn_ids R ?k \<Longrightarrow> ?thesis" by (intro exI [of _ ?k]) simp
          show "qe_id d = ?ids n \<Longrightarrow> ?thesis" for n by (intro exI [of _ "?k + (5 - n)"]) simp
        qed
        then obtain k where k: "?k \<le> k" "k < ?k + 6" "qe_id d = rn_ids R k" by blast
        show ?thesis
        proof (cases u)
          case (Inl x)
          with ins st' ready drawn show ?thesis by (simp add: inserted_def run_ready_def)
        next
          case (Inr y)
          with ins have d: "d = dsn\<lparr>qe_id := qe_id d\<rparr>" "queue R st (qe_id d) = None" "queue R st' = (queue R st)(qe_id d \<mapsto> d)"
            "store_ok ?J s" using st' ready by (simp_all add: inserted_def run_ready_def)
          have "rn_ids R k' \<noteq> rn_ids R k" if "k' \<ge> ?k + 6" for k' using that k(2) inj by (auto dest: injD)
          then have "run_ready R st'" using drawn d(3,4) k(3) st'(1) by (auto simp: run_ready_def)
          moreover have "reports d e (set failed)"
          proof -
            have "qe_kind d = Bounce" "qe_recipients d = [rcpt]" "qe_data d = message" "qe_mail_from d = []"
              using new by (subst d(1), simp add: dsn_envelope_from_def)+
            moreover have "dsn_recipient e = Some rcpt" using rcpt(1) version_of_sender(1) [OF v] by simp
            moreover have "set (dr_failed_recipients request) = set failed \<and> version_of e (dr_original request)"
              using v by (simp add: request_def)
            ultimately show ?thesis unfolding reports_def is_null_sender_def using Some by blast
          qed
          ultimately show ?thesis using Inr st' d k by auto
        qed
      qed
    qed
  qed
qed


text \<open>Between \<open>st\<close> and \<open>st'\<close> a bounce about the recipient was stored under a new identifier.\<close>

definition bounced_between :: "'n runner \<Rightarrow> 'n run_state \<Rightarrow> 'n run_state \<Rightarrow> queue_entry \<Rightarrow> string \<Rightarrow> bool" where
  "bounced_between R st st' e r \<longleftrightarrow>
     (\<exists>k d failed. rs_drawn st \<le> k \<and> queue R st' (rn_ids R k) = Some d \<and> reports d e failed \<and> r \<in> failed)"

lemma bounced_between_later:
  assumes "bounced_between R st st1 e r" and "steps_to R e st1 st2" and "\<forall>k \<ge> rs_drawn st. rn_ids R k \<noteq> qe_id e"
  shows "bounced_between R st st2 e r"
proof -
  from assms(1) obtain k d failed where k: "rs_drawn st \<le> k" "queue R st1 (rn_ids R k) = Some d" "reports d e failed" "r \<in> failed"
    by (auto simp: bounced_between_def)
  then have "queue R st2 (rn_ids R k) = Some d" using assms(2,3) by (simp add: steps_to_def)
  with k show ?thesis by (auto simp: bounced_between_def)
qed

lemma bounced_between_earlier:
  "bounced_between R st1 st2 e r \<Longrightarrow> rs_drawn st \<le> rs_drawn st1 \<Longrightarrow> bounced_between R st st2 e r"
  unfolding bounced_between_def by (blast intro: order_trans)

lemma bounce_steps:
  assumes J: "json_ok (rn_json R)" and inj: "inj (rn_ids R)" and ready: "run_ready R st"
    and v: "version_of e entry" and b: "bounce R entry failed diagnostic code now st = (st', r)"
    and own: "\<forall>k \<ge> rs_drawn st. rn_ids R k \<noteq> qe_id e"
  shows "steps_to R e st st'" and "rs_log st' = rs_log st" and "queue R st' (qe_id e) = queue R st (qe_id e)"
    and "r = Inr sent \<Longrightarrow> x \<in> set failed \<Longrightarrow> no_bounce_for e \<or> bounced_between R st st' e x"
proof -
  note eff = bounce_effect [OF J inj ready v b]
  show "rs_log st' = rs_log st" using eff by simp
  show "queue R st' (qe_id e) = queue R st (qe_id e)"
    using eff own by (auto split: sum.splits if_splits)
  show "steps_to R e st st'"
    using eff unfolding steps_to_def by (auto split: sum.splits if_splits)
  show "r = Inr sent \<Longrightarrow> x \<in> set failed \<Longrightarrow> no_bounce_for e \<or> bounced_between R st st' e x"
    using eff by (auto simp: bounced_between_def split: if_splits)
qed

lemma flush_loop_effect:
  assumes J: "json_ok (rn_json R)" and inj: "inj (rn_ids R)"
  shows "run_ready R st \<Longrightarrow> version_of e entry \<Longrightarrow> list_all (\<lambda>b. set (pb_failed b) \<subseteq> set (qe_recipients e)) bs \<Longrightarrow>
    \<forall>k \<ge> rs_drawn st. rn_ids R k \<noteq> qe_id e \<Longrightarrow>
    flush_loop R now bs entry outcome err st = (st', entry', outcome', err') \<Longrightarrow>
    steps_to R e st st' \<and> rs_log st' = rs_log st \<and> queue R st' (qe_id e) = queue R st (qe_id e) \<and> version_of e entry' \<and>
    set (qe_recipients entry) \<subseteq> set (qe_recipients entry') \<and> (err' = None \<longrightarrow> entry' = entry \<and> err = None) \<and>
    (\<forall>b \<in> set bs. \<forall>r \<in> set (pb_failed b). r \<in> set (qe_recipients entry') \<or> no_bounce_for e \<or> bounced_between R st st' e r)"
proof (induction bs arbitrary: entry outcome err st)
  case Nil
  then show ?case by (auto intro: steps_to_refl)
next
  case (Cons b bs)
  obtain st1 r where 1: "bounce R entry (pb_failed b) (pb_diagnostic b) (pb_code b) now st = (st1, r)"
    by (cases "bounce R entry (pb_failed b) (pb_diagnostic b) (pb_code b) now st")
  note eff = bounce_steps [OF J inj Cons.prems(1,2) 1 Cons.prems(4)]
  define entry1 where "entry1 = (case r of Inl _ \<Rightarrow> put_back entry (pb_failed b) | Inr _ \<Rightarrow> entry)"
  define err1 where "err1 = (case r of Inl x \<Rightarrow> first_some err (Some x) | Inr _ \<Rightarrow> err)"
  from Cons.prems(5) 1 obtain outcome1 where rest: "flush_loop R now bs entry1 outcome1 err1 st1 = (st', entry', outcome', err')"
    by (auto simp: entry1_def err1_def split: sum.splits if_splits bool.splits)
  have ready1: "run_ready R st1" and drawn: "rs_drawn st \<le> rs_drawn st1" using eff(1) by (simp_all add: steps_to_def)
  have v1: "version_of e entry1"
    using Cons.prems(2,3) version_of_put_back by (auto simp: entry1_def split: sum.splits)
  have own1: "\<forall>k \<ge> rs_drawn st1. rn_ids R k \<noteq> qe_id e" using Cons.prems(4) drawn by auto
  have sub: "set (qe_recipients entry) \<subseteq> set (qe_recipients entry1)" by (auto simp: entry1_def split: sum.splits)
  have e1: "err1 = None \<Longrightarrow> entry1 = entry \<and> err = None"
    by (auto simp: err1_def entry1_def first_some_def split: sum.splits option.splits)
  note IH = Cons.IH [OF ready1 v1 _ own1 rest]
  have IH: "steps_to R e st1 st'" "rs_log st' = rs_log st1" "queue R st' (qe_id e) = queue R st1 (qe_id e)" "version_of e entry'"
    "set (qe_recipients entry1) \<subseteq> set (qe_recipients entry')" "err' = None \<longrightarrow> entry' = entry1 \<and> err1 = None"
    "\<forall>b \<in> set bs. \<forall>r \<in> set (pb_failed b). r \<in> set (qe_recipients entry') \<or> no_bounce_for e \<or> bounced_between R st1 st' e r"
    using IH Cons.prems(3) by simp_all
  have first: "x \<in> set (qe_recipients entry') \<or> no_bounce_for e \<or> bounced_between R st st' e x" if "x \<in> set (pb_failed b)" for x
  proof (cases r)
    case (Inl _)
    then show ?thesis using that IH(5) by (auto simp: entry1_def)
  next
    case (Inr sent)
    from eff(4) [OF this that] bounced_between_later [OF _ IH(1) Cons.prems(4)] show ?thesis by blast
  qed
  show ?case
  proof (intro conjI)
    show "steps_to R e st st'" using steps_to_trans [OF eff(1) IH(1)] .
    show "\<forall>b \<in> set (b # bs). \<forall>r \<in> set (pb_failed b). r \<in> set (qe_recipients entry') \<or> no_bounce_for e \<or> bounced_between R st st' e r"
      using first IH(7) bounced_between_earlier [OF _ drawn] by (metis set_ConsD)
  qed (use eff(2,3) IH sub e1 in auto)
qed


section \<open>The effect of a step\<close>

lemma warn_on_error_quiet:
  assumes "\<And>s t r. m s = (t, r) \<Longrightarrow> same_files aux_paths s t"
  shows "queue R (warn_on_error topic m st) = queue R st" and "store_ok J (rs_fs st) \<Longrightarrow> store_ok J (rs_fs (warn_on_error topic m st))"
    and "rs_drawn (warn_on_error topic m st) = rs_drawn st" and "set (rs_log st) \<subseteq> set (rs_log (warn_on_error topic m st))"
proof -
  obtain s r where s: "m (rs_fs st) = (s, r)" by (cases "m (rs_fs st)")
  then have fs: "rs_fs (warn_on_error topic m st) = s"
    by (auto simp: warn_on_error_def on_store_def log_event_def split: sum.splits)
  note a = assms [OF s]
  show "queue R (warn_on_error topic m st) = queue R st" unfolding fs using aux_queue_of [OF a] .
  show "store_ok J (rs_fs st) \<Longrightarrow> store_ok J (rs_fs (warn_on_error topic m st))" unfolding fs using aux_store_ok [OF a] .
  show "rs_drawn (warn_on_error topic m st) = rs_drawn st" "set (rs_log st) \<subseteq> set (rs_log (warn_on_error topic m st))"
    using s by (auto simp: warn_on_error_def on_store_def log_event_def split: sum.splits)
qed

lemma finish_task_effect:
  assumes "finish_task t r st = (t', st')"
  shows "t' = t\<lparr>tk_phase := Done r\<rparr>" and "queue R st' = queue R st" and "run_ready R st \<Longrightarrow> run_ready R st'"
    and "rs_drawn st' = rs_drawn st" and "set (rs_log st) \<subseteq> set (rs_log st')"
  using assms warn_on_error_quiet [where m = "release_claim (tk_id t)" and st = st and topic = "''release queue claim''",
      OF touchesD [OF touches_release_claim]]
  by (auto simp: finish_task_def run_ready_def)

lemma settled_later:
  assumes "settled R m st e r" and "queue R st' (qe_id e) = queue R st (qe_id e)" and "set (rs_log st) \<subseteq> set (rs_log st')"
    and "\<And>i d. m i = None \<Longrightarrow> queue R st i = Some d \<Longrightarrow> queue R st' i = Some d"
  shows "settled R m st' e r"
proof -
  have "write_back_failed (rs_log st) \<Longrightarrow> write_back_failed (rs_log st')" using assms(3) by (auto simp: write_back_failed_def)
  with assms(1,2,4) delivered_in_mono [OF assms(3), of "qe_id e" r] show ?thesis unfolding settled_def by (elim disjE) (simp, blast+)
qed

text \<open>The progress of a task that has not finished, for the original entry.\<close>

definition in_progress :: "queue_entry \<Rightarrow> run_event list \<Rightarrow> progress \<Rightarrow> bool" where
  "in_progress e log p \<longleftrightarrow>
     version_of e (pr_entry p) \<and> list_all (\<lambda>b. set (pb_failed b) \<subseteq> set (qe_recipients e)) (pr_pending p) \<and>
     (\<forall>r \<in> set (qe_recipients e). r \<in> set (qe_recipients (pr_entry p)) \<or> delivered_in log (qe_id e) r \<or>
        (\<exists>b \<in> set (pr_pending p). r \<in> set (pb_failed b)))"

lemma in_progress_log: "set log \<subseteq> set log' \<Longrightarrow> in_progress e log p \<Longrightarrow> in_progress e log' p"
  unfolding in_progress_def using delivered_in_mono by blast

lemma in_progress_outcome [simp]: "in_progress e log (p\<lparr>pr_outcome := x\<rparr>) = in_progress e log p"
  by (simp add: in_progress_def)

lemma in_progress_delivered:
  assumes "in_progress e log p" and "\<And>r. r \<in> set rs \<Longrightarrow> delivered_in log (qe_id e) r"
  shows "in_progress e log (mark_delivered rs n p)"
  using assms by (auto simp: in_progress_def mark_delivered_def remove_recipients_def version_of_def)

lemma in_progress_failed:
  assumes "in_progress e log p" and "\<And>r. r \<in> set (df_accepted f) \<Longrightarrow> delivered_in log (qe_id e) r"
    and "set attempted \<subseteq> set (qe_recipients e)"
  shows "in_progress e log (apply_failure cfg attempted f now p)"
proof -
  define failed where "failed = filter (\<lambda>r. r \<notin> set (df_accepted f)) attempted"
  define p1 where "p1 = (if df_accepted f \<noteq> []
      then p\<lparr>pr_outcome := (pr_outcome p)\<lparr>eo_delivered := eo_delivered (pr_outcome p) + length (df_accepted f)\<rparr>,
             pr_entry := remove_recipients (pr_entry p) (df_accepted f)\<rparr> else p)"
  define b where "b = \<lparr>pb_failed = failed, pb_diagnostic = df_message f, pb_code = df_code f\<rparr>"
  define p2 where "p2 = p1\<lparr>pr_entry := fst (on_failure (qc_backoff cfg) (pr_entry p1) now (Some (df_message f)) (df_code f))\<rparr>"
  have p1: "in_progress e log p1"
    using assms(1,2) by (auto simp: p1_def in_progress_def remove_recipients_def version_of_def)
  then have p2: "in_progress e log p2"
    using version_of_trans [OF _ version_of_on_failure] by (auto simp: p2_def in_progress_def)
  have bounce: "in_progress e log (q\<lparr>pr_entry := remove_recipients (pr_entry q) failed, pr_pending := pr_pending q @ [b]\<rparr>)"
    if "in_progress e log q" for q
    using that assms(3) by (auto simp: in_progress_def remove_recipients_def version_of_def b_def failed_def)
  let ?bounce = "\<lambda>q. q\<lparr>pr_entry := remove_recipients (pr_entry q) failed, pr_pending := pr_pending q @ [b]\<rparr>"
  have "apply_failure cfg attempted f now p =
     (if failed = [] then p1
      else case df_class f of
             Permanent \<Rightarrow> ?bounce p1
           | Transient \<Rightarrow>
               if snd (on_failure (qc_backoff cfg) (pr_entry p1) now (Some (df_message f)) (df_code f)) then ?bounce p2
               else p2\<lparr>pr_outcome := (pr_outcome p2)\<lparr>eo_deferred := eo_deferred (pr_outcome p2) + 1\<rparr>\<rparr>)"
    unfolding apply_failure_def Let_def failed_def [symmetric] p1_def [symmetric] b_def [symmetric] case_prod_unfold p2_def [symmetric] ..
  then show ?thesis using p1 p2 bounce [OF p1] bounce [OF p2] by (cases "df_class f") simp_all
qed

definition task_inv :: "'n runner \<Rightarrow> (string \<rightharpoonup> queue_entry) \<Rightarrow> 'n run_state \<Rightarrow> queue_entry \<Rightarrow> task \<Rightarrow> bool" where
  "task_inv R m st e t \<longleftrightarrow>
     m (qe_id e) = Some e \<and> tk_id t = qe_id e \<and>
     set (tk_local t) \<subseteq> set (qe_recipients e) \<and> set (tk_remote t) \<subseteq> set (qe_recipients e) \<and>
     (case tk_phase t of
        Done _ \<Rightarrow>
          (\<forall>r \<in> set (qe_recipients e). settled R m st e r) \<and> (\<forall>e'. queue R st (qe_id e) = Some e' \<longrightarrow> version_of e e')
      | _ \<Rightarrow>
          queue R st (qe_id e) = Some e \<and> in_progress e (rs_log st) (tk_progress t) \<and>
          (tk_mutated t \<or> pr_entry (tk_progress t) = e \<and> pr_pending (tk_progress t) = []))"


lemma persist_effect:
  assumes J: "json_ok (rn_json R)" and ready: "run_ready R st" and own: "\<forall>k \<ge> rs_drawn st. rn_ids R k \<noteq> qe_id entry"
    and p: "persist_best_effort R entry st = st'"
  shows "run_ready R st' \<and> rs_drawn st' = rs_drawn st \<and> set (rs_log st) \<subseteq> set (rs_log st') \<and>
    (queue R st' = (queue R st)(qe_id entry \<mapsto> entry) \<or> queue R st' = queue R st \<and> write_back_failed (rs_log st'))"
proof -
  let ?J = "rn_json R"
  obtain s r where s: "enqueue ?J entry (rs_fs st) = (s, r)" by (cases "enqueue ?J entry (rs_fs st)")
  have v: "json_ok ?J \<and> store_ok ?J (rs_fs st)" using J ready by (simp add: run_ready_def)
  have st': "rs_fs st' = s" "rs_drawn st' = rs_drawn st"
    "rs_log st' = rs_log st @ (case r of Inl _ \<Rightarrow> [Warned ''queue entry write-back''] | Inr _ \<Rightarrow> [])"
    using p s by (auto simp: persist_best_effort_def warn_on_error_def on_store_def log_event_def split: sum.splits)
  have ok: "store_ok ?J s" using store.put_valid [OF v, of entry] s by simp
  show ?thesis
  proof (cases r)
    case (Inl err)
    with store.put_refused [OF v, of entry s err] s have "queue R st' = queue R st" by (simp add: st')
    then show ?thesis using ready ok Inl by (auto simp: st' run_ready_def write_back_failed_def)
  next
    case (Inr u)
    with store.put_stored [OF v, of entry s u] s have "queue R st' = (queue R st)(qe_id entry \<mapsto> entry)" by (simp add: st')
    then show ?thesis using ready ok own Inr by (auto simp: st' run_ready_def)
  qed
qed

text \<open>The entry has been written or removed; the pending bounces follow.\<close>

lemma flush_bounces_settles:
  assumes J: "json_ok (rn_json R)" and inj: "inj (rn_ids R)" and ready: "run_ready R st"
    and own: "\<And>k i. rs_drawn st \<le> k \<Longrightarrow> m i \<noteq> None \<Longrightarrow> rn_ids R k \<noteq> i" and m: "m (qe_id e) = Some e"
    and p: "in_progress e (rs_log st) p"
    and kept: "\<And>r. r \<in> set (qe_recipients (pr_entry p)) \<Longrightarrow> \<exists>e'. queue R st (qe_id e) = Some e' \<and> version_of e e' \<and> r \<in> set (qe_recipients e')"
    and vers: "\<And>e'. queue R st (qe_id e) = Some e' \<Longrightarrow> version_of e e'"
    and f: "flush_bounces R now p st = (st', res)"
  shows "steps_to R e st st' \<and> (\<forall>r \<in> set (qe_recipients e). settled R m st' e r) \<and>
    (\<forall>e'. queue R st' (qe_id e) = Some e' \<longrightarrow> version_of e e')"
proof -
  obtain st1 entry outcome err where 1: "flush_loop R now (pr_pending p) (pr_entry p) (pr_outcome p) None st = (st1, entry, outcome, err)"
    by (cases "flush_loop R now (pr_pending p) (pr_entry p) (pr_outcome p) None st")
  have own_e: "\<forall>k \<ge> rs_drawn st. rn_ids R k \<noteq> qe_id e" using own m by auto
  have v: "version_of e (pr_entry p)" and pend: "list_all (\<lambda>b. set (pb_failed b) \<subseteq> set (qe_recipients e)) (pr_pending p)"
    using p by (simp_all add: in_progress_def)
  note eff = flush_loop_effect [OF J inj ready v pend own_e 1]
  have st1: "steps_to R e st st1" "rs_log st1 = rs_log st" "queue R st1 (qe_id e) = queue R st (qe_id e)" "version_of e entry"
    and keeps: "set (qe_recipients (pr_entry p)) \<subseteq> set (qe_recipients entry)" "err = None \<Longrightarrow> entry = pr_entry p"
    using eff by auto
  have id: "qe_id entry = qe_id e" using st1(4) by (simp add: version_of_def)
  have fate: "r \<in> set (qe_recipients entry) \<or> delivered_in (rs_log st1) (qe_id e) r \<or> no_bounce_for e \<or> bounced_between R st st1 e r"
    if "r \<in> set (qe_recipients e)" for r
    using p that eff keeps(1) unfolding in_progress_def by (metis subsetD)
  have bounced: "settled R m x e r" if "bounced_between R st st1 e r" "\<And>j. j \<noteq> qe_id e \<Longrightarrow> queue R x j = queue R st1 j" for x r
  proof -
    from that(1) obtain k d failed where k: "rs_drawn st \<le> k" "queue R st1 (rn_ids R k) = Some d" "reports d e failed" "r \<in> failed"
      by (auto simp: bounced_between_def)
    moreover have "m (rn_ids R k) = None" "rn_ids R k \<noteq> qe_id e" using own [OF k(1)] m by fastforce+
    ultimately show ?thesis using that(2) unfolding settled_def by metis
  qed
  show ?thesis
  proof (cases err)
    case None
    then have st': "st' = st1" and en: "entry = pr_entry p" using f 1 keeps(2) by (auto simp: flush_bounces_def)
    have "settled R m st' e r" if "r \<in> set (qe_recipients e)" for r
      using fate [OF that] kept [of r] bounced [of r st'] st1(3) unfolding en st' settled_def by auto
    then show ?thesis using st1 vers by (simp add: st')
  next
    case (Some x)
    then have st': "persist_best_effort R entry st1 = st'" using f 1 by (auto simp: flush_bounces_def)
    have ready1: "run_ready R st1" and own1: "\<forall>k \<ge> rs_drawn st1. rn_ids R k \<noteq> qe_id entry"
      using st1(1) own_e id by (auto simp: steps_to_def)
    note per = persist_effect [OF J ready1 own1 st']
    have "steps_to R e st1 st'" using per ready1 id by (auto simp: steps_to_def)
    moreover have "settled R m st' e r" if r: "r \<in> set (qe_recipients e)" for r
    proof (cases "write_back_failed (rs_log st')")
      case True
      then show ?thesis by (simp add: settled_def)
    next
      case False
      then have q: "queue R st' = (queue R st1)(qe_id e \<mapsto> entry)" using per id by auto
      have "delivered_in (rs_log st1) (qe_id e) r \<Longrightarrow> delivered_in (rs_log st') (qe_id e) r"
        using per delivered_in_mono by blast
      moreover have "bounced_between R st st1 e r \<Longrightarrow> settled R m st' e r" using bounced [of r st'] q by simp
      moreover have "queue R st' (qe_id e) = Some entry" using q by simp
      ultimately show ?thesis using fate [OF r] st1(4) unfolding settled_def by blast
    qed
    moreover have "version_of e e'" if "queue R st' (qe_id e) = Some e'" for e'
      using that per st1(3,4) vers id by auto
    ultimately show ?thesis using steps_to_trans [OF st1(1)] by blast
  qed
qed

lemma write_entry_effect:
  assumes J: "json_ok (rn_json R)" and ready: "run_ready R st" and own: "\<forall>k \<ge> rs_drawn st. rn_ids R k \<noteq> qe_id e"
    and q: "queue R st (qe_id e) = Some e" and v: "version_of e (pr_entry (tk_progress t))"
    and mut: "tk_mutated t \<or> pr_entry (tk_progress t) = e"
    and w: "write_entry R t st = (st', res)"
  shows "steps_to R e st st' \<and> rs_log st' = rs_log st \<and>
    (case res of
       Inl _ \<Rightarrow> queue R st' (qe_id e) = Some e
     | Inr _ \<Rightarrow>
         (if qe_recipients (pr_entry (tk_progress t)) = [] then queue R st' (qe_id e) = None
          else queue R st' (qe_id e) = Some (pr_entry (tk_progress t))))"
proof -
  let ?J = "rn_json R" and ?entry = "pr_entry (tk_progress t)"
  have ok: "json_ok ?J \<and> store_ok ?J (rs_fs st)" using J ready by (simp add: run_ready_def)
  have id: "qe_id ?entry = qe_id e" using v by (simp add: version_of_def)
  show ?thesis
  proof (cases "qe_recipients ?entry = []")
    case True
    obtain s r where s: "store_remove (qe_id e) (rs_fs st) = (s, r)" by (cases "store_remove (qe_id e) (rs_fs st)")
    have st': "st' = st\<lparr>rs_fs := s\<rparr>" and res: "res = (case r of Inl x \<Rightarrow> Inl x | Inr _ \<Rightarrow> Inr ())"
      using w s True id by (auto simp: write_entry_def on_store_def split: sum.splits)
    have "store_ok ?J s" using store.del_valid [OF ok, of "qe_id e"] s by simp
    moreover have "queue R st' = (queue R st)(qe_id e := (case r of Inl _ \<Rightarrow> Some e | Inr _ \<Rightarrow> None))"
      using store.del_removed [OF ok, of "qe_id e" s] store.del_refused [OF ok, of "qe_id e" s] s q
      by (cases r) (auto simp: st' fun_upd_idem)
    ultimately show ?thesis
      using steps_to_own [OF ready, of st' e] own True by (auto simp: st' res split: sum.splits)
  next
    case False
    show ?thesis
    proof (cases "tk_mutated t \<and> entry_ok ?entry")
      case True
      obtain s r where s: "enqueue ?J ?entry (rs_fs st) = (s, r)" by (cases "enqueue ?J ?entry (rs_fs st)")
      have ev: "entry_validate ?entry = Inr ()" using True by simp
      have st': "st' = st\<lparr>rs_fs := s\<rparr>" and res: "res = r"
        using w s True False by (auto simp: write_entry_def on_store_def ev simp del: entry_validate_ok)
      have "store_ok ?J s" using store.put_valid [OF ok, of ?entry] s by simp
      moreover have "queue R st' = (queue R st)(qe_id e := (case r of Inl _ \<Rightarrow> Some e | Inr _ \<Rightarrow> Some ?entry))"
        using store.put_stored [OF ok, of ?entry s] store.put_refused [OF ok, of ?entry s] s q id
        by (cases r) (auto simp: st' fun_upd_idem)
      ultimately show ?thesis
        using steps_to_own [OF ready, of st' e] own False by (auto simp: st' res split: sum.splits)
    next
      case no_write: False
      have "\<not> entry_ok ?entry \<Longrightarrow> \<exists>x. entry_validate ?entry = Inl x" using entry_validate_not_ok by blast
      then have "st' = st \<and> (res = Inr () \<longrightarrow> ?entry = e)"
        using w mut no_write False by (auto simp: write_entry_def Let_def split: if_splits sum.splits)
      then show ?thesis using steps_to_refl [OF ready] q False by (cases res) auto
    qed
  qed
qed


lemma attempt_effect:
  assumes "attempt deliver tgt rs t st = (st', res)"
  shows "rs_fs st' = rs_fs st" and "rs_drawn st' = rs_drawn st" and "rs_log st' = rs_log st @ [Attempted (tk_id t) tgt rs res]"
    and "\<exists>n. deliver (pr_entry (tk_progress t)) tgt rs (rs_net st) = (n, res)"
  using assms by (auto simp: attempt_def log_event_def split: prod.splits)

lemma attempt_progress:
  assumes deliver: "transport deliver" and a: "attempt deliver tgt rs t st = (st', res)" and id: "tk_id t = qe_id e"
    and p: "in_progress e (rs_log st) (tk_progress t)" and rs: "set rs \<subseteq> set (qe_recipients e)"
  shows "res = Inr receipt \<Longrightarrow> receipt_accepted receipt = length rs \<and> in_progress e (rs_log st') (mark_delivered rs n (tk_progress t))"
    and "res = Inl f \<Longrightarrow> in_progress e (rs_log st') (apply_failure cfg rs f now (tk_progress t))"
proof -
  note eff = attempt_effect [OF a]
  have p': "in_progress e (rs_log st') (tk_progress t)" using eff(3) by (intro in_progress_log [OF _ p]) auto
  have mem: "Attempted (qe_id e) tgt rs res \<in> set (rs_log st')" using eff(3) id by simp
  obtain n' where d: "deliver (pr_entry (tk_progress t)) tgt rs (rs_net st) = (n', res)" using eff(4) by blast
  show "receipt_accepted receipt = length rs \<and> in_progress e (rs_log st') (mark_delivered rs n (tk_progress t))" if "res = Inr receipt"
  proof
    show "receipt_accepted receipt = length rs" using transport.receipt_all [OF deliver] d that by blast
    have "r \<in> set rs \<Longrightarrow> delivered_in (rs_log st') (qe_id e) r" for r
      using mem that unfolding delivered_in_def by force
    then show "in_progress e (rs_log st') (mark_delivered rs n (tk_progress t))" by (rule in_progress_delivered [OF p'])
  qed
  show "in_progress e (rs_log st') (apply_failure cfg rs f now (tk_progress t))" if "res = Inl f"
  proof -
    have "set (df_accepted f) \<subseteq> set rs" using transport.accepted_sub [OF deliver] d that by blast
    then have "r \<in> set (df_accepted f) \<Longrightarrow> delivered_in (rs_log st') (qe_id e) r" for r
      using mem that unfolding delivered_in_def by force
    then show ?thesis by (rule in_progress_failed [OF p' _ rs])
  qed
qed

lemma progress_id: "in_progress e log p \<Longrightarrow> qe_id (pr_entry p) = qe_id e"
  by (simp add: in_progress_def version_of_def)

text \<open>An unfinished task whose entry is untouched on disk keeps its invariant.\<close>

lemma task_inv_running:
  assumes "task_inv R m st e t" and "\<forall>r. tk_phase t \<noteq> Done r" and "\<forall>r. tk_phase t' \<noteq> Done r"
    and "tk_local t' = tk_local t" and "tk_remote t' = tk_remote t" and "queue R st' (qe_id e) = queue R st (qe_id e)"
    and "in_progress e (rs_log st') (tk_progress t')"
    and "tk_mutated t' \<or> pr_entry (tk_progress t') = pr_entry (tk_progress t) \<and> pr_pending (tk_progress t') = pr_pending (tk_progress t) \<and> tk_mutated t' = tk_mutated t"
  shows "task_inv R m st' e t'"
  using assms progress_id [OF assms(7)] by (auto simp: task_inv_def tk_id_def split: task_phase.splits)

lemma task_inv_progress:
  "task_inv R m st e t \<Longrightarrow> \<forall>r. tk_phase t \<noteq> Done r \<Longrightarrow>
     queue R st (qe_id e) = Some e \<and> in_progress e (rs_log st) (tk_progress t) \<and> tk_id t = qe_id e \<and> m (qe_id e) = Some e \<and>
     set (tk_local t) \<subseteq> set (qe_recipients e) \<and> set (tk_remote t) \<subseteq> set (qe_recipients e) \<and>
     (tk_mutated t \<or> pr_entry (tk_progress t) = e \<and> pr_pending (tk_progress t) = [])"
  by (cases "tk_phase t") (simp_all add: task_inv_def)

section \<open>The runner on lawful transports\<close>

locale queue_runner =
  fixes R :: "'n runner"
  assumes local_transport: "transport (rn_local R)"
    and remote_transport: "transport (rn_remote R)"
begin

lemma task_local_inv:
  assumes inv: "task_inv R m st e t" and ph: "tk_phase t = AtLocal" and ready: "run_ready R st"
    and step: "task_local R now t st = (t', st')"
  shows "steps_to R e st st' \<and> task_inv R m st' e t'"
proof (cases "tk_local t = []")
  case True
  then have "t' = t\<lparr>tk_phase := AtGate\<rparr>" "st' = st" using step by (auto simp: task_local_def)
  then show ?thesis using steps_to_refl [OF ready] inv ph by (auto simp: task_inv_def tk_id_def)
next
  case False
  note tp = task_inv_progress [OF inv, simplified ph, simplified]
  obtain st1 res where a: "attempt (rn_local R) LocalTarget (tk_local t) t st = (st1, res)"
    by (cases "attempt (rn_local R) LocalTarget (tk_local t) t st")
  note eff = attempt_effect [OF a]
  have p: "res = Inr receipt \<Longrightarrow> receipt_accepted receipt = length (tk_local t) \<and> in_progress e (rs_log st1) (mark_delivered (tk_local t) n (tk_progress t))"
    "res = Inl f \<Longrightarrow> in_progress e (rs_log st1) (apply_failure (rn_config R) (tk_local t) f now (tk_progress t))" for receipt n f
    using attempt_progress [OF local_transport a, of e] tp by blast+
  have st': "st' = st1" "tk_phase t' = AtGate" "tk_mutated t'" "tk_local t' = tk_local t" "tk_remote t' = tk_remote t"
    "in_progress e (rs_log st1) (tk_progress t')"
    using step False a p by (auto simp: task_local_def split: sum.splits)
  have "steps_to R e st st1" using eff(1-3) by (intro steps_to_quiet [OF ready]) auto
  moreover have "task_inv R m st1 e t'"
    by (rule task_inv_running [OF inv]) (use st' ph eff(1) in auto)
  ultimately show ?thesis using st'(1) by simp
qed

lemma task_gate_inv:
  assumes inv: "task_inv R m st e t" and ph: "tk_phase t = AtGate" and ready: "run_ready R st"
    and step: "task_gate R t st = (t', st')"
  shows "steps_to R e st st' \<and> task_inv R m st' e t'"
proof -
  note tp = task_inv_progress [OF inv, simplified ph, simplified]
  have st': "rs_fs st' = rs_fs st" "rs_drawn st' = rs_drawn st" "rs_log st' = rs_log st"
    and t': "tk_phase t' \<in> {AtRemote, AtFinish}" "tk_local t' = tk_local t" "tk_remote t' = tk_remote t" "tk_mutated t' = tk_mutated t"
      "pr_entry (tk_progress t') = pr_entry (tk_progress t)" "pr_pending (tk_progress t') = pr_pending (tk_progress t)"
    using step by (auto simp: task_gate_def may_attempt_remote_def Let_def split: if_splits)
  have "steps_to R e st st'" using st' by (intro steps_to_quiet [OF ready]) auto
  moreover have "in_progress e (rs_log st') (tk_progress t')" using tp st'(3) t'(5,6) by (simp add: in_progress_def)
  then have "task_inv R m st' e t'" by (intro task_inv_running [OF inv]) (use st' t' ph in auto)
  ultimately show ?thesis ..
qed

lemma task_remote_inv:
  assumes inv: "task_inv R m st e t" and ph: "tk_phase t = AtRemote" and ready: "run_ready R st"
    and step: "task_remote R now t st = (t', st')"
  shows "steps_to R e st st' \<and> task_inv R m st' e t'"
proof -
  note tp = task_inv_progress [OF inv, simplified ph, simplified]
  let ?tgt = "RemoteTarget (outbound_route_of R)"
  obtain st1 res where a: "attempt (rn_remote R) ?tgt (tk_remote t) t st = (st1, res)"
    by (cases "attempt (rn_remote R) ?tgt (tk_remote t) t st")
  note eff = attempt_effect [OF a]
  have p: "res = Inr receipt \<Longrightarrow> receipt_accepted receipt = length (tk_remote t) \<and> in_progress e (rs_log st1) (mark_delivered (tk_remote t) n (tk_progress t))"
    "res = Inl f \<Longrightarrow> in_progress e (rs_log st1) (apply_failure (rn_config R) (tk_remote t) f now (tk_progress t))" for receipt n f
    using attempt_progress [OF remote_transport a, of e] tp by blast+
  have st': "rs_fs st' = rs_fs st1" "rs_drawn st' = rs_drawn st1" "rs_log st' = rs_log st1"
    and t': "tk_phase t' = AtFinish" "tk_mutated t'" "tk_local t' = tk_local t" "tk_remote t' = tk_remote t"
      "in_progress e (rs_log st1) (tk_progress t')"
    using step a p by (auto simp: task_remote_def record_remote_success_def record_remote_failure_def split: sum.splits if_splits)
  have "steps_to R e st st'" using eff st' by (intro steps_to_quiet [OF ready]) auto
  moreover have "task_inv R m st' e t'"
    by (rule task_inv_running [OF inv]) (use st' t' ph eff in auto)
  ultimately show ?thesis ..
qed

lemma task_finish_inv:
  assumes inv: "task_inv R m st e t" and ph: "tk_phase t = AtFinish" and ready: "run_ready R st"
    and own: "\<And>k i. rs_drawn st \<le> k \<Longrightarrow> m i \<noteq> None \<Longrightarrow> rn_ids R k \<noteq> i"
    and step: "task_finish R now t st = (t', st')"
  shows "steps_to R e st st' \<and> task_inv R m st' e t'"
proof -
  note tp = task_inv_progress [OF inv, simplified ph, simplified]
  have json: "json_ok (rn_json R)" and ids: "inj (rn_ids R)" using ready by (simp_all add: run_ready_def)
  have own_e: "\<forall>k \<ge> rs_drawn st. rn_ids R k \<noteq> qe_id e" using own tp by auto
  have v: "version_of e (pr_entry (tk_progress t))" using tp by (simp add: in_progress_def)
  obtain st1 w where w: "write_entry R t st = (st1, w)" by (cases "write_entry R t st")
  have mut: "tk_mutated t \<or> pr_entry (tk_progress t) = e" using tp by blast
  note eff = write_entry_effect [OF json ready own_e _ v mut w]
  have st1: "steps_to R e st st1" "rs_log st1 = rs_log st" using eff tp by blast+
  then have ready1: "run_ready R st1" and drawn1: "rs_drawn st \<le> rs_drawn st1" by (simp_all add: steps_to_def)
  have fin: "steps_to R e st st' \<and> task_inv R m st' e t'"
    if f: "finish_task t r x = (t', st')" and x: "steps_to R e st x" "\<forall>r \<in> set (qe_recipients e). settled R m x e r"
      "\<forall>e'. queue R x (qe_id e) = Some e' \<longrightarrow> version_of e e'" for r x
  proof -
    note fe = finish_task_effect(1,4,5) [OF f] finish_task_effect(2,3) [OF f, of R]
    have "run_ready R x" using x(1) by (simp add: steps_to_def)
    then have "steps_to R e x st'" using fe by (intro steps_to_quiet) (auto simp: run_ready_def)
    moreover have "settled R m st' e r" if "settled R m x e r" for r
      by (rule settled_later [OF that]) (use fe in auto)
    then have "task_inv R m st' e t'" using fe x tp by (auto simp: task_inv_def tk_id_def)
    ultimately show ?thesis using steps_to_trans [OF x(1)] by blast
  qed
  show ?thesis
  proof (cases w)
    case (Inl err)
    then have "finish_task t (Inl err) st1 = (t', st')" using step w by (simp add: task_finish_def)
    moreover have "queue R st1 (qe_id e) = Some e" using eff tp Inl by simp
    ultimately show ?thesis using fin st1(1) by (simp add: settled_def)
  next
    case (Inr u)
    obtain st2 r where f: "flush_bounces R now (tk_progress t) st1 = (st2, r)" by (cases "flush_bounces R now (tk_progress t) st1")
    have ft: "finish_task t r st2 = (t', st')" using step w Inr f by (simp add: task_finish_def)
    have q1: "if qe_recipients (pr_entry (tk_progress t)) = [] then queue R st1 (qe_id e) = None
        else queue R st1 (qe_id e) = Some (pr_entry (tk_progress t))" using eff tp Inr by simp
    have "steps_to R e st1 st2 \<and> (\<forall>r \<in> set (qe_recipients e). settled R m st2 e r) \<and>
        (\<forall>e'. queue R st2 (qe_id e) = Some e' \<longrightarrow> version_of e e')"
    proof (rule flush_bounces_settles [OF json ids ready1 _ _ _ _ _ f])
      show "rn_ids R k \<noteq> i" if "rs_drawn st1 \<le> k" "m i \<noteq> None" for k i using own that drawn1 by auto
      show "in_progress e (rs_log st1) (tk_progress t)" using tp st1(2) by simp
      show "\<exists>e'. queue R st1 (qe_id e) = Some e' \<and> version_of e e' \<and> r \<in> set (qe_recipients e')"
        if "r \<in> set (qe_recipients (pr_entry (tk_progress t)))" for r
        using q1 v that by (cases "qe_recipients (pr_entry (tk_progress t))") auto
      show "version_of e e'" if "queue R st1 (qe_id e) = Some e'" for e' using q1 v that by (auto split: if_splits)
    qed (use tp in auto)
    with fin [OF ft] steps_to_trans [OF st1(1)] show ?thesis by blast
  qed
qed

lemma task_step_inv:
  assumes inv: "task_inv R m st e t" and ready: "run_ready R st"
    and own: "\<And>k i. rs_drawn st \<le> k \<Longrightarrow> m i \<noteq> None \<Longrightarrow> rn_ids R k \<noteq> i"
    and step: "task_step R now t st = (t', st')"
  shows "steps_to R e st st' \<and> task_inv R m st' e t'"
proof (cases "tk_phase t")
  case Waiting
  then have "t' = t\<lparr>tk_phase := AtLocal\<rparr>" "st' = st" using step by (auto simp: task_step_def)
  then show ?thesis using steps_to_refl [OF ready] inv Waiting by (auto simp: task_inv_def tk_id_def)
next
  case AtLocal
  then show ?thesis using task_local_inv [OF inv AtLocal ready] step by (simp add: task_step_def)
next
  case AtGate
  then show ?thesis using task_gate_inv [OF inv AtGate ready] step by (simp add: task_step_def)
next
  case AtRemote
  then show ?thesis using task_remote_inv [OF inv AtRemote ready] step by (simp add: task_step_def)
next
  case AtFinish
  then show ?thesis using task_finish_inv [OF inv AtFinish ready own] step by (simp add: task_step_def)
next
  case (Done r)
  then show ?thesis using step steps_to_refl [OF ready] inv by (auto simp: task_step_def)
qed


text \<open>A round over the queue \<open>m\<close>: \<open>es\<close> are the entries with a task.\<close>

definition round_inv :: "(string \<rightharpoonup> queue_entry) \<Rightarrow> queue_entry list \<Rightarrow> task list \<Rightarrow> 'n run_state \<Rightarrow> bool" where
  "round_inv m es ts st \<longleftrightarrow>
     run_ready R st \<and> (\<forall>k i. rs_drawn st \<le> k \<longrightarrow> m i \<noteq> None \<longrightarrow> rn_ids R k \<noteq> i) \<and> distinct (map qe_id es) \<and>
     list_all2 (task_inv R m st) es ts \<and>
     (\<forall>i e. m i = Some e \<longrightarrow> qe_id e = i \<and> (i \<notin> qe_id ` set es \<longrightarrow> queue R st i = Some e)) \<and>
     (\<forall>i d. queue R st i = Some d \<longrightarrow> m i = None \<longrightarrow> (\<exists>e failed. m (qe_id e) = Some e \<and> reports d e failed))"

lemma task_inv_other:
  assumes inv: "task_inv R m st e' t" and st: "steps_to R e st st'" and ne: "qe_id e' \<noteq> qe_id e" and m: "m (qe_id e) = Some e"
    and own: "\<forall>k i. rs_drawn st \<le> k \<longrightarrow> m i \<noteq> None \<longrightarrow> rn_ids R k \<noteq> i"
  shows "task_inv R m st' e' t"
proof -
  have me: "m (qe_id e') = Some e'" using inv by (simp add: task_inv_def)
  have same: "queue R st' (qe_id e') = queue R st (qe_id e')"
  proof (cases "queue R st' (qe_id e')")
    case None
    with st ne show ?thesis unfolding steps_to_def by (metis not_None_eq)
  next
    case (Some d)
    with st ne own me show ?thesis unfolding steps_to_def by (metis option.distinct(1))
  qed
  have log: "set (rs_log st) \<subseteq> set (rs_log st')" using st by (simp add: steps_to_def)
  have "settled R m st' e' r" if "settled R m st e' r" for r
  proof (rule settled_later [OF that same log])
    fix i d assume "m i = None" "queue R st i = Some d"
    moreover from this(1) m have "i \<noteq> qe_id e" by auto
    ultimately show "queue R st' i = Some d" using st unfolding steps_to_def by blast
  qed
  then show ?thesis using inv in_progress_log [OF log] unfolding task_inv_def same by (cases "tk_phase t") auto
qed

lemma round_inv_step:
  assumes inv: "round_inv m es ts st" and i: "i < length ts" and step: "task_step R now (ts ! i) st = (t, st')"
  shows "round_inv m es (ts[i := t]) st'"
proof -
  let ?e = "es ! i"
  have own: "\<forall>k i. rs_drawn st \<le> k \<longrightarrow> m i \<noteq> None \<longrightarrow> rn_ids R k \<noteq> i" and ready: "run_ready R st"
    and all: "list_all2 (task_inv R m st) es ts" and dist: "distinct (map qe_id es)"
    using inv by (simp_all add: round_inv_def)
  have len: "length es = length ts" using list_all2_lengthD [OF all] .
  have ti: "task_inv R m st ?e (ts ! i)" using list_all2_nthD2 [OF all i] .
  then have me: "m (qe_id ?e) = Some ?e" by (simp add: task_inv_def)
  have s: "steps_to R ?e st st'" "task_inv R m st' ?e t"
    using task_step_inv [OF ti ready _ step] own by blast+
  have "list_all2 (task_inv R m st') es (ts[i := t])"
  proof (rule list_all2_all_nthI)
    fix j assume j: "j < length es"
    show "task_inv R m st' (es ! j) (ts[i := t] ! j)"
    proof (cases "j = i")
      case True
      then show ?thesis using s(2) i by simp
    next
      case False
      then have "qe_id (es ! j) \<noteq> qe_id ?e" using dist i j len by (simp add: distinct_conv_nth)
      then show ?thesis using task_inv_other [OF list_all2_nthD [OF all j] s(1) _ me own] False by simp
    qed
  qed (simp add: len)
  moreover have drawn: "rs_drawn st \<le> rs_drawn st'" "run_ready R st'" using s(1) by (simp_all add: steps_to_def)
  moreover have "queue R st' j = Some e" if "m j = Some e" "j \<notin> qe_id ` set es" for j e
    using that inv s(1) i len unfolding round_inv_def steps_to_def by (metis image_eqI nth_mem)
  moreover have "\<exists>e failed. m (qe_id e) = Some e \<and> reports d e failed" if "queue R st' j = Some d" "m j = None" for j d
  proof -
    have "j \<noteq> qe_id ?e" using that(2) me by auto
    then have "queue R st j = Some d \<or> (\<exists>failed. reports d ?e failed)" using s(1) that(1) unfolding steps_to_def by blast
    then show ?thesis using inv that(2) me unfolding round_inv_def by blast
  qed
  ultimately show ?thesis using inv own order_trans [OF drawn(1)] unfolding round_inv_def by blast
qed

lemma round_inv_steps:
  assumes "(round_step R now permits)\<^sup>*\<^sup>* (ts, st) (ts', st')" and "round_inv m es ts st"
  shows "round_inv m es ts' st'"
  using assms
proof (induction rule: rtranclp_induct2)
  case (step ts st ts' st')
  from step.hyps(2) obtain i t where "i < length ts" "task_step R now (ts ! i) st = (t, st')" "ts' = ts[i := t]"
    by (auto elim!: round_stepE simp: runnable_tasks_member)
  then show ?case using round_inv_step step.IH [OF step.prems] by blast
qed

text \<open>What holds after a round that started with the queue \<open>m\<close>.\<close>

definition round_result :: "(string \<rightharpoonup> queue_entry) \<Rightarrow> 'n run_state \<Rightarrow> bool" where
  "round_result m st \<longleftrightarrow>
     run_ready R st \<and>
     (\<forall>i e. m i = Some e \<longrightarrow>
        (\<forall>r \<in> set (qe_recipients e). settled R m st e r) \<and> (\<forall>e'. queue R st i = Some e' \<longrightarrow> version_of e e')) \<and>
     (\<forall>i d. queue R st i = Some d \<longrightarrow> m i = None \<longrightarrow> (\<exists>e failed. m (qe_id e) = Some e \<and> reports d e failed))"

lemma round_inv_result:
  assumes inv: "round_inv m es ts st"
  shows "round_result m st"
proof -
  have "(\<forall>r \<in> set (qe_recipients e). settled R m st e r) \<and> (\<forall>e'. queue R st i = Some e' \<longrightarrow> version_of e e')" if m: "m i = Some e" for i e
  proof (cases "i \<in> qe_id ` set es")
    case False
    with inv m have "queue R st i = Some e" "qe_id e = i" by (simp_all add: round_inv_def)
    then show ?thesis by (auto simp: settled_def)
  next
    case True
    then obtain j where j: "j < length es" "qe_id (es ! j) = i" by (auto simp: in_set_conv_nth)
    have all: "list_all2 (task_inv R m st) es ts" using inv by (simp add: round_inv_def)
    then have ti: "task_inv R m st (es ! j) (ts ! j)" using list_all2_nthD [OF all j(1)] by simp
    then have "es ! j = e" using m j(2) by (simp add: task_inv_def)
    then show ?thesis using ti j(2) by (cases "tk_phase (ts ! j)") (auto simp: task_inv_def settled_def)
  qed
  then show ?thesis using inv unfolding round_result_def round_inv_def by blast
qed

lemma round_result_quiet:
  assumes "round_result m st" and "queue R st' = queue R st" and "store_ok (rn_json R) (rs_fs st')"
    and "rs_drawn st' = rs_drawn st" and "set (rs_log st) \<subseteq> set (rs_log st')"
  shows "round_result m st'"
proof -
  have "settled R m st' e r" if "settled R m st e r" for e r
    by (rule settled_later [OF that]) (use assms in auto)
  then show ?thesis using assms by (auto simp: round_result_def run_ready_def)
qed

end

section \<open>Claiming and loading\<close>

lemma claim_loop_effect:
  "claim_loop now policy es ts failed st = (ts', failed', st') \<Longrightarrow>
     \<exists>es'. subseq es' es \<and> ts' = ts @ map (task_new policy) es' \<and> same_files aux_paths (rs_fs st) (rs_fs st') \<and>
       rs_drawn st' = rs_drawn st \<and> set (rs_log st) \<subseteq> set (rs_log st') \<and> rs_net st' = rs_net st \<and>
       rs_health st' = rs_health st \<and> rs_half_open_used st' = rs_half_open_used st"
proof (induction es arbitrary: ts failed st)
  case (Cons e es)
  obtain s r where s: "try_claim (qe_id e) now (rs_fs st) = (s, r)" by (cases "try_claim (qe_id e) now (rs_fs st)")
  have f: "same_files aux_paths (rs_fs st) s" using touchesD [OF touches_try_claim s] .
  define st1 where "st1 = (case r of Inl _ \<Rightarrow> log_event (Warned ''queue claim'') (st\<lparr>rs_fs := s\<rparr>) | Inr _ \<Rightarrow> st\<lparr>rs_fs := s\<rparr>)"
  define new where "new = (if r = Inr True then [e] else [])"
  have "\<exists>n. claim_loop now policy es (ts @ map (task_new policy) new) n st1 = (ts', failed', st')"
    using Cons.prems s by (auto simp: on_store_def st1_def new_def split: sum.splits bool.splits)
  then obtain n where "claim_loop now policy es (ts @ map (task_new policy) new) n st1 = (ts', failed', st')" by blast
  from Cons.IH [OF this] obtain es' where es': "subseq es' es" "ts' = (ts @ map (task_new policy) new) @ map (task_new policy) es'"
    "same_files aux_paths (rs_fs st1) (rs_fs st')" "rs_drawn st' = rs_drawn st1" "set (rs_log st1) \<subseteq> set (rs_log st')"
    "rs_net st' = rs_net st1" "rs_health st' = rs_health st1" "rs_half_open_used st' = rs_half_open_used st1" by blast
  have st1: "rs_fs st1 = s" "rs_drawn st1 = rs_drawn st" "set (rs_log st) \<subseteq> set (rs_log st1)" "rs_net st1 = rs_net st"
    "rs_health st1 = rs_health st" "rs_half_open_used st1 = rs_half_open_used st"
    by (auto simp: st1_def log_event_def split: sum.splits)
  have "subseq (new @ es') (e # es)" using es'(1) by (auto simp: new_def)
  then show ?case
    using es' st1 same_files_trans [OF f] by (intro exI [of _ "new @ es'"]) auto
qed auto

lemma queue_of_id: "store_ok J s \<Longrightarrow> queue_of J s i = Some e \<Longrightarrow> qe_id e = i \<and> entry_ok e"
proof -
  assume ok: "store_ok J s" and q: "queue_of J s i = Some e"
  then have safe: "is_safe_id i" and c: "\<exists>raw. content_at s (entry_file i) = Some raw \<and> js_dec J raw = Some e"
    by (auto simp: queue_of_def split: if_splits option.splits)
  then obtain raw where raw: "content_at s (entries_dir, i @ ''.json'') = Some raw" "js_dec J raw = Some e"
    by (auto simp: entry_file_def)
  with ok safe_id_queue_file [OF safe] have "holds_entry J (i @ ''.json'') raw" by (simp add: store_ok_def)
  with raw(2) show ?thesis by (auto simp: holds_entry_def)
qed

lemma load_round_effect:
  assumes ok: "store_ok (rn_json R) s" and it: "iterates (fs_order s)" and l: "load_round R now s = (t, r)"
  shows "same_files aux_paths s t"
    and "r = Inr (es, claimed) \<Longrightarrow> distinct (map qe_id es) \<and> (\<forall>e \<in> set es. queue_of (rn_json R) s (qe_id e) = Some e)"
proof -
  let ?J = "rn_json R"
  obtain s1 r1 where 1: "prune_claims now s = (s1, r1)" by (cases "prune_claims now s")
  obtain s2 r2 where 2: "claimed_ids now s1 = (s2, r2)" by (cases "claimed_ids now s1")
  obtain s3 r3 where 3: "load_due ?J now s2 = (s3, r3)" by (cases "load_due ?J now s2")
  have f1: "same_files aux_paths s s1" using touchesD [OF touches_prune_claims 1] .
  have f2: "same_files aux_paths s s2" using touchesD [OF touches_claimed_ids 2] f1 same_files_trans by blast
  have ok2: "store_ok ?J s2" and q2: "queue_of ?J s2 = queue_of ?J s" and it2: "iterates (fs_order s2)"
    using aux_store_ok [OF f2 ok] aux_queue_of [OF f2] iterates_same [OF f2 it] .
  note res = load_entries_result [OF ok2 it2 classify_due_classifies 3 [unfolded load_due_def]]
  have f3: "same_files aux_paths s s3" using f2 same_files_none [OF res(1)] same_files_trans by blast
  show "same_files aux_paths s t"
    using l 1 2 3 f1 f2 f3 by (auto simp: load_round_def io_bind_def io_return_def split: sum.splits)
  assume "r = Inr (es, claimed)"
  then have "r3 = Inr es" using l 1 2 3 by (auto simp: load_round_def io_bind_def io_return_def split: sum.splits)
  with res(2,3) ok2 q2 show "distinct (map qe_id es) \<and> (\<forall>e \<in> set es. queue_of ?J s (qe_id e) = Some e)"
    using queue_of_id [OF ok2] by fastforce
qed

lemma task_new_inv:
  assumes "queue R st (qe_id e) = Some e" and "queue R st = m"
  shows "task_inv R m st e (task_new policy e)"
  using assms
  by (auto simp: task_inv_def task_new_def tk_id_def partition_recipients_def in_progress_def)

lemma warn_failures_quiet:
  "rs_fs (warn_failures ts st) = rs_fs st \<and> rs_drawn (warn_failures ts st) = rs_drawn st \<and> set (rs_log st) \<subseteq> set (rs_log (warn_failures ts st))"
proof (induction ts arbitrary: st)
  case (Cons t ts)
  define st1 where "st1 = (if task_failed t then log_event (Warned ''queue entry processing'') st else st)"
  have "warn_failures (t # ts) st = warn_failures ts st1" by (simp add: warn_failures_def st1_def)
  moreover have "rs_fs st1 = rs_fs st" "rs_drawn st1 = rs_drawn st" "set (rs_log st) \<subseteq> set (rs_log st1)"
    by (auto simp: st1_def log_event_def)
  ultimately show ?case using Cons [of st1] by auto
qed (simp add: warn_failures_def)

context queue_runner
begin

text \<open>The tasks of a round can run, be interleaved and stop anywhere.\<close>

lemma claimed_round_result:
  assumes ready: "run_ready R st" and due: "distinct (map qe_id due)" "\<forall>e \<in> set due. queue R st (qe_id e) = Some e"
    and c: "claim_loop now policy due [] 0 st = (ts, failed, st1)"
    and run: "(round_step R now permits)\<^sup>*\<^sup>* (ts, st1) (ts', st')"
  shows "round_result (queue R st) st'"
proof -
  let ?m = "queue R st"
  from claim_loop_effect [OF c] obtain es where es: "subseq es due" "ts = map (task_new policy) es"
    and c: "same_files aux_paths (rs_fs st) (rs_fs st1)" "rs_drawn st1 = rs_drawn st" by auto
  have q1: "queue R st1 = ?m" and ok1: "store_ok (rn_json R) (rs_fs st1)"
    using aux_queue_of [OF c(1)] aux_store_ok [OF c(1)] ready by (simp_all add: run_ready_def)
  have "distinct (map qe_id es)" using subseq_distinct [OF subseq_map [OF es(1)] due(1)] .
  moreover have "\<forall>e \<in> set es. ?m (qe_id e) = Some e" using due(2) subseq_set [OF es(1)] by blast
  moreover from this have "list_all2 (task_inv R ?m st1) es ts"
    using task_new_inv [of R st1 _ ?m policy] q1 by (simp add: es(2) list_all2_map2 list_all2_same)
  ultimately have "round_inv ?m es ts st1"
    using ready ok1 q1 c(2) queue_of_id [of "rn_json R" "rs_fs st"] unfolding round_inv_def run_ready_def by force
  from round_inv_result [OF round_inv_steps [OF run this]] show ?thesis .
qed

lemma round_tasks_result:
  assumes ready: "run_ready R st" and due: "distinct (map qe_id due)" "\<forall>e \<in> set due. queue R st (qe_id e) = Some e"
    and r: "round_tasks R now pick due st = (ts, failed, st')"
  shows "round_result (queue R st) st'"
proof -
  define policy where "policy = relay_policy_new (qc_managed_domains (rn_config R))"
  define permits where "permits = max (qc_relay_concurrency (rn_config R)) 1"
  obtain ts1 failed1 st1 where 1: "claim_loop now policy due [] 0 st = (ts1, failed1, st1)"
    by (cases "claim_loop now policy due [] 0 st")
  obtain ts2 st2 where 2: "run_tasks R now permits pick 0 ts1 st1 = (ts2, st2)"
    by (cases "run_tasks R now permits pick 0 ts1 st1")
  have st': "st' = warn_failures ts2 st2" using r 1 2 unfolding round_tasks_def policy_def [symmetric] permits_def [symmetric] Let_def by auto
  have "round_result (queue R st) st2"
    using claimed_round_result [OF ready due 1] run_tasks_steps [of R now permits ts1 st1 pick 0] 2 by simp
  then show ?thesis unfolding st'
    by (rule round_result_quiet) (use warn_failures_quiet [of ts2 st2] \<open>round_result _ st2\<close> in \<open>auto simp: round_result_def run_ready_def\<close>)
qed

lemma round_result_start: "run_ready R st \<Longrightarrow> round_result (queue R st) st"
  using queue_of_id [of "rn_json R" "rs_fs st"] by (auto simp: round_result_def run_ready_def settled_def)

lemma round_result_store:
  assumes "round_result m st" and "touches aux_paths f" and "on_store f st = (st', r)"
  shows "round_result m st'"
proof -
  have "same_files aux_paths (rs_fs st) (rs_fs st')" "rs_drawn st' = rs_drawn st" "rs_log st' = rs_log st"
    using assms(2,3) by (auto simp: on_store_def dest: touchesD split: prod.splits)
  then show ?thesis using assms(1) aux_queue_of aux_store_ok
    by (intro round_result_quiet [OF assms(1)]) (auto simp: round_result_def run_ready_def)
qed

lemma run_once_result:
  assumes ready: "run_ready R st" and it: "iterates (fs_order (rs_fs st))" and r: "run_once R now pick st = (st', res)"
  shows "round_result (queue R st) st'"
proof (cases "rs_round_in_flight st")
  case True
  then show ?thesis using r round_result_start [OF ready] by (simp add: run_once_def)
next
  case False
  define st0 where "st0 = st\<lparr>rs_round_in_flight := True, rs_half_open_used := False\<rparr>"
  obtain st9 where b: "round_body R now pick st0 = (st9, res)" and st': "st' = st9\<lparr>rs_round_in_flight := False\<rparr>"
    using r False by (auto simp: run_once_def st0_def [symmetric] Let_def split: prod.splits)
  have ready0: "run_ready R st0" and q0: "queue R st0 = queue R st" using ready by (simp_all add: st0_def run_ready_def)
  have fs0: "rs_fs st0 = rs_fs st" by (simp add: st0_def)
  obtain s l where l: "load_round R now (rs_fs st0) = (s, l)" by (cases "load_round R now (rs_fs st0)")
  define st1 where "st1 = st0\<lparr>rs_fs := s\<rparr>"
  have ok: "store_ok (rn_json R) (rs_fs st0)" using ready0 by (simp add: run_ready_def)
  note eff = load_round_effect [OF ok _ l, unfolded fs0, OF it]
  have q1: "queue R st1 = queue R st" using aux_queue_of [OF eff(1)] by (simp add: st1_def)
  have ready1: "run_ready R st1"
    using ready0 aux_store_ok [OF eff(1)] ok q1 q0 by (simp add: st1_def run_ready_def fs0)
  have "round_result (queue R st) st9"
  proof (cases l)
    case (Inl err)
    then have "st9 = st1" using b l by (auto simp: round_body_def on_store_def st1_def)
    then show ?thesis using round_result_start [OF ready1] q1 by simp
  next
    case (Inr loaded)
    obtain entries claimed where loaded: "loaded = (entries, claimed)" by (cases loaded)
    define due where "due = filter (\<lambda>e. is_due e now \<and> qe_id e \<notin> set claimed) entries"
    obtain ts failed st2 where t: "round_tasks R now pick due st1 = (ts, failed, st2)" by (cases "round_tasks R now pick due st1")
    have "distinct (map qe_id due)" "\<forall>e \<in> set due. queue R st1 (qe_id e) = Some e"
      using eff(2) [of entries claimed] Inr loaded q1 by (auto simp: due_def distinct_map_filter)
    from round_tasks_result [OF ready1 this t] have r2: "round_result (queue R st) st2" using q1 by simp
    obtain st3 h where 3: "on_store (save_health (rn_json R) (rs_health st2)) st2 = (st3, h)"
      by (cases "on_store (save_health (rn_json R) (rs_health st2)) st2")
    have r3: "round_result (queue R st) st3" using round_result_store [OF r2 touches_save_health 3] .
    define st4 where "st4 = (if list_ex task_failed ts then log_event (Warned ''queue run had failures'') st3 else st3)"
    have r4: "round_result (queue R st) st4"
      by (rule round_result_quiet [OF r3]) (use r3 in \<open>auto simp: st4_def log_event_def round_result_def run_ready_def\<close>)
    obtain st5 n where 5: "on_store store_len st4 = (st5, n)" by (cases "on_store store_len st4")
    have r5: "round_result (queue R st) st5" using round_result_store [OF r4 touches_store_len 5] .
    have "st9 = st3 \<or> st9 = st5"
      using b l Inr loaded t 3 5
      by (auto simp: round_body_def on_store_def [of "load_round R now"] st1_def [symmetric] due_def [symmetric] st4_def [symmetric] Let_def
          split: sum.splits)
    then show ?thesis using r3 r5 by blast
  qed
  then show ?thesis unfolding st' by (rule round_result_quiet) (use \<open>round_result (queue R st) st9\<close> in \<open>auto simp: round_result_def run_ready_def\<close>)
qed

end

section \<open>The file system keeps its character\<close>

definition follows :: "'n run_state \<Rightarrow> 'n run_state \<Rightarrow> bool" where
  "follows st st' \<longleftrightarrow> same_files UNIV (rs_fs st) (rs_fs st')"

lemma follows_refl [simp]: "follows st st"
  by (simp add: follows_def)

lemma follows_trans: "follows a b \<Longrightarrow> follows b c \<Longrightarrow> follows a c"
  unfolding follows_def by (rule same_files_trans)

lemma follows_same_fs: "follows st st1 \<Longrightarrow> rs_fs st2 = rs_fs st1 \<Longrightarrow> follows st st2"
  by (simp add: follows_def)

lemma follows_log [simp]: "follows st (log_event ev st') = follows st st'"
  by (simp add: follows_def log_event_def)

lemma follows_store: "touches UNIV m \<Longrightarrow> on_store m st = (st', r) \<Longrightarrow> follows st st'"
  by (auto simp: on_store_def follows_def dest: touchesD split: prod.splits)

lemma touches_aux_all: "touches aux_paths m \<Longrightarrow> touches UNIV m"
  by (rule touches_mono) simp_all

lemma touches_enqueue: "touches UNIV (enqueue J e)"
  using enqueue_same by (simp add: touches_def)

lemma touches_store_remove: "touches UNIV (store_remove i)"
  using store_remove_same by (simp add: touches_def)

lemma enqueue_new_loop_same: "same_files UNIV s (fst (enqueue_new_loop J ids n e s))"
proof (induction n arbitrary: e s)
  case (Suc n)
  let ?i = "qe_id e"
  obtain s1 r1 where 1: "create_new (reservation_path ?i) s = (s1, r1)" by (cases "create_new (reservation_path ?i) s")
  obtain s2 taken where 2: "path_exists (entry_file ?i) s1 = (s2, taken)" by (cases "path_exists (entry_file ?i) s1")
  have f1: "same_files UNIV s s1" using touchesD [OF touches_ops(8) 1] by simp
  have f2: "same_files UNIV s s2" using touchesD [OF touches_query(2) 2] f1 same_files_trans by blast
  have rm: "same_files UNIV s (io_drop (remove_file p) x)" if "same_files UNIV s x" for p x
    using same_files_trans [OF that touches_drop [OF touches_ops(7)]] by simp
  have w: "same_files UNIV s (fst (atomic_as p payload s2))" for p payload
    using f2 conjunct2 [OF atomic_as_effect [OF surjective_pairing [of "atomic_as p payload s2"]]]
    by (blast intro: same_files_trans same_files_mono)
  show ?case
    using f1 f2 same_files_trans [OF f1 Suc] same_files_trans [OF rm [OF f2] Suc] rm [OF w] rm [OF rm [OF w]] 1 2
    by (auto simp: entry_path_def Let_def case_prod_unfold split: sum.splits option.splits)
qed simp

lemma enqueue_new_same: "enqueue_new J ids e s = (t, e', r) \<Longrightarrow> same_files UNIV s t"
proof -
  assume n: "enqueue_new J ids e s = (t, e', r)"
  obtain s1 r1 where 1: "create_dir_all entries_dir s = (s1, r1)" by (cases "create_dir_all entries_dir s")
  have f: "same_files UNIV s s1" using touchesD [OF touches_ops(1) 1] .
  show ?thesis
    using n 1 f same_files_trans [OF f enqueue_new_loop_same [of s1 J ids ENQUEUE_NEW_ATTEMPTS e]]
    by (auto simp: enqueue_new_def split: sum.splits)
qed

lemma follows_warn_on_error: "touches UNIV m \<Longrightarrow> follows st (warn_on_error topic m st)"
  by (auto simp: warn_on_error_def dest: follows_store split: prod.splits sum.splits)

lemma follows_finish: "finish_task t r st = (t', st') \<Longrightarrow> follows st st'"
  by (auto simp: finish_task_def intro!: follows_warn_on_error touches_aux_all [OF touches_release_claim])

lemma follows_bounce: "bounce R entry failed diagnostic code now st = (st', r) \<Longrightarrow> follows st st'"
  by (auto simp: bounce_def follows_def Let_def dest: enqueue_new_same split: if_splits option.splits sum.splits prod.splits)

lemma follows_flush_loop: "flush_loop R now bs entry outcome err st = (st', entry', outcome', err') \<Longrightarrow> follows st st'"
proof (induction bs arbitrary: entry outcome err st)
  case (Cons b bs)
  obtain st1 r where 1: "bounce R entry (pb_failed b) (pb_diagnostic b) (pb_code b) now st = (st1, r)"
    by (cases "bounce R entry (pb_failed b) (pb_diagnostic b) (pb_code b) now st")
  with Cons.prems have "\<exists>en ou er. flush_loop R now bs en ou er st1 = (st', entry', outcome', err')"
    by (auto split: sum.splits bool.splits)
  with Cons.IH follows_trans [OF follows_bounce [OF 1]] show ?case by blast
qed simp

lemma follows_persist: "follows st (persist_best_effort R entry st)"
  by (simp add: persist_best_effort_def follows_warn_on_error touches_enqueue)

lemma follows_flush: "flush_bounces R now p st = (st', r) \<Longrightarrow> follows st st'"
  by (auto simp: flush_bounces_def dest: follows_flush_loop intro: follows_trans follows_persist split: prod.splits option.splits)

lemma follows_write_entry: "write_entry R t st = (st', r) \<Longrightarrow> follows st st'"
  by (auto simp: write_entry_def Let_def dest: follows_store [OF touches_enqueue] follows_store [OF touches_store_remove]
      split: if_splits prod.splits sum.splits)

lemma follows_attempt: "attempt deliver tgt rs t st = (st', r) \<Longrightarrow> rs_fs st' = rs_fs st"
  by (auto simp: attempt_def log_event_def split: prod.splits)

lemma follows_remote_mismatch:
  assumes "remote_mismatch R now t receipt st = (t', st')" shows "follows st st'"
proof -
  define st1 where "st1 = (if tk_mutated t then persist_best_effort R (pr_entry (tk_progress t)) st else st)"
  define st2 where "st2 = (if pr_pending (tk_progress t) = [] then st1
      else (case flush_bounces R now (tk_progress t) st1 of
              (st, Inl _) \<Rightarrow> log_event (Warned ''queue bounce write-back'') st | (st, Inr _) \<Rightarrow> st))"
  have "follows st st1" by (simp add: st1_def follows_persist)
  moreover have "follows st1 st2" by (auto simp: st2_def dest: follows_flush split: prod.splits sum.splits)
  moreover have "follows st2 st'"
    using assms unfolding remote_mismatch_def Let_def st1_def [symmetric] st2_def [symmetric] by (rule follows_finish)
  ultimately show ?thesis using follows_trans by blast
qed

lemma follows_task_local:
  assumes "task_local R now t st = (t', st')" shows "follows st st'"
proof -
  obtain st1 r where a: "attempt (rn_local R) LocalTarget (tk_local t) t st = (st1, r)"
    by (cases "attempt (rn_local R) LocalTarget (tk_local t) t st")
  have f: "follows st st1" using follows_attempt [OF a] by (simp add: follows_def)
  then have "st' = st \<or> st' = st1 \<or> follows st1 st'"
    using assms a by (auto simp: task_local_def dest: follows_finish split: if_splits sum.splits)
  with f show ?thesis using follows_trans by fastforce
qed

lemma follows_task_gate: "task_gate R t st = (t', st') \<Longrightarrow> follows st st'"
  by (auto simp: task_gate_def may_attempt_remote_def follows_def Let_def split: if_splits)

lemma follows_task_remote:
  assumes "task_remote R now t st = (t', st')" shows "follows st st'"
proof -
  let ?tgt = "RemoteTarget (outbound_route_of R)"
  obtain st1 r where a: "attempt (rn_remote R) ?tgt (tk_remote t) t st = (st1, r)"
    by (cases "attempt (rn_remote R) ?tgt (tk_remote t) t st")
  have f: "follows st st1" using follows_attempt [OF a] by (simp add: follows_def)
  then have "rs_fs st' = rs_fs st1 \<or> follows st1 st'"
    using assms a by (auto simp: task_remote_def record_remote_success_def record_remote_failure_def
        dest: follows_remote_mismatch split: if_splits sum.splits)
  with f show ?thesis using follows_trans follows_same_fs by blast
qed

lemma follows_task_finish:
  assumes "task_finish R now t st = (t', st')" shows "follows st st'"
proof -
  obtain st1 w where w: "write_entry R t st = (st1, w)" by (cases "write_entry R t st")
  obtain st2 r where f: "flush_bounces R now (tk_progress t) st1 = (st2, r)" by (cases "flush_bounces R now (tk_progress t) st1")
  have "follows st st1" "follows st st2"
    using follows_write_entry [OF w] follows_trans [OF follows_write_entry [OF w] follows_flush [OF f]] .
  moreover have "follows st1 st' \<or> follows st2 st'"
    using assms w f by (auto simp: task_finish_def dest: follows_finish split: sum.splits)
  ultimately show ?thesis using follows_trans by blast
qed

lemma follows_task_step: "task_step R now t st = (t', st') \<Longrightarrow> follows st st'"
  by (cases "tk_phase t")
     (auto simp: task_step_def dest: follows_task_local follows_task_gate follows_task_remote follows_task_finish)

interpretation follows: step_invariant "round_step R now permits" "\<lambda>s. follows st (snd s)" for R now permits st
  by unfold_locales (auto elim!: round_step.cases, metis follows_task_step follows_trans)

lemma run_once_follows:
  assumes r: "run_once R now pick st = (st', res)" and ok: "store_ok (rn_json R) (rs_fs st)" and it: "iterates (fs_order (rs_fs st))"
  shows "follows st st'"
proof (cases "rs_round_in_flight st")
  case True
  then show ?thesis using r by (simp add: run_once_def)
next
  case False
  define st0 where "st0 = st\<lparr>rs_round_in_flight := True, rs_half_open_used := False\<rparr>"
  obtain st9 where b: "round_body R now pick st0 = (st9, res)" and st': "st' = st9\<lparr>rs_round_in_flight := False\<rparr>"
    using r False by (auto simp: run_once_def st0_def [symmetric] Let_def split: prod.splits)
  obtain s l where l: "load_round R now (rs_fs st0) = (s, l)" by (cases "load_round R now (rs_fs st0)")
  define st1 where "st1 = st0\<lparr>rs_fs := s\<rparr>"
  have f1: "follows st st1"
    using load_round_effect(1) [OF _ _ l] ok it same_files_mono [of aux_paths _ _ UNIV] by (simp add: follows_def st1_def st0_def)
  have "follows st st9"
  proof (cases l)
    case (Inl e)
    then show ?thesis using b l f1 by (auto simp: round_body_def on_store_def st1_def)
  next
    case (Inr loaded)
    obtain entries claimed where loaded: "loaded = (entries, claimed)" by (cases loaded)
    define due where "due = filter (\<lambda>e. is_due e now \<and> qe_id e \<notin> set claimed) entries"
    obtain ts failed st2 where t: "round_tasks R now pick due st1 = (ts, failed, st2)" by (cases "round_tasks R now pick due st1")
    define policy where "policy = relay_policy_new (qc_managed_domains (rn_config R))"
    define permits where "permits = max (qc_relay_concurrency (rn_config R)) 1"
    obtain ts1 failed1 st1a where c: "claim_loop now policy due [] 0 st1 = (ts1, failed1, st1a)"
      by (cases "claim_loop now policy due [] 0 st1")
    obtain ts2 st1b where rt: "run_tasks R now permits pick 0 ts1 st1a = (ts2, st1b)"
      by (cases "run_tasks R now permits pick 0 ts1 st1a")
    have "st2 = warn_failures ts2 st1b"
      using t c rt unfolding round_tasks_def policy_def [symmetric] permits_def [symmetric] Let_def by auto
    then have fs2: "rs_fs st2 = rs_fs st1b" using warn_failures_quiet [of ts2 st1b] by simp
    have "follows st1 st1a" using claim_loop_effect [OF c] same_files_mono [of aux_paths _ _ UNIV] by (auto simp: follows_def)
    moreover have "follows st1a st1b" using follows.run_inv [OF run_tasks_steps [of R now permits ts1 st1a pick 0], of st1a] rt by simp
    ultimately have f2: "follows st st2" using f1 follows_trans follows_same_fs fs2 by metis
    obtain st3 h where 3: "on_store (save_health (rn_json R) (rs_health st2)) st2 = (st3, h)"
      by (cases "on_store (save_health (rn_json R) (rs_health st2)) st2")
    define st4 where "st4 = (if list_ex task_failed ts then log_event (Warned ''queue run had failures'') st3 else st3)"
    obtain st5 n where 5: "on_store store_len st4 = (st5, n)" by (cases "on_store store_len st4")
    have f3: "follows st st3" using follows_trans [OF f2 follows_store [OF touches_aux_all [OF touches_save_health] 3]] .
    then have "follows st st4" by (simp add: st4_def)
    then have f5: "follows st st5" using follows_trans follows_store [OF touches_store_len 5] by blast
    have "st9 = st3 \<or> st9 = st5"
      using b l Inr loaded t 3 5
      by (auto simp: round_body_def on_store_def [of "load_round R now"] st1_def [symmetric] due_def [symmetric] st4_def [symmetric] Let_def
          split: sum.splits)
    then show ?thesis using f3 f5 by blast
  qed
  then show ?thesis using st' by (simp add: follows_def)
qed


end
