(* ===== verification/Daemon.thy ===== *)
theory Daemon
  imports RunnerSafety
begin

text \<open>
  The queue side of the daemon (\<open>src/bin/mailstackd/src/queue.rs\<close>): \<open>build_runner\<close> puts the LMTP transport,
  the SMTP transport, the signer and the queue runner together, and \<open>schedule\<close> runs one round after
  the other. The properties here are those of the composed system.
\<close>

section \<open>The daemon's runner\<close>

text \<open>The outside world: LMTP connections and SMTP connections.\<close>

type_synonym world = "lmtp_world \<times> network"

definition on_lmtp :: "'a transport \<Rightarrow> ('a \<times> 'b) transport" where
  "on_lmtp deliver entry target recipients w =
     (let (x, r) = deliver entry target recipients (fst w) in ((x, snd w), r))"

definition on_network :: "'b transport \<Rightarrow> ('a \<times> 'b) transport" where
  "on_network deliver entry target recipients w =
     (let (x, r) = deliver entry target recipients (snd w) in ((fst w, x), r))"

record runtime_config =
  rc_mail_host :: string
  rc_queue_config :: queue_config
  rc_lmtp_endpoint :: lmtp_endpoint
  rc_relay_endpoint :: "relay_endpoint option"
  rc_allow_private_network :: bool

text \<open>What the daemon takes from the libraries and the system it runs on.\<close>

record environment =
  en_json :: json
  en_ids :: "nat \<Rightarrow> string"
  en_stamp :: "int \<Rightarrow> string"
  en_rng :: "nat \<Rightarrow> nat \<Rightarrow> nat \<Rightarrow> string"
  en_date :: "nat \<Rightarrow> date_time"
  en_iso :: "nat \<Rightarrow> string"
  en_show_store :: "store_error \<Rightarrow> string"
  en_show_smtp :: "smtp_error \<Rightarrow> string"
  en_mx :: "string \<Rightarrow> (smtp_error, mx_record list) result"
  en_lookup :: "string \<Rightarrow> nat \<Rightarrow> lookup_outcome"
  en_sign :: "string \<Rightarrow> signing_outcome"

definition runtime_address_policy :: "runtime_config \<Rightarrow> address_policy" where
  "runtime_address_policy config = (if rc_allow_private_network config then allow_private else public_only)"

definition remote_transport_of :: "environment \<Rightarrow> runtime_config \<Rightarrow> smtp_transport" where
  "remote_transport_of env config =
     \<lparr>tp_helo_name = rc_mail_host config,
      tp_credentials =
        (case rc_relay_endpoint config of
           Some endpoint \<Rightarrow> if has_credentials endpoint then Some (re_username endpoint, re_password endpoint) else None
         | None \<Rightarrow> None),
      tp_policy = runtime_address_policy config, tp_mx = Some (en_mx env), tp_direct_port = DIRECT_DELIVERY_PORT,
      tp_lookup_host = en_lookup env, tp_display = en_show_smtp env\<rparr>"

definition daemon_parts :: "environment \<Rightarrow> runtime_config \<Rightarrow> world runner" where
  "daemon_parts env config =
     \<lparr>rn_json = en_json env,
      rn_local = on_lmtp (lmtp_transport_deliver (en_show_store env)
                   \<lparr>lc_endpoint = rc_lmtp_endpoint config, lc_helo_name = rc_mail_host config\<rparr>),
      rn_remote = on_network (deliver_remote (remote_transport_of env config)),
      rn_config = rc_queue_config config, rn_relay = rc_relay_endpoint config,
      rn_ids = en_ids env, rn_stamp = en_stamp env, rn_rng = en_rng env, rn_date = en_date env, rn_iso = en_iso env\<rparr>"

definition build_runner :: "environment \<Rightarrow> runtime_config \<Rightarrow> fs \<Rightarrow> world \<Rightarrow> world runner \<times> world run_state" where
  "build_runner env config s w = runner_new (daemon_parts env config) (en_sign env) s w"

text \<open>The ticks on which the previous round has ended; the others are skipped.\<close>

fun schedule :: "world runner \<Rightarrow> (int \<times> (nat \<Rightarrow> nat)) list \<Rightarrow> world run_state \<Rightarrow> world run_state" where
  "schedule R [] st = st"
| "schedule R ((now, pick) # ticks) st = schedule R ticks (fst (run_once R now pick st))"


section \<open>The transports are lawful\<close>

context transport
begin

lemma on_lmtp_lawful: "transport (on_lmtp deliver)"
  using accepted_sub receipt_all by unfold_locales (auto simp: on_lmtp_def split: prod.splits)

lemma on_network_lawful: "transport (on_network deliver)"
  using accepted_sub receipt_all by unfold_locales (auto simp: on_network_def split: prod.splits)

end

lemma build_runner_fields:
  assumes "build_runner env config s w = (R, st)"
  shows "rn_json R = en_json env" and "rn_ids R = en_ids env"
    and "rn_local R = on_lmtp (lmtp_transport_deliver (en_show_store env) \<lparr>lc_endpoint = rc_lmtp_endpoint config, lc_helo_name = rc_mail_host config\<rparr>)"
    and "rn_remote R = signing_deliver (on_network (deliver_remote (remote_transport_of env config))) (en_sign env)"
    and "rs_drawn st = 0" and "same_files {} s (rs_fs st)"
proof -
  obtain t h where t: "load_health (en_json env) s = (t, h)" by (cases "load_health (en_json env) s")
  have "touches {} (load_health (en_json env))"
    using touches_ops(2) [of "{}" health_path] by (auto simp: touches_def load_health_def split: prod.splits sum.splits) (metis fst_conv)+
  from touchesD [OF this t] show "same_files {} s (rs_fs st)"
    using assms t by (auto simp: build_runner_def runner_new_def daemon_parts_def Let_def)
  show "rn_json R = en_json env" "rn_ids R = en_ids env"
    "rn_local R = on_lmtp (lmtp_transport_deliver (en_show_store env) \<lparr>lc_endpoint = rc_lmtp_endpoint config, lc_helo_name = rc_mail_host config\<rparr>)"
    "rn_remote R = signing_deliver (on_network (deliver_remote (remote_transport_of env config))) (en_sign env)" "rs_drawn st = 0"
    using assms t by (auto simp: build_runner_def runner_new_def daemon_parts_def Let_def)
qed

interpretation daemon: queue_runner "fst (build_runner env config s w)" for env config s w
proof (rule queue_runner.intro)
  obtain R st where R: "build_runner env config s w = (R, st)" by (cases "build_runner env config s w")
  note f = build_runner_fields [OF R]
  show "transport (rn_local (fst (build_runner env config s w)))"
    unfolding R fst_conv f(3) by (rule local.on_lmtp_lawful)
  have "signed_transport (on_network (deliver_remote (remote_transport_of env config)) :: world transport)"
    by (simp add: signed_transport_def remote.on_network_lawful)
  note signed = signed_transport.signing_accepted_sub [OF this] signed_transport.signing_receipt_all [OF this]
  show "transport (rn_remote (fst (build_runner env config s w)))"
    unfolding R fst_conv f(4) using signed by (intro transport.intro)
qed


section \<open>Rounds of the daemon\<close>

text \<open>
  How the daemon starts: the queue directory holds valid entries, a directory listing has each file
  once, serde reads back what it wrote, and no identifier that will be drawn is drawn twice or in use.
\<close>

definition daemon_starts :: "environment \<Rightarrow> runtime_config \<Rightarrow> fs \<Rightarrow> world \<Rightarrow> world runner \<Rightarrow> world run_state \<Rightarrow> bool" where
  "daemon_starts env config s w R st \<longleftrightarrow>
     build_runner env config s w = (R, st) \<and> json_ok (en_json env) \<and> inj (en_ids env) \<and>
     store_ok (en_json env) s \<and> iterates (fs_order s) \<and> (\<forall>k. queue_of (en_json env) s (en_ids env k) = None)"

lemma daemon_starts_ready:
  assumes "daemon_starts env config s w R st"
  shows "run_ready R st" and "iterates (fs_order (rs_fs st))" and "queue R st = queue_of (en_json env) s"
    and "R = fst (build_runner env config s w)"
proof -
  have R: "build_runner env config s w = (R, st)" using assms by (simp add: daemon_starts_def)
  note f = build_runner_fields [OF R]
  note same = same_files_none [OF f(6), of aux_paths]
  show q: "queue R st = queue_of (en_json env) s" using aux_queue_of [OF same] by (simp add: f)
  show "run_ready R st"
    using assms aux_store_ok [OF same] q by (simp add: run_ready_def daemon_starts_def f)
  show "iterates (fs_order (rs_fs st))" using iterates_same [OF f(6)] assms by (simp add: daemon_starts_def)
  show "R = fst (build_runner env config s w)" using R by simp
qed

lemma daemon_round:
  assumes "R = fst (build_runner env config s w)" and "run_ready R st" and "iterates (fs_order (rs_fs st))"
    and "run_once R now pick st = (st', res)"
  shows "daemon.round_result env config s w (queue R st) st'" and "run_ready R st'" and "iterates (fs_order (rs_fs st'))"
proof -
  show res: "daemon.round_result env config s w (queue R st) st'"
    using daemon.run_once_result [of env config s w st now pick st' res] assms by simp
  then show "run_ready R st'" using assms(1) by (simp add: daemon.round_result_def)
  have "follows st st'" using run_once_follows [OF assms(4) _ assms(3)] assms(2) by (simp add: run_ready_def)
  then show "iterates (fs_order (rs_fs st'))" using iterates_same assms(3) by (auto simp: follows_def)
qed

lemma schedule_ready:
  assumes "R = fst (build_runner env config s w)"
  shows "run_ready R st \<Longrightarrow> iterates (fs_order (rs_fs st)) \<Longrightarrow>
    run_ready R (schedule R ticks st) \<and> iterates (fs_order (rs_fs (schedule R ticks st)))"
proof (induction ticks arbitrary: st)
  case (Cons tick ticks)
  obtain now pick where tick: "tick = (now, pick)" by (cases tick)
  from Cons.IH [OF daemon_round(2,3) [OF assms Cons.prems surjective_pairing], of now pick] show ?case by (simp add: tick)
qed simp

lemma schedule_after:
  assumes "daemon_starts env config s w R st0"
  shows "run_ready R (schedule R ticks st0) \<and> iterates (fs_order (rs_fs (schedule R ticks st0)))"
  using assms by (intro schedule_ready [OF daemon_starts_ready(4)] daemon_starts_ready(1,2))



text \<open>
  \<^bold>\<open>C23\<close> (type of the queue, no bounce loops). After any number of rounds the queue directory holds only
  valid entries, each under its own identifier, and each of them is an entry the daemon started with,
  with the same message and sender and some of its recipients, or a bounce with the null sender. A
  bounce never gives rise to another bounce.
\<close>

theorem queue_stays_typed:
  assumes "daemon_starts env config s w R st0" and "queue R (schedule R ticks st0) i = Some d"
  shows "qe_id d = i \<and> entry_ok d \<and>
    ((\<exists>e. queue_of (en_json env) s i = Some e \<and> version_of e d) \<or> qe_kind d = Bounce \<and> is_null_sender d)"
proof -
  let ?R = "fst (build_runner env config s w)"
  have R: "R = ?R" using daemon_starts_ready(4) [OF assms(1)] .
  define typed where "typed st \<longleftrightarrow> (\<forall>i d. queue R st i = Some d \<longrightarrow>
      (\<exists>e. queue_of (en_json env) s i = Some e \<and> version_of e d) \<or> qe_kind d = Bounce \<and> is_null_sender d)" for st
  have step: "typed (fst (run_once R now pick st))" if st: "typed st" "run_ready R st" "iterates (fs_order (rs_fs st))" for st now pick
  proof -
    obtain st' res where run: "run_once R now pick st = (st', res)" by (cases "run_once R now pick st")
    note rr = daemon_round(1) [OF R st(2,3) run, folded R]
    have "(\<exists>e. queue_of (en_json env) s i = Some e \<and> version_of e d) \<or> qe_kind d = Bounce \<and> is_null_sender d"
      if "queue R st' i = Some d" for i d
    proof (cases "queue R st i")
      case None
      then show ?thesis using rr that R by (auto simp: daemon.round_result_def reports_def)
    next
      case (Some e)
      then have v: "version_of e d" using rr that R by (simp add: daemon.round_result_def)
      from Some st(1) have "(\<exists>e0. queue_of (en_json env) s i = Some e0 \<and> version_of e0 e) \<or> qe_kind e = Bounce \<and> is_null_sender e"
        by (simp add: typed_def)
      moreover have "qe_kind d = qe_kind e" "is_null_sender d = is_null_sender e"
        using v version_of_sender(2) [OF v] by (simp_all add: version_of_def)
      ultimately show ?thesis using v version_of_trans by metis
    qed
    then show ?thesis by (simp add: typed_def run)
  qed
  have "typed st \<Longrightarrow> run_ready R st \<Longrightarrow> iterates (fs_order (rs_fs st)) \<Longrightarrow> typed (schedule R ticks st)" for st
  proof (induction ticks arbitrary: st)
    case (Cons tick ticks)
    obtain now pick where tick: "tick = (now, pick)" by (cases tick)
    from Cons.IH [OF step [OF Cons.prems] daemon_round(2,3) [OF R Cons.prems(2,3) surjective_pairing], of now pick]
    show ?case by (simp add: tick)
  qed simp
  moreover have "typed st0" using daemon_starts_ready(3) [OF assms(1)] by (auto simp: typed_def)
  ultimately have "typed (schedule R ticks st0)" using daemon_starts_ready [OF assms(1)] by blast
  moreover have "qe_id d = i \<and> entry_ok d"
    using queue_of_id [OF _ assms(2)] schedule_after [OF assms(1)] by (simp add: run_ready_def)
  ultimately show ?thesis using assms(2) by (auto simp: typed_def)
qed


section \<open>A daemon with one message\<close>

definition sample_environment :: environment where
  "sample_environment =
     \<lparr>en_json = sample_json, en_ids = (\<lambda>k. replicate (Suc k) (CHR ''z'')), en_stamp = (\<lambda>_. []), en_rng = (\<lambda>_. sample_rng),
      en_date = (\<lambda>_. sample_now), en_iso = (\<lambda>_. []), en_show_store = store_error_kind, en_show_smtp = smtp_error_kind,
      en_mx = (\<lambda>_. Inl InvalidEndpoint), en_lookup = (\<lambda>_ _. LookedUp []), en_sign = (\<lambda>_. NotApplicable)\<rparr>"

definition sample_runtime :: runtime_config where
  "sample_runtime =
     \<lparr>rc_mail_host = ''mx'', rc_queue_config = queue_config_default\<lparr>qc_managed_domains := [''y.org'']\<rparr>,
      rc_lmtp_endpoint = default_unix, rc_relay_endpoint = None, rc_allow_private_network = False\<rparr>"

definition sample_queue :: fs where
  "sample_queue = fst (enqueue sample_json stored_entry empty_fs)"

definition sample_daemon :: "world runner \<times> world run_state" where
  "sample_daemon = build_runner sample_environment sample_runtime sample_queue (sample_world, sample_network)"

lemma sample_queue_of:
  "queue_of sample_json sample_queue = [''A1'' \<mapsto> stored_entry]" "store_ok sample_json sample_queue" "iterates (fs_order sample_queue)"
proof -
  have "snd (run_op sample_json (OpEnqueue stored_entry) empty_fs)" by code_simp
  then show "queue_of sample_json sample_queue = [''A1'' \<mapsto> stored_entry]" "store_ok sample_json sample_queue" "iterates (fs_order sample_queue)"
    using run_op_refines [OF sample_json_ok empty_store_ok(1,2), of "OpEnqueue stored_entry"]
    by (simp_all add: sample_queue_def empty_store_ok stored_entry_def)
qed

lemma sample_daemon_starts:
  "daemon_starts sample_environment sample_runtime sample_queue (sample_world, sample_network) (fst sample_daemon) (snd sample_daemon)"
proof -
  have "inj (\<lambda>k. replicate (Suc k) (CHR ''z''))" by (rule injI) (metis length_replicate Suc_inject)
  moreover have "replicate (Suc k) (CHR ''z'') \<noteq> ''A1''" for k by simp
  ultimately show ?thesis
    using sample_queue_of sample_json_ok by (simp add: daemon_starts_def sample_daemon_def sample_environment_def)
qed

lemma sample_daemon_queue: "queue (fst sample_daemon) (snd sample_daemon) ''A1'' = Some stored_entry"
  using daemon_starts_ready(3) [OF sample_daemon_starts] sample_queue_of(1) by (simp add: sample_environment_def)


theorem queue_stays_typed_witness: "entry_ok stored_entry \<and> qe_id stored_entry = ''A1''"
  using queue_stays_typed [OF sample_daemon_starts, where ticks = "[]", unfolded schedule.simps, OF sample_daemon_queue] by simp

lemma load_round_loads:
  assumes "store_ok (rn_json R) s" and "iterates (fs_order s)" and "faultless s"
    and "entries_dir \<in> set (fs_dirs s)" and "claims_dir \<notin> set (fs_dirs s)"
  shows "\<exists>t es claimed. load_round R now s = (t, Inr (es, claimed))"
proof -
  let ?s = "\<lambda>n. s\<lparr>fs_ops := n + fs_ops s\<rparr>"
  have 1: "prune_claims now s = (?s 1, Inr 0)"
    using assms(3,5) by (simp add: prune_claims_def dir_exists_def fs_tick_def faultless_def)
  have 2: "claimed_ids now (?s 1) = (?s 2, Inr [])"
    using assms(3,5) by (simp add: claimed_ids_def dir_exists_def fs_tick_def faultless_def)
  have "same_files {} s (?s 2)" by (simp add: same_files_def)
  then have "store_ok (rn_json R) (?s 2)" "iterates (fs_order (?s 2))" "faultless (?s 2)"
    using aux_store_ok [OF same_files_none] iterates_same faultless_same assms by blast+
  from load_entries_result(4) [OF this(1,2) classify_due_classifies _ this(3), of now "fst (load_due (rn_json R) now (?s 2))"
      "snd (load_due (rn_json R) now (?s 2))"] assms(4)
  obtain es where "snd (load_due (rn_json R) now (?s 2)) = Inr es" by (auto simp: load_due_def)
  then show ?thesis using 1 2 by (cases "load_due (rn_json R) now (?s 2)") (simp add: load_round_def io_bind_def io_return_def)
qed


end
