(* ===== verification/Inbound.thy ===== *)
theory Inbound
  imports Listener Sink Daemon
begin

text \<open>
  Inbound mail from the connection to the queue and on to the delivery rounds. The locale
  \<open>message_sink\<close> is what the SMTP server (\<open>MessageSink\<close> in \<open>src/crates/smtpd/src/connection.rs\<close>) relies
  on: a message that is accepted is stored, a message that is refused changes nothing and is answered
  with an error code. It is interpreted on the queue sink of \<open>src/crates/smtpd/src/sink.rs\<close>. The
  properties compose the listener, the session, the sink, the queue directory and the queue runner.
\<close>

locale message_sink =
  fixes accept :: "'k \<Rightarrow> accepted_message \<Rightarrow> socket_addr \<Rightarrow> 'k \<times> (reply, unit) result"
    and valid :: "'k \<Rightarrow> bool"
    and view :: "'k \<Rightarrow> string \<rightharpoonup> queue_entry"
    and stored_as :: "accepted_message \<Rightarrow> socket_addr \<Rightarrow> queue_entry \<Rightarrow> bool"
  assumes accept_valid: "valid k \<Longrightarrow> accept k m p = (k', r) \<Longrightarrow> valid k'"
    and accept_stored: "valid k \<Longrightarrow> accept k m p = (k', Inr u) \<Longrightarrow>
      \<exists>e. stored_as m p e \<and> view k (qe_id e) = None \<and> view k' = (view k)(qe_id e \<mapsto> e)"
    and accept_refused: "valid k \<Longrightarrow> accept k m p = (k', Inl rejection) \<Longrightarrow> view k' = view k \<and> 400 \<le> r_code rejection"
begin

text \<open>Messages with \<open>P\<close> add entries made of such messages and change no other entry.\<close>

definition grows :: "(accepted_message \<Rightarrow> bool) \<Rightarrow> socket_addr \<Rightarrow> 'k \<Rightarrow> 'k \<Rightarrow> bool" where
  "grows P peer k k' \<longleftrightarrow>
     valid k' \<and> (\<forall>i e. view k i = Some e \<longrightarrow> view k' i = Some e) \<and>
     (\<forall>i e. view k' i = Some e \<longrightarrow> view k i = Some e \<or> view k i = None \<and> qe_id e = i \<and> (\<exists>m. P m \<and> stored_as m peer e))"

lemma grows_accept:
  assumes "valid k" and "P m" and "accept k m peer = (k', r)"
  shows "grows P peer k k'"
proof (cases r)
  case (Inl x)
  with assms accept_valid [OF assms(1,3)] accept_refused [of k m peer k' x] show ?thesis by (simp add: grows_def)
next
  case (Inr y)
  with assms accept_stored [of k m peer k' y] obtain e where
    e: "stored_as m peer e" "view k (qe_id e) = None" "view k' = (view k)(qe_id e \<mapsto> e)" by auto
  then show ?thesis using assms accept_valid [OF assms(1,3)] by (auto simp: grows_def)
qed

lemma grows_trans:
  assumes "grows P peer k k1" and "grows P peer k1 k2"
  shows "grows P peer k k2"
proof -
  have "view k i = Some e \<or> view k i = None \<and> qe_id e = i \<and> (\<exists>m. P m \<and> stored_as m peer e)" if "view k2 i = Some e" for i e
  proof (cases "view k1 i = Some e")
    case True
    then show ?thesis using assms(1) by (simp add: grows_def)
  next
    case False
    then have new: "view k1 i = None" "qe_id e = i" "\<exists>m. P m \<and> stored_as m peer e" using assms(2) that by (auto simp: grows_def)
    have "view k i = None" using assms(1) new(1) by (cases "view k i") (auto simp: grows_def)
    with new show ?thesis by simp
  qed
  then show ?thesis using assms by (simp add: grows_def)
qed

lemma sink_steps_grow:
  assumes "ce_sink env = accept" and "valid k" and "(sink_step env P)\<^sup>*\<^sup>* k k'"
  shows "grows P (ce_peer env) k k'"
  using assms(3)
proof (induction rule: rtranclp_induct)
  case base
  then show ?case using assms(2) by (simp add: grows_def)
next
  case (step k1 k2)
  then obtain m where "P m" "k2 = fst (accept k1 m (ce_peer env))" by (auto simp: sink_step_def assms(1))
  then have "grows P (ce_peer env) k1 k2"
    using grows_accept [of k1 P m "ce_peer env" k2] step.IH by (metis grows_def prod.collapse)
  with step.IH show ?case by (rule grows_trans)
qed

lemma hand_over_verdict:
  assumes "ce_sink env = accept" and "valid (cn_sink c)" and "finish_data (cn_session c) data = (s1, ok, Some m)"
    and "hand_over env c data = (c2, Inr ())"
  shows "(\<exists>e. stored_as m (ce_peer env) e \<and> view (cn_sink c) (qe_id e) = None \<and>
            view (cn_sink c2) = (view (cn_sink c))(qe_id e \<mapsto> e) \<and> cn_out c2 = cn_out c @ [render ok]) \<or>
         (\<exists>rejection. 400 \<le> r_code rejection \<and> view (cn_sink c2) = view (cn_sink c) \<and> cn_out c2 = cn_out c @ [render rejection])"
proof -
  obtain k r where k: "accept (cn_sink c) m (ce_peer env) = (k, r)" by (cases "accept (cn_sink c) m (ce_peer env)")
  have c2: "cn_sink c2 = k" "cn_out c2 = cn_out c @ [render (case r of Inr _ \<Rightarrow> ok | Inl rejection \<Rightarrow> rejection)]"
    using assms(4) unfolding hand_over_def assms(3) by (auto simp: assms(1) k reply_then_def write_reply_def Let_def split: if_splits)
  show ?thesis
  proof (cases r)
    case (Inl x)
    with accept_refused [of "cn_sink c" m "ce_peer env" k x] assms(2) k c2 show ?thesis by auto
  next
    case (Inr y)
    with accept_stored [of "cn_sink c" m "ce_peer env" k y] assms(2) k c2 show ?thesis by auto
  qed
qed

end

lemma sink_refusal_code: "sink_handle S st m peer = (st', Inl rejection) \<Longrightarrow> 400 \<le> r_code rejection"
  by (auto simp: sink_handle_def trace_headers_def store_message_def Let_def with_enhanced_def
      split: if_splits sum.splits option.splits prod.splits)

interpretation queue_sink: message_sink "sink_handle S" "sink_ready S" "sink_queue S" "\<lambda>m peer e. \<exists>now. entry_of S m peer now e" for S
proof (unfold_locales, goal_cases)
  case (1 k m p k' r)
  then show ?case using sink_handle_effect by blast
next
  case (2 k m p k' u)
  then show ?case using sink_handle_effect [of S k m p k' "Inr u"] by auto
next
  case (3 k m p k' rejection)
  then show ?case using sink_handle_effect [of S k m p k' "Inl rejection"] sink_refusal_code by auto
qed

section \<open>Properties\<close>

text \<open>
  \<^bold>\<open>C2\<close> (the queue holds only permitted mail). Whatever a peer sends over a connection, before and after
  a TLS upgrade, and whatever the authenticator, DNS, the disk and the clock do: every entry of the
  queue stays as it was, and every new entry was made of a message that respects the relay policy and
  the limits of the listener (recipients distinct, bounded in number and local unless the sender
  authenticated over TLS; authentication where the listener requires it), with exactly the sender,
  the recipients and the text of that message behind the trace headers of this host.
\<close>

theorem connection_queues_permitted_mail:
  assumes "ce_sink env = sink_handle S" and "sink_ready S (ln_sink srv)"
    and "handle_connection rnd riter biter env srv now later hs segs = (srv1, refused)"
  shows "sink_ready S (ln_sink srv1) \<and>
    (\<forall>i e. sink_queue S (ln_sink srv) i = Some e \<longrightarrow> sink_queue S (ln_sink srv1) i = Some e) \<and>
    (\<forall>i e. sink_queue S (ln_sink srv1) i = Some e \<longrightarrow>
       sink_queue S (ln_sink srv) i = Some e \<or>
       sink_queue S (ln_sink srv) i = None \<and> qe_id e = i \<and>
       (\<exists>m. message_ok (connection_config srv) (ln_relay srv) (connection_directory srv) m \<and>
            (\<exists>t. entry_of S m (ce_peer env) t e)))"
  using queue_sink.sink_steps_grow [OF assms(1,2) handle_connection_sink [OF assms(3)]]
  by (simp add: queue_sink.grows_def)


section \<open>Samples\<close>

text \<open>A queue with one entry, and a connection on which a client sends mail through STARTTLS.\<close>

definition inbound_env :: "sink_state conn_env" where
  "inbound_env =
     \<lparr>ce_peer = sample_sink_peer, ce_write_ok = (\<lambda>_. True), ce_auth = (\<lambda>_ _. InvalidCredentials),
      ce_sink = sink_handle sample_sink, ce_active = (\<lambda>_. 0)\<rparr>"

definition inbound_listener :: "sink_state listener" where
  "inbound_listener =
     \<lparr>ln_config = sample_config, ln_relay = sample_relay, ln_recipients = None, ln_has_acceptor = True,
      ln_tls_mode = ModeStartTls, ln_rate = rate_limiter_new sample_rate, ln_bans = sample_bans, ln_sink = sample_sink_after\<rparr>"

lemma sample_sink_queue:
  obtains e where "sink_queue sample_sink sample_sink_after = [qe_id e \<mapsto> e]" "sink_ready sample_sink sample_sink_after"
    "entry_of sample_sink sample_message sample_sink_peer 0 e"
proof -
  have empty: "sink_queue sample_sink sample_sink_state = Map.empty" by (simp add: sample_sink_state_def empty_store_ok)
  have "qs_now_millis sample_sink (sk_drawn sample_sink_state) sdiv 1000 = 0" by (simp add: sample_sink_def)
  with sink_handle_effect [OF sample_sink_ready sample_accepted] empty that show thesis by auto
qed

theorem connection_queues_permitted_mail_witness:
  "\<exists>i e. sink_queue sample_sink sample_sink_after i = Some e \<and>
     sink_queue sample_sink (ln_sink (fst (handle_connection (\<lambda>x. x) (\<lambda>m. m) (\<lambda>m. m) inbound_env inbound_listener 5000 6000 True sample_segments))) i = Some e"
proof -
  obtain e where e: "sink_queue sample_sink sample_sink_after = [qe_id e \<mapsto> e]" "sink_ready sample_sink sample_sink_after"
    by (rule sample_sink_queue)
  have "ce_sink inbound_env = sink_handle sample_sink" "ln_sink inbound_listener = sample_sink_after"
    by (simp_all add: inbound_env_def inbound_listener_def)
  with connection_queues_permitted_mail [of inbound_env sample_sink inbound_listener "\<lambda>x. x" "\<lambda>m. m" "\<lambda>m. m" 5000 6000 True sample_segments,
      OF _ _ surjective_pairing] e show ?thesis by (intro exI [of _ "qe_id e"] exI [of _ e]) simp
qed

text \<open>The client has sent its message and the final dot.\<close>

definition inbound_conn :: "sink_state conn" where
  "inbound_conn =
     conn_start [] ((with_recipients sample_config sample_relay any_recipient)\<lparr>se_mail_from := Some ''a@x.org'',
       se_recipients := [''b@y.org''], se_helo := Some ''c'', se_role := Submission, se_authenticated := True, se_tls_active := True\<rparr>)
     sample_sink_state"

definition inbound_environment :: environment where
  "inbound_environment = sample_environment\<lparr>en_json := qs_json sample_sink\<rparr>"

lemma sink_handle_same:
  "sink_handle S st m peer = (st', r) \<Longrightarrow> same_files UNIV (sk_fs st) (sk_fs st')"
  by (auto simp: sink_handle_def store_message_def Let_def dest: enqueue_new_same split: if_splits sum.splits prod.splits)

lemma inbound_daemon_starts:
  "daemon_starts inbound_environment sample_runtime (sk_fs sample_sink_after) (sample_world, sample_network)
     (fst (build_runner inbound_environment sample_runtime (sk_fs sample_sink_after) (sample_world, sample_network)))
     (snd (build_runner inbound_environment sample_runtime (sk_fs sample_sink_after) (sample_world, sample_network)))"
proof -
  obtain e where e: "sink_queue sample_sink sample_sink_after = [qe_id e \<mapsto> e]" "sink_ready sample_sink sample_sink_after"
    by (rule sample_sink_queue)
  have "inj (\<lambda>k. replicate (Suc k) (CHR ''z''))" by (rule injI) (metis length_replicate Suc_inject)
  moreover have "sink_queue sample_sink sample_sink_after (qe_id e) = Some e" using e(1) by simp
  then have "e = sample_sink_entry" by (auto simp: queue_of_def sample_sink_def split: if_splits option.splits)
  then have "qe_id e = ''0''" by (simp add: sample_sink_entry_def)
  then have "replicate (Suc k) (CHR ''z'') \<noteq> qe_id e" for k by simp
  moreover have "iterates (fs_order (sk_fs sample_sink_after))"
    using iterates_same [OF sink_handle_same [OF sample_accepted]] by (simp add: sample_sink_state_def empty_store_ok)
  ultimately show ?thesis
    using e by (simp add: daemon_starts_def inbound_environment_def sample_environment_def sink_ready_def)
qed


end
