(* ===== verification/LineIo.thy ===== *)
theory LineIo
  imports Prelude
begin

text \<open>
  Line input of the IMAP, POP3 and LMTP servers (\<open>src/crates/imappop3/src/lineio.rs\<close>, without the
  DEFLATE layer that only IMAP turns on) and the errors of that crate
  (\<open>src/crates/imappop3/src/error.rs\<close>). A stream is the list of what its reads return; the end of the
  list, like an empty chunk, is the end of the stream. The timeout that the sessions put around
  \<open>read_line\<close> is one of the outcomes.
\<close>

datatype mail_error =
    MailIo
  | MailInvalid string
  | MailProtocol string
  | MailNotFound string
  | MailAlreadyExists string
  | MailStorage string
  | MailQuotaExceeded string
  | MailAuthBackend string
  | MailConfig string
  | MailTimeout

fun mail_error_kind :: "mail_error \<Rightarrow> string" where
  "mail_error_kind MailIo = ''IoError''"
| "mail_error_kind (MailInvalid _) = ''InvalidInput''"
| "mail_error_kind (MailProtocol _) = ''ProtocolError''"
| "mail_error_kind (MailNotFound _) = ''NotFound''"
| "mail_error_kind (MailAlreadyExists _) = ''AlreadyExists''"
| "mail_error_kind (MailStorage _) = ''StorageError''"
| "mail_error_kind (MailQuotaExceeded _) = ''QuotaExceeded''"
| "mail_error_kind (MailAuthBackend _) = ''AuthError''"
| "mail_error_kind (MailConfig _) = ''ConfigError''"
| "mail_error_kind MailTimeout = ''Timeout''"

fun is_server_error :: "mail_error \<Rightarrow> bool" where
  "is_server_error MailIo = True"
| "is_server_error (MailStorage _) = True"
| "is_server_error (MailAuthBackend _) = True"
| "is_server_error _ = False"

definition READ_CHUNK :: nat where "READ_CHUNK = 4096"

datatype line_read = GotLine string | LineEof | LineFailed mail_error | LineTimedOut

definition line_too_long :: "nat \<Rightarrow> mail_error" where
  "line_too_long limit = MailProtocol (''line exceeds '' @ nat_to_string limit @ '' bytes'')"

definition drop_cr :: "string \<Rightarrow> string" where
  "drop_cr line = (if line \<noteq> [] \<and> last line = CR then butlast line else line)"

definition at_eof :: "string \<Rightarrow> line_read" where
  "at_eof buffer = (if buffer = [] then LineEof else GotLine (drop_cr buffer))"

fun io_read_line :: "nat \<Rightarrow> string \<Rightarrow> read_event list \<Rightarrow> (string \<times> read_event list) \<times> line_read" where
  "io_read_line limit buffer [] =
     (case split_once LF buffer of
        Some (pre, rest) \<Rightarrow>
          if length (drop_cr pre) > limit then (([], []), LineFailed (line_too_long limit)) else ((rest, []), GotLine (drop_cr pre))
      | None \<Rightarrow>
          if length buffer > limit then (([], []), LineFailed (line_too_long limit)) else (([], []), at_eof buffer))"
| "io_read_line limit buffer (ev # evs) =
     (case split_once LF buffer of
        Some (pre, rest) \<Rightarrow>
          if length (drop_cr pre) > limit then (([], ev # evs), LineFailed (line_too_long limit))
          else ((rest, ev # evs), GotLine (drop_cr pre))
      | None \<Rightarrow>
          if length buffer > limit then (([], ev # evs), LineFailed (line_too_long limit))
          else
            (case ev of
               ReadError \<Rightarrow> ((buffer, evs), LineFailed MailIo)
             | ReadTimeout \<Rightarrow> ((buffer, evs), LineTimedOut)
             | Chunk chunk \<Rightarrow>
                 if chunk = [] then (([], evs), at_eof buffer)
                 else if length (buffer @ chunk) > limit + READ_CHUNK then (([], evs), LineFailed (line_too_long limit))
                 else io_read_line limit (buffer @ chunk) evs))"

section \<open>Consumption\<close>

fun event_len :: "read_event \<Rightarrow> nat" where
  "event_len (Chunk c) = Suc (length c)"
| "event_len _ = 1"

definition stream_left :: "string \<Rightarrow> read_event list \<Rightarrow> nat" where
  "stream_left buffer evs = length buffer + sum_list (map event_len evs)"

lemma split_once_length: "split_once d s = Some (pre, rest) \<Longrightarrow> length s = Suc (length pre + length rest)"
  by (auto simp: split_once_Some)

lemma io_read_line_left:
  "io_read_line limit buffer evs = ((buffer', evs'), r) \<Longrightarrow>
   stream_left buffer' evs' \<le> stream_left buffer evs \<and> (\<forall>l. r = GotLine l \<longrightarrow> stream_left buffer' evs' < stream_left buffer evs)"
proof (induction limit buffer evs rule: io_read_line.induct)
  case (1 limit buffer)
  then show ?case
    by (auto simp: stream_left_def at_eof_def dest: split_once_length split: option.splits if_splits)
next
  case (2 limit buffer ev evs)
  show ?case
  proof (cases "split_once LF buffer")
    case (Some pr)
    then show ?thesis using 2(2) split_once_length by (cases pr) (fastforce simp: stream_left_def split: if_splits)
  next
    case None
    show ?thesis
    proof (cases ev)
      case (Chunk chunk)
      show ?thesis
      proof (cases "length buffer \<le> limit \<and> chunk \<noteq> [] \<and> length (buffer @ chunk) \<le> limit + READ_CHUNK")
        case True
        then have "io_read_line limit (buffer @ chunk) evs = ((buffer', evs'), r)" using 2(2) None Chunk by simp
        from 2(1) [OF None _ Chunk _ _ this] True show ?thesis by (auto simp: stream_left_def Chunk)
      next
        case False
        then show ?thesis using 2(2) None Chunk by (auto simp: stream_left_def at_eof_def split: if_splits)
      qed
    qed (use 2(2) None in \<open>auto simp: stream_left_def split: if_splits\<close>)
  qed
qed

section \<open>Lines\<close>

text \<open>The bytes that reads deliver before an error, a timeout or the end.\<close>

fun delivered_bytes :: "read_event list \<Rightarrow> string" where
  "delivered_bytes (Chunk c # evs) = (if c = [] then [] else c @ delivered_bytes evs)"
| "delivered_bytes _ = []"

text \<open>However the stream is cut into chunks, a terminated line within the limit is read whole.\<close>

lemma drop_cr_CR [simp]: "drop_cr (l @ [CR]) = l"
  by (simp add: drop_cr_def)

lemma split_once_append: "d \<notin> set pre \<Longrightarrow> split_once d (pre @ d # rest) = Some (pre, rest)"
  by (simp add: split_once_Some)

lemma io_read_line_whole:
  assumes "buffer @ delivered_bytes evs = l @ CRLF @ rest" and "LF \<notin> set l" and "Suc (length l) \<le> limit"
    and "\<forall>c. Chunk c \<in> set evs \<longrightarrow> length c \<le> READ_CHUNK"
  shows "\<exists>buffer' evs'. io_read_line limit buffer evs = ((buffer', evs'), GotLine l) \<and>
     buffer' @ delivered_bytes evs' = rest \<and> set evs' \<subseteq> set evs"
  using assms
proof (induction evs arbitrary: buffer)
  case Nil
  have "split_once LF buffer = Some (l @ [CR], rest)"
    using Nil.prems(1,2) split_once_append [of LF "l @ [CR]" rest] by simp
  with Nil.prems show ?case by simp
next
  case (Cons ev evs)
  show ?case
  proof (cases "split_once LF buffer")
    case (Some pr)
    then obtain pre b where pr: "split_once LF buffer = Some (pre, b)" by (cases pr) auto
    then have "buffer = pre @ LF # b" "LF \<notin> set pre" by (simp_all add: split_once_Some)
    then have "(pre @ LF # b) @ delivered_bytes (ev # evs) = (l @ [CR]) @ LF # rest" using Cons.prems(1) by simp
    then have "split_once LF (pre @ LF # b @ delivered_bytes (ev # evs)) = split_once LF ((l @ [CR]) @ LF # rest)" by simp
    then have "pre = l @ [CR]" "b @ delivered_bytes (ev # evs) = rest"
      using split_once_append [OF \<open>LF \<notin> set pre\<close>] split_once_append [of LF "l @ [CR]" rest] Cons.prems(2) by simp_all
    with pr Cons.prems(3) show ?thesis by auto
  next
    case None
    then have no: "LF \<notin> set buffer" by (simp add: split_once_None)
    have "length buffer \<le> Suc (length l)"
    proof (rule ccontr)
      assume "\<not> length buffer \<le> Suc (length l)"
      then have "buffer ! Suc (length l) = LF"
        using Cons.prems(1) by (metis (no_types, lifting) append.assoc append_Cons append_Nil length_append_singleton not_le nth_append nth_append_length)
      then show False using no \<open>\<not> length buffer \<le> Suc (length l)\<close> by (metis not_le nth_mem)
    qed
    then have len: "length buffer \<le> limit" using Cons.prems(3) by simp
    have "delivered_bytes (ev # evs) \<noteq> []"
    proof
      assume "delivered_bytes (ev # evs) = []"
      then have "buffer = l @ CRLF @ rest" using Cons.prems(1) by simp
      with no show False by simp
    qed
    then obtain c where c: "ev = Chunk c" "c \<noteq> []" by (cases "ev # evs" rule: delivered_bytes.cases) (auto split: if_splits)
    have "length c \<le> READ_CHUNK" using Cons.prems(4) c by simp
    then have "io_read_line limit buffer (ev # evs) = io_read_line limit (buffer @ c) evs" using None len c by simp
    moreover have "(buffer @ c) @ delivered_bytes evs = l @ CRLF @ rest" using Cons.prems(1) c by simp
    ultimately show ?thesis using Cons.IH [of "buffer @ c"] Cons.prems(2-4) by fastforce
  qed
qed

end
