(* ===== verification/LmtpServer.thy ===== *)
theory LmtpServer
  imports Lmtp LineIo
begin

text \<open>
  The LMTP server of the daemon (\<open>src/crates/imappop3/src/lmtp/session.rs\<close>, \<open>router.rs\<close>), to which the
  queue runner delivers local mail. The mailboxes are an argument: the router maps an address to one,
  and \<open>lx_deliver\<close> stands for \<open>sieve::deliver_envelope\<close>, which files a message and may refuse it; it
  works on a state of its own. Every line that is written can fail. The lemmas give the dialogue of a
  transaction: what a client writes with the dot stuffing of \<open>Lmtp\<close> is what the mailbox gets, and the
  replies after the data are one for each recipient that the session holds.
\<close>

datatype mailbox_delivery = StoreDelivered "string list" "nat list" | StoreRejected string

record ('m, 'd) lmtp_context =
  lx_hostname :: string
  lx_max_message_size :: nat
  lx_max_recipients :: nat
  lx_max_line :: nat
  lx_route :: "string \<Rightarrow> 'm option"
  lx_deliver :: "'d \<Rightarrow> 'm \<Rightarrow> string \<Rightarrow> string \<Rightarrow> string \<Rightarrow> 'd \<times> (mail_error, mailbox_delivery) result"
  lx_write_ok :: "nat \<Rightarrow> bool"

record ('m, 'd) lmtp_session =
  lv_buffer :: string
  lv_reads :: "read_event list"
  lv_out :: "string list"
  lv_store :: 'd
  lv_helo :: bool
  lv_mail_from :: "string option"
  lv_recipients :: "(string \<times> 'm) list"
  lv_seen :: "string list"

type_synonym ('m, 'd, 'a) lmtp_op = "('m, 'd) lmtp_session \<Rightarrow> ('m, 'd) lmtp_session \<times> (mail_error, 'a) result"

datatype lmtp_control = LmtpContinue | LmtpQuit
datatype lmtp_exit = ExitQuit | ExitClosed

definition lmtp_start :: "read_event list \<Rightarrow> 'd \<Rightarrow> ('m, 'd) lmtp_session" where
  "lmtp_start reads d =
     \<lparr>lv_buffer = [], lv_reads = reads, lv_out = [], lv_store = d, lv_helo = False, lv_mail_from = None,
      lv_recipients = [], lv_seen = []\<rparr>"

definition lv_reset :: "('m, 'd) lmtp_session \<Rightarrow> ('m, 'd) lmtp_session" where
  "lv_reset s = s\<lparr>lv_mail_from := None, lv_recipients := [], lv_seen := []\<rparr>"

definition lv_write_line :: "('m, 'd) lmtp_context \<Rightarrow> string \<Rightarrow> ('m, 'd, unit) lmtp_op" where
  "lv_write_line x line s =
     (if lx_write_ok x (length (lv_out s)) then (s\<lparr>lv_out := lv_out s @ [line]\<rparr>, Inr ()) else (s, Inl MailIo))"

fun lv_write_lines :: "('m, 'd) lmtp_context \<Rightarrow> string list \<Rightarrow> ('m, 'd, unit) lmtp_op" where
  "lv_write_lines x [] = io_return ()"
| "lv_write_lines x (l # ls) = io_bind (lv_write_line x l) (\<lambda>_. lv_write_lines x ls)"

definition lv_read_line :: "('m, 'd) lmtp_context \<Rightarrow> ('m, 'd) lmtp_session \<Rightarrow> ('m, 'd) lmtp_session \<times> line_read" where
  "lv_read_line x s =
     (let ((buffer, reads), r) = io_read_line (lx_max_line x) (lv_buffer s) (lv_reads s)
      in (s\<lparr>lv_buffer := buffer, lv_reads := reads\<rparr>, r))"

definition lv_left :: "('m, 'd) lmtp_session \<Rightarrow> nat" where
  "lv_left s = stream_left (lv_buffer s) (lv_reads s)"

lemma lv_read_line_left:
  assumes "lv_read_line x s = (t, r)"
  shows "lv_left t \<le> lv_left s" and "r = GotLine l \<Longrightarrow> lv_left t < lv_left s"
proof -
  obtain buffer reads q where q: "io_read_line (lx_max_line x) (lv_buffer s) (lv_reads s) = ((buffer, reads), q)"
    by (metis surj_pair)
  with assms have t: "t = s\<lparr>lv_buffer := buffer, lv_reads := reads\<rparr>" "r = q" by (simp_all add: lv_read_line_def)
  show "lv_left t \<le> lv_left s" "r = GotLine l \<Longrightarrow> lv_left t < lv_left s"
    using io_read_line_left [OF q] t by (simp_all add: lv_left_def)
qed

section \<open>Parsing\<close>

definition path_address :: "string \<Rightarrow> (string, string \<times> string) result" where
  "path_address rest =
     (case rest of
        c # stripped \<Rightarrow>
          if c = CHR ''<'' then
            (case split_once (CHR ''>'') stripped of
               None \<Rightarrow> Inl ''unterminated path''
             | Some (address, tail) \<Rightarrow> Inr (trim address, trim tail))
          else (let (address, tail) = take_word rest in Inr (address, trim tail))
      | [] \<Rightarrow> Inr ([], []))"

fun path_size :: "string list \<Rightarrow> nat option \<Rightarrow> (string, nat option) result" where
  "path_size [] sz = Inr sz"
| "path_size (token # tokens) sz =
     (case split_once (CHR ''='') token of
        None \<Rightarrow> path_size tokens sz
      | Some (key, value) \<Rightarrow>
          if eq_ignore_ascii_case key ''SIZE'' then
            (case parse_unsigned U64_MAX value of
               None \<Rightarrow> Inl ''invalid SIZE parameter''
             | Some n \<Rightarrow> path_size tokens (Some n))
          else path_size tokens sz)"

definition lmtp_parse_path :: "string \<Rightarrow> string \<Rightarrow> (string, string \<times> nat option) result" where
  "lmtp_parse_path argument keyword =
     (case split_once (CHR '':'') argument of
        None \<Rightarrow> Inl ''missing ':' in path''
      | Some (tag, rest) \<Rightarrow>
          if \<not> eq_ignore_ascii_case (trim tag) keyword then Inl ''unexpected path keyword''
          else
            (case path_address (trim rest) of
               Inl e \<Rightarrow> Inl e
             | Inr (address, parameters) \<Rightarrow>
                 (case path_size (split_whitespace parameters) None of
                    Inl e \<Rightarrow> Inl e
                  | Inr sz \<Rightarrow> Inr (address, sz))))"

section \<open>Commands\<close>

definition lv_say :: "('m, 'd) lmtp_context \<Rightarrow> string \<Rightarrow> ('m, 'd, lmtp_control) lmtp_op" where
  "lv_say x line = io_bind (lv_write_line x line) (\<lambda>_. io_return LmtpContinue)"

definition handle_lhlo :: "('m, 'd) lmtp_context \<Rightarrow> string option \<Rightarrow> ('m, 'd, lmtp_control) lmtp_op" where
  "handle_lhlo x argument s =
     (if argument = None \<or> argument = Some [] then lv_say x ''501 5.5.4 LHLO requires a domain'' s
      else
        io_bind (lv_write_lines x
          [''250-'' @ lx_hostname x, ''250-PIPELINING'', ''250-8BITMIME'', ''250-ENHANCEDSTATUSCODES'',
           ''250 SIZE '' @ nat_to_string (lx_max_message_size x)]) (\<lambda>_. io_return LmtpContinue)
          (lv_reset (s\<lparr>lv_helo := True\<rparr>)))"

definition lmtp_handle_mail :: "('m, 'd) lmtp_context \<Rightarrow> string option \<Rightarrow> ('m, 'd, lmtp_control) lmtp_op" where
  "lmtp_handle_mail x argument s =
     (if \<not> lv_helo s then lv_say x ''503 5.5.1 Send LHLO first'' s
      else
        (case argument of
           None \<Rightarrow> lv_say x ''501 5.5.4 MAIL requires FROM'' s
         | Some argument \<Rightarrow>
             (let s = lv_reset s in
              case lmtp_parse_path argument ''FROM'' of
                Inl message \<Rightarrow> lv_say x (''501 5.5.4 '' @ message) s
              | Inr (sender, sz) \<Rightarrow>
                  if (case sz of Some n \<Rightarrow> n > lx_max_message_size x | None \<Rightarrow> False)
                  then lv_say x ''552 5.3.4 Message size exceeds fixed limit'' s
                  else lv_say x ''250 2.1.0 Ok'' (s\<lparr>lv_mail_from := Some sender, lv_recipients := []\<rparr>))))"

definition recipient_key :: "string \<Rightarrow> string" where
  "recipient_key address = to_ascii_lowercase (trim address)"

definition lv_add_recipient :: "string \<Rightarrow> 'm \<Rightarrow> ('m, 'd) lmtp_session \<Rightarrow> ('m, 'd) lmtp_session" where
  "lv_add_recipient address store s =
     (if recipient_key address \<in> set (lv_seen s) then s
      else s\<lparr>lv_seen := recipient_key address # lv_seen s, lv_recipients := lv_recipients s @ [(address, store)]\<rparr>)"

definition lmtp_handle_rcpt :: "('m, 'd) lmtp_context \<Rightarrow> string option \<Rightarrow> ('m, 'd, lmtp_control) lmtp_op" where
  "lmtp_handle_rcpt x argument s =
     (if lv_mail_from s = None then lv_say x ''503 5.5.1 Send MAIL first'' s
      else
        (case argument of
           None \<Rightarrow> lv_say x ''501 5.5.4 RCPT requires TO'' s
         | Some argument \<Rightarrow>
             (case lmtp_parse_path argument ''TO'' of
                Inl message \<Rightarrow> lv_say x (''501 5.5.4 '' @ message) s
              | Inr (address, _) \<Rightarrow>
                  if address = [] then lv_say x ''501 5.1.3 Bad recipient address syntax'' s
                  else if length (lv_recipients s) \<ge> lx_max_recipients x then lv_say x ''452 4.5.3 Too many recipients'' s
                  else
                    (case lx_route x address of
                       Some store \<Rightarrow> lv_say x ''250 2.1.5 Ok'' (lv_add_recipient address store s)
                     | None \<Rightarrow> lv_say x ''550 5.1.1 No such user'' s))))"

section \<open>Data\<close>

text \<open>The message so far, the octets counted, and whether the limit was passed.\<close>

definition take_data_line :: "('m, 'd) lmtp_context \<Rightarrow> string \<Rightarrow> string \<times> nat \<times> bool \<Rightarrow> string \<times> nat \<times> bool" where
  "take_data_line x line acc =
     (let (out, total, too_large) = acc;
          line = (if prefix ''..'' line then tl line else line);
          total = sat_u64 (total + (length line + 2))
      in if total > lx_max_message_size x then (out, total, True)
         else if \<not> too_large then (out @ line @ CRLF, total, too_large)
         else (out, total, too_large))"

function lv_read_data_loop :: "('m, 'd) lmtp_context \<Rightarrow> string \<times> nat \<times> bool \<Rightarrow> ('m, 'd, string option) lmtp_op" where
  "lv_read_data_loop x acc s =
     (case lv_read_line x s of
        (s, LineTimedOut) \<Rightarrow> (fst (lv_write_line x ''421 4.4.2 Idle timeout'' s), Inl MailTimeout)
      | (s, LineFailed e) \<Rightarrow> (s, Inl e)
      | (s, LineEof) \<Rightarrow> (s, Inl (MailProtocol ''connection closed in the middle of DATA''))
      | (s, GotLine line) \<Rightarrow>
          if line = ''.'' then (s, Inr (if snd (snd acc) then None else Some (fst acc)))
          else lv_read_data_loop x (take_data_line x line acc) s)"
  by pat_completeness auto
termination
  by (relation "measure (\<lambda>(x, acc, s). lv_left s)") (auto dest: lv_read_line_left(2) [OF sym])

declare lv_read_data_loop.simps [simp del]

definition lv_read_data :: "('m, 'd) lmtp_context \<Rightarrow> ('m, 'd, string option) lmtp_op" where
  "lv_read_data x = lv_read_data_loop x ([], 0, False)"

fun lmtp_failure :: "mail_error \<Rightarrow> string" where
  "lmtp_failure (MailNotFound _) = ''550 5.1.1 Recipient mailbox unavailable''"
| "lmtp_failure (MailQuotaExceeded _) = ''552 5.2.2 Mailbox full''"
| "lmtp_failure (MailInvalid _) = ''550 5.1.0 Message rejected''"
| "lmtp_failure _ = ''451 4.2.0 Mailbox unavailable''"

definition sanitize_reason :: "string \<Rightarrow> string" where
  "sanitize_reason reason = trim (blank_control reason)"

fun delivery_response :: "(mail_error, mailbox_delivery) result \<Rightarrow> string" where
  "delivery_response (Inr (StoreDelivered _ _)) = ''250 2.0.0 Ok: delivered''"
| "delivery_response (Inr (StoreRejected reason)) = ''550 5.7.1 '' @ sanitize_reason reason"
| "delivery_response (Inl e) = lmtp_failure e"

fun deliver_each ::
  "('m, 'd) lmtp_context \<Rightarrow> string \<Rightarrow> string \<Rightarrow> (string \<times> 'm) list \<Rightarrow> 'd \<Rightarrow> 'd \<times> string list" where
  "deliver_each x data sender [] d = (d, [])"
| "deliver_each x data sender ((address, store) # rs) d =
     (let (d, r) = lx_deliver x d store data sender address;
          (d, responses) = deliver_each x data sender rs d
      in (d, delivery_response r # responses))"

definition lv_end_data :: "('m, 'd) lmtp_context \<Rightarrow> string list \<Rightarrow> ('m, 'd, lmtp_control) lmtp_op" where
  "lv_end_data x responses = io_bind (lv_write_lines x responses) (\<lambda>_ s. (lv_reset s, Inr LmtpContinue))"

definition lv_after_data :: "('m, 'd) lmtp_context \<Rightarrow> string option \<Rightarrow> ('m, 'd, lmtp_control) lmtp_op" where
  "lv_after_data x data s =
     (case data of
        None \<Rightarrow> lv_end_data x (replicate (length (lv_recipients s)) ''552 5.3.4 Message size exceeds fixed limit'') s
      | Some data \<Rightarrow>
          (let sender = (case lv_mail_from s of Some f \<Rightarrow> f | None \<Rightarrow> []);
               (d, responses) = deliver_each x data sender (lv_recipients s) (lv_store s)
           in lv_end_data x responses (s\<lparr>lv_store := d\<rparr>)))"

definition lmtp_handle_data :: "('m, 'd) lmtp_context \<Rightarrow> string option \<Rightarrow> ('m, 'd, lmtp_control) lmtp_op" where
  "lmtp_handle_data x argument s =
     (if (case argument of Some value \<Rightarrow> value \<noteq> [] | None \<Rightarrow> False)
      then lv_say x ''501 5.5.4 DATA takes no arguments'' s
      else if lv_mail_from s = None \<or> lv_recipients s = [] then lv_say x ''503 5.5.1 Need MAIL and RCPT first'' s
      else
        io_bind (lv_write_line x ''354 End data with <CR><LF>.<CR><LF>'') (\<lambda>_.
        io_bind (lv_read_data x) (lv_after_data x)) s)"

definition lmtp_dispatch :: "('m, 'd) lmtp_context \<Rightarrow> string \<Rightarrow> ('m, 'd, lmtp_control) lmtp_op" where
  "lmtp_dispatch x line =
     (let (command, argument) =
        (case split_once SP line of
           Some (command, rest) \<Rightarrow> (to_ascii_uppercase command, Some (trim rest))
         | None \<Rightarrow> (to_ascii_uppercase (trim line), None))
      in
      if command = ''LHLO'' \<or> command = ''EHLO'' then handle_lhlo x argument
      else if command = ''MAIL'' then lmtp_handle_mail x argument
      else if command = ''RCPT'' then lmtp_handle_rcpt x argument
      else if command = ''DATA'' then lmtp_handle_data x argument
      else if command = ''RSET'' then (\<lambda>s. lv_say x ''250 2.0.0 Ok'' (lv_reset s))
      else if command = ''NOOP'' then lv_say x ''250 2.0.0 Ok''
      else if command = ''VRFY'' then lv_say x ''252 2.5.2 Cannot verify user''
      else if command = ''EXPN'' then lv_say x ''502 5.5.1 EXPN not supported''
      else if command = ''HELP'' then lv_say x ''214 2.0.0 Commands: LHLO MAIL RCPT DATA RSET NOOP VRFY QUIT''
      else if command = ''QUIT'' then io_bind (lv_write_line x ''221 2.0.0 Bye'') (\<lambda>_. io_return LmtpQuit)
      else if command = [] then lv_say x ''500 5.5.2 Empty command''
      else lv_say x ''500 5.5.1 Command unrecognized'')"

section \<open>The session loop\<close>

text \<open>Operations that put nothing back into the stream.\<close>

definition shrinking :: "('m, 'd, 'a) lmtp_op \<Rightarrow> bool" where
  "shrinking m \<longleftrightarrow> (\<forall>s. lv_left (fst (m s)) \<le> lv_left s)"

lemma shrinking_bind [intro]: "shrinking m \<Longrightarrow> (\<And>y. shrinking (k y)) \<Longrightarrow> shrinking (io_bind m k)"
  unfolding shrinking_def io_bind_def
  by (auto split: prod.splits sum.splits) (metis fst_conv order_trans)+

lemma shrinking_write [intro]: "shrinking (lv_write_line x l)"
  by (simp add: shrinking_def lv_write_line_def lv_left_def)

lemma shrinking_return [intro]: "shrinking (io_return y)"
  by (simp add: shrinking_def io_return_def)

lemma shrinking_writes [intro]: "shrinking (lv_write_lines x ls)"
  by (induction ls) auto

lemma shrinking_say [intro]: "shrinking (lv_say x l)"
  unfolding lv_say_def by blast

lemma shrinkingD: "shrinking m \<Longrightarrow> lv_left t = lv_left s \<Longrightarrow> lv_left (fst (m t)) \<le> lv_left s"
  unfolding shrinking_def by metis

lemma lv_left_frame [simp]:
  "lv_left (lv_reset s) = lv_left s" "lv_left (s\<lparr>lv_helo := h\<rparr>) = lv_left s" "lv_left (s\<lparr>lv_mail_from := f\<rparr>) = lv_left s"
  "lv_left (s\<lparr>lv_recipients := r\<rparr>) = lv_left s" "lv_left (s\<lparr>lv_store := d\<rparr>) = lv_left s"
  "lv_left (lv_add_recipient a m s) = lv_left s" "lv_left (s\<lparr>lv_out := ls\<rparr>) = lv_left s"
  by (simp_all add: lv_left_def lv_reset_def lv_add_recipient_def)

lemma shrinking_read_data_loop: "lv_left (fst (lv_read_data_loop x acc s)) \<le> lv_left s"
proof (induction x acc s rule: lv_read_data_loop.induct)
  case (1 x acc s)
  obtain t r where t: "lv_read_line x s = (t, r)" by (cases "lv_read_line x s")
  note left = lv_read_line_left(1) [OF t]
  show ?case
  proof (cases r)
    case (GotLine line)
    with t left 1 [OF t [symmetric] GotLine] show ?thesis by (subst lv_read_data_loop.simps) auto
  qed (use t left in \<open>subst lv_read_data_loop.simps, auto simp: lv_write_line_def\<close>)+
qed

lemma shrinking_read_data [intro]: "shrinking (lv_read_data x)"
  by (simp add: shrinking_def lv_read_data_def shrinking_read_data_loop)

lemma shrinking_end_data [intro]: "shrinking (lv_end_data x responses)"
  unfolding lv_end_data_def by (rule shrinking_bind [OF shrinking_writes]) (simp add: shrinking_def)

lemma shrinking_after_data [intro]: "shrinking (lv_after_data x data)"
  unfolding shrinking_def lv_after_data_def
  by (auto simp: case_prod_unfold Let_def intro!: shrinkingD [OF shrinking_end_data] split: option.split)

lemma shrinking_if [intro]: "shrinking m \<Longrightarrow> shrinking n \<Longrightarrow> shrinking (\<lambda>s. if P s then m s else n s)"
  by (simp add: shrinking_def)

lemma shrinking_data [intro]: "shrinking (lmtp_handle_data x argument)"
  unfolding lmtp_handle_data_def [abs_def]
  by (intro shrinking_if shrinking_say shrinking_bind shrinking_write shrinking_read_data shrinking_after_data)

lemma shrinking_mail [intro]: "shrinking (lmtp_handle_mail x argument)"
  unfolding shrinking_def lmtp_handle_mail_def
  by (auto simp: Let_def intro!: shrinkingD [OF shrinking_say] split: option.split sum.split prod.split)

lemma shrinking_rcpt [intro]: "shrinking (lmtp_handle_rcpt x argument)"
  unfolding shrinking_def lmtp_handle_rcpt_def
  by (auto intro!: shrinkingD [OF shrinking_say] split: option.split sum.split prod.split)

lemma shrinking_lhlo [intro]: "shrinking (handle_lhlo x argument)"
  unfolding shrinking_def handle_lhlo_def
  by (auto simp del: lv_write_lines.simps intro!: shrinkingD [OF shrinking_say]
      shrinkingD [OF shrinking_bind [OF shrinking_writes shrinking_return]] split: option.split)

lemma shrinking_dispatch [intro]: "shrinking (lmtp_dispatch x line)"
proof -
  have "shrinking (\<lambda>s. lv_say x l (lv_reset s))" for l
    unfolding shrinking_def using shrinkingD [OF shrinking_say] by (metis lv_left_frame(1))
  then show ?thesis
    unfolding lmtp_dispatch_def case_prod_unfold Let_def
    by (auto intro!: shrinking_lhlo shrinking_mail shrinking_rcpt shrinking_data)
qed

function lmtp_loop :: "('m, 'd) lmtp_context \<Rightarrow> ('m, 'd, lmtp_exit) lmtp_op" where
  "lmtp_loop x s =
     (case lv_read_line x s of
        (s, LineTimedOut) \<Rightarrow> (fst (lv_write_line x ''421 4.4.2 Idle timeout'' s), Inr ExitClosed)
      | (s, LineFailed e) \<Rightarrow> (s, Inl e)
      | (s, LineEof) \<Rightarrow> (s, Inr ExitClosed)
      | (s, GotLine line) \<Rightarrow>
          (case lmtp_dispatch x (from_utf8_lossy line) s of
             (s, Inl e) \<Rightarrow> (s, Inl e)
           | (s, Inr LmtpQuit) \<Rightarrow> (s, Inr ExitQuit)
           | (s, Inr LmtpContinue) \<Rightarrow> lmtp_loop x s))"
  by pat_completeness auto
termination
proof (relation "measure (\<lambda>(x, s). lv_left s)", goal_cases)
  case (2 x s s1 r line s2 q c)
  then have "lv_left s1 < lv_left s" using lv_read_line_left(2) by metis
  moreover have "lv_left s2 \<le> lv_left s1"
    using shrinking_dispatch [of x "from_utf8_lossy line"] 2 unfolding shrinking_def by (metis fst_conv)
  ultimately show ?case by simp
qed simp

declare lmtp_loop.simps [simp del]

definition lmtp_serve :: "('m, 'd) lmtp_context \<Rightarrow> read_event list \<Rightarrow> 'd \<Rightarrow> ('m, 'd) lmtp_session \<times> (mail_error, lmtp_exit) result" where
  "lmtp_serve x reads d = io_bind (lv_write_line x (''220 '' @ lx_hostname x @ '' LMTP ready'')) (\<lambda>_. lmtp_loop x) (lmtp_start reads d)"

section \<open>A transaction\<close>

definition lv_input :: "('m, 'd) lmtp_session \<Rightarrow> string" where
  "lv_input s = lv_buffer s @ delivered_bytes (lv_reads s)"

definition chunks_ok :: "('m, 'd) lmtp_session \<Rightarrow> bool" where
  "chunks_ok s \<longleftrightarrow> (\<forall>c. Chunk c \<in> set (lv_reads s) \<longrightarrow> length c \<le> READ_CHUNK)"

lemma lv_read_line_whole:
  assumes "lv_input s = l @ CRLF @ rest" and "LF \<notin> set l" and "Suc (length l) \<le> lx_max_line x" and "chunks_ok s"
  shows "\<exists>b r. lv_read_line x s = (s\<lparr>lv_buffer := b, lv_reads := r\<rparr>, GotLine l) \<and>
     lv_input (s\<lparr>lv_buffer := b, lv_reads := r\<rparr>) = rest \<and> chunks_ok (s\<lparr>lv_buffer := b, lv_reads := r\<rparr>)"
proof -
  from io_read_line_whole [of "lv_buffer s" "lv_reads s" l rest "lx_max_line x"] assms
  obtain b r where "io_read_line (lx_max_line x) (lv_buffer s) (lv_reads s) = ((b, r), GotLine l)"
    "b @ delivered_bytes r = rest" "set r \<subseteq> set (lv_reads s)"
    by (auto simp: lv_input_def chunks_ok_def)
  with assms(4) show ?thesis by (intro exI [of _ b] exI [of _ r]) (auto simp: lv_read_line_def lv_input_def chunks_ok_def)
qed

lemma unstuffed: "(if prefix ''..'' (stuff l) then tl (stuff l) else stuff l) = l" "stuff l \<noteq> ''.''"
  by (cases l; auto simp: stuff_def)+

lemma set_stuff_LF: "LF \<notin> set l \<Longrightarrow> LF \<notin> set (stuff l)"
  by (simp add: stuff_def)

lemma take_data_line_stuff:
  assumes "so_far + length l + 2 \<le> lx_max_message_size x" and "lx_max_message_size x \<le> U64_MAX"
  shows "take_data_line x (stuff l) (out, so_far, False) = (out @ l @ CRLF, so_far + length l + 2, False)"
  using assms unstuffed(1) [of l] unfolding take_data_line_def Let_def by (auto simp: sat_u64_def)

lemma read_data_lines:
  assumes "lv_input s = wire_lines (map stuff ls) @ ''.'' @ CRLF @ rest" and "\<forall>l\<in>set ls. LF \<notin> set l \<and> length (stuff l) < lx_max_line x"
    and "2 \<le> lx_max_line x" and "so_far + length (wire_lines ls) \<le> lx_max_message_size x" and "lx_max_message_size x \<le> U64_MAX"
    and "chunks_ok s"
  shows "\<exists>b r. lv_read_data_loop x (out, so_far, False) s = (s\<lparr>lv_buffer := b, lv_reads := r\<rparr>, Inr (Some (out @ wire_lines ls))) \<and>
     lv_input (s\<lparr>lv_buffer := b, lv_reads := r\<rparr>) = rest \<and> chunks_ok (s\<lparr>lv_buffer := b, lv_reads := r\<rparr>)"
  using assms
proof (induction ls arbitrary: s out so_far)
  case Nil
  then obtain b r where "lv_read_line x s = (s\<lparr>lv_buffer := b, lv_reads := r\<rparr>, GotLine ''.'')"
     "lv_input (s\<lparr>lv_buffer := b, lv_reads := r\<rparr>) = rest" "chunks_ok (s\<lparr>lv_buffer := b, lv_reads := r\<rparr>)"
    using lv_read_line_whole [of s "''.''" rest x] by auto
  then show ?case by (subst lv_read_data_loop.simps) auto
next
  case (Cons l ls)
  let ?rest = "wire_lines (map stuff ls) @ ''.'' @ CRLF @ rest"
  have "lv_input s = stuff l @ CRLF @ ?rest" using Cons.prems(1) by simp
  moreover have "LF \<notin> set (stuff l)" "Suc (length (stuff l)) \<le> lx_max_line x" using Cons.prems(2) set_stuff_LF by auto
  ultimately obtain b r where 1: "lv_read_line x s = (s\<lparr>lv_buffer := b, lv_reads := r\<rparr>, GotLine (stuff l))"
     "lv_input (s\<lparr>lv_buffer := b, lv_reads := r\<rparr>) = ?rest" "chunks_ok (s\<lparr>lv_buffer := b, lv_reads := r\<rparr>)"
    using lv_read_line_whole [of s "stuff l" ?rest x] Cons.prems(6) by blast
  have t: "take_data_line x (stuff l) (out, so_far, False) = (out @ l @ CRLF, so_far + length l + 2, False)"
    using Cons.prems(4,5) by (intro take_data_line_stuff) simp_all
  have "lv_read_data_loop x (out, so_far, False) s =
      lv_read_data_loop x (out @ l @ CRLF, so_far + length l + 2, False) (s\<lparr>lv_buffer := b, lv_reads := r\<rparr>)"
    using 1(1) unstuffed(2) [of l] t by (subst lv_read_data_loop.simps) simp
  moreover have "so_far + length l + 2 + length (wire_lines ls) \<le> lx_max_message_size x" using Cons.prems(4) by simp
  ultimately show ?case
    using Cons.IH [OF 1(2) _ Cons.prems(3) _ Cons.prems(5) 1(3), of "so_far + length l + 2" "out @ l @ CRLF"] Cons.prems(2) by fastforce
qed

lemma lv_write_lines_ok:
  "(\<forall>n. lx_write_ok x n) \<Longrightarrow> lv_write_lines x ls s = (s\<lparr>lv_out := lv_out s @ ls\<rparr>, Inr ())"
  by (induction ls arbitrary: s) (auto simp: io_return_def io_bind_def lv_write_line_def)

lemma length_deliver_each: "length (snd (deliver_each x data sender rs d)) = length rs"
  by (induction rs arbitrary: d) (auto simp: case_prod_unfold Let_def)


section \<open>Samples\<close>

text \<open>Mailboxes named by the lower-case address, which keep what they are given.\<close>

definition sample_mailboxes :: "(string, (string \<times> string) list) lmtp_context" where
  "sample_mailboxes =
     \<lparr>lx_hostname = ''mx'', lx_max_message_size = 1000, lx_max_recipients = 100, lx_max_line = 100,
      lx_route = (\<lambda>address. Some (recipient_key address)),
      lx_deliver = (\<lambda>d mailbox data sender address. (d @ [(mailbox, data)], Inr (StoreDelivered [] []))),
      lx_write_ok = (\<lambda>_. True)\<rparr>"

definition sample_transaction :: "(string, (string \<times> string) list) lmtp_session" where
  "sample_transaction =
     (lmtp_start [Chunk (lmtp_payload ''.a'' @ ''QUIT'' @ CRLF)] [])\<lparr>lv_mail_from := Some ''s@x'', lv_recipients := [(''b@y'', ''b@y'')]\<rparr>"


text \<open>
  Two recipients that differ only in the case of the local part, which the SMTP server keeps apart:
  the LMTP server answers both RCPT commands with 250 but holds one recipient and sends one reply
  after the data. The client waits for a second one, so the delivery ends in a timeout although the
  message is in the mailbox, and the queue will deliver it again.
\<close>

definition twin_world :: "string list \<Rightarrow> lmtp_world" where
  "twin_world out = \<lparr>lw_connects = [\<lambda>_. LmtpStream (map (\<lambda>l. Chunk (l @ CRLF)) out @ [ReadTimeout]) []], lw_log = []\<rparr>"

definition twin_client :: "string list \<Rightarrow> lmtp_world \<times> (store_error, lmtp_delivery) result" where
  "twin_client out = lmtp_deliver sample_client ''s@x'' [''Bob@y'', ''bob@y''] ''hi'' (twin_world out)"

definition twin_server :: "string \<Rightarrow> (string, (string \<times> string) list) lmtp_session" where
  "twin_server input = fst (lmtp_serve sample_mailboxes [Chunk input] [])"

definition sent_bytes :: "lmtp_event list \<Rightarrow> string" where
  "sent_bytes es = concat (map (\<lambda>e. case e of LSent b \<Rightarrow> b | LGot _ _ \<Rightarrow> []) es)"

definition twin_input :: string where
  "twin_input =
     ''LHLO mx'' @ CRLF @ ''MAIL FROM:<s@x>'' @ CRLF @ ''RCPT TO:<Bob@y>'' @ CRLF @ ''RCPT TO:<bob@y>'' @ CRLF @ ''DATA'' @ CRLF @ lmtp_payload ''hi''"

theorem twin_recipients_time_out:
  "lv_store (twin_server twin_input) = [(''bob@y'', ''hi'' @ CRLF)] \<and>
   map sent_bytes (lw_log (fst (twin_client (lv_out (twin_server twin_input))))) = [twin_input] \<and>
   snd (twin_client (lv_out (twin_server twin_input))) = Inl (StoreLmtp LmtpReadTimedOut)"
proof (intro conjI)
  show "lv_store (twin_server twin_input) = [(''bob@y'', ''hi'' @ CRLF)]" by code_simp
  show "map sent_bytes (lw_log (fst (twin_client (lv_out (twin_server twin_input))))) = [twin_input]" by code_simp
  show "snd (twin_client (lv_out (twin_server twin_input))) = Inl (StoreLmtp LmtpReadTimedOut)" by code_simp
qed

end
