(* ===== verification/UidList.thy ===== *)
theory UidList
  imports FileSystem LineIo "HOL-Library.Word"
begin

text \<open>
  The UID list of a Maildir folder (\<open>src/crates/imappop3/src/maildir.rs\<close>): the file that gives every
  message its IMAP identifier, its format, and the operations that synchronise it with the folder
  and assign new identifiers under the lock of the folder. A \<open>BTreeMap\<close> is an association list in
  ascending order of the keys, a \<open>BTreeSet\<close> an ascending list. Files are those of \<open>FileSystem\<close>, so
  that every call may fail and a program may stop between any two of them.

  The lemmas show that what is written is what is read back, that only well-formed lists are
  accepted, and that no operation gives an identifier of the past to another message.
\<close>

unbundle bit_operations_syntax

section \<open>Ordered maps\<close>

fun bt_insert :: "'k::linorder \<Rightarrow> 'v \<Rightarrow> ('k \<times> 'v) list \<Rightarrow> ('k \<times> 'v) list" where
  "bt_insert k v [] = [(k, v)]"
| "bt_insert k v ((k', v') # m) =
     (if k < k' then (k, v) # (k', v') # m
      else if k = k' then (k, v) # m
      else (k', v') # bt_insert k v m)"

definition bt_remove :: "'k \<Rightarrow> ('k \<times> 'v) list \<Rightarrow> ('k \<times> 'v) list" where
  "bt_remove k m = filter (\<lambda>e. fst e \<noteq> k) m"

definition bt_wf :: "('k::linorder \<times> 'v) list \<Rightarrow> bool" where
  "bt_wf m \<longleftrightarrow> sorted_wrt (<) (map fst m)"

lemma bt_insert_keys: "set (map fst (bt_insert k v m)) = insert k (set (map fst m))"
  by (induction k v m rule: bt_insert.induct) auto

lemma bt_insert_wf: "bt_wf m \<Longrightarrow> bt_wf (bt_insert k v m)"
proof (induction k v m rule: bt_insert.induct)
  case (2 k v k' v' m)
  then show ?case
    using bt_insert_keys [of k v m] by (auto simp: bt_wf_def intro: less_trans)
qed (simp add: bt_wf_def)

lemma map_of_bt_insert: "bt_wf m \<Longrightarrow> map_of (bt_insert k v m) = (map_of m)(k \<mapsto> v)"
proof (induction k v m rule: bt_insert.induct)
  case (2 k v k' v' m)
  then show ?case by (auto simp: bt_wf_def fun_upd_def fun_eq_iff)
qed auto

lemma bt_wf_distinct: "bt_wf m \<Longrightarrow> distinct (map fst m)"
  by (auto simp: bt_wf_def strict_sorted_iff)

lemma bt_wf_filter: "bt_wf m \<Longrightarrow> bt_wf (filter P m)"
  unfolding bt_wf_def by (induction m) auto

lemma bt_wf_last: "bt_wf m \<Longrightarrow> (k, v) \<in> set m \<Longrightarrow> k \<le> fst (last m)"
  by (induction m) (auto simp: bt_wf_def intro: less_imp_le)

lemma bt_insert_last: "bt_wf m \<Longrightarrow> (\<And>k' v'. (k', v') \<in> set m \<Longrightarrow> k' < k) \<Longrightarrow> bt_insert k v m = m @ [(k, v)]"
proof (induction k v m rule: bt_insert.induct)
  case (2 k v k' v' m)
  then have "k' < k" by auto
  moreover have "bt_insert k v m = m @ [(k, v)]"
  proof (rule "2.IH")
    show "\<not> k < k'" "k \<noteq> k'" using \<open>k' < k\<close> by auto
    show "bt_wf m" using "2.prems"(1) by (simp add: bt_wf_def)
    show "a < k" if "(a, b) \<in> set m" for a b using "2.prems"(2) [of a b] that by simp
  qed
  ultimately show ?case by auto
qed simp

section \<open>The file\<close>

definition UIDLIST :: string where "UIDLIST = ''.mailstack-uidlist''"
definition UIDLIST_LOCK :: string where "UIDLIST_LOCK = ''.mailstack-uidlist.lock''"
definition EXPUNGED :: string where "EXPUNGED = ''.mailstack-expunged''"

record uid_list =
  ul_uidvalidity :: nat
  ul_uidnext :: nat
  ul_highest_modseq :: nat
  ul_by_uid :: "(nat \<times> string \<times> nat) list"

definition is_valid_base :: "string \<Rightarrow> bool" where
  "is_valid_base base \<longleftrightarrow>
     base \<noteq> [] \<and> length base \<le> 512 \<and> list_all (\<lambda>c. is_ascii_graphic c \<and> c \<noteq> CHR '':'' \<and> c \<noteq> CHR 0x5C) base"

text \<open>\<open>str::lines\<close> and \<open>str::strip_prefix\<close>\<close>

definition str_lines :: "string \<Rightarrow> string list" where
  "str_lines s = (let ps = split_on LF s in map drop_cr (butlast ps) @ (if last ps = [] then [] else [last ps]))"

definition strip_prefix :: "string \<Rightarrow> string \<Rightarrow> string option" where
  "strip_prefix p s = (if prefix p s then Some (drop (length p) s) else None)"

text \<open>What has been read of the file so far.\<close>

record uid_scan =
  us_uidvalidity :: "nat option"
  us_uidnext :: "nat option"
  us_highest_modseq :: "nat option"
  us_by_uid :: "(nat \<times> string \<times> nat) list"
  us_seen_bases :: "string list"

definition entry_fields :: "nat \<Rightarrow> string \<Rightarrow> (nat \<times> string) option" where
  "entry_fields version rest =
     (if version \<ge> 2 then
        (case split_once SP rest of
           None \<Rightarrow> None
         | Some (modseq_field, base) \<Rightarrow>
             (case parse_unsigned U64_MAX modseq_field of
                None \<Rightarrow> None
              | Some modseq \<Rightarrow> if modseq = 0 then None else Some (modseq, base)))
      else Some (0, rest))"

definition load_entry :: "nat \<Rightarrow> string \<Rightarrow> uid_scan \<Rightarrow> uid_scan option" where
  "load_entry version line sc =
     (case split_once SP line of
        None \<Rightarrow> None
      | Some (uid_field, rest) \<Rightarrow>
          (case parse_unsigned U32_MAX uid_field of
             None \<Rightarrow> None
           | Some uid \<Rightarrow>
               (case entry_fields version rest of
                  None \<Rightarrow> None
                | Some (modseq, base) \<Rightarrow>
                    if uid = 0 \<or> \<not> is_valid_base base \<or> map_of (us_by_uid sc) uid \<noteq> None \<or> base \<in> set (us_seen_bases sc)
                    then None
                    else Some (sc\<lparr>us_by_uid := bt_insert uid (base, modseq) (us_by_uid sc),
                                  us_seen_bases := base # us_seen_bases sc\<rparr>))))"

definition load_line :: "nat \<Rightarrow> string \<Rightarrow> uid_scan \<Rightarrow> uid_scan option" where
  "load_line version raw sc =
     (let line = trim raw in
      if line = [] then Some sc
      else
        (case strip_prefix ''uidvalidity '' line of
           Some value \<Rightarrow>
             (case parse_unsigned U32_MAX value of
                Some v \<Rightarrow> if v > 0 \<and> us_uidvalidity sc = None then Some (sc\<lparr>us_uidvalidity := Some v\<rparr>) else None
              | None \<Rightarrow> None)
         | None \<Rightarrow>
             (case strip_prefix ''uidnext '' line of
                Some value \<Rightarrow>
                  (case parse_unsigned U32_MAX value of
                     Some v \<Rightarrow> if v > 0 \<and> us_uidnext sc = None then Some (sc\<lparr>us_uidnext := Some v\<rparr>) else None
                   | None \<Rightarrow> None)
              | None \<Rightarrow>
                  (case strip_prefix ''highestmodseq '' line of
                     Some value \<Rightarrow>
                       if version < 2 then None
                       else
                         (case parse_unsigned U64_MAX value of
                            Some v \<Rightarrow> if us_highest_modseq sc = None then Some (sc\<lparr>us_highest_modseq := Some v\<rparr>) else None
                          | None \<Rightarrow> None)
                   | None \<Rightarrow> load_entry version line sc))))"

fun load_lines :: "nat \<Rightarrow> string list \<Rightarrow> uid_scan \<Rightarrow> uid_scan option" where
  "load_lines version [] sc = Some sc"
| "load_lines version (line # ls) sc =
     (case load_line version line sc of None \<Rightarrow> None | Some sc \<Rightarrow> load_lines version ls sc)"

fun number_modseqs :: "nat \<Rightarrow> (nat \<times> string \<times> nat) list \<Rightarrow> (nat \<times> string \<times> nat) list" where
  "number_modseqs n [] = []"
| "number_modseqs n ((uid, base, _) # m) = (uid, base, n + 1) # number_modseqs (n + 1) m"

definition finish_load :: "nat \<Rightarrow> uid_scan \<Rightarrow> uid_list option" where
  "finish_load version sc =
     (case (us_uidvalidity sc, us_uidnext sc) of
        (Some uidvalidity, Some uidnext) \<Rightarrow>
          if us_by_uid sc \<noteq> [] \<and> fst (last (us_by_uid sc)) \<ge> uidnext then None
          else if version = 1 then
            Some \<lparr>ul_uidvalidity = uidvalidity, ul_uidnext = uidnext, ul_highest_modseq = length (us_by_uid sc),
                  ul_by_uid = number_modseqs 0 (us_by_uid sc)\<rparr>
          else
            (let highest = (case us_highest_modseq sc of Some h \<Rightarrow> h | None \<Rightarrow> 0);
                 max_modseq = foldr (\<lambda>(_, _, m). max m) (us_by_uid sc) 0
             in if highest < max_modseq then None
                else Some \<lparr>ul_uidvalidity = uidvalidity, ul_uidnext = uidnext, ul_highest_modseq = highest,
                           ul_by_uid = us_by_uid sc\<rparr>)
      | _ \<Rightarrow> None)"

definition empty_scan :: "nat \<Rightarrow> uid_scan" where
  "empty_scan version =
     \<lparr>us_uidvalidity = None, us_uidnext = None, us_highest_modseq = (if version = 1 then Some 0 else None),
      us_by_uid = [], us_seen_bases = []\<rparr>"

definition load_version :: "nat \<Rightarrow> string list \<Rightarrow> uid_list option" where
  "load_version version ls = Option.bind (load_lines version ls (empty_scan version)) (finish_load version)"

definition parse_uidlist :: "string \<Rightarrow> uid_list option" where
  "parse_uidlist contents =
     (case str_lines contents of
        [] \<Rightarrow> None
      | header # ls \<Rightarrow>
          if header = ''MAILSTACK-UIDLIST 1'' then load_version 1 ls
          else if header = ''MAILSTACK-UIDLIST 2'' then load_version 2 ls
          else None)"

definition entry_line :: "nat \<times> string \<times> nat \<Rightarrow> string" where
  "entry_line e = (case e of (uid, base, modseq) \<Rightarrow> nat_to_string uid @ [SP] @ nat_to_string modseq @ [SP] @ base)"

definition uidlist_lines :: "uid_list \<Rightarrow> string list" where
  "uidlist_lines l =
     [''MAILSTACK-UIDLIST 2'', ''uidvalidity '' @ nat_to_string (ul_uidvalidity l), ''uidnext '' @ nat_to_string (ul_uidnext l),
      ''highestmodseq '' @ nat_to_string (ul_highest_modseq l)] @ map entry_line (ul_by_uid l)"

definition render_uidlist :: "uid_list \<Rightarrow> string" where
  "render_uidlist l = concat (map (\<lambda>line. line @ [LF]) (uidlist_lines l))"

text \<open>What every list satisfies that the file can hold.\<close>

definition ul_ok :: "uid_list \<Rightarrow> bool" where
  "ul_ok l \<longleftrightarrow>
     0 < ul_uidvalidity l \<and> ul_uidvalidity l \<le> U32_MAX \<and> 0 < ul_uidnext l \<and> ul_uidnext l \<le> U32_MAX \<and>
     ul_highest_modseq l \<le> U64_MAX \<and> bt_wf (ul_by_uid l) \<and> distinct (map (fst \<circ> snd) (ul_by_uid l)) \<and>
     list_all (\<lambda>(uid, base, modseq). 0 < uid \<and> uid < ul_uidnext l \<and> is_valid_base base \<and> 0 < modseq \<and>
                 modseq \<le> ul_highest_modseq l) (ul_by_uid l)"

lemma ul_okD:
  "ul_ok l \<Longrightarrow> e \<in> set (ul_by_uid l) \<Longrightarrow>
     0 < fst e \<and> fst e < ul_uidnext l \<and> is_valid_base (fst (snd e)) \<and> 0 < snd (snd e) \<and> snd (snd e) \<le> ul_highest_modseq l"
  by (auto simp: ul_ok_def list_all_iff)

lemma str_lines_render:
  assumes "\<forall>l\<in>set ls. LF \<notin> set l \<and> CR \<notin> set l"
  shows "str_lines (concat (map (\<lambda>line. line @ [LF]) ls)) = ls"
proof -
  have sp: "split_on LF (concat (map (\<lambda>line. line @ [LF]) ls)) = ls @ [[]]"
    using assms by (induction ls) (auto simp: split_on_append_sep)
  have "map drop_cr ls = ls"
    using assms by (intro map_idI) (metis drop_cr_def last_in_set)
  then show ?thesis unfolding str_lines_def sp by simp
qed

lemma trim_ends:
  assumes "s \<noteq> []" and "is_ascii_graphic (hd s)" and "is_ascii_graphic (last s)"
  shows "trim s = s"
proof -
  have "ws_head s = 0"
    using assms(1,2) by (cases s) (auto simp: ws_head_def is_ascii_graphic_def ascii_space_def)
  moreover have "ws_last s = 0"
    using assms(1,3) by (cases s rule: rev_cases) (auto simp: ws_last_def is_ascii_graphic_def ascii_space_def)
  ultimately show ?thesis
    unfolding trim_def by (simp add: trim_start.simps [of s] trim_end.simps [of s])
qed

lemma digit_graphic: "is_ascii_digit c \<Longrightarrow> is_ascii_graphic c"
  by (simp add: is_ascii_digit_def is_ascii_graphic_def)

lemma hd_nat_to_string: "is_ascii_digit (hd (nat_to_string n))" and last_nat_to_string: "is_ascii_digit (last (nat_to_string n))"
  using nat_to_string_digits [of "hd (nat_to_string n)" n] nat_to_string_digits [of "last (nat_to_string n)" n] by auto

lemma SP_nat_to_string [simp]: "SP \<notin> set (nat_to_string n)"
  using nat_to_string_digits [of SP n] by (auto simp: is_ascii_digit_def)

lemma split_once_fields [simp]: "split_once SP (nat_to_string n @ SP # rest) = Some (nat_to_string n, rest)"
  by (simp add: split_once_Some)

lemma valid_base_last: "is_valid_base base \<Longrightarrow> base \<noteq> [] \<and> is_ascii_graphic (last base)"
  by (auto simp: is_valid_base_def list_all_iff)

lemma strip_prefix_letter:
  assumes "is_ascii_digit (hd s)" and "\<not> is_ascii_digit (hd p)" and "p \<noteq> []"
  shows "strip_prefix p s = None"
  using assms by (auto simp: strip_prefix_def prefix_def)

lemma load_line_entry:
  assumes "0 < uid" "uid \<le> U32_MAX" "is_valid_base base" "0 < modseq" "modseq \<le> U64_MAX"
    "map_of (us_by_uid sc) uid = None" "base \<notin> set (us_seen_bases sc)"
  shows "load_line 2 (entry_line (uid, base, modseq)) sc =
     Some (sc\<lparr>us_by_uid := bt_insert uid (base, modseq) (us_by_uid sc), us_seen_bases := base # us_seen_bases sc\<rparr>)"
proof -
  let ?line = "entry_line (uid, base, modseq)"
  have hd: "is_ascii_digit (hd ?line)" and ne: "?line \<noteq> []" using hd_nat_to_string [of uid] by (simp_all add: entry_line_def)
  have "is_ascii_graphic (last ?line)" using valid_base_last [OF assms(3)] by (simp add: entry_line_def)
  then have "trim ?line = ?line" using trim_ends [OF ne] hd digit_graphic by blast
  moreover have "strip_prefix ''uidvalidity '' ?line = None" "strip_prefix ''uidnext '' ?line = None"
    "strip_prefix ''highestmodseq '' ?line = None"
    using strip_prefix_letter [OF hd] by (simp_all add: is_ascii_digit_def)
  moreover have "load_entry 2 ?line sc =
     Some (sc\<lparr>us_by_uid := bt_insert uid (base, modseq) (us_by_uid sc), us_seen_bases := base # us_seen_bases sc\<rparr>)"
    using assms by (simp add: load_entry_def entry_line_def entry_fields_def)
  ultimately show ?thesis using ne by (simp add: load_line_def)
qed

lemma load_lines_entries:
  assumes "bt_wf (us_by_uid sc @ m)" and "distinct (map (fst \<circ> snd) m)" and "set (map (fst \<circ> snd) m) \<inter> set (us_seen_bases sc) = {}"
    and "list_all (\<lambda>(uid, base, modseq). 0 < uid \<and> uid \<le> U32_MAX \<and> is_valid_base base \<and> 0 < modseq \<and> modseq \<le> U64_MAX) m"
  shows "load_lines 2 (map entry_line m) sc =
     Some (sc\<lparr>us_by_uid := us_by_uid sc @ m, us_seen_bases := rev (map (fst \<circ> snd) m) @ us_seen_bases sc\<rparr>)"
  using assms
proof (induction m arbitrary: sc)
  case (Cons e m)
  obtain uid base modseq where e: "e = (uid, base, modseq)" by (cases e)
  have wf: "bt_wf (us_by_uid sc)" and less: "\<And>k v. (k, v) \<in> set (us_by_uid sc) \<Longrightarrow> k < uid"
    using Cons.prems(1) e by (auto simp: bt_wf_def sorted_wrt_append)
  have "map_of (us_by_uid sc) uid = None"
    using less by (metis map_of_eq_None_iff domIff image_iff less_irrefl prod.collapse)
  moreover have "bt_insert uid (base, modseq) (us_by_uid sc) = us_by_uid sc @ [e]"
    using bt_insert_last [OF wf] less e by blast
  ultimately have "load_line 2 (entry_line e) sc =
      Some (sc\<lparr>us_by_uid := us_by_uid sc @ [e], us_seen_bases := base # us_seen_bases sc\<rparr>)"
    using load_line_entry [of uid base modseq sc] Cons.prems(3,4) e by simp
  moreover have "load_lines 2 (map entry_line m) (sc\<lparr>us_by_uid := us_by_uid sc @ [e], us_seen_bases := base # us_seen_bases sc\<rparr>) =
      Some (sc\<lparr>us_by_uid := us_by_uid sc @ e # m, us_seen_bases := rev (map (fst \<circ> snd) (e # m)) @ us_seen_bases sc\<rparr>)"
    using Cons.IH [of "sc\<lparr>us_by_uid := us_by_uid sc @ [e], us_seen_bases := base # us_seen_bases sc\<rparr>"] Cons.prems e by auto
  ultimately show ?case by simp
qed simp

lemma load_line_number:
  "v \<le> U32_MAX \<Longrightarrow> 0 < v \<Longrightarrow> us_uidvalidity sc = None \<Longrightarrow>
     load_line version (''uidvalidity '' @ nat_to_string v) sc = Some (sc\<lparr>us_uidvalidity := Some v\<rparr>)"
  "v \<le> U32_MAX \<Longrightarrow> 0 < v \<Longrightarrow> us_uidnext sc = None \<Longrightarrow>
     load_line version (''uidnext '' @ nat_to_string v) sc = Some (sc\<lparr>us_uidnext := Some v\<rparr>)"
  "v \<le> U64_MAX \<Longrightarrow> us_highest_modseq sc = None \<Longrightarrow>
     load_line 2 (''highestmodseq '' @ nat_to_string v) sc = Some (sc\<lparr>us_highest_modseq := Some v\<rparr>)"
proof -
  have t: "trim (p @ nat_to_string v) = p @ nat_to_string v" if "p \<noteq> []" "is_ascii_graphic (hd p)" for p
    using that last_nat_to_string [of v] by (intro trim_ends) (auto simp: digit_graphic)
  have h: "is_ascii_graphic (CHR ''u'')" "is_ascii_graphic (CHR ''h'')" by (simp_all add: is_ascii_graphic_def)
  show "v \<le> U32_MAX \<Longrightarrow> 0 < v \<Longrightarrow> us_uidvalidity sc = None \<Longrightarrow>
     load_line version (''uidvalidity '' @ nat_to_string v) sc = Some (sc\<lparr>us_uidvalidity := Some v\<rparr>)"
    using t [of "''uidvalidity ''"] h by (simp add: load_line_def strip_prefix_def)
  show "v \<le> U32_MAX \<Longrightarrow> 0 < v \<Longrightarrow> us_uidnext sc = None \<Longrightarrow>
     load_line version (''uidnext '' @ nat_to_string v) sc = Some (sc\<lparr>us_uidnext := Some v\<rparr>)"
    using t [of "''uidnext ''"] h by (simp add: load_line_def strip_prefix_def)
  show "v \<le> U64_MAX \<Longrightarrow> us_highest_modseq sc = None \<Longrightarrow>
     load_line 2 (''highestmodseq '' @ nat_to_string v) sc = Some (sc\<lparr>us_highest_modseq := Some v\<rparr>)"
    using t [of "''highestmodseq ''"] h by (simp add: load_line_def strip_prefix_def)
qed

lemmas load_number_steps = load_line_number [unfolded append_Cons append_Nil]

lemma max_modseq_le: "foldr (\<lambda>(_, _, m). max m) es 0 \<le> (h :: nat) \<longleftrightarrow> (\<forall>(u, b, m) \<in> set es. m \<le> h)"
  by (induction es) auto

lemma no_line_ends:
  "LF \<notin> set (nat_to_string n)" "CR \<notin> set (nat_to_string n)"
  "is_valid_base base \<Longrightarrow> LF \<notin> set base" "is_valid_base base \<Longrightarrow> CR \<notin> set base"
proof -
  show "LF \<notin> set (nat_to_string n)" using nat_to_string_digits [of LF n] by (auto simp: is_ascii_digit_def)
  show "CR \<notin> set (nat_to_string n)" using nat_to_string_digits [of CR n] by (auto simp: is_ascii_digit_def)
  have "\<not> is_ascii_graphic LF" "\<not> is_ascii_graphic CR" by (simp_all add: is_ascii_graphic_def)
  then show "is_valid_base base \<Longrightarrow> LF \<notin> set base" "is_valid_base base \<Longrightarrow> CR \<notin> set base"
    unfolding is_valid_base_def list_all_iff by blast+
qed

lemma parse_render_uidlist: "ul_ok l \<Longrightarrow> parse_uidlist (render_uidlist l) = Some l"
proof -
  assume ok: "ul_ok l"
  have "\<forall>x\<in>set (uidlist_lines l). LF \<notin> set x \<and> CR \<notin> set x"
    using ok by (auto simp: uidlist_lines_def ul_ok_def list_all_iff entry_line_def no_line_ends)
  then have ls: "str_lines (render_uidlist l) = uidlist_lines l"
    unfolding render_uidlist_def by (rule str_lines_render)
  have bounds: "\<forall>p\<in>set (ul_by_uid l). fst p \<le> U32_MAX \<and> snd (snd p) \<le> U64_MAX"
    using ok by (fastforce simp: ul_ok_def list_all_iff)
  have "load_lines 2 (tl (uidlist_lines l)) (empty_scan 2) =
      Some \<lparr>us_uidvalidity = Some (ul_uidvalidity l), us_uidnext = Some (ul_uidnext l),
            us_highest_modseq = Some (ul_highest_modseq l), us_by_uid = ul_by_uid l,
            us_seen_bases = rev (map (fst \<circ> snd) (ul_by_uid l))\<rparr>"
    using ok bounds load_lines_entries [of "empty_scan 2\<lparr>us_uidvalidity := Some (ul_uidvalidity l), us_uidnext := Some (ul_uidnext l),
            us_highest_modseq := Some (ul_highest_modseq l)\<rparr>" "ul_by_uid l"]
    by (simp add: uidlist_lines_def load_number_steps empty_scan_def ul_ok_def list_all_iff case_prod_unfold)
  moreover have "ul_by_uid l \<noteq> [] \<Longrightarrow> fst (last (ul_by_uid l)) < ul_uidnext l"
    using ul_okD [OF ok] last_in_set [of "ul_by_uid l"] by blast
  moreover have "foldr (\<lambda>(_, _, m). max m) (ul_by_uid l) 0 \<le> ul_highest_modseq l"
    using ok by (auto simp: max_modseq_le ul_ok_def list_all_iff)
  ultimately show ?thesis
    using ls by (auto simp: parse_uidlist_def load_version_def finish_load_def uidlist_lines_def Let_def)
qed

text \<open>Only well-formed lists are accepted.\<close>

definition us_ok :: "nat \<Rightarrow> uid_scan \<Rightarrow> bool" where
  "us_ok version sc \<longleftrightarrow>
     (\<forall>v. us_uidvalidity sc = Some v \<longrightarrow> 0 < v \<and> v \<le> U32_MAX) \<and> (\<forall>v. us_uidnext sc = Some v \<longrightarrow> 0 < v \<and> v \<le> U32_MAX) \<and>
     (\<forall>v. us_highest_modseq sc = Some v \<longrightarrow> v \<le> U64_MAX) \<and> bt_wf (us_by_uid sc) \<and>
     set (map (fst \<circ> snd) (us_by_uid sc)) = set (us_seen_bases sc) \<and> distinct (map (fst \<circ> snd) (us_by_uid sc)) \<and>
     (\<forall>(uid, base, modseq) \<in> set (us_by_uid sc). 0 < uid \<and> is_valid_base base \<and> (version = 2 \<longrightarrow> 0 < modseq))"

lemma parse_unsigned_le: "parse_unsigned m s = Some v \<Longrightarrow> v \<le> m"
  by (auto simp: parse_unsigned_def parse_digits_def split: list.splits if_splits)

lemma set_bt_insert: "map_of m k = None \<Longrightarrow> set (bt_insert k v m) = insert (k, v) (set m)"
  by (induction k v m rule: bt_insert.induct) (auto split: if_splits)

lemma distinct_bt_insert:
  "map_of m k = None \<Longrightarrow> distinct (map f (bt_insert k v m)) \<longleftrightarrow> distinct (map f m) \<and> f (k, v) \<notin> f ` set m"
  by (induction k v m rule: bt_insert.induct) (auto simp: set_bt_insert split: if_splits)

lemma load_entry_ok:
  assumes "load_entry version line sc = Some sc'" and "us_ok version sc"
  shows "us_ok version sc'"
proof -
  obtain uid base modseq where e: "map_of (us_by_uid sc) uid = None" "uid \<noteq> 0" "is_valid_base base"
      "base \<notin> set (us_seen_bases sc)" "version = 2 \<longrightarrow> modseq \<noteq> 0"
      "sc' = sc\<lparr>us_by_uid := bt_insert uid (base, modseq) (us_by_uid sc), us_seen_bases := base # us_seen_bases sc\<rparr>"
    using assms(1) by (fastforce simp: load_entry_def entry_fields_def split: option.splits if_splits)
  then show ?thesis
    using assms(2) by (auto simp: us_ok_def set_bt_insert bt_insert_wf distinct_bt_insert)
qed

lemma load_line_ok: "load_line version raw sc = Some sc' \<Longrightarrow> us_ok version sc \<Longrightarrow> us_ok version sc'"
  unfolding load_line_def Let_def
  by (auto split: option.splits if_splits elim: load_entry_ok)
     (auto simp: us_ok_def dest: parse_unsigned_le)

lemma load_lines_ok: "load_lines version ls sc = Some sc' \<Longrightarrow> us_ok version sc \<Longrightarrow> us_ok version sc'"
  by (induction version ls sc rule: load_lines.induct) (auto split: option.splits dest: load_line_ok)

lemma number_modseqs_keys:
  "map fst (number_modseqs n m) = map fst m" "map (fst \<circ> snd) (number_modseqs n m) = map (fst \<circ> snd) m"
  "(uid, base, k) \<in> set (number_modseqs n m) \<Longrightarrow> n < k \<and> k \<le> n + length m \<and> (\<exists>k'. (uid, base, k') \<in> set m)"
proof -
  show "map fst (number_modseqs n m) = map fst m" "map (fst \<circ> snd) (number_modseqs n m) = map (fst \<circ> snd) m"
    by (induction n m rule: number_modseqs.induct) auto
  show "(uid, base, k) \<in> set (number_modseqs n m) \<Longrightarrow> n < k \<and> k \<le> n + length m \<and> (\<exists>k'. (uid, base, k') \<in> set m)"
    by (induction n m rule: number_modseqs.induct) fastforce+
qed

lemma bt_wf_length: "bt_wf m \<Longrightarrow> (\<And>k v. (k, v) \<in> set m \<Longrightarrow> k < n) \<Longrightarrow> length m \<le> (n :: nat)"
proof -
  assume m: "bt_wf m" "\<And>k v. (k, v) \<in> set m \<Longrightarrow> k < n"
  have "card (fst ` set m) = length m" using bt_wf_distinct [OF m(1)] by (metis distinct_card length_map set_map)
  moreover have "fst ` set m \<subseteq> {..<n}" using m(2) by auto
  ultimately show ?thesis using card_mono [of "{..<n}" "fst ` set m"] by simp
qed

lemma finish_load_ok:
  assumes "finish_load version sc = Some l" and "us_ok version sc" and "version = 1 \<or> version = 2"
  shows "ul_ok l"
proof -
  obtain v n where vn: "us_uidvalidity sc = Some v" "us_uidnext sc = Some n"
    and last: "us_by_uid sc = [] \<or> fst (last (us_by_uid sc)) < n"
    using assms(1) by (auto simp: finish_load_def split: option.splits if_splits)
  have wf: "bt_wf (us_by_uid sc)" using assms(2) by (simp add: us_ok_def)
  have less: "k < n" if "(k, e) \<in> set (us_by_uid sc)" for k e
    using bt_wf_last [OF wf that] last that by auto
  have len: "length (us_by_uid sc) \<le> n" using bt_wf_length [OF wf] less by blast
  have n: "0 < v" "v \<le> U32_MAX" "0 < n" "n \<le> U32_MAX" using vn assms(2) by (auto simp: us_ok_def)
  from assms(3) show ?thesis
  proof
    assume "version = 1"
    then have "l = \<lparr>ul_uidvalidity = v, ul_uidnext = n, ul_highest_modseq = length (us_by_uid sc),
                  ul_by_uid = number_modseqs 0 (us_by_uid sc)\<rparr>"
      using assms(1) vn last by (auto simp: finish_load_def split: if_splits)
    moreover have "bt_wf (number_modseqs 0 (us_by_uid sc))" using wf by (simp add: bt_wf_def number_modseqs_keys)
    ultimately show ?thesis
      using n len less assms(2) by (fastforce simp: ul_ok_def us_ok_def list_all_iff number_modseqs_keys(2) dest: number_modseqs_keys(3))
  next
    assume v2: "version = 2"
    then obtain h where h: "l = \<lparr>ul_uidvalidity = v, ul_uidnext = n, ul_highest_modseq = h, ul_by_uid = us_by_uid sc\<rparr>"
      "foldr (\<lambda>(_, _, m). max m) (us_by_uid sc) 0 \<le> h" "h \<le> U64_MAX"
      using assms(1,2) vn last by (auto simp: finish_load_def us_ok_def Let_def not_less split: if_splits option.splits)
    then show ?thesis
      using n less assms(2) v2 by (fastforce simp: ul_ok_def us_ok_def list_all_iff max_modseq_le)
  qed
qed

lemma parse_uidlist_ok: "parse_uidlist contents = Some l \<Longrightarrow> ul_ok l"
proof -
  assume p: "parse_uidlist contents = Some l"
  then obtain version ls sc where "version = 1 \<or> version = 2" "load_lines version ls (empty_scan version) = Some sc"
    "finish_load version sc = Some l"
    by (auto simp: parse_uidlist_def load_version_def bind_eq_Some_conv split: list.splits if_splits)
  moreover have "us_ok version (empty_scan version)" by (simp add: us_ok_def empty_scan_def bt_wf_def)
  ultimately show ?thesis using load_lines_ok finish_load_ok by blast
qed

section \<open>Reading and writing\<close>

definition mail_io :: "(io_error, 'a) io \<Rightarrow> (mail_error, 'a) io" where
  "mail_io m = io_map_err (\<lambda>_. MailIo) m"

definition read_to_string :: "path \<Rightarrow> (io_error, string) io" where
  "read_to_string p = io_bind (fs_read p) (\<lambda>c. if valid_utf8 c then io_return c else io_fail OtherIo)"

definition load_uidlist :: "path \<Rightarrow> (mail_error, uid_list option) io" where
  "load_uidlist p s =
     (case read_to_string p s of
        (s, Inr contents) \<Rightarrow> (s, Inr (parse_uidlist contents))
      | (s, Inl e) \<Rightarrow> (s, if e = NotFound then Inr None else Inl MailIo))"

definition maildir_temp :: "nat \<times> nat \<times> nat \<Rightarrow> path \<Rightarrow> path" where
  "maildir_temp tag p =
     (fst p, ''.'' @ snd p @ ''.tmp.'' @ nat_to_string (fst tag) @ ''.'' @ nat_to_string (fst (snd tag)))"

definition maildir_write_atomic :: "path \<Rightarrow> string \<Rightarrow> (mail_error, unit) io" where
  "maildir_write_atomic p data s =
     (let tmp = maildir_temp (fs_tag s (fs_ops s)) p in
      case io_bind (create_new tmp) (\<lambda>_. io_bind (write_all tmp data) (\<lambda>_. fs_sync)) s of
        (s, Inl _) \<Rightarrow> (s, Inl MailIo)
      | (s, Inr _) \<Rightarrow>
          (case fs_rename tmp p s of
             (s, Inl _) \<Rightarrow> (io_drop (remove_file tmp) s, Inl MailIo)
           | (s, Inr _) \<Rightarrow> (io_drop fs_sync s, Inr ())))"

definition write_uidlist :: "string \<Rightarrow> uid_list \<Rightarrow> (mail_error, unit) io" where
  "write_uidlist d l = maildir_write_atomic (d, UIDLIST) (render_uidlist l)"

definition maildir_lock :: "string \<Rightarrow> string \<Rightarrow> (mail_error, 'a) io \<Rightarrow> (mail_error, 'a) io" where
  "maildir_lock d name action =
     io_bind (mail_io (create_dir_all d)) (\<lambda>_.
     io_bind (mail_io (open_lock_sidecar (d, name))) (\<lambda>_.
     io_bind (mail_io file_lock_acquire) (\<lambda>_ s.
       case action s of (s, r) \<Rightarrow> (io_drop fs_sync s, r))))"

section \<open>Synchronising and assigning\<close>

text \<open>The tag of the process stands for its sequence counter and the nanoseconds of the clock.\<close>

definition fresh_uidvalidity :: "int \<Rightarrow> nat \<times> nat \<times> nat \<Rightarrow> nat" where
  "fresh_uidvalidity now_secs tag =
     (let mixed = of_int (max 1 (min (int U32_MAX) now_secs)) * 1000003 + of_nat (fst (snd tag)) * 0x9E3779B9 +
                  of_nat (snd (snd tag)) :: 64 word
      in max (unat (ucast (mixed XOR drop_bit 32 mixed) :: 32 word)) 1)"

definition fresh_list :: "int \<Rightarrow> nat \<times> nat \<times> nat \<Rightarrow> uid_list" where
  "fresh_list now_secs tag =
     \<lparr>ul_uidvalidity = fresh_uidvalidity now_secs tag, ul_uidnext = 1, ul_highest_modseq = 0, ul_by_uid = []\<rparr>"

definition load_or_fresh :: "string \<Rightarrow> int \<Rightarrow> (mail_error, uid_list \<times> bool) io" where
  "load_or_fresh d now s =
     (case load_uidlist (d, UIDLIST) s of
        (s, Inl e) \<Rightarrow> (s, Inl e)
      | (s, Inr (Some l)) \<Rightarrow> (let (s, present) = path_exists (d, UIDLIST) s in (s, Inr (l, \<not> present)))
      | (s, Inr None) \<Rightarrow>
          (let l = fresh_list now (fs_tag s (fs_ops s)) in (io_drop (remove_file (d, EXPUNGED)) s, Inr (l, True))))"

definition next_uid :: "uid_list \<Rightarrow> nat" where
  "next_uid l =
     max (ul_uidnext l) (max (sat_u32 ((if ul_by_uid l = [] then 0 else fst (last (ul_by_uid l))) + 1)) 1)"

definition add_uid :: "string \<Rightarrow> nat \<Rightarrow> uid_list \<Rightarrow> uid_list" where
  "add_uid base uid l =
     (let modseq = sat_u64 (ul_highest_modseq l + 1)
      in l\<lparr>ul_highest_modseq := modseq, ul_by_uid := bt_insert uid (base, modseq) (ul_by_uid l)\<rparr>)"

definition uid_exhausted :: mail_error where
  "uid_exhausted = MailStorage ''UID space exhausted''"

fun sync_loop :: "string list \<Rightarrow> string list \<Rightarrow> uid_list \<Rightarrow> nat \<Rightarrow> bool \<Rightarrow> (mail_error, uid_list \<times> nat \<times> bool) result" where
  "sync_loop existing [] l next changed = Inr (l, next, changed)"
| "sync_loop existing (base # bases) l next changed =
     (if base \<in> set existing then sync_loop existing bases l next changed
      else
        (let l = add_uid base next l in
         if next = U32_MAX then Inl uid_exhausted else sync_loop existing bases l (next + 1) True))"

fun assign_loop ::
  "(string \<Rightarrow> nat option) \<Rightarrow> string list \<Rightarrow> uid_list \<Rightarrow> nat \<Rightarrow> nat list \<Rightarrow> bool \<Rightarrow>
     (mail_error, uid_list \<times> nat \<times> nat list \<times> bool) result" where
  "assign_loop existing [] l next uids changed = Inr (l, next, uids, changed)"
| "assign_loop existing (base # bases) l next uids changed =
     (case existing base of
        Some uid \<Rightarrow> assign_loop existing bases l next (uids @ [uid]) changed
      | None \<Rightarrow>
          if next = U32_MAX then Inl uid_exhausted
          else assign_loop (existing(base \<mapsto> next)) bases (add_uid base next l) (next + 1) (uids @ [next]) True)"

record uid_mapping =
  mp_uidvalidity :: nat
  mp_uidnext :: nat
  mp_highest_modseq :: nat
  mp_by_base :: "string \<Rightarrow> (nat \<times> nat) option"

definition by_base :: "uid_list \<Rightarrow> string \<Rightarrow> (nat \<times> nat) option" where
  "by_base l = map_of (rev (map (\<lambda>(uid, base, modseq). (base, (uid, modseq))) (ul_by_uid l)))"

definition mapping_of :: "uid_list \<Rightarrow> uid_mapping" where
  "mapping_of l =
     \<lparr>mp_uidvalidity = ul_uidvalidity l, mp_uidnext = ul_uidnext l, mp_highest_modseq = ul_highest_modseq l,
      mp_by_base = by_base l\<rparr>"

definition store_list :: "string \<Rightarrow> uid_list \<Rightarrow> nat \<Rightarrow> bool \<Rightarrow> (mail_error, uid_list) io" where
  "store_list d l next changed =
     (let changed = (changed \<or> next \<noteq> ul_uidnext l);
          l = l\<lparr>ul_uidnext := next\<rparr>
      in if changed then io_bind (write_uidlist d l) (\<lambda>_. io_return l) else io_return l)"

definition sync_body :: "string \<Rightarrow> string list \<Rightarrow> uid_list \<times> bool \<Rightarrow> (mail_error, uid_mapping) io" where
  "sync_body d bases lc s =
     (let (l, changed) = lc;
          kept = filter (\<lambda>(_, base, _). base \<in> set bases) (ul_by_uid l);
          changed = (changed \<or> length kept \<noteq> length (ul_by_uid l));
          l = l\<lparr>ul_by_uid := kept\<rparr>
      in case sync_loop (map (fst \<circ> snd) kept) bases l (next_uid l) changed of
           Inl e \<Rightarrow> (s, Inl e)
         | Inr (l, next, changed) \<Rightarrow> io_bind (store_list d l next changed) (\<lambda>l. io_return (mapping_of l)) s)"

definition sync_uidlist :: "string \<Rightarrow> string list \<Rightarrow> int \<Rightarrow> (mail_error, uid_mapping) io" where
  "sync_uidlist d bases now = maildir_lock d UIDLIST_LOCK (io_bind (load_or_fresh d now) (sync_body d bases))"

definition existing_uids :: "uid_list \<Rightarrow> string \<Rightarrow> nat option" where
  "existing_uids l = map_of (rev (map (\<lambda>(uid, base, _). (base, uid)) (ul_by_uid l)))"

definition assign_body :: "string \<Rightarrow> string list \<Rightarrow> uid_list \<times> bool \<Rightarrow> (mail_error, nat \<times> nat list) io" where
  "assign_body d bases lc s =
     (let (l, changed) = lc in
      case assign_loop (existing_uids l) bases l (next_uid l) [] changed of
        Inl e \<Rightarrow> (s, Inl e)
      | Inr (l, next, uids, changed) \<Rightarrow>
          io_bind (store_list d l next changed) (\<lambda>l. io_return (ul_uidvalidity l, uids)) s)"

definition assign_uids_many :: "string \<Rightarrow> string list \<Rightarrow> int \<Rightarrow> (mail_error, nat \<times> nat list) io" where
  "assign_uids_many d bases now = maildir_lock d UIDLIST_LOCK (io_bind (load_or_fresh d now) (assign_body d bases))"

definition assign_uid :: "string \<Rightarrow> string \<Rightarrow> int \<Rightarrow> (mail_error, nat \<times> nat) io" where
  "assign_uid d base now =
     io_bind (assign_uids_many d [base] now) (\<lambda>(uidvalidity, uids).
       case uids of
         uid # _ \<Rightarrow> io_return (uidvalidity, uid)
       | [] \<Rightarrow> io_fail (MailStorage ''UID assignment produced no uid''))"

section \<open>What assigning does to a list\<close>

abbreviation bases_of :: "uid_list \<Rightarrow> string list" where
  "bases_of l \<equiv> map (fst \<circ> snd) (ul_by_uid l)"

text \<open>
  A later version of a list: no identifier that was ever given out names another message, the
  modification sequence only grows, and the validity of the folder stays.
\<close>

definition uid_continues :: "uid_list \<Rightarrow> uid_list \<Rightarrow> bool" where
  "uid_continues l l' \<longleftrightarrow>
     ul_uidvalidity l' = ul_uidvalidity l \<and> ul_uidnext l \<le> ul_uidnext l' \<and> ul_highest_modseq l \<le> ul_highest_modseq l' \<and>
     (\<forall>uid base m'. uid < ul_uidnext l \<longrightarrow> map_of (ul_by_uid l') uid = Some (base, m') \<longrightarrow>
        (\<exists>m. map_of (ul_by_uid l) uid = Some (base, m) \<and> m \<le> m'))"

lemma uid_continues_refl [simp]: "uid_continues l l"
  by (auto simp: uid_continues_def)

lemma uid_continues_trans: "uid_continues l l' \<Longrightarrow> uid_continues l' l'' \<Longrightarrow> uid_continues l l''"
proof -
  assume a: "uid_continues l l'" and b: "uid_continues l' l''"
  have "\<exists>m. map_of (ul_by_uid l) uid = Some (base, m) \<and> m \<le> m''"
    if "uid < ul_uidnext l" "map_of (ul_by_uid l'') uid = Some (base, m'')" for uid base m''
    using a b that unfolding uid_continues_def by (meson le_trans less_le_trans)
  then show ?thesis using a b unfolding uid_continues_def by auto
qed

text \<open>\<open>l\<close> extended with identifiers from \<open>next\<close> on, the last of them below \<open>next'\<close>.\<close>

definition uid_extends :: "uid_list \<Rightarrow> nat \<Rightarrow> uid_list \<Rightarrow> nat \<Rightarrow> bool" where
  "uid_extends l next l' next' \<longleftrightarrow>
     ul_ok (l'\<lparr>ul_uidnext := next'\<rparr>) \<and> next \<le> next' \<and> ul_uidvalidity l' = ul_uidvalidity l \<and> ul_uidnext l' = ul_uidnext l \<and>
     ul_highest_modseq l \<le> ul_highest_modseq l' \<and>
     (\<exists>new. ul_by_uid l' = ul_by_uid l @ new \<and> (\<forall>e\<in>set new. next \<le> fst e \<and> ul_highest_modseq l \<le> snd (snd e)))"

lemma uid_extends_refl: "ul_ok (l\<lparr>ul_uidnext := next\<rparr>) \<Longrightarrow> uid_extends l next l next"
  by (simp add: uid_extends_def)

lemma uid_extends_trans:
  "uid_extends l n l' n' \<Longrightarrow> uid_extends l' n' l'' n'' \<Longrightarrow> uid_extends l n l'' n''"
  unfolding uid_extends_def by (fastforce intro: le_trans)

lemma ul_ok_next_le: "ul_ok (l\<lparr>ul_uidnext := n\<rparr>) \<Longrightarrow> n \<le> U32_MAX"
  by (simp add: ul_ok_def)

lemma add_uid_extends:
  assumes ok: "ul_ok (l\<lparr>ul_uidnext := n\<rparr>)" and n: "n \<noteq> U32_MAX" and base: "is_valid_base base" "base \<notin> set (bases_of l)"
  shows "uid_extends l n (add_uid base n l) (n + 1)"
    and "ul_by_uid (add_uid base n l) = ul_by_uid l @ [(n, base, sat_u64 (ul_highest_modseq l + 1))]"
proof -
  have wf: "bt_wf (ul_by_uid l)" using ok by (simp add: ul_ok_def)
  have less: "fst e < n" if "e \<in> set (ul_by_uid l)" for e using ul_okD [OF ok] that by simp
  then have "bt_insert n v (ul_by_uid l) = ul_by_uid l @ [(n, v)]" for v
    by (intro bt_insert_last [OF wf]) auto
  then show bu: "ul_by_uid (add_uid base n l) = ul_by_uid l @ [(n, base, sat_u64 (ul_highest_modseq l + 1))]"
    by (simp add: add_uid_def Let_def)
  have "bt_wf (ul_by_uid l @ [(n, base, sat_u64 (ul_highest_modseq l + 1))])"
    using wf less by (auto simp: bt_wf_def sorted_wrt_append)
  moreover have "n < U32_MAX" using n ul_ok_next_le [OF ok] by simp
  moreover have "ul_highest_modseq l \<le> sat_u64 (ul_highest_modseq l + 1)" "0 < sat_u64 (ul_highest_modseq l + 1)"
    "sat_u64 (ul_highest_modseq l + 1) \<le> U64_MAX"
    using ok by (auto simp: sat_u64_def ul_ok_def min_def)
  moreover have "\<forall>e\<in>set (ul_by_uid l). 0 < fst e \<and> fst e < n \<and> is_valid_base (fst (snd e)) \<and> 0 < snd (snd e) \<and>
      snd (snd e) \<le> ul_highest_modseq l"
    using ul_okD [OF ok] by simp
  ultimately show "uid_extends l n (add_uid base n l) (n + 1)"
    using ok base by (auto simp: uid_extends_def bu ul_ok_def list_all_iff) (auto simp: add_uid_def Let_def)
qed

lemma sync_loop_extends:
  assumes "sync_loop existing bases l n changed = Inr (l', n', changed')"
    and "ul_ok (l\<lparr>ul_uidnext := n\<rparr>)" and "distinct bases" and "\<forall>b\<in>set bases. is_valid_base b"
    and "set (bases_of l) \<inter> (set bases - set existing) = {}"
  shows "uid_extends l n l' n' \<and> set (bases_of l') = set (bases_of l) \<union> (set bases - set existing) \<and>
         (\<not> changed' \<longrightarrow> \<not> changed \<and> l' = l \<and> n' = n)"
  using assms
proof (induction existing bases l n changed arbitrary: l' n' changed' rule: sync_loop.induct)
  case (1 existing l n changed)
  then show ?case by (auto simp: uid_extends_refl)
next
  case (2 existing base bases l n changed)
  show ?case
  proof (cases "base \<in> set existing")
    case True
    then have d: "set (base # bases) - set existing = set bases - set existing" by auto
    have "sync_loop existing bases l n changed = Inr (l', n', changed')" using "2.prems"(1) True by simp
    from "2.IH"(1) [OF True this "2.prems"(2)] show ?thesis using "2.prems"(3-5) unfolding d by simp
  next
    case False
    have nm: "n \<noteq> U32_MAX" and rec: "sync_loop existing bases (add_uid base n l) (n + 1) True = Inr (l', n', changed')"
      using "2.prems"(1) False by (auto simp: Let_def split: if_splits)
    have nb: "base \<notin> set (bases_of l)" using "2.prems"(5) False by auto
    note ext = add_uid_extends [OF "2.prems"(2) nm _ nb]
    have vb: "is_valid_base base" using "2.prems"(4) by simp
    have "uid_extends (add_uid base n l) (n + 1) l' n' \<and>
        set (bases_of l') = set (bases_of (add_uid base n l)) \<union> (set bases - set existing) \<and>
         (\<not> changed' \<longrightarrow> \<not> True \<and> l' = add_uid base n l \<and> n' = n + 1)"
    proof (rule "2.IH"(2) [OF False refl nm rec])
      show "ul_ok ((add_uid base n l)\<lparr>ul_uidnext := n + 1\<rparr>)" using ext(1) [OF vb] by (simp add: uid_extends_def)
      show "distinct bases" "\<forall>b\<in>set bases. is_valid_base b" using "2.prems"(3,4) by auto
      show "set (bases_of (add_uid base n l)) \<inter> (set bases - set existing) = {}"
        using "2.prems"(3,5) by (auto simp: ext(2) [OF vb])
    qed
    then show ?thesis using uid_extends_trans [OF ext(1) [OF vb]] False by (auto simp: ext(2) [OF vb])
  qed
qed

lemma uid_extends_continues:
  assumes "uid_extends l n l' n'" and "ul_uidnext l \<le> n"
  shows "uid_continues l (l'\<lparr>ul_uidnext := n'\<rparr>)"
proof -
  obtain new where new: "ul_by_uid l' = ul_by_uid l @ new" "\<forall>e\<in>set new. n \<le> fst e"
    using assms(1) unfolding uid_extends_def by auto
  have "map_of (ul_by_uid l') uid = map_of (ul_by_uid l) uid" if "uid < ul_uidnext l" for uid
  proof -
    have "uid \<notin> fst ` set new" using new(2) that assms(2) by auto
    then have "map_of new uid = None" by (simp add: map_of_eq_None_iff)
    then show ?thesis by (simp add: new(1) map_add_def split: option.split)
  qed
  then show ?thesis using assms by (auto simp: uid_continues_def uid_extends_def)
qed

lemma next_uid_ok: "ul_ok l \<Longrightarrow> next_uid l = ul_uidnext l"
proof -
  assume ok: "ul_ok l"
  have "ul_by_uid l \<noteq> [] \<Longrightarrow> fst (last (ul_by_uid l)) < ul_uidnext l"
    using ul_okD [OF ok] last_in_set by blast
  moreover have "0 < ul_uidnext l" using ok by (simp add: ul_ok_def)
  ultimately show ?thesis by (auto simp: next_uid_def sat_u32_def max_def min_def)
qed

lemma ul_ok_filter: "ul_ok l \<Longrightarrow> ul_ok (l\<lparr>ul_by_uid := filter P (ul_by_uid l)\<rparr>)"
  by (auto simp: ul_ok_def list_all_iff bt_wf_filter distinct_map_filter)

lemma uid_continues_filter: "ul_ok l \<Longrightarrow> uid_continues l (l\<lparr>ul_by_uid := filter P (ul_by_uid l)\<rparr>)"
proof -
  assume ok: "ul_ok l"
  then have "distinct (map fst (ul_by_uid l))" by (simp add: ul_ok_def bt_wf_distinct)
  then show ?thesis by (auto simp: uid_continues_def distinct_map_filter dest!: map_of_SomeD)
qed

lemma map_of_rev_Some: "distinct (map fst xs) \<Longrightarrow> map_of (rev xs) k = Some v \<longleftrightarrow> (k, v) \<in> set xs"
  using map_of_eq_Some_iff [of "rev xs" k v] by (simp add: rev_map [symmetric])

lemma existing_uids_Some: "ul_ok l \<Longrightarrow> existing_uids l b = Some u \<longleftrightarrow> (\<exists>m. (u, b, m) \<in> set (ul_by_uid l))"
  unfolding existing_uids_def
  by (subst map_of_rev_Some) (force simp: ul_ok_def comp_def case_prod_unfold)+

lemma by_base_Some: "ul_ok l \<Longrightarrow> by_base l b = Some (u, m) \<longleftrightarrow> (u, b, m) \<in> set (ul_by_uid l)"
  unfolding by_base_def
  by (subst map_of_rev_Some) (force simp: ul_ok_def comp_def case_prod_unfold)+

lemma uid_extends_mono: "uid_extends l n l' n' \<Longrightarrow> e \<in> set (ul_by_uid l) \<Longrightarrow> e \<in> set (ul_by_uid l')"
  by (auto simp: uid_extends_def)

lemma assign_loop_extends:
  assumes "assign_loop existing bases l n uids changed = Inr (l', n', uids', changed')"
    and "ul_ok (l\<lparr>ul_uidnext := n\<rparr>)" and "\<forall>b\<in>set bases. is_valid_base b"
    and "\<forall>b u. existing b = Some u \<longleftrightarrow> (\<exists>m. (u, b, m) \<in> set (ul_by_uid l))"
  shows "uid_extends l n l' n' \<and> (\<not> changed' \<longrightarrow> \<not> changed \<and> l' = l \<and> n' = n) \<and>
         (\<exists>us. uids' = uids @ us \<and> list_all2 (\<lambda>b u. \<exists>m. (u, b, m) \<in> set (ul_by_uid l')) bases us)"
  using assms
proof (induction existing bases l n uids changed arbitrary: l' n' uids' changed' rule: assign_loop.induct)
  case (1 existing l n uids changed)
  then show ?case by (auto simp: uid_extends_refl)
next
  case (2 existing base bases l n uids changed)
  have vb: "is_valid_base base" and vbs: "\<forall>b\<in>set bases. is_valid_base b" using "2.prems"(3) by simp_all
  show ?case
  proof (cases "existing base")
    case (Some uid)
    then have "assign_loop existing bases l n (uids @ [uid]) changed = Inr (l', n', uids', changed')" using "2.prems"(1) by simp
    from "2.IH"(2) [OF Some this "2.prems"(2) vbs "2.prems"(4)] obtain us where
      ih: "uid_extends l n l' n'" "\<not> changed' \<longrightarrow> \<not> changed \<and> l' = l \<and> n' = n" "uids' = (uids @ [uid]) @ us"
        "list_all2 (\<lambda>b u. \<exists>m. (u, b, m) \<in> set (ul_by_uid l')) bases us" by blast
    moreover obtain m where "(uid, base, m) \<in> set (ul_by_uid l)" using "2.prems"(4) Some by blast
    then have "(uid, base, m) \<in> set (ul_by_uid l')" by (rule uid_extends_mono [OF ih(1)])
    ultimately show ?thesis by (auto intro!: exI [of _ "uid # us"])
  next
    case None
    have nm: "n \<noteq> U32_MAX" using "2.prems"(1) None by auto
    then have rec: "assign_loop (existing(base \<mapsto> n)) bases (add_uid base n l) (n + 1) (uids @ [n]) True = Inr (l', n', uids', changed')"
      using "2.prems"(1) None by simp
    have nb: "base \<notin> set (bases_of l)"
    proof
      assume "base \<in> set (bases_of l)"
      then obtain u m where "(u, base, m) \<in> set (ul_by_uid l)" by auto
      then have "existing base = Some u" using "2.prems"(4) by blast
      then show False using None by simp
    qed
    note ext = add_uid_extends [OF "2.prems"(2) nm vb nb]
    have "ul_ok ((add_uid base n l)\<lparr>ul_uidnext := n + 1\<rparr>)" using ext(1) by (simp add: uid_extends_def)
    moreover have "(u, base, m) \<notin> set (ul_by_uid l)" for u m using nb by force
    then have "\<forall>b u. (existing(base \<mapsto> n)) b = Some u \<longleftrightarrow> (\<exists>m. (u, b, m) \<in> set (ul_by_uid (add_uid base n l)))"
      using "2.prems"(4) by (auto simp: ext(2))
    ultimately obtain us where
      ih: "uid_extends (add_uid base n l) (n + 1) l' n'" "changed'" "uids' = (uids @ [n]) @ us"
        "list_all2 (\<lambda>b u. \<exists>m. (u, b, m) \<in> set (ul_by_uid l')) bases us"
      using "2.IH"(1) [OF None nm rec _ vbs] by blast
    moreover have "(n, base, sat_u64 (ul_highest_modseq l + 1)) \<in> set (ul_by_uid l')"
      by (rule uid_extends_mono [OF ih(1)]) (simp add: ext(2))
    ultimately show ?thesis using uid_extends_trans [OF ext(1)] by (auto intro!: exI [of _ "n # us"])
  qed
qed

section \<open>What the operations do to the file\<close>

abbreviation index_files :: "string \<Rightarrow> path set" where
  "index_files d \<equiv> {p. fst p = d}"

definition list_at :: "fs \<Rightarrow> string \<Rightarrow> uid_list option" where
  "list_at s d = Option.bind (content_at s (d, UIDLIST)) parse_uidlist"

lemma list_at_ok: "list_at s d = Some l \<Longrightarrow> ul_ok l"
  by (auto simp: list_at_def bind_eq_Some_conv parse_uidlist_ok)

lemma list_at_cong: "content_at t (d, UIDLIST) = content_at s (d, UIDLIST) \<Longrightarrow> list_at t d = list_at s d"
  by (simp add: list_at_def)

lemma maildir_temp_neq [simp]: "maildir_temp tag p \<noteq> p" "p \<noteq> maildir_temp tag p"
  by (cases p, auto simp: maildir_temp_def dest: arg_cong [of _ _ length])+

lemma maildir_write_atomic_effect:
  assumes "maildir_write_atomic p data s = (t, r)"
  shows "(r = Inr () \<and> content_at t p = Some data \<or> (\<exists>e. r = Inl e) \<and> content_at t p = content_at s p) \<and>
         same_files {p, maildir_temp (fs_tag s (fs_ops s)) p} s t"
proof -
  let ?tmp = "maildir_temp (fs_tag s (fs_ops s)) p"
  let ?w = "io_bind (create_new ?tmp) (\<lambda>_. io_bind (write_all ?tmp data) (\<lambda>_. fs_sync))"
  obtain s1 r1 where w: "?w s = (s1, r1)" by (cases "?w s")
  obtain s2 r2 where m: "fs_rename ?tmp p s1 = (s2, r2)" by (cases "fs_rename ?tmp p s1")
  have "touches {?tmp} ?w" by (intro touches_intros) simp_all
  from touchesD [OF this w] have f1: "same_files {?tmp} s s1" .
  then have p1: "content_at s1 p = content_at s p" by (rule same_content) simp
  have f2: "same_files {p, ?tmp} s1 s2" using touchesD [of "{p, ?tmp}" "fs_rename ?tmp p" s1 s2 r2] touches_ops(11) [of ?tmp "{p, ?tmp}" p] m by simp
  have rm: "same_files {?tmp} x (io_drop (remove_file ?tmp) x)" "same_files {} x (io_drop fs_sync x)" for x
    by (rule touches_drop; rule touches_ops; simp)+
  have c1: "content_at s1 ?tmp = Some data" if "r1 = Inr ()"
    using w that by (auto simp: io_bind_def create_new_def write_all_def fs_sync_def fallible_def fs_tick_def
      Let_def content_at_def split: prod.splits sum.splits if_splits option.splits)
  have up: "same_files {?tmp} x y \<Longrightarrow> same_files {p, ?tmp} x y" "same_files {} x y \<Longrightarrow> same_files {p, ?tmp} x y" for x y
    by (auto elim: same_files_mono)
  show ?thesis
  proof (cases r1)
    case (Inl e)
    then show ?thesis using assms w p1 up(1) [OF f1] by (auto simp: maildir_write_atomic_def Let_def)
  next
    case (Inr u)
    have f: "same_files {p, ?tmp} s s2" using up(1) [OF f1] f2 by (rule same_files_trans)
    have rn: "(r2 = Inr () \<and> content_at s2 p = content_at s1 ?tmp) \<or> ((\<exists>e. r2 = Inl e) \<and> content_at s2 p = content_at s1 p)"
      using rename_content [OF m] by simp
    show ?thesis
    proof (cases r2)
      case (Inl e)
      then have t: "t = io_drop (remove_file ?tmp) s2" "r = Inl MailIo"
        using assms w m Inr by (auto simp: maildir_write_atomic_def Let_def)
      have "content_at t p = content_at s2 p" unfolding t(1) using same_content [OF rm(1)] by simp
      moreover have "same_files {p, ?tmp} s t" using f up(1) [OF rm(1) [of s2]] t(1) same_files_trans by blast
      ultimately show ?thesis using rn Inl p1 t(2) by auto
    next
      case r2: (Inr u')
      then have t: "t = io_drop fs_sync s2" "r = Inr ()"
        using assms w m Inr by (auto simp: maildir_write_atomic_def Let_def)
      have "content_at t p = content_at s2 p" unfolding t(1) using same_content [OF rm(2)] by simp
      moreover have "same_files {p, ?tmp} s t" using f up(2) [OF rm(2) [of s2]] t(1) same_files_trans by blast
      ultimately show ?thesis using rn r2 c1 Inr t(2) by auto
    qed
  qed
qed

lemma write_uidlist_effect:
  assumes "write_uidlist d l s = (t, r)" and "ul_ok l"
  shows "same_files (index_files d) s t" and "(r = Inr () \<and> list_at t d = Some l) \<or> ((\<exists>e. r = Inl e) \<and> list_at t d = list_at s d)"
proof -
  note e = maildir_write_atomic_effect [OF assms(1) [unfolded write_uidlist_def]]
  show "same_files (index_files d) s t" using e by (auto simp: maildir_temp_def elim!: same_files_mono)
  show "(r = Inr () \<and> list_at t d = Some l) \<or> ((\<exists>e. r = Inl e) \<and> list_at t d = list_at s d)"
    using e parse_render_uidlist [OF assms(2)] by (auto simp: list_at_def)
qed

lemma store_list_effect:
  assumes "store_list d l n changed s = (t, r)" and "ul_ok (l\<lparr>ul_uidnext := n\<rparr>)"
    and "\<not> changed \<Longrightarrow> n = ul_uidnext l \<Longrightarrow> list_at s d = Some l"
  shows "same_files (index_files d) s t"
    and "(r = Inr (l\<lparr>ul_uidnext := n\<rparr>) \<and> list_at t d = Some (l\<lparr>ul_uidnext := n\<rparr>)) \<or> ((\<exists>e. r = Inl e) \<and> list_at t d = list_at s d)"
proof -
  let ?l = "l\<lparr>ul_uidnext := n\<rparr>"
  show "same_files (index_files d) s t"
    using assms(1) write_uidlist_effect(1) [OF _ assms(2), of d s]
    by (auto simp: store_list_def io_bind_def io_return_def Let_def split: if_splits prod.splits sum.splits)
  show "(r = Inr ?l \<and> list_at t d = Some ?l) \<or> ((\<exists>e. r = Inl e) \<and> list_at t d = list_at s d)"
  proof (cases "changed \<or> n \<noteq> ul_uidnext l")
    case True
    obtain t' r' where w: "write_uidlist d ?l s = (t', r')" by (cases "write_uidlist d ?l s")
    from write_uidlist_effect(2) [OF w assms(2)] show ?thesis
      using True assms(1) w by (auto simp: store_list_def io_bind_def io_return_def Let_def)
  next
    case False
    then show ?thesis using assms(1,3) by (auto simp: store_list_def io_return_def)
  qed
qed

lemma fresh_uidvalidity_range: "0 < fresh_uidvalidity now tag \<and> fresh_uidvalidity now tag \<le> U32_MAX"
proof -
  have "unat (w :: 32 word) < 2 ^ 32" for w using unsigned_less [of w, where 'a = nat] by simp
  then have "unat (w :: 32 word) \<le> U32_MAX" for w by (simp add: less_Suc_eq_le [symmetric])
  then show ?thesis by (auto simp: fresh_uidvalidity_def Let_def)
qed

lemma fresh_list_ok: "ul_ok (fresh_list now tag)"
  using fresh_uidvalidity_range by (simp add: ul_ok_def fresh_list_def bt_wf_def)

lemma index_names [simp]:
  "UIDLIST \<noteq> UIDLIST_LOCK" "UIDLIST \<noteq> EXPUNGED" "UIDLIST_LOCK \<noteq> UIDLIST" "EXPUNGED \<noteq> UIDLIST"
  by (simp_all add: UIDLIST_def UIDLIST_LOCK_def EXPUNGED_def)

lemma touches_fail: "touches ps (io_fail e)"
  by (simp add: touches_def io_fail_def)

lemma read_to_string_effect:
  assumes "read_to_string p s = (t, r)"
  shows "same_files {} s t" and "r = Inr c \<Longrightarrow> content_at s p = Some c" and "r = Inl NotFound \<Longrightarrow> content_at s p = None"
proof -
  have "touches {} (read_to_string p)"
    unfolding read_to_string_def by (intro touches_bind touches_ops) (simp add: touches_return touches_fail)
  from touchesD [OF this assms] show "same_files {} s t" .
  show "r = Inr c \<Longrightarrow> content_at s p = Some c" "r = Inl NotFound \<Longrightarrow> content_at s p = None"
    using assms by (auto simp: read_to_string_def io_bind_def fs_read_def fallible_def fs_tick_def content_at_def io_return_def
        io_fail_def split: if_splits option.splits)
qed

lemma load_uidlist_effect:
  assumes "load_uidlist (d, UIDLIST) s = (t, r)"
  shows "same_files {} s t" and "r = Inr loaded \<Longrightarrow> list_at s d = loaded"
proof -
  obtain t' r' where rd: "read_to_string (d, UIDLIST) s = (t', r')" by (cases "read_to_string (d, UIDLIST) s")
  note e = read_to_string_effect [OF rd]
  have t: "t = t'" using assms rd by (auto simp: load_uidlist_def split: sum.splits)
  show "same_files {} s t" using e(1) t by simp
  show "r = Inr loaded \<Longrightarrow> list_at s d = loaded"
    using assms rd e(2,3) by (auto simp: load_uidlist_def list_at_def split: sum.splits if_splits)
qed

lemma load_or_fresh_effect:
  assumes "load_or_fresh d now s = (t, r)"
  shows "same_files {(d, EXPUNGED)} s t"
    and "r = Inr (l, changed) \<Longrightarrow> ul_ok l \<and> (list_at s d = Some l \<or> list_at s d = None \<and> changed)"
proof -
  obtain s1 r1 where ld: "load_uidlist (d, UIDLIST) s = (s1, r1)" by (cases "load_uidlist (d, UIDLIST) s")
  note e = load_uidlist_effect [OF ld]
  have f1: "same_files {(d, EXPUNGED)} s s1" using e(1) by (rule same_files_mono) simp
  have f2: "same_files {(d, EXPUNGED)} s1 (io_drop (remove_file (d, EXPUNGED)) s1)"
    "same_files {(d, EXPUNGED)} s1 (fst (path_exists (d, UIDLIST) s1))"
    by (rule touches_drop, rule touches_ops, simp) (metis touches_query(2) touches_def)
  show "same_files {(d, EXPUNGED)} s t"
    using assms ld f1 same_files_trans [OF f1 f2(1)] same_files_trans [OF f1 f2(2)]
    by (auto simp: load_or_fresh_def Let_def split: sum.splits option.splits prod.splits)
  show "r = Inr (l, changed) \<Longrightarrow> ul_ok l \<and> (list_at s d = Some l \<or> list_at s d = None \<and> changed)"
    using assms ld e(2) list_at_ok [of s d] fresh_list_ok [of now "fs_tag s1 (fs_ops s1)"]
    by (auto simp: load_or_fresh_def Let_def split: sum.splits option.splits prod.splits)
qed

lemma filter_length_id: "length (filter P xs) = length xs \<Longrightarrow> filter P xs = xs"
  by (metis filter_True length_filter_less less_irrefl)

lemma sync_body_effect:
  assumes run: "sync_body d bases (l, changed) s = (t, r)" and "ul_ok l" and "distinct bases" and "\<forall>b\<in>set bases. is_valid_base b"
    and at: "list_at s d = Some l \<or> list_at s d = None \<and> changed"
  shows "same_files (index_files d) s t"
    and "(\<exists>l'. r = Inr (mapping_of l') \<and> list_at t d = Some l' \<and> uid_continues l l' \<and> set (bases_of l') = set bases \<and>
              (\<forall>e\<in>set (ul_by_uid l). fst (snd e) \<in> set bases \<longrightarrow> e \<in> set (ul_by_uid l'))) \<or>
         (\<exists>e. r = Inl e) \<and> list_at t d = list_at s d"
proof -
  define k where "k = l\<lparr>ul_by_uid := filter (\<lambda>(_, base, _). base \<in> set bases) (ul_by_uid l)\<rparr>"
  define ch where "ch = (changed \<or> length (ul_by_uid k) \<noteq> length (ul_by_uid l))"
  have ok: "ul_ok k" unfolding k_def by (rule ul_ok_filter [OF assms(2)])
  have nx: "next_uid k = ul_uidnext k" by (rule next_uid_ok [OF ok])
  have kl: "k = l" if "\<not> ch" using that filter_length_id unfolding ch_def k_def by fastforce
  have eq: "sync_body d bases (l, changed) s =
      (case sync_loop (bases_of k) bases k (ul_uidnext k) ch of
         Inl e \<Rightarrow> (s, Inl e)
       | Inr (l, next, changed) \<Rightarrow> io_bind (store_list d l next changed) (\<lambda>l. io_return (mapping_of l)) s)"
    unfolding nx [symmetric] by (simp add: sync_body_def k_def ch_def Let_def)
  have sub: "set (bases_of k) \<subseteq> set bases" by (auto simp: k_def)
  have lk: "uid_continues l k" unfolding k_def by (rule uid_continues_filter [OF assms(2)])
  have both: "same_files (index_files d) s t \<and>
      ((\<exists>l'. r = Inr (mapping_of l') \<and> list_at t d = Some l' \<and> uid_continues l l' \<and> set (bases_of l') = set bases \<and>
              (\<forall>e\<in>set (ul_by_uid l). fst (snd e) \<in> set bases \<longrightarrow> e \<in> set (ul_by_uid l'))) \<or>
       (\<exists>e. r = Inl e) \<and> list_at t d = list_at s d)"
  proof (cases "sync_loop (bases_of k) bases k (ul_uidnext k) ch")
    case (Inl e)
    then show ?thesis using run eq by auto
  next
    case (Inr x)
    then obtain l1 n ch' where loop: "sync_loop (bases_of k) bases k (ul_uidnext k) ch = Inr (l1, n, ch')" by (cases x) auto
    have ext: "uid_extends k (ul_uidnext k) l1 n" and bs: "set (bases_of l1) = set bases" and same: "\<not> ch' \<Longrightarrow> \<not> ch \<and> l1 = k"
      using sync_loop_extends [OF loop _ assms(3,4)] ok sub by auto
    obtain t1 r1 where st: "store_list d l1 n ch' s = (t1, r1)" by (cases "store_list d l1 n ch' s")
    have "list_at s d = Some l1" if "\<not> ch'" using same [OF that] kl at by (auto simp: ch_def)
    moreover have "ul_ok (l1\<lparr>ul_uidnext := n\<rparr>)" using ext by (simp add: uid_extends_def)
    moreover have "uid_continues l (l1\<lparr>ul_uidnext := n\<rparr>)"
      using uid_continues_trans [OF lk uid_extends_continues [OF ext]] by simp
    moreover have "\<forall>e\<in>set (ul_by_uid l). fst (snd e) \<in> set bases \<longrightarrow> e \<in> set (ul_by_uid l1)"
      using uid_extends_mono [OF ext] by (auto simp: k_def)
    ultimately show ?thesis
      using store_list_effect [OF st] bs run eq loop st by (auto simp: io_bind_def io_return_def)
  qed
  then show "same_files (index_files d) s t" ..
  from both show "(\<exists>l'. r = Inr (mapping_of l') \<and> list_at t d = Some l' \<and> uid_continues l l' \<and> set (bases_of l') = set bases \<and>
              (\<forall>e\<in>set (ul_by_uid l). fst (snd e) \<in> set bases \<longrightarrow> e \<in> set (ul_by_uid l'))) \<or>
         (\<exists>e. r = Inl e) \<and> list_at t d = list_at s d" ..
qed

lemma assign_body_effect:
  assumes run: "assign_body d bases (l, changed) s = (t, r)" and ok: "ul_ok l" and "\<forall>b\<in>set bases. is_valid_base b"
    and at: "list_at s d = Some l \<or> list_at s d = None \<and> changed"
  shows "same_files (index_files d) s t"
    and "(\<exists>l' uids. r = Inr (ul_uidvalidity l', uids) \<and> list_at t d = Some l' \<and> uid_continues l l' \<and> set (ul_by_uid l) \<subseteq> set (ul_by_uid l') \<and>
              list_all2 (\<lambda>b u. \<exists>m. (u, b, m) \<in> set (ul_by_uid l')) bases uids) \<or>
         (\<exists>e. r = Inl e) \<and> list_at t d = list_at s d"
proof -
  have nx: "next_uid l = ul_uidnext l" by (rule next_uid_ok [OF ok])
  have "same_files (index_files d) s t \<and>
      ((\<exists>l' uids. r = Inr (ul_uidvalidity l', uids) \<and> list_at t d = Some l' \<and> uid_continues l l' \<and> set (ul_by_uid l) \<subseteq> set (ul_by_uid l') \<and>
              list_all2 (\<lambda>b u. \<exists>m. (u, b, m) \<in> set (ul_by_uid l')) bases uids) \<or>
         (\<exists>e. r = Inl e) \<and> list_at t d = list_at s d)"
  proof (cases "assign_loop (existing_uids l) bases l (next_uid l) [] changed")
    case (Inl e)
    then show ?thesis using run by (auto simp: assign_body_def)
  next
    case (Inr x)
    then obtain l1 n uids ch' where loop: "assign_loop (existing_uids l) bases l (next_uid l) [] changed = Inr (l1, n, uids, ch')"
      by (cases x) auto
    have ext: "uid_extends l (ul_uidnext l) l1 n" and us: "list_all2 (\<lambda>b u. \<exists>m. (u, b, m) \<in> set (ul_by_uid l1)) bases uids"
      and same: "\<not> ch' \<Longrightarrow> \<not> changed \<and> l1 = l"
      using assign_loop_extends [OF loop _ assms(3)] ok existing_uids_Some [OF ok] nx by auto
    obtain t1 r1 where st: "store_list d l1 n ch' s = (t1, r1)" by (cases "store_list d l1 n ch' s")
    have "list_at s d = Some l1" if "\<not> ch'" using same [OF that] at by auto
    moreover have "ul_ok (l1\<lparr>ul_uidnext := n\<rparr>)" using ext by (simp add: uid_extends_def)
    moreover have "uid_continues l (l1\<lparr>ul_uidnext := n\<rparr>)" using uid_extends_continues [OF ext] by simp
    moreover have "set (ul_by_uid l) \<subseteq> set (ul_by_uid l1)" using uid_extends_mono [OF ext] by blast
    ultimately show ?thesis
      using store_list_effect [OF st] us run loop st by (auto simp: assign_body_def io_bind_def io_return_def)
  qed
  then show "same_files (index_files d) s t"
    and "(\<exists>l' uids. r = Inr (ul_uidvalidity l', uids) \<and> list_at t d = Some l' \<and> uid_continues l l' \<and> set (ul_by_uid l) \<subseteq> set (ul_by_uid l') \<and>
              list_all2 (\<lambda>b u. \<exists>m. (u, b, m) \<in> set (ul_by_uid l')) bases uids) \<or>
         (\<exists>e. r = Inl e) \<and> list_at t d = list_at s d"
    by blast+
qed

text \<open>Taking the lock leaves the list alone; what the action does is what the locked operation does.\<close>

lemma maildir_lock_effect:
  assumes "maildir_lock d name action s = (t, r)"
  obtains (refused) "r = Inl MailIo" "same_files {(d, name)} s t"
  | (ran) s1 t1 where "same_files {(d, name)} s s1" "action s1 = (t1, r)" "same_files {} t1 t"
proof -
  let ?ps = "{(d, name)}"
  obtain s1 r1 where a: "mail_io (create_dir_all d) s = (s1, r1)" by (cases "mail_io (create_dir_all d) s")
  obtain s2 r2 where b: "mail_io (open_lock_sidecar (d, name)) s1 = (s2, r2)" by (cases "mail_io (open_lock_sidecar (d, name)) s1")
  obtain s3 r3 where c: "mail_io file_lock_acquire s2 = (s3, r3)" by (cases "mail_io file_lock_acquire s2")
  have "touches ?ps (mail_io (create_dir_all d))" "touches ?ps (mail_io (open_lock_sidecar (d, name)))"
    "touches ?ps (mail_io file_lock_acquire)"
    unfolding mail_io_def by (intro touches_intros; simp)+
  from touchesD [OF this(1) a] touchesD [OF this(2) b] touchesD [OF this(3) c]
  have f: "same_files ?ps s s1" "same_files ?ps s s2" "same_files ?ps s s3" using same_files_trans by blast+
  have err: "r1 = Inl e \<Longrightarrow> e = MailIo" "r2 = Inl e \<Longrightarrow> e = MailIo" "r3 = Inl e \<Longrightarrow> e = MailIo" for e
    using a b c by (auto simp: mail_io_def io_map_err_def split: prod.splits sum.splits)
  obtain t1 r4 where d: "action s3 = (t1, r4)" by (cases "action s3")
  have "same_files {} t1 (io_drop fs_sync t1)" by (rule touches_drop) (rule touches_ops)
  then show thesis
    using assms a b c d f err refused ran
    by (cases r1; cases r2; cases r3) (auto simp: maildir_lock_def io_bind_def)
qed

lemma locked_load_effect:
  assumes "maildir_lock d UIDLIST_LOCK (io_bind (load_or_fresh d now) body) s = (t, r)"
  obtains (stopped) e where "r = Inl e" "same_files (index_files d) s t" "list_at t d = list_at s d"
  | (ran) l changed s1 t1 where "body (l, changed) s1 = (t1, r)" "ul_ok l" "list_at s1 d = list_at s d"
      "list_at s d = Some l \<or> list_at s d = None \<and> changed" "same_files (index_files d) s s1" "same_files {} t1 t"
  using assms
proof (cases rule: maildir_lock_effect)
  case refused
  moreover have "same_files (index_files d) s t" using refused(2) by (rule same_files_mono) auto
  moreover have "list_at t d = list_at s d" by (rule list_at_cong, rule same_content [OF refused(2)]) simp
  ultimately show thesis using stopped by blast
next
  case (ran s1 t1)
  have f: "same_files (index_files d) s s1" using ran(1) by (rule same_files_mono) auto
  have c: "list_at s1 d = list_at s d" by (rule list_at_cong, rule same_content [OF ran(1)]) simp
  have ct: "list_at t d = list_at t1 d" by (rule list_at_cong, rule same_content [OF ran(3)]) simp
  obtain s2 r2 where ld: "load_or_fresh d now s1 = (s2, r2)" by (cases "load_or_fresh d now s1")
  note e = load_or_fresh_effect [OF ld]
  have f2: "same_files (index_files d) s s2" using f by (rule same_files_trans) (rule same_files_mono [OF e(1)], auto)
  have c2: "list_at s2 d = list_at s1 d" by (rule list_at_cong, rule same_content [OF e(1)]) simp
  have ft: "same_files (index_files d) t1 t" using ran(3) by (rule same_files_mono) auto
  show thesis
  proof (cases r2)
    case (Inl x)
    then have "t1 = s2" "r = Inl x" using ran(2) ld by (auto simp: io_bind_def)
    then show thesis using stopped [of x] same_files_trans [OF f2] ft c c2 ct by simp
  next
    case (Inr p)
    obtain l changed where p: "p = (l, changed)" by (cases p)
    then have "body (l, changed) s2 = (t1, r)" using ran(2) ld Inr by (simp add: io_bind_def)
    then show thesis using that(2) e(2) [of l changed] Inr p c c2 f2 ran(3) by simp
  qed
qed

lemma sync_uidlist_effect:
  assumes "sync_uidlist d bases now s = (t, r)" and "distinct bases" and "\<forall>b\<in>set bases. is_valid_base b"
  shows "same_files (index_files d) s t"
    and "r = Inr m \<Longrightarrow> \<exists>l. m = mapping_of l \<and> list_at t d = Some l \<and> set (bases_of l) = set bases"
    and "list_at s d = Some l \<Longrightarrow> \<exists>l'. list_at t d = Some l' \<and> uid_continues l l'"
    and "list_at s d = Some l \<Longrightarrow> r = Inr m \<Longrightarrow> (uid, base, k) \<in> set (ul_by_uid l) \<Longrightarrow> base \<in> set bases \<Longrightarrow>
      mp_uidvalidity m = ul_uidvalidity l \<and> mp_by_base m base = Some (uid, k)"
    and "list_at s d = Some l \<Longrightarrow> (uid, base, k) \<in> set (ul_by_uid l) \<Longrightarrow> base \<in> set bases \<Longrightarrow>
      \<exists>l'. list_at t d = Some l' \<and> ul_uidvalidity l' = ul_uidvalidity l \<and> (uid, base, k) \<in> set (ul_by_uid l')"
proof -
  have "same_files (index_files d) s t \<and>
     (\<forall>m. r = Inr m \<longrightarrow> (\<exists>l'. m = mapping_of l' \<and> list_at t d = Some l' \<and> set (bases_of l') = set bases \<and>
        (\<forall>l. list_at s d = Some l \<longrightarrow> uid_continues l l' \<and>
           (\<forall>e\<in>set (ul_by_uid l). fst (snd e) \<in> set bases \<longrightarrow> e \<in> set (ul_by_uid l'))))) \<and>
     (\<forall>l. list_at s d = Some l \<longrightarrow> (\<exists>l'. list_at t d = Some l' \<and> uid_continues l l' \<and>
           (\<forall>e\<in>set (ul_by_uid l). fst (snd e) \<in> set bases \<longrightarrow> e \<in> set (ul_by_uid l'))))"
    using assms(1) unfolding sync_uidlist_def
  proof (cases rule: locked_load_effect)
    case (stopped e)
    then show ?thesis by auto
  next
    case (ran l changed s1 t1)
    have c: "list_at t d = list_at t1 d" by (rule list_at_cong, rule same_content [OF ran(6)]) simp
    note b = sync_body_effect [OF ran(1,2) assms(2,3) ran(4) [folded ran(3)]]
    have "same_files (index_files d) t1 t" using ran(6) by (rule same_files_mono) auto
    then have "same_files (index_files d) s t" using same_files_trans [OF same_files_trans [OF ran(5) b(1)]] by blast
    then show ?thesis using b(2) ran(3,4) c by auto
  qed
  note e = this
  then show "same_files (index_files d) s t"
    and "r = Inr m \<Longrightarrow> \<exists>l. m = mapping_of l \<and> list_at t d = Some l \<and> set (bases_of l) = set bases"
    and "list_at s d = Some l \<Longrightarrow> \<exists>l'. list_at t d = Some l' \<and> uid_continues l l'"
    by blast+
  show "list_at s d = Some l \<Longrightarrow> (uid, base, k) \<in> set (ul_by_uid l) \<Longrightarrow> base \<in> set bases \<Longrightarrow>
      \<exists>l'. list_at t d = Some l' \<and> ul_uidvalidity l' = ul_uidvalidity l \<and> (uid, base, k) \<in> set (ul_by_uid l')"
    using e unfolding uid_continues_def by fastforce
  assume l: "list_at s d = Some l" "r = Inr m" "(uid, base, k) \<in> set (ul_by_uid l)" "base \<in> set bases"
  then obtain l' where l': "m = mapping_of l'" "list_at t d = Some l'" "uid_continues l l'" "(uid, base, k) \<in> set (ul_by_uid l')"
    using e by fastforce
  then show "mp_uidvalidity m = ul_uidvalidity l \<and> mp_by_base m base = Some (uid, k)"
    using by_base_Some [OF list_at_ok [OF l'(2)]] by (simp add: mapping_of_def uid_continues_def)
qed

lemma assign_uids_many_effect:
  assumes "assign_uids_many d bases now s = (t, r)" and "\<forall>b\<in>set bases. is_valid_base b"
  shows "same_files (index_files d) s t"
    and "r = Inr (v, uids) \<Longrightarrow> \<exists>l. v = ul_uidvalidity l \<and> list_at t d = Some l \<and>
           list_all2 (\<lambda>b u. \<exists>m. (u, b, m) \<in> set (ul_by_uid l)) bases uids"
    and "list_at s d = Some l \<Longrightarrow> \<exists>l'. list_at t d = Some l' \<and> uid_continues l l'"
    and "list_at s d = Some l \<Longrightarrow> \<exists>l'. list_at t d = Some l' \<and> ul_uidvalidity l' = ul_uidvalidity l \<and> set (ul_by_uid l) \<subseteq> set (ul_by_uid l')"
proof -
  have "same_files (index_files d) s t \<and>
     (\<forall>v uids. r = Inr (v, uids) \<longrightarrow> (\<exists>l. v = ul_uidvalidity l \<and> list_at t d = Some l \<and>
           list_all2 (\<lambda>b u. \<exists>m. (u, b, m) \<in> set (ul_by_uid l)) bases uids)) \<and>
     (\<forall>l. list_at s d = Some l \<longrightarrow> (\<exists>l'. list_at t d = Some l' \<and> uid_continues l l' \<and> set (ul_by_uid l) \<subseteq> set (ul_by_uid l')))"
    using assms(1) unfolding assign_uids_many_def
  proof (cases rule: locked_load_effect)
    case (stopped e)
    then show ?thesis by auto
  next
    case (ran l changed s1 t1)
    have c: "list_at t d = list_at t1 d" by (rule list_at_cong, rule same_content [OF ran(6)]) simp
    note b = assign_body_effect [OF ran(1,2) assms(2) ran(4) [folded ran(3)]]
    have "same_files (index_files d) t1 t" using ran(6) by (rule same_files_mono) auto
    then have "same_files (index_files d) s t" using same_files_trans [OF same_files_trans [OF ran(5) b(1)]] by blast
    then show ?thesis using b(2) ran(3,4) c by auto
  qed
  then show "same_files (index_files d) s t"
    and "r = Inr (v, uids) \<Longrightarrow> \<exists>l. v = ul_uidvalidity l \<and> list_at t d = Some l \<and>
           list_all2 (\<lambda>b u. \<exists>m. (u, b, m) \<in> set (ul_by_uid l)) bases uids"
    and "list_at s d = Some l \<Longrightarrow> \<exists>l'. list_at t d = Some l' \<and> uid_continues l l'"
    and "list_at s d = Some l \<Longrightarrow> \<exists>l'. list_at t d = Some l' \<and> ul_uidvalidity l' = ul_uidvalidity l \<and> set (ul_by_uid l) \<subseteq> set (ul_by_uid l')"
    unfolding uid_continues_def by blast+
qed

text \<open>
  \<^bold>\<open>C28\<close> (the UID list on disk). The file accepts only well-formed lists: identifiers ascend, stay below
  the next one and name valid messages, no message has two, the modification sequences are positive
  and not above the highest one. Every well-formed list is read back exactly as it was written.
\<close>

theorem uidlist_round_trip:
  "(ul_ok l \<longrightarrow> parse_uidlist (render_uidlist l) = Some l) \<and> (parse_uidlist contents = Some l \<longrightarrow> ul_ok l)"
  using parse_render_uidlist parse_uidlist_ok by blast

definition sample_uidlist :: uid_list where
  "sample_uidlist =
     \<lparr>ul_uidvalidity = 7, ul_uidnext = 5, ul_highest_modseq = 9, ul_by_uid = [(2, ''a'', 3), (4, ''b'', 9)]\<rparr>"

lemma sample_uidlist_ok: "ul_ok sample_uidlist"
  by (simp add: ul_ok_def sample_uidlist_def bt_wf_def is_valid_base_def is_ascii_graphic_def)

theorem uidlist_round_trip_witness: "parse_uidlist (render_uidlist sample_uidlist) = Some sample_uidlist"
  using uidlist_round_trip [of sample_uidlist "[]"] sample_uidlist_ok by blast

end
