(* ===== verification/MailFlags.thy ===== *)
theory MailFlags
  imports UidList
begin

text \<open>
  The flags of a message as a Maildir folder keeps them (\<open>src/crates/imappop3/src/maildir.rs\<close>): system
  flags are upper-case letters of the file name, kws are lower-case letters that the keyword
  file of the folder explains. A \<open>FlagSet\<close>, a \<open>BTreeSet<Flag>\<close>, is an ascending list without
  repetition in the derived order of \<open>Flag\<close>. The lemmas show that a file name gives back the flags
  it was made of, and that the keyword file gives back the table.
\<close>

section \<open>Flags\<close>

datatype system_flag = Answered | Deleted | Draft | Flagged | Seen
datatype flag = SystemFlag system_flag | Keyword string

fun flag_rank :: "system_flag \<Rightarrow> nat" where
  "flag_rank Answered = 0"
| "flag_rank Deleted = 1"
| "flag_rank Draft = 2"
| "flag_rank Flagged = 3"
| "flag_rank Seen = 4"

lemma flag_rank_inject: "flag_rank a = flag_rank b \<longleftrightarrow> a = b"
  by (cases a; cases b) simp_all

instantiation system_flag :: linorder
begin

definition less_eq_system_flag :: "system_flag \<Rightarrow> system_flag \<Rightarrow> bool" where
  "less_eq_system_flag a b \<longleftrightarrow> flag_rank a \<le> flag_rank b"

definition less_system_flag :: "system_flag \<Rightarrow> system_flag \<Rightarrow> bool" where
  "less_system_flag a b \<longleftrightarrow> flag_rank a < flag_rank b"

instance
  by standard (auto simp: less_eq_system_flag_def less_system_flag_def flag_rank_inject)

end

instantiation flag :: linorder
begin

fun less_eq_flag :: "flag \<Rightarrow> flag \<Rightarrow> bool" where
  "less_eq_flag (SystemFlag a) (SystemFlag b) \<longleftrightarrow> a \<le> b"
| "less_eq_flag (SystemFlag a) (Keyword k) \<longleftrightarrow> True"
| "less_eq_flag (Keyword k) (SystemFlag a) \<longleftrightarrow> False"
| "less_eq_flag (Keyword k) (Keyword k') \<longleftrightarrow> k \<le> k'"

definition less_flag :: "flag \<Rightarrow> flag \<Rightarrow> bool" where
  "less_flag a b \<longleftrightarrow> a \<le> b \<and> \<not> b \<le> a"

instance
proof
  fix a b c :: flag
  show "(a < b) = (a \<le> b \<and> \<not> b \<le> a)" by (simp add: less_flag_def)
  show "a \<le> a" by (cases a) simp_all
  show "a \<le> b \<Longrightarrow> b \<le> c \<Longrightarrow> a \<le> c" by (cases a; cases b; cases c) auto
  show "a \<le> b \<Longrightarrow> b \<le> a \<Longrightarrow> a = b" by (cases a; cases b) auto
  show "a \<le> b \<or> b \<le> a" by (cases a; cases b) auto
qed

end

type_synonym flag_set = "flag list"

definition flag_insert :: "flag \<Rightarrow> flag_set \<Rightarrow> flag_set" where
  "flag_insert f fs = (if f \<in> set fs then fs else insort f fs)"

definition flag_set_ok :: "flag_set \<Rightarrow> bool" where
  "flag_set_ok fs \<longleftrightarrow> sorted fs \<and> distinct fs"

fun imap_name :: "system_flag \<Rightarrow> string" where
  "imap_name Answered = CHR 0x5C # ''Answered''"
| "imap_name Deleted = CHR 0x5C # ''Deleted''"
| "imap_name Draft = CHR 0x5C # ''Draft''"
| "imap_name Flagged = CHR 0x5C # ''Flagged''"
| "imap_name Seen = CHR 0x5C # ''Seen''"

fun maildir_char :: "system_flag \<Rightarrow> char" where
  "maildir_char Draft = CHR ''D''"
| "maildir_char Flagged = CHR ''F''"
| "maildir_char Answered = CHR ''R''"
| "maildir_char Seen = CHR ''S''"
| "maildir_char Deleted = CHR ''T''"

definition from_char :: "char \<Rightarrow> system_flag option" where
  "from_char c =
     (if c = CHR ''D'' then Some Draft
      else if c = CHR ''F'' then Some Flagged
      else if c = CHR ''R'' then Some Answered
      else if c = CHR ''S'' then Some Seen
      else if c = CHR ''T'' then Some Deleted
      else None)"

definition from_imap :: "string \<Rightarrow> system_flag option" where
  "from_imap value =
     (let v = to_ascii_lowercase value in
      if v = CHR 0x5C # ''answered'' then Some Answered
      else if v = CHR 0x5C # ''deleted'' then Some Deleted
      else if v = CHR 0x5C # ''draft'' then Some Draft
      else if v = CHR 0x5C # ''flagged'' then Some Flagged
      else if v = CHR 0x5C # ''seen'' then Some Seen
      else None)"

definition FLAG_ORDER :: "system_flag list" where
  "FLAG_ORDER = [Draft, Flagged, Answered, Seen, Deleted]"

fun flag_imap_name :: "flag \<Rightarrow> string" where
  "flag_imap_name (SystemFlag f) = imap_name f"
| "flag_imap_name (Keyword k) = k"

definition validate_keyword :: "string \<Rightarrow> bool" where
  "validate_keyword keyword \<longleftrightarrow>
     keyword \<noteq> [] \<and> length keyword \<le> 64 \<and>
     list_all (\<lambda>c. is_ascii_graphic c \<and> c \<notin> set ''(){}%*'' \<and> c \<noteq> CHR 0x22 \<and> c \<noteq> CHR 0x5C) keyword"

definition parse_imap :: "string \<Rightarrow> flag option" where
  "parse_imap token =
     (case from_imap token of
        Some f \<Rightarrow> Some (SystemFlag f)
      | None \<Rightarrow>
          if prefix [CHR 0x5C] token then None
          else if \<not> validate_keyword token then None
          else Some (Keyword (to_ascii_lowercase token)))"

section \<open>Flags in file names\<close>

text \<open>\<open>str::split_once\<close> with a string\<close>

fun split_once_str :: "string \<Rightarrow> string \<Rightarrow> (string \<times> string) option" where
  "split_once_str p [] = (if p = [] then Some ([], []) else None)"
| "split_once_str p (c # cs) =
     (if prefix p (c # cs) then Some ([], drop (length p) (c # cs))
      else map_option (\<lambda>(a, b). (c # a, b)) (split_once_str p cs))"

type_synonym keyword_map = "(char \<times> string) list"

definition flag_of_char :: "keyword_map \<Rightarrow> char \<Rightarrow> flag option" where
  "flag_of_char kws c =
     (case from_char c of Some f \<Rightarrow> Some (SystemFlag f) | None \<Rightarrow> map_option Keyword (map_of kws c))"

definition parse_flags_from_name :: "string \<Rightarrow> keyword_map \<Rightarrow> string \<times> flag_set" where
  "parse_flags_from_name name kws =
     (let (base, suf) = (case split_once_str '':2,'' name of Some p \<Rightarrow> p | None \<Rightarrow> (name, []))
      in (base, fold (\<lambda>c flags. case flag_of_char kws c of Some f \<Rightarrow> flag_insert f flags | None \<Rightarrow> flags) suf []))"

definition keyword_letter :: "keyword_map \<Rightarrow> flag \<Rightarrow> char option" where
  "keyword_letter kws f =
     (case f of
        Keyword k \<Rightarrow> map_option fst (find (\<lambda>e. snd e = k) kws)
      | SystemFlag _ \<Rightarrow> None)"

definition flags_suffix :: "flag_set \<Rightarrow> keyword_map \<Rightarrow> string" where
  "flags_suffix flags kws =
     map maildir_char (filter (\<lambda>f. SystemFlag f \<in> set flags) FLAG_ORDER) @
     remdups_adj (sort (List.map_filter (keyword_letter kws) flags))"

definition keywords_ok :: "keyword_map \<Rightarrow> bool" where
  "keywords_ok kws \<longleftrightarrow>
     bt_wf kws \<and> list_all (\<lambda>(c, k). is_ascii_lower c \<and> validate_keyword k \<and> to_ascii_lowercase k = k) kws"

lemma from_char_maildir [simp]: "from_char (maildir_char f) = Some f"
  by (cases f) (simp_all add: from_char_def)

lemma from_char_lower: "is_ascii_lower c \<Longrightarrow> from_char c = None"
  by (auto simp: from_char_def is_ascii_lower_def)

lemma flag_insert_ok: "flag_set_ok fs \<Longrightarrow> flag_set_ok (flag_insert f fs)"
  by (simp add: flag_set_ok_def flag_insert_def sorted_insort distinct_insort)

lemma set_flag_insert: "set (flag_insert f fs) = insert f (set fs)"
  by (auto simp: flag_insert_def set_insort_key)

lemma fold_flags:
  fixes kws :: keyword_map and suf :: string
  assumes "flag_set_ok fs"
  defines "r \<equiv> fold (\<lambda>c flags. case flag_of_char kws c of Some f \<Rightarrow> flag_insert f flags | None \<Rightarrow> flags) suf fs"
  shows "flag_set_ok r" and "set r = set fs \<union> {f. \<exists>c\<in>set suf. flag_of_char kws c = Some f}"
  unfolding r_def using assms(1)
  by (induction suf arbitrary: fs) (auto simp: flag_insert_ok set_flag_insert split: option.split)

lemma flag_set_unique: "flag_set_ok a \<Longrightarrow> flag_set_ok b \<Longrightarrow> set a = set b \<Longrightarrow> a = b"
  by (simp add: flag_set_ok_def sorted_distinct_set_unique)

lemma split_once_str_first: "CHR '':'' \<notin> set a \<Longrightarrow> split_once_str '':2,'' (a @ '':2,'' @ b) = Some (a, b)"
proof (induction a)
  case (Cons c cs)
  then show ?case by (auto simp: prefix_def)
qed simp

lemma base_no_colon: "is_valid_base base \<Longrightarrow> CHR '':'' \<notin> set base"
  by (auto simp: is_valid_base_def list_all_iff)

text \<open>Every keyword among the flags has a letter.\<close>

definition flags_known :: "keyword_map \<Rightarrow> flag_set \<Rightarrow> bool" where
  "flags_known kws flags \<longleftrightarrow> (\<forall>k. Keyword k \<in> set flags \<longrightarrow> k \<in> snd ` set kws)"

lemma keyword_letter_sound:
  assumes "keywords_ok kws" and "keyword_letter kws f = Some c"
  shows "is_ascii_lower c \<and> flag_of_char kws c = Some f"
proof -
  obtain k e where f: "f = Keyword k" and e: "find (\<lambda>e. snd e = k) kws = Some e" "fst e = c"
    using assms(2) by (auto simp: keyword_letter_def split: flag.splits)
  have "e \<in> set kws \<and> snd e = k" using e(1) by (auto simp: find_Some_iff)
  with e(2) have "(c, k) \<in> set kws" by (cases e) simp
  moreover from this have "map_of kws c = Some k"
    using assms(1) by (simp add: keywords_ok_def bt_wf_distinct)
  ultimately show ?thesis
    using assms(1) f by (auto simp: keywords_ok_def list_all_iff flag_of_char_def from_char_lower)
qed

lemma keyword_letter_known:
  assumes "k \<in> snd ` set kws"
  obtains c where "keyword_letter kws (Keyword k) = Some c"
  using assms by (cases "find (\<lambda>e. snd e = k) kws") (auto simp: keyword_letter_def find_None_iff)

lemma set_map_filter: "set (List.map_filter g xs) = {y. \<exists>x\<in>set xs. g x = Some y}"
  by (force simp: List.map_filter_def)

lemma parse_flags_suffix:
  assumes "is_valid_base base" and "keywords_ok kws" and "flag_set_ok flags" and "flags_known kws flags"
  shows "parse_flags_from_name (base @ '':2,'' @ flags_suffix flags kws) kws = (base, flags)"
proof -
  let ?fold = "fold (\<lambda>c flags. case flag_of_char kws c of Some f \<Rightarrow> flag_insert f flags | None \<Rightarrow> flags) (flags_suffix flags kws) []"
  have sys: "{f. \<exists>c\<in>set (map maildir_char (filter (\<lambda>f. SystemFlag f \<in> set flags) FLAG_ORDER)). flag_of_char kws c = Some f} =
      {SystemFlag x | x. SystemFlag x \<in> set flags}"
  proof -
    have "x \<in> set FLAG_ORDER" for x by (cases x) (simp_all add: FLAG_ORDER_def)
    then show ?thesis by (auto simp: flag_of_char_def)
  qed
  have kw: "{f. \<exists>c\<in>set (remdups_adj (sort (List.map_filter (keyword_letter kws) flags))). flag_of_char kws c = Some f} =
      {Keyword k | k. Keyword k \<in> set flags}" (is "?L = ?R")
  proof
    show "?L \<subseteq> ?R"
    proof clarify
      fix f c assume "c \<in> set (remdups_adj (sort (List.map_filter (keyword_letter kws) flags)))" and f: "flag_of_char kws c = Some f"
      then obtain g where g: "g \<in> set flags" "keyword_letter kws g = Some c" by (auto simp: set_map_filter)
      moreover have "f = g" using keyword_letter_sound [OF assms(2) g(2)] f by simp
      ultimately show "\<exists>k. f = Keyword k \<and> Keyword k \<in> set flags" by (auto simp: keyword_letter_def split: flag.splits)
    qed
    show "?R \<subseteq> ?L"
    proof clarify
      fix k assume k: "Keyword k \<in> set flags"
      then have "k \<in> snd ` set kws" using assms(4) by (simp add: flags_known_def)
      then obtain c where c: "keyword_letter kws (Keyword k) = Some c" by (rule keyword_letter_known)
      then have "flag_of_char kws c = Some (Keyword k)" using keyword_letter_sound [OF assms(2)] by blast
      then show "\<exists>c\<in>set (remdups_adj (sort (List.map_filter (keyword_letter kws) flags))). flag_of_char kws c = Some (Keyword k)"
        using c k by (auto simp: set_map_filter)
    qed
  qed
  have "set ?fold = set flags"
  proof -
    have "set ?fold = {SystemFlag x | x. SystemFlag x \<in> set flags} \<union> {Keyword k | k. Keyword k \<in> set flags}"
      unfolding fold_flags(2) [of "[]", simplified flag_set_ok_def, simplified] flags_suffix_def set_append
      using sys kw by blast
    also have "\<dots> = set flags"
    proof (rule set_eqI)
      fix f show "f \<in> {SystemFlag x | x. SystemFlag x \<in> set flags} \<union> {Keyword k | k. Keyword k \<in> set flags} \<longleftrightarrow> f \<in> set flags"
        by (cases f) auto
    qed
    finally show ?thesis .
  qed
  moreover have "flag_set_ok ?fold" by (rule fold_flags(1)) (simp add: flag_set_ok_def)
  ultimately have "?fold = flags" using flag_set_unique assms(3) by blast
  then show ?thesis
    using split_once_str_first [OF base_no_colon [OF assms(1)]] by (simp add: parse_flags_from_name_def)
qed

section \<open>The keyword file\<close>

definition KEYWORDS :: string where "KEYWORDS = ''.mailstack-keywords''"
definition KEYWORDS_LOCK :: string where "KEYWORDS_LOCK = ''.mailstack-keywords.lock''"
definition KEYWORD_LETTERS :: string where "KEYWORD_LETTERS = ''abcdefghijklmnopqrstuvwxyz''"
definition MAX_KEYWORDS :: nat where "MAX_KEYWORDS = 26"

definition keyword_line :: "keyword_map \<Rightarrow> string \<Rightarrow> keyword_map" where
  "keyword_line kws line =
     (case split_once SP line of
        Some ([letter], keyword) \<Rightarrow>
          if is_ascii_lower letter \<and> validate_keyword keyword then bt_insert letter (to_ascii_lowercase keyword) kws else kws
      | _ \<Rightarrow> kws)"

definition parse_keywords :: "string \<Rightarrow> keyword_map" where
  "parse_keywords contents = foldl keyword_line [] (str_lines contents)"

definition read_keywords :: "string \<Rightarrow> fs \<Rightarrow> fs \<times> keyword_map" where
  "read_keywords d s =
     (case read_to_string (d, KEYWORDS) s of (s, Inr contents) \<Rightarrow> (s, parse_keywords contents) | (s, Inl _) \<Rightarrow> (s, []))"

definition render_keywords :: "keyword_map \<Rightarrow> string" where
  "render_keywords kws = concat (map (\<lambda>(letter, keyword). [letter, SP] @ keyword @ [LF]) kws)"

definition write_keywords :: "string \<Rightarrow> keyword_map \<Rightarrow> (mail_error, unit) io" where
  "write_keywords d kws = maildir_write_atomic (d, KEYWORDS) (render_keywords kws)"

definition too_many_keywords :: mail_error where
  "too_many_keywords = MailInvalid ''mailbox has more than 26 keywords''"

fun allocate_keywords :: "flag_set \<Rightarrow> keyword_map \<Rightarrow> bool \<Rightarrow> (mail_error, keyword_map \<times> bool) result" where
  "allocate_keywords [] kws changed = Inr (kws, changed)"
| "allocate_keywords (SystemFlag _ # flags) kws changed = allocate_keywords flags kws changed"
| "allocate_keywords (Keyword keyword # flags) kws changed =
     (if list_ex (\<lambda>e. snd e = keyword) kws then allocate_keywords flags kws changed
      else
        (case find (\<lambda>letter. map_of kws letter = None) KEYWORD_LETTERS of
           None \<Rightarrow> Inl too_many_keywords
         | Some letter \<Rightarrow>
             if length kws \<ge> MAX_KEYWORDS then Inl too_many_keywords
             else allocate_keywords flags (bt_insert letter keyword kws) True))"

definition allocate_body :: "string \<Rightarrow> flag_set \<Rightarrow> (mail_error, string) io" where
  "allocate_body d flags s =
     (let (s, kws) = read_keywords d s in
      case allocate_keywords flags kws False of
        Inl e \<Rightarrow> (s, Inl e)
      | Inr (kws, changed) \<Rightarrow>
          io_bind (if changed then write_keywords d kws else io_return ()) (\<lambda>_. io_return (flags_suffix flags kws)) s)"

definition suffix_with_keyword_allocation :: "string \<Rightarrow> flag_set \<Rightarrow> (mail_error, string) io" where
  "suffix_with_keyword_allocation d flags = maildir_lock d KEYWORDS_LOCK (allocate_body d flags)"

text \<open>Keywords as \<open>parse_imap\<close> makes them.\<close>

definition flags_valid :: "flag_set \<Rightarrow> bool" where
  "flags_valid flags \<longleftrightarrow>
     flag_set_ok flags \<and> (\<forall>k. Keyword k \<in> set flags \<longrightarrow> validate_keyword k \<and> to_ascii_lowercase k = k)"

lemma keywords_ok_insert:
  assumes "keywords_ok kws" and "is_ascii_lower c" and "validate_keyword k" and "to_ascii_lowercase k = k"
  shows "keywords_ok (bt_insert c k kws)"
proof -
  have "set (bt_insert c k kws) \<subseteq> insert (c, k) (set kws)"
    by (induction c k kws rule: bt_insert.induct) auto
  then show ?thesis using assms bt_insert_wf [of kws c k] by (auto simp: keywords_ok_def list_all_iff)
qed

lemma validate_keyword_lower: "validate_keyword k \<Longrightarrow> validate_keyword (to_ascii_lowercase k)"
proof -
  assume k: "validate_keyword k"
  have "is_ascii_graphic (ascii_lower c) \<and> ascii_lower c \<notin> set ''(){}%*'' \<and> ascii_lower c \<noteq> CHR 0x22 \<and> ascii_lower c \<noteq> CHR 0x5C"
    if "is_ascii_graphic c \<and> c \<notin> set ''(){}%*'' \<and> c \<noteq> CHR 0x22 \<and> c \<noteq> CHR 0x5C" for c
    using that by (auto simp: ascii_lower_eq_nonletter is_ascii_upper_def is_ascii_lower_def)
      (auto simp: ascii_lower_def is_ascii_upper_def is_ascii_graphic_def)
  with k show ?thesis by (simp add: validate_keyword_def to_ascii_lowercase_def list_all_iff)
qed

lemma keyword_line_ok: "keywords_ok kws \<Longrightarrow> keywords_ok (keyword_line kws line)"
  by (auto simp: keyword_line_def keywords_ok_insert validate_keyword_lower split: option.splits list.splits)

lemma parse_keywords_ok: "keywords_ok (parse_keywords contents)"
proof -
  have "keywords_ok kws \<Longrightarrow> keywords_ok (foldl keyword_line kws ls)" for kws ls
    by (induction ls arbitrary: kws) (simp_all add: keyword_line_ok)
  then show ?thesis by (simp add: parse_keywords_def keywords_ok_def bt_wf_def)
qed

lemma keyword_no_line_ends: "validate_keyword k \<Longrightarrow> LF \<notin> set k" "validate_keyword k \<Longrightarrow> CR \<notin> set k"
proof -
  have "\<not> is_ascii_graphic LF" "\<not> is_ascii_graphic CR" by (simp_all add: is_ascii_graphic_def)
  then show "validate_keyword k \<Longrightarrow> LF \<notin> set k" "validate_keyword k \<Longrightarrow> CR \<notin> set k"
    unfolding validate_keyword_def list_all_iff by blast+
qed

lemma foldl_keyword_lines:
  assumes "keywords_ok (kws @ m)"
  shows "foldl keyword_line kws (map (\<lambda>(c, k). c # SP # k) m) = kws @ m"
  using assms
proof (induction m arbitrary: kws)
  case (Cons e m)
  obtain c k where e: "e = (c, k)" by (cases e)
  have "is_ascii_lower c" "validate_keyword k" "to_ascii_lowercase k = k" using Cons.prems e by (simp_all add: keywords_ok_def)
  moreover from this(1) have "c \<noteq> SP" by (auto simp: is_ascii_lower_def)
  moreover have "bt_wf kws" "\<And>c' k'. (c', k') \<in> set kws \<Longrightarrow> c' < c"
    using Cons.prems e by (auto simp: keywords_ok_def bt_wf_def sorted_wrt_append)
  then have "bt_insert c k kws = kws @ [(c, k)]" by (rule bt_insert_last)
  ultimately have "keyword_line kws (c # SP # k) = kws @ [e]" using e by (simp add: keyword_line_def)
  then show ?case using Cons.IH [of "kws @ [e]"] Cons.prems e by simp
qed simp

lemma parse_render_keywords: "keywords_ok kws \<Longrightarrow> parse_keywords (render_keywords kws) = kws"
proof -
  assume ok: "keywords_ok kws"
  let ?ls = "map (\<lambda>(c, k). c # SP # k) kws"
  have "render_keywords kws = concat (map (\<lambda>line. line @ [LF]) ?ls)"
    by (simp add: render_keywords_def comp_def case_prod_unfold)
  moreover have "str_lines (concat (map (\<lambda>line. line @ [LF]) ?ls)) = ?ls"
  proof (rule str_lines_render, clarsimp)
    fix c k assume "(c, k) \<in> set kws"
    then have "is_ascii_lower c" "validate_keyword k" using ok by (auto simp: keywords_ok_def list_all_iff)
    then show "LF \<noteq> c \<and> LF \<notin> set k \<and> CR \<noteq> c \<and> CR \<notin> set k"
      by (auto simp: keyword_no_line_ends is_ascii_lower_def)
  qed
  ultimately show ?thesis using foldl_keyword_lines [of "[]" kws] ok by (simp add: parse_keywords_def)
qed

lemma allocate_keywords_effect:
  assumes "allocate_keywords flags kws changed = Inr (kws', changed')" and "keywords_ok kws"
    and "\<forall>k. Keyword k \<in> set flags \<longrightarrow> validate_keyword k \<and> to_ascii_lowercase k = k"
  shows "keywords_ok kws' \<and> flags_known kws' flags \<and> (\<forall>c k. map_of kws c = Some k \<longrightarrow> map_of kws' c = Some k) \<and>
    (\<not> changed' \<longrightarrow> \<not> changed \<and> kws' = kws)"
  using assms
proof (induction flags kws changed arbitrary: kws' changed' rule: allocate_keywords.induct)
  case (1 kws changed)
  then show ?case by (simp add: flags_known_def)
next
  case (2 f flags kws changed)
  then show ?case by (simp add: flags_known_def)
next
  case (3 keyword flags kws changed)
  note val = "3.prems"(3)
  show ?case
  proof (cases "list_ex (\<lambda>e. snd e = keyword) kws")
    case True
    have ih: "keywords_ok kws' \<and> flags_known kws' flags \<and> (\<forall>c k. map_of kws c = Some k \<longrightarrow> map_of kws' c = Some k) \<and>
      (\<not> changed' \<longrightarrow> \<not> changed \<and> kws' = kws)"
      using "3.IH"(1) [OF True] "3.prems" True by simp
    obtain e where e: "e \<in> set kws" "snd e = keyword" using True by (auto simp: list_ex_iff)
    then have "map_of kws (fst e) = Some keyword" using "3.prems"(2) by (auto simp: keywords_ok_def bt_wf_distinct)
    then have "map_of kws' (fst e) = Some keyword" using ih by blast
    then have "keyword \<in> snd ` set kws'" by (metis image_eqI map_of_SomeD snd_conv)
    then show ?thesis using ih by (auto simp: flags_known_def)
  next
    case False
    then obtain letter where l: "find (\<lambda>letter. map_of kws letter = None) KEYWORD_LETTERS = Some letter"
      and len: "\<not> length kws \<ge> MAX_KEYWORDS" and rec: "allocate_keywords flags (bt_insert letter keyword kws) True = Inr (kws', changed')"
      using "3.prems"(1) by (auto split: option.splits if_splits)
    have "letter \<in> set KEYWORD_LETTERS" and new: "map_of kws letter = None"
      using l by (auto simp: find_Some_iff)
    then have low: "is_ascii_lower letter" by (auto simp: is_ascii_lower_def KEYWORD_LETTERS_def)
    have wf: "bt_wf kws" using "3.prems"(2) by (simp add: keywords_ok_def)
    have "keywords_ok (bt_insert letter keyword kws)" using keywords_ok_insert "3.prems"(2) low val by simp
    from "3.IH"(2) [OF False l len rec this] val
    have ih: "keywords_ok kws' \<and> flags_known kws' flags \<and> changed' \<and>
        (\<forall>c k. map_of (bt_insert letter keyword kws) c = Some k \<longrightarrow> map_of kws' c = Some k)"
      by auto
    then have mo: "map_of kws' c = Some k" if "map_of kws c = Some k \<or> c = letter \<and> k = keyword" for c k
      using that new ih by (cases "c = letter") (auto simp: map_of_bt_insert [OF wf])
    then have "keyword \<in> snd ` set kws'" by (metis image_eqI map_of_SomeD snd_conv)
    then show ?thesis using ih mo by (auto simp: flags_known_def)
  qed
qed

definition keywords_at :: "fs \<Rightarrow> string \<Rightarrow> keyword_map" where
  "keywords_at s d =
     (case content_at s (d, KEYWORDS) of Some c \<Rightarrow> if valid_utf8 c then parse_keywords c else [] | None \<Rightarrow> [])"

lemma keywords_at_ok: "keywords_ok (keywords_at s d)"
  by (auto simp: keywords_at_def parse_keywords_ok keywords_ok_def [of "[]"] bt_wf_def split: option.splits)

lemma render_keywords_utf8: "keywords_ok kws \<Longrightarrow> valid_utf8 (render_keywords kws)"
proof -
  assume ok: "keywords_ok kws"
  have lo: "ord c < 128" if "is_ascii_lower c \<or> is_ascii_graphic c" for c
    using that by (auto simp: is_ascii_lower_def is_ascii_graphic_def)
  have k: "\<forall>c\<in>set k. is_ascii_graphic c" if "validate_keyword k" for k
    using that unfolding validate_keyword_def list_all_iff by blast
  show ?thesis
  proof (rule valid_utf8_ascii)
    fix c assume "c \<in> set (render_keywords kws)"
    then obtain l k where lk: "(l, k) \<in> set kws" "c = l \<or> c = SP \<or> c \<in> set k \<or> c = LF" by (auto simp: render_keywords_def)
    then have "is_ascii_lower l" "validate_keyword k" using ok by (auto simp: keywords_ok_def list_all_iff)
    then show "ord c < 128" using lk(2) lo k by auto
  qed
qed

lemma read_keywords_effect:
  assumes "read_keywords d s = (t, kws)"
  shows "same_files {} s t" and "kws = keywords_at s d \<or> kws = []"
proof -
  obtain t' r' where rd: "read_to_string (d, KEYWORDS) s = (t', r')" by (cases "read_to_string (d, KEYWORDS) s")
  note e = read_to_string_effect [OF rd]
  have "valid_utf8 c" if "r' = Inr c" for c
    using rd that by (auto simp: read_to_string_def io_bind_def io_return_def io_fail_def split: prod.splits sum.splits if_splits)
  then show "same_files {} s t" "kws = keywords_at s d \<or> kws = []"
    using assms rd e(1,2) by (auto simp: read_keywords_def keywords_at_def split: sum.splits)
qed

lemma keyword_names [simp]:
  "UIDLIST \<noteq> KEYWORDS" "UIDLIST \<noteq> KEYWORDS_LOCK" "KEYWORDS \<noteq> UIDLIST" "KEYWORDS_LOCK \<noteq> UIDLIST"
  "KEYWORDS \<noteq> KEYWORDS_LOCK" "KEYWORDS_LOCK \<noteq> KEYWORDS" "maildir_temp tag (d, KEYWORDS) \<noteq> (d', UIDLIST)"
  by (simp_all add: UIDLIST_def KEYWORDS_def KEYWORDS_LOCK_def maildir_temp_def)

abbreviation keyword_files :: "string \<Rightarrow> path set" where
  "keyword_files d \<equiv> {(d, KEYWORDS), (d, KEYWORDS_LOCK)} \<union> range (\<lambda>tag. maildir_temp tag (d, KEYWORDS))"

lemma flags_suffix_no_keywords:
  "(\<And>k. Keyword k \<notin> set flags) \<Longrightarrow> flags_suffix flags kws = flags_suffix flags kws'"
proof -
  assume n: "\<And>k. Keyword k \<notin> set flags"
  have "List.map_filter (keyword_letter kws) flags = []" for kws
    using n by (induction flags) (auto simp: List.map_filter_def keyword_letter_def split: flag.splits)
  then show ?thesis by (simp add: flags_suffix_def)
qed

lemma allocate_body_effect:
  assumes run: "allocate_body d flags s = (t, r)" and val: "flags_valid flags"
  shows "same_files (keyword_files d) s t"
    and "r = Inr suf \<Longrightarrow> is_valid_base base \<Longrightarrow> parse_flags_from_name (base @ '':2,'' @ suf) (keywords_at t d) = (base, flags)"
proof -
  obtain s1 kws where rd: "read_keywords d s = (s1, kws)" by (cases "read_keywords d s")
  note e = read_keywords_effect [OF rd]
  have f1: "same_files (keyword_files d) s s1" using e(1) by (rule same_files_mono) simp
  have c1: "keywords_at s1 d = keywords_at s d" using same_content [OF e(1)] by (simp add: keywords_at_def)
  have ok: "keywords_ok kws" using e(2) keywords_at_ok by (auto simp: keywords_ok_def [of "[]"] bt_wf_def)
  have fo: "flag_set_ok flags" using val by (simp add: flags_valid_def)
  have both: "same_files (keyword_files d) s t \<and>
      (\<forall>suf. r = Inr suf \<longrightarrow> (\<exists>kws. keywords_ok kws \<and> flags_known kws flags \<and> suf = flags_suffix flags kws \<and>
         (keywords_at t d = kws \<or> (\<forall>k. Keyword k \<notin> set flags))))"
  proof (cases "allocate_keywords flags kws False")
    case (Inl x)
    then show ?thesis using run rd f1 by (auto simp: allocate_body_def)
  next
    case (Inr p)
    then obtain kws' ch where al: "allocate_keywords flags kws False = Inr (kws', ch)" by (cases p) auto
    have ef: "keywords_ok kws'" "flags_known kws' flags" "\<not> ch \<Longrightarrow> kws' = kws"
      using allocate_keywords_effect [OF al ok] val by (auto simp: flags_valid_def)
    show ?thesis
    proof (cases ch)
      case True
      obtain t1 r1 where w: "write_keywords d kws' s1 = (t1, r1)" by (cases "write_keywords d kws' s1")
      note we = maildir_write_atomic_effect [OF w [unfolded write_keywords_def]]
      have "same_files (keyword_files d) s1 t1" using conjunct2 [OF we] by (rule same_files_mono) auto
      then have f: "same_files (keyword_files d) s t1" using same_files_trans [OF f1] by blast
      moreover have "r1 = Inr () \<Longrightarrow> keywords_at t1 d = kws'"
        using we ef(1) by (auto simp: keywords_at_def render_keywords_utf8 parse_render_keywords)
      ultimately show ?thesis
        using run rd al True w ef by (auto simp: allocate_body_def io_bind_def io_return_def split: sum.splits)
    next
      case False
      then have t: "t = s1" "r = Inr (flags_suffix flags kws)" and k: "kws' = kws"
        using run rd al ef(3) by (auto simp: allocate_body_def io_bind_def io_return_def)
      have "keywords_at t d = kws \<or> (\<forall>k. Keyword k \<notin> set flags)"
        using e(2) c1 t(1) ef(2) k by (auto simp: flags_known_def)
      then show ?thesis using f1 t ef(1,2) k by blast
    qed
  qed
  then show "same_files (keyword_files d) s t" by blast
  assume "r = Inr suf" and base: "is_valid_base base"
  then obtain kws where k: "keywords_ok kws" "flags_known kws flags" "suf = flags_suffix flags kws"
    "keywords_at t d = kws \<or> (\<forall>k. Keyword k \<notin> set flags)" using both by blast
  have "suf = flags_suffix flags (keywords_at t d)" using k(3,4) flags_suffix_no_keywords [of flags] by blast
  moreover have "flags_known (keywords_at t d) flags" using k(2,4) by (auto simp: flags_known_def)
  ultimately show "parse_flags_from_name (base @ '':2,'' @ suf) (keywords_at t d) = (base, flags)"
    using parse_flags_suffix [OF base keywords_at_ok fo] by blast
qed

lemma suffix_allocation_effect:
  assumes run: "suffix_with_keyword_allocation d flags s = (t, r)" and val: "flags_valid flags"
  shows "same_files (keyword_files d) s t"
    and "r = Inr suf \<Longrightarrow> is_valid_base base \<Longrightarrow> parse_flags_from_name (base @ '':2,'' @ suf) (keywords_at t d) = (base, flags)"
proof -
  have "same_files (keyword_files d) s t \<and>
    (\<forall>suf. r = Inr suf \<longrightarrow> is_valid_base base \<longrightarrow> parse_flags_from_name (base @ '':2,'' @ suf) (keywords_at t d) = (base, flags))"
    using run unfolding suffix_with_keyword_allocation_def
  proof (cases rule: maildir_lock_effect)
    case refused
    then show ?thesis by (auto elim: same_files_mono)
  next
    case (ran s1 t1)
    note b = allocate_body_effect [OF ran(2) val]
    have "same_files (keyword_files d) s s1" using ran(1) by (rule same_files_mono) auto
    moreover have "same_files (keyword_files d) t1 t" using ran(3) by (rule same_files_mono) auto
    moreover have "keywords_at t d = keywords_at t1 d" using same_content [OF ran(3)] by (simp add: keywords_at_def)
    ultimately show ?thesis using b same_files_trans [OF same_files_trans [OF _ b(1)]] by auto
  qed
  then show "same_files (keyword_files d) s t"
    and "r = Inr suf \<Longrightarrow> is_valid_base base \<Longrightarrow> parse_flags_from_name (base @ '':2,'' @ suf) (keywords_at t d) = (base, flags)"
    by blast+
qed

text \<open>
  \<^bold>\<open>C29\<close> (flags in file names). When the letters for a set of flags have been allocated, whatever
  calls of the file system failed before, the file name made of them reads as exactly that set of
  flags under the keyword file of the folder; the UID list of the folder is not touched.
\<close>

theorem flags_round_trip:
  assumes "suffix_with_keyword_allocation d flags s = (t, Inr suf)" and "flags_valid flags" and "is_valid_base base"
  shows "parse_flags_from_name (base @ '':2,'' @ suf) (keywords_at t d) = (base, flags) \<and> list_at t d = list_at s d"
proof -
  note e = suffix_allocation_effect [OF assms(1,2)]
  have "content_at t (d, UIDLIST) = content_at s (d, UIDLIST)" by (rule same_content [OF e(1)]) (auto dest: sym)
  then show ?thesis using e(2) [OF refl assms(3)] list_at_cong by blast
qed

definition sample_flags :: flag_set where
  "sample_flags = [SystemFlag Answered, SystemFlag Seen, Keyword ''work'']"

theorem flags_round_trip_witness:
  "\<exists>t. suffix_with_keyword_allocation ''m'' sample_flags empty_fs = (t, Inr ''RSa'') \<and>
     parse_flags_from_name ''1.x:2,RSa'' (keywords_at t ''m'') = (''1.x'', sample_flags)"
proof -
  let ?r = "suffix_with_keyword_allocation ''m'' sample_flags empty_fs"
  have "snd ?r = Inr ''RSa''" by code_simp
  then obtain t where t: "?r = (t, Inr ''RSa'')" by (cases ?r) simp
  have "flag_set_ok sample_flags" by code_simp
  moreover have "validate_keyword ''work''" "to_ascii_lowercase ''work'' = ''work''" "is_valid_base ''1.x''" by code_simp+
  ultimately show ?thesis
    using flags_round_trip [OF t, of "''1.x''"] t by (auto simp: flags_valid_def sample_flags_def)
qed

text \<open>
  A read of the keyword file that fails is taken for an empty file: the letters it had given out are
  given out again, and the flags of the messages that carry them change.
\<close>

definition keyword_world :: fs where
  "keyword_world =
     empty_fs\<lparr>fs_dirs := [''m''], fs_files := [((''m'', KEYWORDS), \<lparr>fl_content = ''a work'' @ [LF], fl_mtime = 0\<rparr>)],
       fs_faults := (\<lambda>n. n = 3)\<rparr>"

lemma keyword_letter_reassigned:
  "snd (suffix_with_keyword_allocation ''m'' [Keyword ''home''] keyword_world) = Inr ''a'' \<and>
   parse_flags_from_name ''1.x:2,a'' (keywords_at keyword_world ''m'') = (''1.x'', [Keyword ''work'']) \<and>
   parse_flags_from_name ''1.x:2,a'' (keywords_at (fst (suffix_with_keyword_allocation ''m'' [Keyword ''home''] keyword_world)) ''m'') =
     (''1.x'', [Keyword ''home''])"
proof (intro conjI)
  show "snd (suffix_with_keyword_allocation ''m'' [Keyword ''home''] keyword_world) = Inr ''a''" by code_simp
  show "parse_flags_from_name ''1.x:2,a'' (keywords_at keyword_world ''m'') = (''1.x'', [Keyword ''work''])" by code_simp
  show "parse_flags_from_name ''1.x:2,a'' (keywords_at (fst (suffix_with_keyword_allocation ''m'' [Keyword ''home''] keyword_world)) ''m'') =
     (''1.x'', [Keyword ''home''])" by code_simp
qed

end
