(* ===== verification/Maildir.thy ===== *)
theory Maildir
  imports MailFlags
begin

text \<open>
  The Maildir store (\<open>src/crates/imappop3/src/maildir.rs\<close>): folders and their names, delivery of a
  message into a folder, opening a folder, changing flags, removing messages, quota accounting. A
  folder is a directory with the message files under \<open>new\<close> and \<open>cur\<close> and its index files beside
  them. Every call of the file system may fail, and a program may stop at any of them. The clock and
  the name of the host are arguments.
\<close>

section \<open>Folder names\<close>

definition INBOX :: string where "INBOX = ''INBOX''"
definition MAX_FOLDER_NAME :: nat where "MAX_FOLDER_NAME = 200"
definition MAX_SCAN_ENTRIES :: nat where "MAX_SCAN_ENTRIES = 200000"
definition RESERVED_FOLDER_PREFIX :: string where "RESERVED_FOLDER_PREFIX = ''mailstack-''"

abbreviation DELIMITER :: char where "DELIMITER \<equiv> CHR ''.''"

definition is_inbox :: "string \<Rightarrow> bool" where
  "is_inbox name = eq_ignore_ascii_case name INBOX"

definition folder_name_char :: "char \<Rightarrow> bool" where
  "folder_name_char c \<longleftrightarrow> c \<in> set ''/:*?<>|%'' \<or> c = CHR 0x5C \<or> c = CHR 0x22"

definition normalize_folder_name :: "string \<Rightarrow> (mail_error, string) result" where
  "normalize_folder_name name =
     (if is_inbox name then Inr INBOX
      else if name = [] then Inl (MailInvalid ''mailbox name is empty'')
      else if length name > MAX_FOLDER_NAME then Inl (MailInvalid ''mailbox name is too long'')
      else if length RESERVED_FOLDER_PREFIX \<le> length name \<and>
        eq_ignore_ascii_case (take (length RESERVED_FOLDER_PREFIX) name) RESERVED_FOLDER_PREFIX
      then Inl (MailInvalid ''mailbox name is reserved'')
      else if prefix [DELIMITER] name \<or> suffix [DELIMITER] name
      then Inl (MailInvalid ''mailbox name may not start or end with the hierarchy delimiter'')
      else if [] \<in> set (split_on DELIMITER name) then Inl (MailInvalid ''mailbox name has an empty segment'')
      else if has_control name \<or> list_ex folder_name_char name
      then Inl (MailInvalid ''mailbox name contains invalid characters'')
      else Inr name)"

record mail_store =
  ms_root :: string
  ms_hostname :: string

definition folder_path :: "mail_store \<Rightarrow> string \<Rightarrow> (mail_error, string) result" where
  "folder_path store name =
     (case normalize_folder_name name of
        Inl e \<Rightarrow> Inl e
      | Inr normalized \<Rightarrow> Inr (if normalized = INBOX then ms_root store else ms_root store @ ''/.'' @ normalized))"

definition sub_dir :: "string \<Rightarrow> string \<Rightarrow> string" where
  "sub_dir d sub = d @ ''/'' @ sub"

definition ensure_maildir_dirs :: "string \<Rightarrow> (mail_error, unit) io" where
  "ensure_maildir_dirs d =
     io_bind (mail_io (create_dir_all (sub_dir d ''cur''))) (\<lambda>_.
     io_bind (mail_io (create_dir_all (sub_dir d ''new''))) (\<lambda>_.
     mail_io (create_dir_all (sub_dir d ''tmp''))))"

section \<open>Quota\<close>

definition QUOTA :: string where "QUOTA = ''.mailstack-quota''"
definition QUOTA_LOCK :: string where "QUOTA_LOCK = ''.mailstack-quota.lock''"
definition USAGE :: string where "USAGE = ''.mailstack-usage''"

record quota_max =
  ql_messages :: "nat option"
  ql_storage_bytes :: "nat option"

definition is_unlimited :: "quota_max \<Rightarrow> bool" where
  "is_unlimited q \<longleftrightarrow> ql_messages q = None \<and> ql_storage_bytes q = None"

definition quota_line :: "quota_max \<Rightarrow> string \<Rightarrow> (mail_error, quota_max) result" where
  "quota_line limits line =
     (case split_once SP (trim line) of
        None \<Rightarrow> Inr limits
      | Some (key, value) \<Rightarrow>
          if key = ''messages'' then
            (case parse_unsigned U32_MAX value of
               None \<Rightarrow> Inl (MailStorage ''invalid quota file'')
             | Some v \<Rightarrow> Inr (limits\<lparr>ql_messages := if v > 0 then Some v else None\<rparr>))
          else if key = ''storage'' then
            (case parse_unsigned U64_MAX value of
               None \<Rightarrow> Inl (MailStorage ''invalid quota file'')
             | Some v \<Rightarrow> Inr (limits\<lparr>ql_storage_bytes := if v > 0 then Some v else None\<rparr>))
          else Inr limits)"

fun quota_lines :: "string list \<Rightarrow> quota_max \<Rightarrow> (mail_error, quota_max) result" where
  "quota_lines [] limits = Inr limits"
| "quota_lines (line # ls) limits = (case quota_line limits line of Inl e \<Rightarrow> Inl e | Inr limits \<Rightarrow> quota_lines ls limits)"

definition quota_limits :: "mail_store \<Rightarrow> (mail_error, quota_max) io" where
  "quota_limits store s =
     (case read_to_string (ms_root store, QUOTA) s of
        (s, Inr contents) \<Rightarrow> (s, quota_lines (str_lines contents) \<lparr>ql_messages = None, ql_storage_bytes = None\<rparr>)
      | (s, Inl e) \<Rightarrow> (s, if e = NotFound then Inr \<lparr>ql_messages = None, ql_storage_bytes = None\<rparr> else Inl MailIo))"

definition usage_line :: "nat option \<times> nat option \<Rightarrow> string \<Rightarrow> nat option \<times> nat option" where
  "usage_line u line =
     (case split_once SP (trim line) of
        None \<Rightarrow> u
      | Some (key, value) \<Rightarrow>
          if key = ''messages'' then (parse_unsigned U64_MAX value, snd u)
          else if key = ''bytes'' then (fst u, parse_unsigned U64_MAX value)
          else u)"

definition parse_usage :: "string \<Rightarrow> (nat \<times> nat) option" where
  "parse_usage contents =
     (case foldl usage_line (None, None) (str_lines contents) of (Some m, Some b) \<Rightarrow> Some (m, b) | _ \<Rightarrow> None)"

definition load_usage :: "mail_store \<Rightarrow> (mail_error, (nat \<times> nat) option) io" where
  "load_usage store s =
     (case read_to_string (ms_root store, USAGE) s of
        (s, Inr contents) \<Rightarrow> (s, Inr (parse_usage contents))
      | (s, Inl e) \<Rightarrow> (s, if e = NotFound then Inr None else Inl MailIo))"

definition write_usage :: "mail_store \<Rightarrow> nat \<times> nat \<Rightarrow> (mail_error, unit) io" where
  "write_usage store u =
     maildir_write_atomic (ms_root store, USAGE)
       (''messages '' @ nat_to_string (fst u) @ [LF] @ ''bytes '' @ nat_to_string (snd u) @ [LF])"

text \<open>
  A directory holds files and directories. A subdirectory is a directory whose path is one name
  longer; the names of the folders are collected in an ordered set, so that the order of the listing
  does not matter.
\<close>

definition child_dir :: "string \<Rightarrow> string \<Rightarrow> string option" where
  "child_dir d x =
     (case strip_prefix (d @ ''/'') x of Some name \<Rightarrow> if name = [] \<or> CHR ''/'' \<in> set name then None else Some name | None \<Rightarrow> None)"

fun folders_loop :: "(string \<times> bool) list \<Rightarrow> (string \<times> unit) list \<Rightarrow> (mail_error, string list) io" where
  "folders_loop [] names s = (s, Inr (map fst names))"
| "folders_loop ((raw, is_dir) # es) names s =
     (let (s, fault) = fs_tick s in
      if fault then (s, Inl MailIo)
      else
        (let (s, fault) = fs_tick s in
         if fault \<or> \<not> is_dir \<or> \<not> valid_utf8 raw then folders_loop es names s
         else
           case strip_prefix ''.'' raw of
             None \<Rightarrow> folders_loop es names s
           | Some name \<Rightarrow>
               if name = [] then folders_loop es names s
               else
                 (case normalize_folder_name name of
                    Inl _ \<Rightarrow> folders_loop es names s
                  | Inr _ \<Rightarrow> folders_loop es (bt_insert name () names) s)))"

definition mail_folders :: "mail_store \<Rightarrow> (mail_error, string list) io" where
  "mail_folders store s =
     (case read_dir (ms_root store) s of
        (s, Inl e) \<Rightarrow> (s, if e = NotFound then Inr [INBOX] else Inl MailIo)
      | (s, Inr names) \<Rightarrow>
          folders_loop (map (\<lambda>name. (name, False)) names @
            map (\<lambda>name. (name, True)) (List.map_filter (child_dir (ms_root store)) (fs_dirs s))) [(INBOX, ())] s)"

definition fs_metadata :: "path \<Rightarrow> (io_error, nat \<times> int) io" where
  "fs_metadata p =
     fallible (\<lambda>s. (s, case file_at s p of None \<Rightarrow> Inl NotFound | Some f \<Rightarrow> Inr (length (fl_content f), max 0 (fl_mtime f)))) OtherIo"

fun usage_entries :: "string \<Rightarrow> string list \<Rightarrow> nat \<times> nat \<Rightarrow> (mail_error, nat \<times> nat) io" where
  "usage_entries dir [] usage s = (s, Inr usage)"
| "usage_entries dir (name # names) usage s =
     (let (s, fault) = fs_tick s in
      if fault then (s, Inl MailIo)
      else
        (let (s, fault) = fs_tick s in
         if fault then (s, Inl MailIo)
         else
           case fs_metadata (dir, name) s of
             (s, Inl _) \<Rightarrow> (s, Inl MailIo)
           | (s, Inr (len, _)) \<Rightarrow> usage_entries dir names (sat_u64 (fst usage + 1), sat_u64 (snd usage + len)) s))"

definition usage_dir :: "string \<Rightarrow> nat \<times> nat \<Rightarrow> (mail_error, nat \<times> nat) io" where
  "usage_dir dir usage s =
     (case read_dir dir s of
        (s, Inl e) \<Rightarrow> (s, if e = NotFound then Inr usage else Inl MailIo)
      | (s, Inr names) \<Rightarrow> usage_entries dir names usage s)"

definition scan_usage_dir :: "string \<Rightarrow> nat \<times> nat \<Rightarrow> (mail_error, nat \<times> nat) io" where
  "scan_usage_dir d usage = io_bind (usage_dir (sub_dir d ''cur'') usage) (usage_dir (sub_dir d ''new''))"

fun usage_folders :: "mail_store \<Rightarrow> string list \<Rightarrow> nat \<times> nat \<Rightarrow> (mail_error, nat \<times> nat) io" where
  "usage_folders store [] usage = io_return usage"
| "usage_folders store (folder # fs) usage =
     (if folder = INBOX then usage_folders store fs usage
      else
        case folder_path store folder of
          Inl e \<Rightarrow> io_fail e
        | Inr d \<Rightarrow> io_bind (scan_usage_dir d usage) (usage_folders store fs))"

definition scan_usage :: "mail_store \<Rightarrow> (mail_error, nat \<times> nat) io" where
  "scan_usage store =
     io_bind (scan_usage_dir (ms_root store) (0, 0)) (\<lambda>usage.
     io_bind (mail_folders store) (\<lambda>fs. usage_folders store fs usage))"

definition recompute_usage :: "mail_store \<Rightarrow> (mail_error, nat \<times> nat) io" where
  "recompute_usage store =
     io_bind (scan_usage store) (\<lambda>usage. io_bind (write_usage store usage) (\<lambda>_. io_return usage))"

definition cached_or_recompute_usage :: "mail_store \<Rightarrow> (mail_error, nat \<times> nat) io" where
  "cached_or_recompute_usage store =
     io_bind (load_usage store) (\<lambda>u. case u of Some usage \<Rightarrow> io_return usage | None \<Rightarrow> recompute_usage store)"

definition over_quota :: "nat option \<Rightarrow> nat \<Rightarrow> bool" where
  "over_quota limit used \<longleftrightarrow> (case limit of Some m \<Rightarrow> used > m | None \<Rightarrow> False)"

definition message_quota_exceeded :: "nat option \<Rightarrow> nat \<Rightarrow> mail_error" where
  "message_quota_exceeded limit used =
     MailQuotaExceeded (''message quota exceeded ('' @ nat_to_string used @ ''/'' @
       (case limit of Some m \<Rightarrow> nat_to_string m | None \<Rightarrow> []) @ '')'')"

definition storage_quota_exceeded :: "nat \<Rightarrow> mail_error" where
  "storage_quota_exceeded used = MailQuotaExceeded (''storage quota exceeded ('' @ nat_to_string used @ '' bytes)'')"

definition reserve_body :: "mail_store \<Rightarrow> quota_max \<Rightarrow> nat \<Rightarrow> nat \<Rightarrow> (mail_error, (nat \<times> nat) option) io" where
  "reserve_body store limits messages bytes =
     io_bind (cached_or_recompute_usage store) (\<lambda>(used_messages, used_bytes).
       let used_messages = sat_u64 (used_messages + messages);
           used_bytes = sat_u64 (used_bytes + bytes)
       in if over_quota (ql_messages limits) used_messages
          then io_fail (message_quota_exceeded (ql_messages limits) used_messages)
          else if over_quota (ql_storage_bytes limits) used_bytes then io_fail (storage_quota_exceeded used_bytes)
          else io_bind (write_usage store (used_messages, used_bytes)) (\<lambda>_. io_return (Some (messages, bytes))))"

definition reserve_quota :: "mail_store \<Rightarrow> nat \<Rightarrow> nat \<Rightarrow> (mail_error, (nat \<times> nat) option) io" where
  "reserve_quota store messages bytes =
     io_bind (quota_limits store) (\<lambda>limits.
       if is_unlimited limits then io_return None
       else maildir_lock (ms_root store) QUOTA_LOCK (reserve_body store limits messages bytes))"

definition release_body :: "mail_store \<Rightarrow> nat \<Rightarrow> nat \<Rightarrow> (mail_error, unit) io" where
  "release_body store messages bytes =
     io_bind (cached_or_recompute_usage store) (\<lambda>(used_messages, used_bytes).
       write_usage store (used_messages - messages, used_bytes - bytes))"

definition release_quota :: "mail_store \<Rightarrow> (nat \<times> nat) option \<Rightarrow> fs \<Rightarrow> fs" where
  "release_quota store reservation s =
     (case reservation of
        None \<Rightarrow> s
      | Some (messages, bytes) \<Rightarrow>
          (let (s, present) = path_exists (ms_root store, QUOTA) s in
           if \<not> present then s
           else io_drop (maildir_lock (ms_root store) QUOTA_LOCK (release_body store messages bytes)) s))"

section \<open>Delivery into a folder\<close>

definition sanitize_hostname :: "string \<Rightarrow> string" where
  "sanitize_hostname raw =
     (let sanitized = map (\<lambda>c. if is_ascii_alphanumeric c \<or> c \<in> set ''.-_'' then c else CHR ''_'') (trim raw)
      in if sanitized = [] then ''mailstack'' else sanitized)"

text \<open>The tag is the process number, the sequence number and the nanoseconds.\<close>

definition unique_base :: "mail_store \<Rightarrow> int \<Rightarrow> nat \<times> nat \<times> nat \<Rightarrow> string" where
  "unique_base store now tag =
     nat_to_string (nat (max now 1)) @ ''.M'' @ nat_to_string (snd (snd tag)) @ ''P'' @ nat_to_string (fst tag) @ ''Q'' @
     nat_to_string (fst (snd tag)) @ ''.'' @ sanitize_hostname (ms_hostname store)"

definition set_modified :: "path \<Rightarrow> int \<Rightarrow> (io_error, unit) io" where
  "set_modified p time =
     fallible (\<lambda>s. case file_at s p of
                      None \<Rightarrow> (s, Inl NotFound)
                    | Some f \<Rightarrow> (fs_put p (f\<lparr>fl_mtime := time\<rparr>) s, Inr ())) OtherIo"

definition write_tmp_file :: "string \<Rightarrow> string \<Rightarrow> string \<Rightarrow> int option \<Rightarrow> (mail_error, path) io" where
  "write_tmp_file d base data internal_date s =
     (let tmp = (sub_dir d ''tmp'', base) in
      case io_bind (create_new tmp) (\<lambda>_. io_bind (write_all tmp data) (\<lambda>_. io_bind fs_sync (\<lambda>_.
             case internal_date of Some date \<Rightarrow> if date < 0 then io_return () else set_modified tmp date | None \<Rightarrow> io_return ()))) s of
        (s, Inl _) \<Rightarrow> (io_drop (remove_file tmp) s, Inl MailIo)
      | (s, Inr _) \<Rightarrow> (s, Inr tmp))"

definition message_destination :: "string \<Rightarrow> string \<Rightarrow> flag_set \<Rightarrow> bool \<Rightarrow> (mail_error, path) io" where
  "message_destination d base flags recent =
     (if recent then io_return (sub_dir d ''new'', base)
      else io_bind (suffix_with_keyword_allocation d flags) (\<lambda>suf. io_return (sub_dir d ''cur'', base @ '':2,'' @ suf)))"

definition append_internal_reserved ::
  "mail_store \<Rightarrow> string \<Rightarrow> string \<Rightarrow> flag_set \<Rightarrow> int option \<Rightarrow> bool \<Rightarrow> int \<Rightarrow> (mail_error, nat \<times> nat) io" where
  "append_internal_reserved store d data flags internal_date recent now s =
     (let base = unique_base store now (fs_tag s (fs_ops s)) in
      case message_destination d base flags recent s of
        (s, Inl e) \<Rightarrow> (s, Inl e)
      | (s, Inr destination) \<Rightarrow>
          (case write_tmp_file d base data internal_date s of
             (s, Inl e) \<Rightarrow> (s, Inl e)
           | (s, Inr tmp) \<Rightarrow>
               (case fs_rename tmp destination s of
                  (s, Inl _) \<Rightarrow> (io_drop (remove_file tmp) s, Inl MailIo)
                | (s, Inr _) \<Rightarrow>
                    (case assign_uid d base now (io_drop fs_sync s) of
                       (s, Inr result) \<Rightarrow> (s, Inr result)
                     | (s, Inl e) \<Rightarrow> (io_drop (remove_file destination) s, Inl e)))))"

definition append_internal ::
  "mail_store \<Rightarrow> string \<Rightarrow> string \<Rightarrow> flag_set \<Rightarrow> int option \<Rightarrow> bool \<Rightarrow> int \<Rightarrow> (mail_error, nat \<times> nat) io" where
  "append_internal store folder data flags internal_date recent now s =
     (case folder_path store folder of
        Inl e \<Rightarrow> (s, Inl e)
      | Inr d \<Rightarrow>
          (let (s, present) = dir_exists d s in
           if \<not> present then (s, Inl (MailNotFound folder))
           else
             io_bind (ensure_maildir_dirs d) (\<lambda>_.
             io_bind (reserve_quota store 1 (length data)) (\<lambda>reservation s.
               case append_internal_reserved store d data flags internal_date recent now s of
                 (s, Inl e) \<Rightarrow> (release_quota store reservation s, Inl e)
               | (s, Inr result) \<Rightarrow> (s, Inr result))) s))"

definition mail_append ::
  "mail_store \<Rightarrow> string \<Rightarrow> string \<Rightarrow> flag_set \<Rightarrow> int option \<Rightarrow> int \<Rightarrow> (mail_error, nat \<times> nat) io" where
  "mail_append store folder data flags internal_date now =
     append_internal store folder data flags internal_date (flags = []) now"

section \<open>Opening a folder\<close>

record scanned_file =
  sf_directory :: string
  sf_filename :: string
  sf_recent :: bool
  sf_flags :: flag_set

type_synonym scan_map = "(string \<times> scanned_file) list"

definition too_many_messages :: mail_error where
  "too_many_messages = MailStorage (''mailbox has more than '' @ nat_to_string MAX_SCAN_ENTRIES @ '' messages'')"

fun scan_entries :: "string \<Rightarrow> bool \<Rightarrow> keyword_map \<Rightarrow> string list \<Rightarrow> scan_map \<Rightarrow> (mail_error, scan_map) io" where
  "scan_entries dir recent kws [] scanned s = (s, Inr scanned)"
| "scan_entries dir recent kws (name # names) scanned s =
     (let (s, fault) = fs_tick s in
      if fault then (s, Inl MailIo)
      else
        (let (s, fault) = fs_tick s in
         if fault then (s, Inl MailIo)
         else if \<not> valid_utf8 name \<or> prefix ''.'' name then scan_entries dir recent kws names scanned s
         else
           (let (base, flags) = parse_flags_from_name name kws in
            if \<not> is_valid_base base then scan_entries dir recent kws names scanned s
            else
              (let scanned = bt_insert base \<lparr>sf_directory = dir, sf_filename = name, sf_recent = recent, sf_flags = flags\<rparr> scanned
               in if length scanned > MAX_SCAN_ENTRIES then (s, Inl too_many_messages)
                  else scan_entries dir recent kws names scanned s))))"

definition scan_directory :: "string \<Rightarrow> keyword_map \<Rightarrow> string \<times> bool \<Rightarrow> scan_map \<Rightarrow> (mail_error, scan_map) io" where
  "scan_directory d kws dir scanned s =
     (case read_dir (sub_dir d (fst dir)) s of
        (s, Inl e) \<Rightarrow> (s, if e = NotFound then Inr scanned else Inl MailIo)
      | (s, Inr names) \<Rightarrow> scan_entries (fst dir) (snd dir) kws names scanned s)"

definition scan_folder :: "string \<Rightarrow> keyword_map \<Rightarrow> (mail_error, scan_map) io" where
  "scan_folder d kws = io_bind (scan_directory d kws (''new'', True) []) (scan_directory d kws (''cur'', False))"

text \<open>Recent messages move from \<open>new\<close> to \<open>cur\<close>; a file that is gone is taken to have been moved by another session.\<close>

fun promote_loop :: "string \<Rightarrow> keyword_map \<Rightarrow> string list \<Rightarrow> scan_map \<Rightarrow> (mail_error, scan_map) io" where
  "promote_loop d kws [] scanned s = (s, Inr scanned)"
| "promote_loop d kws (base # bases) scanned s =
     (case map_of scanned base of
        None \<Rightarrow> promote_loop d kws bases scanned s
      | Some file \<Rightarrow>
          (let target = base @ '':2,'' @ flags_suffix (sf_flags file) kws;
               moved = bt_insert base (file\<lparr>sf_directory := ''cur'', sf_filename := target\<rparr>) scanned
           in case fs_rename (sub_dir d ''new'', sf_filename file) (sub_dir d ''cur'', target) s of
                (s, Inr _) \<Rightarrow> promote_loop d kws bases moved s
              | (s, Inl e) \<Rightarrow> if e = NotFound then promote_loop d kws bases moved s else (s, Inl MailIo)))"

record message_meta =
  mm_uid :: nat
  mm_base :: string
  mm_filename :: string
  mm_path :: path
  mm_size :: nat
  mm_internal_date :: int
  mm_modseq :: nat
  mm_flags :: flag_set
  mm_recent :: bool

fun collect_messages :: "string \<Rightarrow> uid_mapping \<Rightarrow> scan_map \<Rightarrow> (mail_error, message_meta list) io" where
  "collect_messages d mapping [] s = (s, Inr [])"
| "collect_messages d mapping ((base, file) # scanned) s =
     (case mp_by_base mapping base of
        None \<Rightarrow> collect_messages d mapping scanned s
      | Some (uid, modseq) \<Rightarrow>
          (let p = (sub_dir d (sf_directory file), sf_filename file) in
           case fs_metadata p s of
             (s, Inl e) \<Rightarrow> if e = NotFound then collect_messages d mapping scanned s else (s, Inl MailIo)
           | (s, Inr (len, modified)) \<Rightarrow>
               io_bind (collect_messages d mapping scanned) (\<lambda>ms. io_return
                 (\<lparr>mm_uid = uid, mm_base = base, mm_filename = sf_filename file, mm_path = p, mm_size = len,
                   mm_internal_date = modified, mm_modseq = modseq, mm_flags = sf_flags file, mm_recent = sf_recent file\<rparr> # ms)) s))"

record folder_state =
  fo_name :: string
  fo_uidvalidity :: nat
  fo_uidnext :: nat
  fo_highest_modseq :: nat
  fo_messages :: "message_meta list"

definition promote :: "string \<Rightarrow> keyword_map \<Rightarrow> bool \<Rightarrow> scan_map \<Rightarrow> (mail_error, scan_map) io" where
  "promote d kws promote_recent scanned =
     (if promote_recent
      then maildir_lock d UIDLIST_LOCK (promote_loop d kws (map fst (filter (\<lambda>(_, file). sf_recent file) scanned)) scanned)
      else io_return scanned)"

definition open_scanned :: "string \<Rightarrow> string \<Rightarrow> bool \<Rightarrow> int \<Rightarrow> keyword_map \<Rightarrow> scan_map \<Rightarrow> (mail_error, folder_state) io" where
  "open_scanned name d promote_recent now kws scanned =
     (if length scanned > MAX_SCAN_ENTRIES then io_fail too_many_messages
      else
        io_bind (sync_uidlist d (map fst scanned) now) (\<lambda>mapping.
        io_bind (promote d kws promote_recent scanned) (\<lambda>scanned.
        io_bind (collect_messages d mapping scanned) (\<lambda>messages.
        io_return \<lparr>fo_name = name, fo_uidvalidity = mp_uidvalidity mapping, fo_uidnext = mp_uidnext mapping,
                   fo_highest_modseq = mp_highest_modseq mapping, fo_messages = sort_key mm_uid messages\<rparr>))))"

definition open_folder :: "mail_store \<Rightarrow> string \<Rightarrow> bool \<Rightarrow> int \<Rightarrow> (mail_error, folder_state) io" where
  "open_folder store name promote_recent now s =
     (case (normalize_folder_name name, folder_path store name) of
        (Inr normalized, Inr d) \<Rightarrow>
          (let (s, present) = dir_exists d s in
           if \<not> present then (s, Inl (MailNotFound normalized))
           else
             io_bind (ensure_maildir_dirs d) (\<lambda>_ s.
               let (s, kws) = read_keywords d s
               in io_bind (scan_folder d kws) (open_scanned normalized d promote_recent now kws) s) s)
      | (Inl e, _) \<Rightarrow> (s, Inl e)
      | (_, Inl e) \<Rightarrow> (s, Inl e))"

section \<open>Flags, removal, reading\<close>

fun find_entry :: "string \<Rightarrow> string list \<Rightarrow> (mail_error, string option) io" where
  "find_entry base [] s = (s, Inr None)"
| "find_entry base (name # names) s =
     (let (s, fault) = fs_tick s in
      if fault then (s, Inl MailIo)
      else if valid_utf8 name \<and> (name = base \<or> prefix (base @ '':2,'') name) then (s, Inr (Some name))
      else find_entry base names s)"

fun find_in_dirs :: "string \<Rightarrow> string \<Rightarrow> string list \<Rightarrow> (mail_error, (string \<times> string) option) io" where
  "find_in_dirs d base [] s = (s, Inr None)"
| "find_in_dirs d base (dir # dirs) s =
     (case read_dir (sub_dir d dir) s of
        (s, Inl e) \<Rightarrow> if e = NotFound then find_in_dirs d base dirs s else (s, Inl MailIo)
      | (s, Inr names) \<Rightarrow>
          (case find_entry base names s of
             (s, Inl e) \<Rightarrow> (s, Inl e)
           | (s, Inr (Some name)) \<Rightarrow> (s, Inr (Some (dir, name)))
           | (s, Inr None) \<Rightarrow> find_in_dirs d base dirs s))"

definition find_file :: "string \<Rightarrow> string \<Rightarrow> (mail_error, (string \<times> string) option) io" where
  "find_file d base = find_in_dirs d base [''cur'', ''new'']"

definition uid_not_found :: "nat \<Rightarrow> mail_error" where
  "uid_not_found uid = MailNotFound (''uid '' @ nat_to_string uid)"

definition bump_modseq :: "nat \<Rightarrow> uid_list \<Rightarrow> uid_list" where
  "bump_modseq uid l =
     (let modseq = sat_u64 (ul_highest_modseq l + 1)
      in l\<lparr>ul_highest_modseq := modseq,
           ul_by_uid := map (\<lambda>(u, base, m). (u, base, if u = uid then modseq else m)) (ul_by_uid l)\<rparr>)"

definition rename_message :: "string \<Rightarrow> string \<times> string \<Rightarrow> string \<Rightarrow> (mail_error, unit) io" where
  "rename_message d found target_name =
     (if fst found \<noteq> ''cur'' \<or> snd found \<noteq> target_name
      then mail_io (fs_rename (sub_dir d (fst found), snd found) (sub_dir d ''cur'', target_name))
      else io_return ())"

definition set_flags_body :: "string \<Rightarrow> nat \<Rightarrow> flag_set \<Rightarrow> (mail_error, message_meta) io" where
  "set_flags_body d uid flags =
     io_bind (load_uidlist (d, UIDLIST)) (\<lambda>loaded.
       case loaded of
         None \<Rightarrow> io_fail (MailStorage ''uidlist is unavailable; reopen the mailbox'')
       | Some l \<Rightarrow>
           (case map_of (ul_by_uid l) uid of
              None \<Rightarrow> io_fail (uid_not_found uid)
            | Some (base, _) \<Rightarrow>
                io_bind (find_file d base) (\<lambda>found.
                  case found of
                    None \<Rightarrow> io_fail (uid_not_found uid)
                  | Some found \<Rightarrow>
                      io_bind (suffix_with_keyword_allocation d flags) (\<lambda>suf.
                      io_bind (rename_message d found (base @ '':2,'' @ suf)) (\<lambda>_.
                      io_bind (write_uidlist d (bump_modseq uid l)) (\<lambda>_.
                      io_bind (mail_io (fs_metadata (sub_dir d ''cur'', base @ '':2,'' @ suf))) (\<lambda>(len, modified).
                      io_return \<lparr>mm_uid = uid, mm_base = base, mm_filename = base @ '':2,'' @ suf,
                                 mm_path = (sub_dir d ''cur'', base @ '':2,'' @ suf), mm_size = len,
                                 mm_internal_date = modified, mm_modseq = ul_highest_modseq (bump_modseq uid l),
                                 mm_flags = flags, mm_recent = False\<rparr>)))))))"

definition mail_set_flags :: "mail_store \<Rightarrow> string \<Rightarrow> nat \<Rightarrow> flag_set \<Rightarrow> (mail_error, message_meta) io" where
  "mail_set_flags store folder uid flags s =
     (case folder_path store folder of
        Inl e \<Rightarrow> (s, Inl e)
      | Inr d \<Rightarrow>
          (let (s, present) = dir_exists d s in
           if \<not> present then (s, Inl (MailNotFound folder))
           else maildir_lock d UIDLIST_LOCK (set_flags_body d uid flags) s))"

definition EXPUNGED_MAX_BYTES :: nat where "EXPUNGED_MAX_BYTES = 8 * 1024 * 1024"

definition trim_expunged :: "path \<Rightarrow> (mail_error, unit) io" where
  "trim_expunged p s =
     (let (s, contents) = read_to_string p s;
          ls = (case contents of Inr c \<Rightarrow> str_lines c | Inl _ \<Rightarrow> []);
          retained = join [LF] (drop (length ls - 50000) ls)
      in maildir_write_atomic p (if retained = [] then [] else retained @ [LF]) s)"

definition append_expunged :: "string \<Rightarrow> (nat \<times> nat) list \<Rightarrow> (mail_error, unit) io" where
  "append_expunged d events s =
     (if events = [] then (s, Inr ())
      else
        (let p = (d, EXPUNGED);
             (s, metadata) = fs_metadata p s
         in io_bind (if (case metadata of Inr (len, _) \<Rightarrow> len > EXPUNGED_MAX_BYTES | Inl _ \<Rightarrow> False)
                     then trim_expunged p else io_return ()) (\<lambda>_.
            io_bind (mail_io (open_lock_sidecar p)) (\<lambda>_.
            io_bind (mail_io (write_all p (concat (map (\<lambda>(uid, modseq). nat_to_string uid @ [SP] @ nat_to_string modseq @ [LF]) events)))) (\<lambda>_.
            mail_io fs_sync))) s))"

fun expunge_loop :: "string \<Rightarrow> uid_list \<Rightarrow> nat list \<Rightarrow> nat list \<times> nat \<Rightarrow> (mail_error, nat list \<times> nat) io" where
  "expunge_loop d l [] acc s = (s, Inr acc)"
| "expunge_loop d l (uid # uids) acc s =
     (case map_of (ul_by_uid l) uid of
        None \<Rightarrow> expunge_loop d l uids acc s
      | Some (base, _) \<Rightarrow>
          (case find_file d base s of
             (s, Inl e) \<Rightarrow> (s, Inl e)
           | (s, Inr None) \<Rightarrow> expunge_loop d l uids acc s
           | (s, Inr (Some (dir, name))) \<Rightarrow>
               (let p = (sub_dir d dir, name);
                    (s, metadata) = fs_metadata p s;
                    bytes = (case metadata of Inr (len, _) \<Rightarrow> sat_u64 (snd acc + len) | Inl _ \<Rightarrow> snd acc)
                in case remove_file p s of
                     (s, Inr _) \<Rightarrow> expunge_loop d l uids (fst acc @ [uid], bytes) s
                   | (s, Inl e) \<Rightarrow>
                       if e = NotFound then expunge_loop d l uids (fst acc @ [uid], bytes) s else (s, Inl MailIo))))"

fun expunge_events :: "nat list \<Rightarrow> nat \<Rightarrow> (nat \<times> nat) list \<times> nat" where
  "expunge_events [] h = ([], h)"
| "expunge_events (uid # uids) h =
     (let h = sat_u64 (h + 1); (events, h') = expunge_events uids h in ((uid, h) # events, h'))"

definition remove_uids :: "nat list \<Rightarrow> uid_list \<Rightarrow> uid_list" where
  "remove_uids uids l = l\<lparr>ul_by_uid := filter (\<lambda>e. fst e \<notin> set uids) (ul_by_uid l)\<rparr>"

definition default_uidlist :: uid_list where
  "default_uidlist = \<lparr>ul_uidvalidity = 0, ul_uidnext = 0, ul_highest_modseq = 0, ul_by_uid = []\<rparr>"

definition expunge_body :: "mail_store \<Rightarrow> string \<Rightarrow> nat list \<Rightarrow> (mail_error, nat) io" where
  "expunge_body store d uids =
     io_bind (load_uidlist (d, UIDLIST)) (\<lambda>loaded.
       let l = (case loaded of Some l \<Rightarrow> l | None \<Rightarrow> default_uidlist) in
       io_bind (expunge_loop d l uids ([], 0)) (\<lambda>(removed, bytes).
         if removed = [] then io_return 0
         else
           (let (events, highest) = expunge_events removed (ul_highest_modseq l);
                l = (remove_uids removed l)\<lparr>ul_highest_modseq := highest\<rparr>
            in io_bind (append_expunged d events) (\<lambda>_.
               io_bind (write_uidlist d l) (\<lambda>_ s.
               (release_quota store (Some (length removed, bytes)) s, Inr (length removed)))))))"

definition mail_expunge :: "mail_store \<Rightarrow> string \<Rightarrow> nat list \<Rightarrow> (mail_error, nat) io" where
  "mail_expunge store folder uids s =
     (case folder_path store folder of
        Inl e \<Rightarrow> (s, Inl e)
      | Inr d \<Rightarrow>
          (let (s, present) = dir_exists d s in
           if \<not> present then (s, Inl (MailNotFound folder))
           else maildir_lock d UIDLIST_LOCK (expunge_body store d uids) s))"

definition mail_read :: "string \<Rightarrow> message_meta \<Rightarrow> (mail_error, string) io" where
  "mail_read d m s =
     (case fs_read (mm_path m) s of
        (s, Inr data) \<Rightarrow> (s, Inr data)
      | (s, Inl e) \<Rightarrow>
          if e = NotFound then
            io_bind (find_file d (mm_base m)) (\<lambda>found.
              case found of
                Some (dir, name) \<Rightarrow> mail_io (fs_read (sub_dir d dir, name))
              | None \<Rightarrow> io_fail MailIo) s
          else (s, Inl MailIo))"

section \<open>What leaves the UID list alone\<close>

lemma touches_step:
  assumes "touches ps m" and "\<And>t r. m s = (t, r) \<Longrightarrow> same_files ps t (fst (k t r))"
  shows "same_files ps s (fst (case m s of (t, r) \<Rightarrow> k t r))"
proof -
  obtain t r where m: "m s = (t, r)" by (cases "m s")
  have "same_files ps s t" by (rule touchesD [OF assms(1) m])
  then show ?thesis using assms(2) [OF m] m by (auto intro: same_files_trans)
qed

lemma touchesI_step: "(\<And>s. same_files ps s (fst (m s))) \<Longrightarrow> touches ps m"
  by (simp add: touches_def)

lemma touches_same: "touches ps m \<Longrightarrow> same_files ps s (fst (m s))"
  by (simp add: touches_def)

lemma touches_mail_io: "touches ps m \<Longrightarrow> touches ps (mail_io m)"
  unfolding mail_io_def by (rule touches_map_err)

lemma touches_read_string: "touches ps (read_to_string p)"
  unfolding read_to_string_def by (intro touches_bind touches_ops) (simp add: touches_return touches_fail)

lemma touches_metadata: "touches ps (fs_metadata p)"
  unfolding fs_metadata_def by (rule touches_fallible) (simp add: touches_def)

definition spares :: "string \<Rightarrow> (fs \<Rightarrow> fs \<times> 'a) \<Rightarrow> bool" where
  "spares d m \<longleftrightarrow> touches (- {(d, UIDLIST)}) m"

lemma sparesI: "touches ps m \<Longrightarrow> (d, UIDLIST) \<notin> ps \<Longrightarrow> spares d m"
  unfolding spares_def by (rule touches_mono) auto

lemma spares_list_at: "spares d m \<Longrightarrow> m s = (t, r) \<Longrightarrow> list_at t d = list_at s d"
  unfolding spares_def by (rule list_at_cong, rule same_content, erule (1) touchesD) simp

lemma spares_trans: "spares d m \<Longrightarrow> same_files (- {(d, UIDLIST)}) s (fst (m s))"
  by (simp add: spares_def touches_def)

lemma spares_bind [intro]: "spares d m \<Longrightarrow> (\<And>x. spares d (k x)) \<Longrightarrow> spares d (io_bind m k)"
  unfolding spares_def by (rule touches_bind)

lemma spares_return [intro, simp]: "spares d (io_return x)" "spares d (io_fail e)"
  by (simp_all add: spares_def touches_return touches_fail)

lemma spares_io [intro]: "spares d m \<Longrightarrow> spares d (mail_io m)"
  unfolding spares_def mail_io_def by (rule touches_map_err)

lemma spares_ops [intro]:
  "spares d (create_dir_all x)" "spares d (fs_read p)" "spares d (read_dir x)" "spares d fs_sync" "spares d file_lock_acquire"
  "spares d (dir_exists x)" "spares d (path_exists p)" "spares d fs_tick"
  by (simp_all add: spares_def touches_ops touches_query touches_tick)

lemma spares_writes [intro]:
  "p \<noteq> (d, UIDLIST) \<Longrightarrow> spares d (remove_file p)" "p \<noteq> (d, UIDLIST) \<Longrightarrow> spares d (create_new p)"
  "p \<noteq> (d, UIDLIST) \<Longrightarrow> spares d (write_all p data)" "p \<noteq> (d, UIDLIST) \<Longrightarrow> spares d (open_lock_sidecar p)"
  "p \<noteq> (d, UIDLIST) \<Longrightarrow> q \<noteq> (d, UIDLIST) \<Longrightarrow> spares d (fs_rename p q)"
  by (simp_all add: spares_def touches_ops)

lemma spares_metadata [intro]: "spares d (fs_metadata p)"
  unfolding spares_def fs_metadata_def by (rule touches_fallible) (simp add: touches_def)

lemma spares_set_modified [intro]: "p \<noteq> (d, UIDLIST) \<Longrightarrow> spares d (set_modified p time)"
  unfolding spares_def set_modified_def
  by (rule touches_fallible) (auto simp: touches_def same_files_def split: option.splits)

lemma spares_read [intro]: "spares d (read_to_string p)"
  unfolding read_to_string_def by (intro spares_bind spares_ops) auto

lemma same_compl_trans:
  "same_files (- X) s t \<Longrightarrow> same_files (- X) t u \<Longrightarrow> same_files (- X) s u"
  by (rule same_files_trans)

text \<open>Composition of steps that are not written with \<open>io_bind\<close>.\<close>

lemma spares_step:
  assumes "spares d m" and "\<And>t r. m s = (t, r) \<Longrightarrow> same_files (- {(d, UIDLIST)}) t (fst (k t r))"
  shows "same_files (- {(d, UIDLIST)}) s (fst (case m s of (t, r) \<Rightarrow> k t r))"
proof -
  obtain t r where m: "m s = (t, r)" by (cases "m s")
  have "same_files (- {(d, UIDLIST)}) s t" using touchesD [OF assms(1) [unfolded spares_def] m] .
  then show ?thesis using assms(2) [OF m] m by (auto intro: same_files_trans)
qed

lemma sparesI_step: "(\<And>s. same_files (- {(d, UIDLIST)}) s (fst (m s))) \<Longrightarrow> spares d m"
  by (simp add: spares_def touches_def)

lemma spares_drop: "spares d m \<Longrightarrow> same_files (- {(d, UIDLIST)}) s (io_drop m s)"
  unfolding spares_def by (rule touches_drop)

lemma maildir_temp_spared: "maildir_temp tag p \<noteq> (d, UIDLIST)"
proof
  assume "maildir_temp tag p = (d, UIDLIST)"
  then have "snd p @ ''.tmp.'' @ nat_to_string (fst tag) @ ''.'' @ nat_to_string (fst (snd tag)) = ''mailstack-uidlist''"
    by (simp add: maildir_temp_def UIDLIST_def)
  from arg_cong [OF this, of "\<lambda>x. CHR ''.'' \<in> set x"] show False by simp
qed

lemma spares_write_atomic [intro]: "p \<noteq> (d, UIDLIST) \<Longrightarrow> spares d (maildir_write_atomic p data)"
proof (rule sparesI_step)
  fix s
  assume p: "p \<noteq> (d, UIDLIST)"
  obtain t r where run: "maildir_write_atomic p data s = (t, r)" by (cases "maildir_write_atomic p data s")
  have "same_files (- {(d, UIDLIST)}) s t"
    using conjunct2 [OF maildir_write_atomic_effect [OF run]] by (rule same_files_mono) (use p maildir_temp_spared [of "fs_tag s (fs_ops s)" p d, symmetric] in auto)
  then show "same_files (- {(d, UIDLIST)}) s (fst (maildir_write_atomic p data s))" using run by simp
qed

lemma spares_lock [intro]:
  assumes "spares d action" and "name \<noteq> UIDLIST"
  shows "spares d (maildir_lock x name action)"
proof (rule sparesI_step)
  fix s
  obtain t r where run: "maildir_lock x name action s = (t, r)" by (cases "maildir_lock x name action s")
  then have "same_files (- {(d, UIDLIST)}) s t"
  proof (cases rule: maildir_lock_effect)
    case refused
    then show ?thesis using assms(2) by (auto elim: same_files_mono)
  next
    case (ran s1 t1)
    have "same_files (- {(d, UIDLIST)}) s s1" using ran(1) by (rule same_files_mono) (use assms(2) in auto)
    moreover have "same_files (- {(d, UIDLIST)}) s1 t1" using touchesD [OF assms(1) [unfolded spares_def] ran(2)] .
    moreover have "same_files (- {(d, UIDLIST)}) t1 t" using ran(3) by (rule same_files_mono) auto
    ultimately show ?thesis by (blast intro: same_files_trans)
  qed
  then show "same_files (- {(d, UIDLIST)}) s (fst (maildir_lock x name action s))" using run by simp
qed

lemma sub_dir_spared [simp]: "sub_dir d sub \<noteq> d" "d \<noteq> sub_dir d sub"
  by (auto simp: sub_dir_def dest: arg_cong [of _ _ length])

lemma quota_names [simp]:
  "QUOTA \<noteq> UIDLIST" "QUOTA_LOCK \<noteq> UIDLIST" "USAGE \<noteq> UIDLIST" "UIDLIST \<noteq> USAGE"
  by (simp_all add: QUOTA_def QUOTA_LOCK_def USAGE_def UIDLIST_def)

lemma spares_dirs [intro]: "spares d (ensure_maildir_dirs x)"
  unfolding ensure_maildir_dirs_def by (intro spares_bind spares_io spares_ops)

lemma spares_quota_limits: "spares d (quota_limits store)"
  unfolding quota_limits_def
  by (rule sparesI_step, rule spares_step [OF spares_read]) (auto split: sum.splits)

lemma spares_load_usage: "spares d (load_usage store)"
  unfolding load_usage_def
  by (rule sparesI_step, rule spares_step [OF spares_read]) (auto split: sum.splits)

lemma spares_write_usage: "spares d (write_usage store u)"
  unfolding write_usage_def by (rule spares_write_atomic) simp

lemma touches_scan_usage: "touches {} (scan_usage store)"
proof -
  have fl: "touches {} (folders_loop es names)" for es names
  proof (induction es arbitrary: names)
    case (Cons e es)
    show ?case
      by (cases e, rule touchesI_step, simp only: folders_loop.simps Let_def, rule touches_step [OF touches_tick], simp, intro impI,
          rule touches_step [OF touches_tick])
         (auto simp: touches_same [OF Cons.IH] split: option.splits sum.splits)
  qed (simp add: touches_def)
  have f: "touches {} (mail_folders store)"
    by (rule touchesI_step, unfold mail_folders_def, rule touches_step [OF touches_ops(4)])
       (auto simp: touches_same [OF fl] split: sum.splits)
  have en: "touches {} (usage_entries dir names usage)" for dir names usage
  proof (induction names arbitrary: usage)
    case (Cons name names)
    have "same_files {} u (fst (case fs_metadata (dir, name) u of
             (s, Inl _) \<Rightarrow> (s, Inl MailIo)
           | (s, Inr (len, _)) \<Rightarrow> usage_entries dir names (sat_u64 (fst usage + 1), sat_u64 (snd usage + len)) s))" for u
      by (rule touches_step [OF touches_metadata]) (auto simp: touches_same [OF Cons.IH] split: sum.splits)
    then show ?case
      by (intro touchesI_step, unfold usage_entries.simps Let_def, intro touches_step [OF touches_tick], simp, intro impI,
          intro touches_step [OF touches_tick]) simp
  qed (simp add: touches_def)
  have dir: "touches {} (usage_dir dir usage)" for dir usage
    by (rule touchesI_step, unfold usage_dir_def, rule touches_step [OF touches_ops(4)])
       (auto simp: touches_same [OF en] split: sum.splits)
  have fo: "touches {} (usage_folders store fs usage)" for fs usage
    by (induction fs arbitrary: usage) (simp_all add: scan_usage_dir_def touches_bind touches_return touches_fail dir split: sum.split)
  show ?thesis unfolding scan_usage_def scan_usage_dir_def by (intro touches_bind dir f fo)
qed

lemma spares_scan_usage: "spares d (scan_usage store)"
  by (rule sparesI [OF touches_scan_usage]) simp

lemma spares_recompute: "spares d (recompute_usage store)"
  unfolding recompute_usage_def by (intro spares_bind spares_scan_usage spares_write_usage) simp

lemma spares_usage: "spares d (cached_or_recompute_usage store)"
  unfolding cached_or_recompute_usage_def
  by (intro spares_bind spares_load_usage) (auto simp: spares_recompute split: option.splits)

lemma spares_if: "(c \<Longrightarrow> spares d m) \<Longrightarrow> (\<not> c \<Longrightarrow> spares d n) \<Longrightarrow> spares d (if c then m else n)"
  by simp

lemma spares_reserve: "spares d (reserve_quota store messages bytes)"
  unfolding reserve_quota_def reserve_body_def Let_def
  by (intro spares_bind spares_quota_limits spares_if spares_lock spares_usage)
     (auto simp: case_prod_unfold intro!: spares_bind spares_if spares_write_usage)

lemma spares_release: "same_files (- {(d, UIDLIST)}) s (release_quota store reservation s)"
proof -
  have "spares d (maildir_lock (ms_root store) QUOTA_LOCK (release_body store m b))" for m b
    unfolding release_body_def
    by (intro spares_lock spares_bind spares_usage) (auto simp: case_prod_unfold intro: spares_write_usage)
  note p = spares_drop [OF this] spares_trans [OF spares_ops(7) [of d "(ms_root store, QUOTA)"]]
  show ?thesis
    by (auto simp: release_quota_def Let_def case_prod_unfold p(2) split: option.splits intro: same_files_trans [OF p(2) p(1)])
qed

lemma spares_allocation: "spares d (suffix_with_keyword_allocation x flags)"
proof -
  have "spares d (allocate_body x flags)"
  proof (rule sparesI_step)
    fix s
    have rd: "spares d (read_keywords x)"
      unfolding read_keywords_def by (rule sparesI_step, rule spares_step [OF spares_read]) (auto split: sum.splits)
    have "spares d (io_bind (if ch then write_keywords x kws else io_return ()) (\<lambda>_. io_return (flags_suffix flags kws)))" for ch kws
      unfolding write_keywords_def by (auto intro!: spares_bind spares_if)
    then show "same_files (- {(d, UIDLIST)}) s (fst (allocate_body x flags s))"
      unfolding allocate_body_def Let_def
      by (intro spares_step [OF rd]) (auto simp: spares_trans split: sum.splits)
  qed
  then show ?thesis unfolding suffix_with_keyword_allocation_def by (rule spares_lock) simp
qed

lemma spares_destination: "spares d (message_destination x base flags recent)"
  unfolding message_destination_def by (intro spares_if spares_bind spares_allocation) auto

lemma spares_write_tmp: "spares d (write_tmp_file d base data date)"
proof (rule sparesI_step)
  fix s
  let ?tmp = "(sub_dir d ''tmp'', base)"
  have w: "spares d (io_bind (create_new ?tmp) (\<lambda>_. io_bind (write_all ?tmp data) (\<lambda>_. io_bind fs_sync (\<lambda>_.
             case date of Some date \<Rightarrow> if date < 0 then io_return () else set_modified ?tmp date | None \<Rightarrow> io_return ()))))"
    by (intro spares_bind) (auto split: option.splits)
  have "same_files (- {(d, UIDLIST)}) u (io_drop (remove_file ?tmp) u)" for u by (rule spares_drop) auto
  then show "same_files (- {(d, UIDLIST)}) s (fst (write_tmp_file d base data date s))"
    unfolding write_tmp_file_def Let_def by (intro spares_step [OF w]) (auto split: sum.splits)
qed

lemma touches_find: "touches {} (find_file x base)"
proof -
  have en: "touches {} (find_entry base names)" for names
  proof (induction names)
    case (Cons name names)
    show ?case
      by (rule touchesI_step, unfold find_entry.simps Let_def, rule touches_step [OF touches_tick])
         (auto simp: touches_same [OF Cons.IH])
  qed (simp add: touches_def)
  have "touches {} (find_in_dirs x base dirs)" for dirs
  proof (induction dirs)
    case (Cons dir dirs)
    have "same_files {} u (fst (case find_entry base names u of
             (s, Inl e) \<Rightarrow> (s, Inl e)
           | (s, Inr (Some name)) \<Rightarrow> (s, Inr (Some (dir, name)))
           | (s, Inr None) \<Rightarrow> find_in_dirs x base dirs s))" for u names
      by (rule touches_step [OF en]) (auto simp: touches_same [OF Cons.IH] split: sum.splits option.splits)
    then show ?case
      by (intro touchesI_step, unfold find_in_dirs.simps, intro touches_step [OF touches_ops(4)])
         (auto simp: touches_same [OF Cons.IH] split: sum.splits)
  qed (simp add: touches_def)
  then show ?thesis by (simp add: find_file_def)
qed

lemma spares_find: "spares d (find_file x base)"
  by (rule sparesI [OF touches_find]) simp

lemma touches_scan_directory: "touches {} (scan_directory d kws dir scanned)"
proof -
  have en: "touches {} (scan_entries dir recent kws names scanned)" for dir recent names scanned
  proof (induction names arbitrary: scanned)
    case (Cons name names)
    show ?case
      by (rule touchesI_step, unfold scan_entries.simps Let_def, rule touches_step [OF touches_tick], simp, intro impI,
          rule touches_step [OF touches_tick])
         (auto simp: touches_same [OF Cons.IH] case_prod_unfold)
  qed (simp add: touches_def)
  show ?thesis
    by (rule touchesI_step, unfold scan_directory_def, rule touches_step [OF touches_ops(4)])
       (auto simp: touches_same [OF en] split: sum.splits)
qed

lemma touches_scan: "touches {} (scan_folder d kws)"
  unfolding scan_folder_def by (intro touches_bind touches_scan_directory)

lemma spares_scan: "spares d (scan_folder x kws)"
  by (rule sparesI [OF touches_scan]) simp

lemma spares_promote: "spares d (promote d kws recent scanned)"
proof -
  have "spares d (promote_loop d kws bases scanned)" for bases scanned
  proof (induction bases arbitrary: scanned)
    case (Cons base bases)
    have rn: "spares d (fs_rename (sub_dir d ''new'', f) (sub_dir d ''cur'', g))" for f g by auto
    show ?case
    proof (rule sparesI_step)
      fix s
      show "same_files (- {(d, UIDLIST)}) s (fst (promote_loop d kws (base # bases) scanned s))"
      proof (cases "map_of scanned base")
        case (Some f)
        then show ?thesis
          unfolding promote_loop.simps Let_def option.case
          by simp (rule spares_step [OF rn], auto simp: spares_trans [OF Cons.IH] split: sum.splits)
      qed (simp add: spares_trans [OF Cons.IH])
    qed
  qed (simp add: spares_def touches_def)
  then show ?thesis unfolding promote_def by (intro spares_if spares_lock) auto
qed

lemma touches_collect: "touches {} (collect_messages x mapping scanned)"
proof (induction scanned)
  case (Cons e scanned)
  obtain base f where e: "e = (base, f)" by (cases e)
  show ?case
  proof (rule touchesI_step)
    fix s
    have k: "touches {} (io_bind (collect_messages x mapping scanned) (\<lambda>ms. io_return (m # ms)))" for m
      by (intro touches_bind Cons.IH touches_return)
    show "same_files {} s (fst (collect_messages x mapping (e # scanned) s))"
    proof (cases "mp_by_base mapping base")
      case (Some u)
      then show ?thesis
        unfolding e collect_messages.simps Let_def case_prod_unfold option.case
        by simp (rule touches_step [OF touches_metadata, unfolded case_prod_unfold],
            auto simp: touches_same [OF Cons.IH] touches_same [OF k] case_prod_unfold split: sum.splits)
    qed (simp add: e touches_same [OF Cons.IH])
  qed
qed (simp add: touches_def)

lemma spares_collect: "spares d (collect_messages x mapping scanned)"
  by (rule sparesI [OF touches_collect]) simp

lemma spares_expunge_loop: "spares d (expunge_loop d l uids acc)"
proof (induction uids arbitrary: acc)
  case (Cons uid uids)
  show ?case
  proof (rule sparesI_step)
    fix s
    have rm: "spares d (remove_file (sub_dir d dir, name))" for dir name by auto
    have step: "same_files (- {(d, UIDLIST)}) u (fst (case remove_file (sub_dir d dir, name) u of
                     (s, Inr _) \<Rightarrow> expunge_loop d l uids a s
                   | (s, Inl e) \<Rightarrow> if e = NotFound then expunge_loop d l uids a s else (s, Inl MailIo)))" for u dir name a
      by (rule spares_step [OF rm]) (auto simp: spares_trans [OF Cons.IH] split: sum.splits)
    have md: "same_files (- {(d, UIDLIST)}) u (fst (let (s, metadata) = fs_metadata (sub_dir d dir, name) u;
                    bytes = (case metadata of Inr (len, _) \<Rightarrow> sat_u64 (snd acc + len) | Inl _ \<Rightarrow> snd acc)
                in case remove_file (sub_dir d dir, name) s of
                     (s, Inr _) \<Rightarrow> expunge_loop d l uids (fst acc @ [uid], bytes) s
                   | (s, Inl e) \<Rightarrow>
                       if e = NotFound then expunge_loop d l uids (fst acc @ [uid], bytes) s else (s, Inl MailIo)))" for u dir name
      unfolding Let_def by (rule spares_step [OF spares_metadata]) (rule step)
    have ff: "same_files (- {(d, UIDLIST)}) u (fst (case find_file d base u of
             (s, Inl e) \<Rightarrow> (s, Inl e)
           | (s, Inr None) \<Rightarrow> expunge_loop d l uids acc s
           | (s, Inr (Some (dir, name))) \<Rightarrow>
               (let p = (sub_dir d dir, name);
                    (s, metadata) = fs_metadata p s;
                    bytes = (case metadata of Inr (len, _) \<Rightarrow> sat_u64 (snd acc + len) | Inl _ \<Rightarrow> snd acc)
                in case remove_file p s of
                     (s, Inr _) \<Rightarrow> expunge_loop d l uids (fst acc @ [uid], bytes) s
                   | (s, Inl e) \<Rightarrow>
                       if e = NotFound then expunge_loop d l uids (fst acc @ [uid], bytes) s else (s, Inl MailIo))))" for u base
      by (rule spares_step [OF spares_find])
         (use md spares_trans [OF Cons.IH] in \<open>auto split: sum.splits option.splits simp: Let_def\<close>)
    show "same_files (- {(d, UIDLIST)}) s (fst (expunge_loop d l (uid # uids) acc s))"
    proof (cases "map_of (ul_by_uid l) uid")
      case (Some v)
      then show ?thesis
        using ff [of s "fst v"] by (simp add: case_prod_unfold)
    qed (simp add: spares_trans [OF Cons.IH])
  qed
qed (simp add: spares_def touches_def)

lemma spares_append_expunged: "spares d (append_expunged d events)"
proof (rule sparesI_step)
  fix s
  let ?p = "(d, EXPUNGED)"
  have tr: "spares d (trim_expunged ?p)"
    by (rule sparesI_step, unfold trim_expunged_def Let_def, rule spares_step [OF spares_read])
       (rule spares_trans, rule spares_write_atomic, simp)
  have k: "spares d (io_bind (if c then trim_expunged ?p else io_return ()) (\<lambda>_.
      io_bind (mail_io (open_lock_sidecar ?p)) (\<lambda>_. io_bind (mail_io (write_all ?p data)) (\<lambda>_. mail_io fs_sync))))" for c data
    by (intro spares_bind spares_if tr spares_io spares_writes spares_ops spares_return) simp_all
  show "same_files (- {(d, UIDLIST)}) s (fst (append_expunged d events s))"
    unfolding append_expunged_def Let_def
    by simp (intro impI, rule spares_step [OF spares_metadata], rule spares_trans, rule k)
qed

section \<open>No identifier is ever reused\<close>

definition keeps_from :: "string \<Rightarrow> uid_list \<Rightarrow> (fs \<Rightarrow> fs \<times> 'a) \<Rightarrow> bool" where
  "keeps_from d l m \<longleftrightarrow>
     (\<forall>s. list_at s d = Some l \<longrightarrow> (\<exists>l'. list_at (fst (m s)) d = Some l' \<and> uid_continues l l'))"

lemma keeps_spares: "spares d m \<Longrightarrow> keeps_from d l m"
  unfolding keeps_from_def by (metis prod.collapse spares_list_at uid_continues_refl)

lemma keeps_bind_spares:
  "spares d m \<Longrightarrow> (\<And>x. keeps_from d l (k x)) \<Longrightarrow> keeps_from d l (io_bind m k)"
  unfolding keeps_from_def io_bind_def
  by (auto split: prod.splits sum.splits dest: spares_list_at)

lemma keeps_bind: "(\<And>l. keeps_from d l m) \<Longrightarrow> (\<And>x l. keeps_from d l (k x)) \<Longrightarrow> keeps_from d l (io_bind m k)"
  unfolding keeps_from_def io_bind_def
  by (auto split: prod.splits sum.splits) (metis fst_conv uid_continues_trans)+

lemma keeps_load:
  "(\<And>l. keeps_from d l (k (Some l))) \<Longrightarrow> keeps_from d l (io_bind (load_uidlist (d, UIDLIST)) k)"
  unfolding keeps_from_def
proof (intro allI impI)
  fix s
  assume k: "\<And>l. \<forall>s. list_at s d = Some l \<longrightarrow> (\<exists>l'. list_at (fst (k (Some l) s)) d = Some l' \<and> uid_continues l l')"
    and s: "list_at s d = Some l"
  obtain t r where ld: "load_uidlist (d, UIDLIST) s = (t, r)" by (cases "load_uidlist (d, UIDLIST) s")
  note e = load_uidlist_effect [OF ld]
  have t: "list_at t d = Some l" using list_at_cong [OF same_content [OF e(1)]] s by simp
  show "\<exists>l'. list_at (fst (io_bind (load_uidlist (d, UIDLIST)) k s)) d = Some l' \<and> uid_continues l l'"
  proof (cases r)
    case (Inl x)
    then show ?thesis using ld t by (auto simp: io_bind_def)
  next
    case (Inr loaded)
    then have "loaded = Some l" using e(2) s by simp
    then show ?thesis using ld Inr k t by (simp add: io_bind_def)
  qed
qed

lemma keeps_write:
  assumes "ul_ok l'" and "uid_continues l l'" and "\<And>x. spares d (k x)"
  shows "keeps_from d l (io_bind (write_uidlist d l') k)"
  unfolding keeps_from_def
proof (intro allI impI)
  fix s
  assume s: "list_at s d = Some l"
  obtain t r where w: "write_uidlist d l' s = (t, r)" by (cases "write_uidlist d l' s")
  from write_uidlist_effect(2) [OF w assms(1)]
  show "\<exists>l2. list_at (fst (io_bind (write_uidlist d l') k s)) d = Some l2 \<and> uid_continues l l2"
  proof
    assume t: "r = Inr () \<and> list_at t d = Some l'"
    have "list_at (fst (k () t)) d = list_at t d" using spares_list_at [OF assms(3), of "()" t] by (metis prod.collapse)
    then show ?thesis using w t assms(2) by (auto simp: io_bind_def)
  next
    assume "(\<exists>e. r = Inl e) \<and> list_at t d = list_at s d"
    then show ?thesis using w s by (auto simp: io_bind_def)
  qed
qed

lemma keeps_lock:
  assumes "\<And>l. keeps_from d l action" and "name \<noteq> UIDLIST"
  shows "keeps_from d l (maildir_lock d name action)"
  unfolding keeps_from_def
proof (intro allI impI)
  fix s
  assume s: "list_at s d = Some l"
  obtain t r where run: "maildir_lock d name action s = (t, r)" by (cases "maildir_lock d name action s")
  then have "\<exists>l'. list_at t d = Some l' \<and> uid_continues l l'"
  proof (cases rule: maildir_lock_effect)
    case refused
    then have "list_at t d = list_at s d" using assms(2) by (intro list_at_cong same_content) auto
    then show ?thesis using s by simp
  next
    case (ran s1 t1)
    have "list_at s1 d = list_at s d" using ran(1) assms(2) by (intro list_at_cong same_content) auto
    moreover have "list_at t d = list_at t1 d" using ran(3) by (intro list_at_cong same_content) auto
    ultimately show ?thesis using assms(1) [of l] ran(2) s unfolding keeps_from_def by (metis fst_conv)
  qed
  then show "\<exists>l'. list_at (fst (maildir_lock d name action s)) d = Some l' \<and> uid_continues l l'" using run by simp
qed

lemma bump_modseq_ok:
  assumes "ul_ok l"
  shows "ul_ok (bump_modseq uid l)" and "uid_continues l (bump_modseq uid l)"
proof -
  define H where "H = sat_u64 (ul_highest_modseq l + 1)"
  let ?f = "\<lambda>(u, base, m). (u, base, if u = uid then H else m)"
  have h: "ul_highest_modseq l \<le> H" "0 < H" "H \<le> U64_MAX"
    using assms by (auto simp: sat_u64_def ul_ok_def min_def H_def)
  have bump: "bump_modseq uid l = l\<lparr>ul_highest_modseq := H, ul_by_uid := map ?f (ul_by_uid l)\<rparr>"
    unfolding H_def bump_modseq_def Let_def by (rule refl)
  have keys: "map fst (map ?f (ul_by_uid l)) = map fst (ul_by_uid l)" "map (fst \<circ> snd) (map ?f (ul_by_uid l)) = bases_of l"
    by (simp_all add: comp_def case_prod_unfold)
  have ent: "list_all (\<lambda>(u, base, modseq). 0 < u \<and> u < ul_uidnext l \<and> is_valid_base base \<and> 0 < modseq \<and> modseq \<le> H) (map ?f (ul_by_uid l))"
    using ul_okD [OF assms] h by (fastforce simp: list_all_iff intro: le_trans)
  have wf: "bt_wf (map ?f (ul_by_uid l))" using assms unfolding ul_ok_def bt_wf_def keys(1) by blast
  have di: "distinct (map (fst \<circ> snd) (map ?f (ul_by_uid l)))" using assms unfolding keys(2) ul_ok_def by blast
  show "ul_ok (bump_modseq uid l)"
    using assms h(3) wf di ent unfolding bump ul_ok_def by (simp del: map_map list.pred_map)
  have mo: "map_of (map ?f xs) u = map_option (\<lambda>(b, m). (b, if u = uid then H else m)) (map_of xs u)" for xs u
    by (induction xs) auto
  have "m \<le> H" if "map_of (ul_by_uid l) u = Some (b, m)" for u b m
    using ul_okD [OF assms map_of_SomeD [OF that]] h(1) by simp
  then show "uid_continues l (bump_modseq uid l)"
    using h(1) unfolding bump by (auto simp: uid_continues_def mo)
qed

lemma remove_uids_ok:
  assumes "ul_ok l" and "ul_highest_modseq l \<le> h" and "h \<le> U64_MAX"
  shows "ul_ok ((remove_uids uids l)\<lparr>ul_highest_modseq := h\<rparr>)" and "uid_continues l ((remove_uids uids l)\<lparr>ul_highest_modseq := h\<rparr>)"
proof -
  have "ul_ok (remove_uids uids l)" unfolding remove_uids_def by (rule ul_ok_filter [OF assms(1)])
  then show "ul_ok ((remove_uids uids l)\<lparr>ul_highest_modseq := h\<rparr>)"
    using assms(2,3) by (auto simp: ul_ok_def list_all_iff remove_uids_def intro: le_trans)
  have "uid_continues l (remove_uids uids l)" unfolding remove_uids_def by (rule uid_continues_filter [OF assms(1)])
  then show "uid_continues l ((remove_uids uids l)\<lparr>ul_highest_modseq := h\<rparr>)"
    using assms(2) by (auto simp: uid_continues_def remove_uids_def)
qed

lemma expunge_events_le:
  "h \<le> U64_MAX \<Longrightarrow> h \<le> snd (expunge_events uids h) \<and> snd (expunge_events uids h) \<le> U64_MAX"
proof (induction uids arbitrary: h)
  case (Cons uid uids)
  have "h \<le> sat_u64 (h + 1)" "sat_u64 (h + 1) \<le> U64_MAX" using Cons.prems by (auto simp: sat_u64_def min_def)
  then show ?case using Cons.IH [of "sat_u64 (h + 1)"] by (auto simp: Let_def case_prod_unfold)
qed simp

lemma keeps_ok: "(ul_ok l \<Longrightarrow> keeps_from d l m) \<Longrightarrow> keeps_from d l m"
  unfolding keeps_from_def using list_at_ok by blast

lemma spares_rename_message: "spares d (rename_message d found target)"
  unfolding rename_message_def by (intro spares_if spares_io) auto

lemma keeps_option:
  "keeps_from d l a \<Longrightarrow> (\<And>x. y = Some x \<Longrightarrow> keeps_from d l (b x)) \<Longrightarrow> keeps_from d l (case y of None \<Rightarrow> a | Some x \<Rightarrow> b x)"
  by (cases y) simp_all

lemma spares_prod: "(\<And>x y. spares d (k x y)) \<Longrightarrow> spares d (case p of (x, y) \<Rightarrow> k x y)"
  by (cases p) simp

lemma keeps_prod: "(\<And>x y. p = (x, y) \<Longrightarrow> keeps_from d l (k x y)) \<Longrightarrow> keeps_from d l (case p of (x, y) \<Rightarrow> k x y)"
  by (cases p) simp

lemma set_flags_keeps: "keeps_from d l (set_flags_body d uid flags)"
  unfolding set_flags_body_def
  apply (rule keeps_load, rule keeps_ok, unfold option.case)
  apply (intro keeps_option keeps_prod keeps_spares [OF spares_return(2)] keeps_bind_spares [OF spares_find]
      keeps_bind_spares [OF spares_allocation] keeps_bind_spares [OF spares_rename_message] keeps_write
      spares_bind spares_io spares_metadata spares_prod spares_return bump_modseq_ok)
  apply assumption+
  done

lemma expunge_keeps: "keeps_from d l (expunge_body store d uids)"
  unfolding expunge_body_def Let_def
proof (rule keeps_load, rule keeps_ok)
  fix l
  assume ok: "ul_ok l"
  then have h: "ul_highest_modseq l \<le> U64_MAX" by (simp add: ul_ok_def)
  have rel: "spares d (\<lambda>s. (release_quota store r s, Inr n))" for r and n :: nat
    by (rule sparesI_step) (simp add: spares_release)
  show "keeps_from d l (io_bind (expunge_loop d (case Some l of None \<Rightarrow> default_uidlist | Some l \<Rightarrow> l) uids ([], 0)) (\<lambda>(removed, bytes).
         if removed = [] then io_return 0
         else case expunge_events removed (ul_highest_modseq (case Some l of None \<Rightarrow> default_uidlist | Some l \<Rightarrow> l)) of
             (events, highest) \<Rightarrow> io_bind (append_expunged d events) (\<lambda>_.
               io_bind (write_uidlist d ((remove_uids removed (case Some l of None \<Rightarrow> default_uidlist | Some l \<Rightarrow> l))\<lparr>ul_highest_modseq := highest\<rparr>)) (\<lambda>_ s.
               (release_quota store (Some (length removed, bytes)) s, Inr (length removed))))))"
    unfolding option.case
  proof (intro keeps_bind_spares [OF spares_expunge_loop] keeps_prod)
    fix x removed bytes
    show "keeps_from d l (if removed = [] then io_return 0
         else case expunge_events removed (ul_highest_modseq l) of
             (events, highest) \<Rightarrow> io_bind (append_expunged d events) (\<lambda>_.
               io_bind (write_uidlist d ((remove_uids removed l)\<lparr>ul_highest_modseq := highest\<rparr>)) (\<lambda>_ s.
               (release_quota store (Some (length removed, bytes)) s, Inr (length removed)))))"
    proof (cases "removed = []")
      case False
      have ev: "ul_highest_modseq l \<le> snd (expunge_events removed (ul_highest_modseq l)) \<and>
          snd (expunge_events removed (ul_highest_modseq l)) \<le> U64_MAX" by (rule expunge_events_le [OF h])
      show ?thesis
        unfolding if_not_P [OF False] case_prod_unfold
        by (intro keeps_bind_spares [OF spares_append_expunged] keeps_write remove_uids_ok ok rel) (use ev in auto)
    qed (simp add: keeps_spares)
  qed
qed

lemma sync_keeps:
  "distinct bases \<Longrightarrow> \<forall>b\<in>set bases. is_valid_base b \<Longrightarrow> keeps_from d l (sync_uidlist d bases now)"
  unfolding keeps_from_def by (metis prod.collapse sync_uidlist_effect(3))

lemma assign_keeps: "is_valid_base base \<Longrightarrow> keeps_from d l (assign_uid d base now)"
proof -
  assume b: "is_valid_base base"
  have "keeps_from d l (assign_uids_many d [base] now)" for l
    unfolding keeps_from_def using assign_uids_many_effect(3) [of d "[base]" now] b by (metis empty_iff insert_iff list.set(1,2) prod.collapse)
  then show ?thesis
    unfolding assign_uid_def by (rule keeps_bind) (auto intro: keeps_spares split: list.splits)
qed

section \<open>Operations on a folder\<close>

lemma bt_wf_scan_entries:
  "scan_entries dir recent kws names scanned s = (t, Inr scanned') \<Longrightarrow> bt_wf scanned \<Longrightarrow> \<forall>e\<in>set scanned. is_valid_base (fst e) \<Longrightarrow>
     bt_wf scanned' \<and> (\<forall>e\<in>set scanned'. is_valid_base (fst e))"
proof (induction names arbitrary: scanned s)
  case (Cons name names)
  have ins: "\<forall>e\<in>set (bt_insert base f scanned). is_valid_base (fst e)" if "is_valid_base base" for base f
    using bt_insert_keys [of base f scanned] Cons.prems(3) that by (metis image_iff insert_iff list.set_map)
  show ?case
    using Cons.prems ins
    by (auto simp: Let_def case_prod_unfold bt_insert_wf split: if_splits dest!: Cons.IH)
qed auto

lemma scan_folder_bases:
  assumes "scan_folder d kws s = (t, Inr scanned)"
  shows "bt_wf scanned" and "\<forall>b\<in>set (map fst scanned). is_valid_base b"
proof -
  have dir: "bt_wf b \<and> (\<forall>e\<in>set b. is_valid_base (fst e))"
    if "scan_directory d kws dir a s = (t, Inr b)" "bt_wf a" "\<forall>e\<in>set a. is_valid_base (fst e)" for dir a b s t
    using that bt_wf_scan_entries by (auto simp: scan_directory_def split: prod.splits sum.splits if_splits)
  obtain s1 r1 where a: "scan_directory d kws (''new'', True) [] s = (s1, r1)" by (cases "scan_directory d kws (''new'', True) [] s")
  then obtain x where x: "r1 = Inr x" "scan_directory d kws (''cur'', False) x s1 = (t, Inr scanned)"
    using assms by (cases r1) (auto simp: scan_folder_def io_bind_def)
  have "bt_wf x \<and> (\<forall>e\<in>set x. is_valid_base (fst e))" using dir a x(1) by (auto simp: bt_wf_def)
  then have "bt_wf scanned \<and> (\<forall>e\<in>set scanned. is_valid_base (fst e))" using dir x(2) by blast
  then show "bt_wf scanned" "\<forall>b\<in>set (map fst scanned). is_valid_base b" by auto
qed

lemma open_scanned_keeps:
  assumes "bt_wf scanned" and "\<forall>b\<in>set (map fst scanned). is_valid_base b"
  shows "keeps_from d l (open_scanned name d recent now kws scanned)"
proof -
  have "spares d (io_bind (promote d kws recent scanned) (\<lambda>scanned. io_bind (collect_messages d mapping scanned) (\<lambda>messages.
        io_return \<lparr>fo_name = name, fo_uidvalidity = mp_uidvalidity mapping, fo_uidnext = mp_uidnext mapping,
                   fo_highest_modseq = mp_highest_modseq mapping, fo_messages = sort_key mm_uid messages\<rparr>)))" for mapping
    by (intro spares_bind spares_promote spares_collect spares_return)
  note rest = keeps_bind [OF sync_keeps [OF bt_wf_distinct [OF assms(1)] assms(2)] keeps_spares, OF this]
  show ?thesis
  proof (cases "length scanned > MAX_SCAN_ENTRIES")
    case False
    then show ?thesis unfolding open_scanned_def if_not_P [OF False] by (intro rest)
  qed (simp add: open_scanned_def keeps_spares)
qed

text \<open>Some later version of the list is in the folder.\<close>

definition continued :: "string \<Rightarrow> uid_list \<Rightarrow> fs \<Rightarrow> bool" where
  "continued d l s \<longleftrightarrow> (\<exists>l'. list_at s d = Some l' \<and> uid_continues l l')"

lemma continued_same: "continued d l s \<Longrightarrow> same_files (- {(d, UIDLIST)}) s t \<Longrightarrow> continued d l t"
  unfolding continued_def using list_at_cong [OF same_content] by (metis ComplD singletonI)

lemma continued_keeps: "(\<And>l. keeps_from d l m) \<Longrightarrow> continued d l s \<Longrightarrow> continued d l (fst (m s))"
  unfolding continued_def keeps_from_def by (meson uid_continues_trans)

lemma continued_spares: "spares d m \<Longrightarrow> continued d l s \<Longrightarrow> continued d l (fst (m s))"
  by (erule continued_same) (rule spares_trans)

lemma continued_step:
  assumes "continued d l s" and "spares d m" and "\<And>t r. m s = (t, r) \<Longrightarrow> continued d l t \<Longrightarrow> continued d l (fst (k t r))"
  shows "continued d l (fst (case m s of (t, r) \<Rightarrow> k t r))"
proof -
  obtain t r where m: "m s = (t, r)" by (cases "m s")
  have "continued d l t" using continued_spares [OF assms(2,1)] m by simp
  then show ?thesis using assms(3) [OF m] m by simp
qed

lemma length_nat_to_string: "n < 10 ^ Suc k \<Longrightarrow> length (nat_to_string n) \<le> Suc k"
proof (induction k arbitrary: n)
  case 0
  then show ?case by (simp add: nat_to_string.simps [of n])
next
  case (Suc k)
  show ?case
  proof (cases "n < 10")
    case True
    then show ?thesis by (simp add: nat_to_string.simps [of n])
  next
    case False
    have "n div 10 < 10 ^ Suc k" using Suc.prems by simp
    from Suc.IH [OF this] False show ?thesis by (simp add: nat_to_string.simps [of n])
  qed
qed

text \<open>The counters of the process are machine integers and the host name is a DNS name.\<close>

definition tags_ok :: "fs \<Rightarrow> bool" where
  "tags_ok s \<longleftrightarrow> (\<forall>n. case fs_tag s n of (a, b, c) \<Rightarrow> a \<le> U64_MAX \<and> b \<le> U64_MAX \<and> c \<le> U64_MAX)"

lemma length_decimal_u64: "n \<le> U64_MAX \<Longrightarrow> length (nat_to_string n) \<le> 20"
  using length_nat_to_string [of n 19] by simp

lemma alphanumeric_graphic: "is_ascii_alphanumeric c \<Longrightarrow> is_ascii_graphic c \<and> c \<noteq> CHR '':'' \<and> c \<noteq> CHR 0x5C"
  by (auto simp: is_ascii_alphanumeric_def is_ascii_digit_def is_ascii_upper_def is_ascii_lower_def is_ascii_graphic_def)

lemma unique_base_valid:
  assumes "length (ms_hostname store) \<le> 255" and "now \<le> I64_MAX" and "tags_ok s"
  shows "is_valid_base (unique_base store now (fs_tag s n))"
proof -
  obtain a b c where tag: "fs_tag s n = (a, b, c)" by (cases "fs_tag s n")
  have abc: "a \<le> U64_MAX" "b \<le> U64_MAX" "c \<le> U64_MAX" using assms(3) tag unfolding tags_ok_def by (metis (mono_tags, lifting) case_prod_conv)+
  have now: "nat (max now 1) \<le> U64_MAX" using assms(2) by simp
  have host: "length (sanitize_hostname (ms_hostname store)) \<le> 255"
    using assms(1) length_trim [of "ms_hostname store"] by (auto simp: sanitize_hostname_def Let_def)
  have len: "length (unique_base store now (fs_tag s n)) \<le> 512"
    using length_decimal_u64 [OF abc(1)] length_decimal_u64 [OF abc(2)] length_decimal_u64 [OF abc(3)] length_decimal_u64 [OF now] host tag
    by (simp add: unique_base_def)
  have g: "is_ascii_graphic x \<and> x \<noteq> CHR '':'' \<and> x \<noteq> CHR 0x5C" if "x \<in> set (nat_to_string m)" for x m
    using nat_to_string_digits [OF that] alphanumeric_graphic by (simp add: is_ascii_alphanumeric_def)
  have p: "\<forall>x\<in>set ''.MPQ-_mailstack''. is_ascii_graphic x \<and> x \<noteq> CHR '':'' \<and> x \<noteq> CHR 0x5C"
    by (simp add: is_ascii_graphic_def)
  have h: "is_ascii_graphic x \<and> x \<noteq> CHR '':'' \<and> x \<noteq> CHR 0x5C" if "x \<in> set (sanitize_hostname (ms_hostname store))" for x
  proof -
    have "is_ascii_alphanumeric x \<or> x \<in> set ''.MPQ-_mailstack''"
      using that by (auto simp: sanitize_hostname_def Let_def split: if_splits)
    then show ?thesis using alphanumeric_graphic p by blast
  qed
  have "\<forall>x\<in>set (unique_base store now (fs_tag s n)). is_ascii_graphic x \<and> x \<noteq> CHR '':'' \<and> x \<noteq> CHR 0x5C"
    using g h p unfolding unique_base_def set_append by (simp only: Un_iff ball_Un) auto
  then show ?thesis using len by (auto simp: is_valid_base_def list_all_iff unique_base_def)
qed

lemma append_reserved_continued:
  assumes "continued d l s" and "is_valid_base (unique_base store now (fs_tag s (fs_ops s)))"
  shows "continued d l (fst (append_internal_reserved store d data flags date recent now s))"
proof -
  let ?base = "unique_base store now (fs_tag s (fs_ops s))"
  have rm: "spares d (remove_file (sub_dir d x, name))" for x name by auto
  have rn: "spares d (fs_rename (sub_dir d x, name) (sub_dir d y, name'))" for x y name name' by auto
  have dest: "\<exists>sub name. p = (sub_dir d sub, name)" if "message_destination d ?base flags recent u = (v, Inr p)" for u v p
    using that by (auto simp: message_destination_def io_return_def io_bind_def split: if_splits prod.splits sum.splits)
  have tmp: "p = (sub_dir d ''tmp'', ?base)" if "write_tmp_file d ?base data date u = (v, Inr p)" for u v p
    using that by (auto simp: write_tmp_file_def Let_def split: prod.splits sum.splits)
  have drop: "continued d l u \<Longrightarrow> spares d m \<Longrightarrow> continued d l (io_drop m u)" for u and m :: "(io_error, unit) io"
    using continued_same spares_drop by blast
  have fin: "continued d l (fst (case assign_uid d ?base now (io_drop fs_sync u) of
         (s, Inr result) \<Rightarrow> (s, Inr result)
       | (s, Inl e) \<Rightarrow> (io_drop (remove_file (sub_dir d sub, name)) s, Inl e)))" if "continued d l u" for u sub name
  proof -
    have "continued d l (fst (assign_uid d ?base now (io_drop fs_sync u)))"
      using continued_keeps [OF assign_keeps [OF assms(2)]] drop [OF that spares_ops(4)] by blast
    then show ?thesis using drop rm by (auto split: prod.splits sum.splits)
  qed
  have mv: "continued d l (fst (case fs_rename (sub_dir d ''tmp'', ?base) (sub_dir d sub, name) u of
                  (s, Inl _) \<Rightarrow> (io_drop (remove_file (sub_dir d ''tmp'', ?base)) s, Inl MailIo)
                | (s, Inr _) \<Rightarrow>
                    (case assign_uid d ?base now (io_drop fs_sync s) of
                       (s, Inr result) \<Rightarrow> (s, Inr result)
                     | (s, Inl e) \<Rightarrow> (io_drop (remove_file (sub_dir d sub, name)) s, Inl e))))" if "continued d l u" for u sub name
    by (rule continued_step [OF that rn]) (use fin drop rm in \<open>auto split: sum.splits\<close>)
  have wr: "continued d l (fst (case write_tmp_file d ?base data date u of
             (s, Inl e) \<Rightarrow> (s, Inl e)
           | (s, Inr tmp) \<Rightarrow>
               (case fs_rename tmp (sub_dir d sub, name) s of
                  (s, Inl _) \<Rightarrow> (io_drop (remove_file tmp) s, Inl MailIo)
                | (s, Inr _) \<Rightarrow>
                    (case assign_uid d ?base now (io_drop fs_sync s) of
                       (s, Inr result) \<Rightarrow> (s, Inr result)
                     | (s, Inl e) \<Rightarrow> (io_drop (remove_file (sub_dir d sub, name)) s, Inl e)))))" if "continued d l u" for u sub name
  proof (rule continued_step [OF that spares_write_tmp])
    fix v r assume w: "write_tmp_file d ?base data date u = (v, r)" and c: "continued d l v"
    show "continued d l (fst (case r of
             Inl e \<Rightarrow> (v, Inl e)
           | Inr tmp \<Rightarrow>
               (case fs_rename tmp (sub_dir d sub, name) v of
                  (s, Inl _) \<Rightarrow> (io_drop (remove_file tmp) s, Inl MailIo)
                | (s, Inr _) \<Rightarrow>
                    (case assign_uid d ?base now (io_drop fs_sync s) of
                       (s, Inr result) \<Rightarrow> (s, Inr result)
                     | (s, Inl e) \<Rightarrow> (io_drop (remove_file (sub_dir d sub, name)) s, Inl e)))))"
    proof (cases r)
      case (Inr p)
      then have "p = (sub_dir d ''tmp'', ?base)" using tmp w by blast
      then show ?thesis unfolding Inr sum.case using mv [OF c] by blast
    qed (simp add: c)
  qed
  show ?thesis
    unfolding append_internal_reserved_def Let_def
  proof (rule continued_step [OF assms(1) spares_destination])
    fix v r assume w: "message_destination d ?base flags recent s = (v, r)" and c: "continued d l v"
    show "continued d l (fst (case r of
             Inl e \<Rightarrow> (v, Inl e)
           | Inr destination \<Rightarrow>
               (case write_tmp_file d ?base data date v of
                  (s, Inl e) \<Rightarrow> (s, Inl e)
                | (s, Inr tmp) \<Rightarrow>
                    (case fs_rename tmp destination s of
                       (s, Inl _) \<Rightarrow> (io_drop (remove_file tmp) s, Inl MailIo)
                     | (s, Inr _) \<Rightarrow>
                         (case assign_uid d ?base now (io_drop fs_sync s) of
                            (s, Inr result) \<Rightarrow> (s, Inr result)
                          | (s, Inl e) \<Rightarrow> (io_drop (remove_file destination) s, Inl e))))))"
    proof (cases r)
      case (Inr p)
      then obtain sub name where "p = (sub_dir d sub, name)" using dest w by blast
      then show ?thesis unfolding Inr sum.case using wr [OF c] by blast
    qed (simp add: c)
  qed
qed

lemma tags_ok_same: "same_files ps s t \<Longrightarrow> tags_ok s \<Longrightarrow> tags_ok t"
  by (simp add: same_files_def fs_oracles_def tags_ok_def)

text \<open>What the sessions of a folder do to it.\<close>

datatype folder_op =
    OpAppend string flag_set "int option" bool int
  | OpOpen bool int
  | OpSetFlags nat flag_set
  | OpExpunge "nat list"

fun run_op :: "mail_store \<Rightarrow> string \<Rightarrow> folder_op \<Rightarrow> fs \<Rightarrow> fs" where
  "run_op store folder (OpAppend data flags date recent now) s = fst (append_internal store folder data flags date recent now s)"
| "run_op store folder (OpOpen promote_recent now) s = fst (open_folder store folder promote_recent now s)"
| "run_op store folder (OpSetFlags uid flags) s = fst (mail_set_flags store folder uid flags s)"
| "run_op store folder (OpExpunge uids) s = fst (mail_expunge store folder uids s)"

fun op_clock_ok :: "folder_op \<Rightarrow> bool" where
  "op_clock_ok (OpAppend _ _ _ _ now) \<longleftrightarrow> now \<le> I64_MAX"
| "op_clock_ok _ \<longleftrightarrow> True"

lemma open_folder_continued:
  assumes "folder_path store folder = Inr d" and "continued d l s"
  shows "continued d l (fst (open_folder store folder recent now s))"
proof -
  obtain name where n: "normalize_folder_name folder = Inr name"
    using assms(1) by (auto simp: folder_path_def split: sum.splits)
  have rk: "spares d (read_keywords d)"
    unfolding read_keywords_def by (rule sparesI_step, rule spares_step [OF spares_read]) (auto split: sum.splits)
  have sc: "continued d l (fst (io_bind (scan_folder d kws) (open_scanned name d recent now kws) u))" if "continued d l u" for kws u
    unfolding io_bind_def
  proof (rule continued_step [OF that spares_scan])
    fix v r assume w: "scan_folder d kws u = (v, r)" and c: "continued d l v"
    show "continued d l (fst (case r of Inl e \<Rightarrow> (v, Inl e) | Inr x \<Rightarrow> open_scanned name d recent now kws x v))"
      using c continued_keeps [OF open_scanned_keeps [OF scan_folder_bases], OF _ _ c] w by (cases r) auto
  qed
  have kw: "continued d l (fst (case read_keywords d u of (u, kws) \<Rightarrow> io_bind (scan_folder d kws) (open_scanned name d recent now kws) u))"
    if "continued d l u" for u
    by (rule continued_step [OF that rk]) (rule sc)
  have dirs: "continued d l (fst (io_bind (ensure_maildir_dirs d) (\<lambda>_ u. case read_keywords d u of
      (u, kws) \<Rightarrow> io_bind (scan_folder d kws) (open_scanned name d recent now kws) u) u))" if "continued d l u" for u
    unfolding io_bind_def [of "ensure_maildir_dirs d"]
    by (rule continued_step [OF that spares_dirs]) (use kw in \<open>auto split: sum.splits\<close>)
  show ?thesis
    unfolding open_folder_def Let_def assms(1) n prod.case sum.case
    by (rule continued_step [OF assms(2) spares_ops(6)]) (use dirs in \<open>auto\<close>)
qed

lemma append_internal_continued:
  assumes "folder_path store folder = Inr d" and "continued d l s" and "tags_ok s" and "length (ms_hostname store) \<le> 255" and "now \<le> I64_MAX"
  shows "continued d l (fst (append_internal store folder data flags date recent now s))"
proof -
  let ?c = "\<lambda>u. continued d l u \<and> tags_ok u"
  have step: "continued d l (fst (case m u of (t, r) \<Rightarrow> k t r))"
    if "?c u" "spares d m" "\<And>t r. m u = (t, r) \<Longrightarrow> ?c t \<Longrightarrow> continued d l (fst (k t r))" for u and m :: "fs \<Rightarrow> fs \<times> 'x" and k :: "fs \<Rightarrow> 'x \<Rightarrow> fs \<times> 'y"
  proof (rule continued_step)
    show "continued d l u" "spares d m" using that by simp_all
    fix t r assume m: "m u = (t, r)" and c: "continued d l t"
    have "same_files (- {(d, UIDLIST)}) u t" using touchesD [OF that(2) [unfolded spares_def] m] .
    then have "tags_ok t" using tags_ok_same that(1) by blast
    then show "continued d l (fst (k t r))" using that(3) [OF m] c by simp
  qed
  have ap: "continued d l (fst (case append_internal_reserved store d data flags date recent now u of
                 (s, Inl e) \<Rightarrow> (release_quota store rv s, Inl e)
               | (s, Inr result) \<Rightarrow> (s, Inr result)))" if "?c u" for u rv
    using append_reserved_continued [of d l u store now data flags date recent] unique_base_valid [OF assms(4,5)] that
      continued_same [OF _ spares_release] by (auto split: prod.splits sum.splits)
  have rs: "continued d l (fst (io_bind (reserve_quota store 1 (length data)) (\<lambda>rv s.
               case append_internal_reserved store d data flags date recent now s of
                 (s, Inl e) \<Rightarrow> (release_quota store rv s, Inl e)
               | (s, Inr result) \<Rightarrow> (s, Inr result)) u))" if "?c u" for u
    unfolding io_bind_def by (rule step [OF that spares_reserve]) (use ap in \<open>auto split: sum.splits\<close>)
  have dirs: "continued d l (fst (io_bind (ensure_maildir_dirs d) (\<lambda>_.
             io_bind (reserve_quota store 1 (length data)) (\<lambda>rv s.
               case append_internal_reserved store d data flags date recent now s of
                 (s, Inl e) \<Rightarrow> (release_quota store rv s, Inl e)
               | (s, Inr result) \<Rightarrow> (s, Inr result))) u))" if "?c u" for u
    unfolding io_bind_def [of "ensure_maildir_dirs d"]
    by (rule step [OF that spares_dirs]) (use rs in \<open>auto split: sum.splits\<close>)
  show ?thesis
    unfolding append_internal_def Let_def assms(1) sum.case
    by (rule step [OF conjI [OF assms(2,3)] spares_ops(6)]) (use dirs in \<open>auto\<close>)
qed

lemma locked_op_continued:
  assumes "continued d l s" and "\<And>l. keeps_from d l m"
  shows "continued d l (fst (case dir_exists d s of (s, present) \<Rightarrow> if \<not> present then (s, Inl e) else maildir_lock d UIDLIST_LOCK m s))"
  by (rule continued_step [OF assms(1) spares_ops(6)])
     (use continued_keeps [OF keeps_lock [OF assms(2)]] in auto)

lemma run_op_continued:
  assumes "folder_path store folder = Inr d" and "continued d l s" and "tags_ok s" and "length (ms_hostname store) \<le> 255" and "op_clock_ok op"
  shows "continued d l (run_op store folder op s)"
proof (cases op)
  case (OpAppend data flags date recent now)
  then show ?thesis using append_internal_continued [OF assms(1-4)] assms(5) by simp
next
  case (OpOpen recent now)
  then show ?thesis using open_folder_continued [OF assms(1,2)] by simp
next
  case (OpSetFlags uid flags)
  then show ?thesis using locked_op_continued [OF assms(2) set_flags_keeps] assms(1) by (simp add: mail_set_flags_def)
next
  case (OpExpunge uids)
  then show ?thesis using locked_op_continued [OF assms(2) expunge_keeps] assms(1) by (simp add: mail_expunge_def)
qed

text \<open>
  The life of a folder: operations of its sessions, synchronisations with a scan of the folder that
  may be out of date, and anything at all that other programs and other folders do to other files.
\<close>

inductive folder_run :: "mail_store \<Rightarrow> string \<Rightarrow> string \<Rightarrow> fs \<Rightarrow> fs \<Rightarrow> bool" for store folder d s where
  start: "folder_run store folder d s s"
| op: "folder_run store folder d s t \<Longrightarrow> tags_ok t \<Longrightarrow> op_clock_ok op \<Longrightarrow> folder_run store folder d s (run_op store folder op t)"
| stale_scan: "folder_run store folder d s t \<Longrightarrow> distinct bases \<Longrightarrow> \<forall>b\<in>set bases. is_valid_base b \<Longrightarrow>
    folder_run store folder d s (fst (sync_uidlist d bases now t))"
| other: "folder_run store folder d s t \<Longrightarrow> content_at u (d, UIDLIST) = content_at t (d, UIDLIST) \<Longrightarrow> folder_run store folder d s u"

text \<open>
  \<^bold>\<open>C5\<close> (identifiers are never reused). Through any sequence of deliveries, openings, flag changes and
  removals in a folder, with synchronisations against stale scans and arbitrary changes to other
  files in between, and whatever calls fail or are never reached because a program stops: the UID
  list stays readable with the same UIDVALIDITY, UIDNEXT and the highest modification sequence never
  decrease, and an identifier that was ever given out never names another message.
\<close>

theorem uids_never_reused:
  assumes "folder_run store folder d s t" and "folder_path store folder = Inr d" and "length (ms_hostname store) \<le> 255"
    and "list_at s d = Some l"
  shows "\<exists>l'. list_at t d = Some l' \<and> ul_ok l' \<and> uid_continues l l'"
proof -
  have "continued d l t" using assms(1)
  proof (induction rule: folder_run.induct)
    case start
    then show ?case using assms(4) by (simp add: continued_def)
  next
    case (op t op)
    then show ?case using run_op_continued assms(2,3) by blast
  next
    case (stale_scan t bases now)
    show ?case using continued_keeps [OF sync_keeps [OF stale_scan(2,3)] stale_scan(4)] .
  next
    case (other t u)
    then show ?case using list_at_cong [OF other(2)] by (simp add: continued_def)
  qed
  then show ?thesis using list_at_ok by (auto simp: continued_def)
qed

section \<open>Samples\<close>

definition sample_store :: mail_store where
  "sample_store = \<lparr>ms_root = ''r'', ms_hostname = ''h''\<rparr>"

definition sample_folder :: fs where
  "sample_folder =
     empty_fs\<lparr>fs_dirs := [''r''], fs_tag := (\<lambda>_. (1, 2, 3)),
       fs_files := [((''r'', UIDLIST), \<lparr>fl_content = render_uidlist sample_uidlist, fl_mtime = 0\<rparr>)]\<rparr>"

lemma sample_folder_list: "list_at sample_folder ''r'' = Some sample_uidlist"
  using parse_render_uidlist [OF sample_uidlist_ok]
  by (simp add: list_at_def content_at_def file_at_def sample_folder_def)

theorem uids_never_reused_witness:
  "\<exists>l. list_at (run_op sample_store ''inbox'' (OpExpunge [2]) sample_folder) ''r'' = Some l \<and> uid_continues sample_uidlist l"
proof -
  have fp: "folder_path sample_store ''inbox'' = Inr ''r''" by code_simp
  have tags: "tags_ok sample_folder" by (simp add: tags_ok_def sample_folder_def)
  have "folder_run sample_store ''inbox'' ''r'' sample_folder (run_op sample_store ''inbox'' (OpExpunge [2]) sample_folder)"
    by (rule folder_run.op [OF folder_run.start tags]) simp
  moreover have "length (ms_hostname sample_store) \<le> 255" by (simp add: sample_store_def)
  ultimately show ?thesis using uids_never_reused [OF _ fp _ sample_folder_list] by blast
qed

text \<open>
  A scan of the folder is taken before the lock: a message that another session delivers between the
  scan and the synchronisation loses its entry, and the next synchronisation gives it another
  identifier than the one its delivery reported.
\<close>

lemma stale_scan_changes_uid:
  assumes "list_at s d = Some l" and "(uid, base, k) \<in> set (ul_by_uid l)"
    and "sync_uidlist d stale now s = (t, Inr m)" and "distinct stale" and "\<forall>b\<in>set stale. is_valid_base b" and "base \<notin> set stale"
    and "sync_uidlist d bases now' t = (u, Inr m')" and "distinct bases" and "\<forall>b\<in>set bases. is_valid_base b" and "base \<in> set bases"
  shows "\<exists>uid' k'. mp_by_base m' base = Some (uid', k') \<and> uid' \<noteq> uid \<and> mp_uidvalidity m' = ul_uidvalidity l"
proof -
  note first = sync_uidlist_effect [OF assms(3-5)] and second = sync_uidlist_effect [OF assms(7-9)]
  obtain l1 where l1: "list_at t d = Some l1" "uid_continues l l1" using first(3) [OF assms(1)] by blast
  have gone: "base \<notin> set (bases_of l1)" using first(2) [OF refl] l1(1) assms(6) by auto
  obtain l2 where l2: "m' = mapping_of l2" "list_at u d = Some l2" "set (bases_of l2) = set bases" using second(2) [OF refl] by blast
  have c: "uid_continues l1 l2" using second(3) [OF l1(1)] l2(2) by auto
  obtain uid' k' where e: "(uid', base, k') \<in> set (ul_by_uid l2)" using assms(10) l2(3) by force
  have "uid < ul_uidnext l1"
    using ul_okD [OF list_at_ok [OF assms(1)] assms(2)] l1(2) by (simp add: uid_continues_def)
  moreover have "uid' \<ge> ul_uidnext l1"
  proof (rule ccontr)
    assume "\<not> uid' \<ge> ul_uidnext l1"
    then have "uid' < ul_uidnext l1" by simp
    moreover have "map_of (ul_by_uid l2) uid' = Some (base, k')"
      using e list_at_ok [OF l2(2)] by (simp add: ul_ok_def bt_wf_distinct)
    ultimately obtain j where "map_of (ul_by_uid l1) uid' = Some (base, j)" using c unfolding uid_continues_def by blast
    then show False using gone by (force dest: map_of_SomeD)
  qed
  ultimately show ?thesis
    using e l2(1) by_base_Some [OF list_at_ok [OF l2(2)]] uid_continues_trans [OF l1(2) c]
    by (auto simp: mapping_of_def uid_continues_def)
qed

end
