(* ===== verification/Spec2Isabelle.thy ===== *)
theory Spec2Isabelle
  imports Inbound LmtpServer Maildir
begin

text \<open>
  \<^bold>\<open>A mail server: receiving, queueing, delivering and storing mail\<close>

  The program is a set of daemons. Mail enters through the SMTP server (\<open>src/crates/smtpd\<close>): a
  listener admits peers, a connection runs a session that parses commands and collects the message,
  and a sink adds trace headers and writes the message to the queue. The queue
  (\<open>src/crates/queue\<close>) is a directory of entries; rounds of the queue runner deliver each entry to
  local recipients over LMTP (\<open>src/crates/store\<close>) and to remote ones with the SMTP client
  (\<open>src/crates/smtp\<close>), retry with growing delays, and report permanent failures to the sender. The
  mailbox side (\<open>src/crates/imappop3\<close>) takes the LMTP conversation and keeps Maildir folders. The
  daemon \<open>src/bin/mailstackd\<close> assembles the parts.

  \<^bold>\<open>Foundations.\<close> \<open>Prelude\<close>: byte strings, results as \<open>error + value\<close>, decimal numbers, the Rust
  string operations, and the locale \<open>step_invariant\<close> under which every invariant over sequences of
  operations is proved once. \<open>FileSystem\<close>: \<open>std::fs\<close> as a state, with an oracle that may fail any call
  and so covers a stop of the program at any call; the atomic writer of \<open>core/src/atomic.rs\<close>.

  \<^bold>\<open>Receiving mail.\<close>
  \<^item> \<open>Reply\<close>, \<open>Command\<close>, \<open>DataSink\<close>, \<open>Sasl\<close>, \<open>Peer\<close>: \<open>reply.rs\<close>, \<open>command.rs\<close>, \<open>data.rs\<close>, \<open>sasl.rs\<close>,
    \<open>peer.rs\<close> of \<open>smtpd\<close>. The parser accepts only lines without control bytes and reads back every
    command it can print; the data automaton ends a message exactly at the first line that is one dot.
  \<^item> \<open>RelayPolicy\<close>, \<open>Session\<close>: \<open>smtp/src/policy.rs\<close> and the session handlers of \<open>session.rs\<close>. No
    sequence of commands makes the server relay for an unauthenticated peer, log in without TLS
    where it is required, or submit mail under a sender the user does not own.
  \<^item> \<open>Connection\<close>, \<open>Ban\<close>, \<open>RateLimit\<close>, \<open>Listener\<close>: the loop of a connection over an arbitrary
    sequence of reads, the ban list, the token buckets and the admission of peers. The tables stay
    within their bounds, a banned peer is not served, the memory for messages is never overdrawn.
  \<^item> \<open>MailAuth\<close>, \<open>Sink\<close>: the DMARC evaluation of \<open>auth/src/dmarc.rs\<close> and the verdicts of its sibling
    files, the Authentication-Results header, and \<open>sink.rs\<close>. Senders cannot forge a verdict, and a
    message that comes back is refused.

  \<^bold>\<open>The queue.\<close>
  \<^item> \<open>QueueEntry\<close>, \<open>QueueStore\<close>, \<open>QueueRefinement\<close>, \<open>QueueClaims\<close>: \<open>entry.rs\<close> and \<open>store.rs\<close> of \<open>queue\<close>. The
    locale \<open>queue_storage\<close> is the contract of the directory; it implements a finite map under all
    faults, loads exactly the due entries, and claim files exclude each other.
  \<^item> \<open>Dsn\<close>, \<open>Backoff\<close>: reports and the retry schedule (\<open>dsn.rs\<close>, \<open>backoff.rs\<close>).
  \<^item> \<open>Runner\<close>, \<open>RunnerSafety\<close>, \<open>Daemon\<close>: \<open>runner.rs\<close> and \<open>mailstackd/src/queue.rs\<close>. A round is a set of
    tasks that interleave step by step. The locale \<open>queue_runner\<close> holds what a runner needs of its
    parts; the daemon's runner is an interpretation. No recipient is lost, the concurrency limit
    holds, a blocked outbound path is probed once.

  \<^bold>\<open>Delivering.\<close>
  \<^item> \<open>Relay\<close>, \<open>Target\<close>, \<open>SmtpClient\<close>, \<open>Delivery\<close>: \<open>validate.rs\<close>, \<open>target.rs\<close>, \<open>mx.rs\<close>, \<open>client.rs\<close>, \<open>dial.rs\<close> of
    \<open>smtp\<close> and \<open>delivery.rs\<close>, \<open>signing.rs\<close> of \<open>queue\<close>. The locale \<open>transport\<close> is the contract of a
    transport, kept by signing. Only permitted addresses are dialled, relay traffic is encrypted, and
    what is reported as delivered was acknowledged.
  \<^item> \<open>Lmtp\<close>: \<open>lmtp.rs\<close> and \<open>lmtp_transport.rs\<close> of \<open>store\<close>, the second interpretation of \<open>transport\<close>.

  \<^bold>\<open>Storing.\<close>
  \<^item> \<open>LineIo\<close>, \<open>LmtpServer\<close>: \<open>lineio.rs\<close> and \<open>lmtp/session.rs\<close> of \<open>imappop3\<close>. What the LMTP client sends
    is what the server hands to the mailboxes.
  \<^item> \<open>UidList\<close>, \<open>MailFlags\<close>, \<open>Maildir\<close>: \<open>maildir.rs\<close>. The index files are read as they were written, a
    file name carries exactly the flags it was made for, and through any life of a folder no
    identifier ever names a second message.

  \<^bold>\<open>Across components.\<close> \<open>Inbound\<close> joins the SMTP server, the sink, the queue and the runner through the
  locale \<open>message_sink\<close>: everything a peer can get into the queue is permitted mail, and a message
  whose receipt was acknowledged is queued, delivered or bounced.

  \<^bold>\<open>Conventions.\<close> A \<open>HashMap\<close> is an association list with distinct keys or a map, a \<open>BTreeMap\<close> an ordered
  association list. Unsigned integers are \<open>nat\<close> with the saturation or the check of the source written
  out; addresses, hashes and mixed bits are words. Mutable objects are passed and returned. Time,
  entropy, process numbers, the order of directory listings and network input are arguments or
  oracles, and the statements hold for all of them. Loops over input are recursive functions with a
  termination proof: each step consumes input, so that no fuel is needed. The one loop that may
  run on, the search for an unused boundary of a report, is a \<open>partial_function\<close> in \<open>option\<close>, and it
  is proved to return as soon as the random source has produced enough different values.

  \<^bold>\<open>Arguments that stand for other code.\<close> The JSON library (with its round trip as hypothesis), DNS, the
  TLS handshake, the rounding of floating-point numbers (monotone), the verdicts of the mail
  authentication library, the password check, the directory of recipients, and for the LMTP server the
  router and the delivery into a mailbox.

  \<^bold>\<open>Not modelled.\<close> The IMAP, POP3 and ManageSieve front ends and the Sieve interpreter, of the Maildir
  store the bulk and folder administration operations, accept loops and sockets, the privileged
  helper, backups and certificates, the web interfaces. Panics of tasks, disk reordering of completed
  writes and timing other than as timeouts are outside the model.
\<close>

end
